(* ===== verification/Kestrel_Prelude.thy ===== *)
theory Kestrel_Prelude
  imports Main "HOL-Library.Word"
begin

unbundle bit_operations_syntax

text \<open>
  Shared vocabulary of the development: the fixed-width integers of the C sources, byte
  buffers with the effect of \<^verbatim>\<open>memcpy\<close> and \<^verbatim>\<open>memset\<close> on them, the little-endian
  layout of the integers inside on-disk and in-memory structures, and the lemma collections
  the component theories draw on:
  \<^item> \<open>buf_simps\<close>: reading back what was written into a byte buffer;
  \<^item> \<open>layout_simps\<close>: lengths and round trips of encoded structures;
  \<^item> \<open>step_defs\<close>: the unfolding equations of small state-passing operations.
\<close>

named_theorems buf_simps \<open>reading a byte buffer after a write\<close>
named_theorems layout_simps \<open>sizes and round trips of encoded structures\<close>
named_theorems step_defs \<open>unfolding equations of small state-passing operations\<close>

section \<open>Machine types\<close>

type_synonym byte = "8 word"
type_synonym u16 = "16 word"
type_synonym u32 = "32 word"
type_synonym u64 = "64 word"

text \<open>C strings are byte lists without their terminating NUL.\<close>

type_synonym cstr = "byte list"

abbreviation ch_slash :: byte where "ch_slash \<equiv> 47"
abbreviation ch_dot :: byte where "ch_dot \<equiv> 46"

text \<open>Casts that lose nothing.\<close>

lemma uint_less_unat: "unat x < 2 ^ n \<Longrightarrow> uint x < 2 ^ n"
  by (metis of_nat_less_iff of_nat_numeral of_nat_power of_nat_unat ucast_id unsigned_of_nat uint_nat)

lemma signed_take_bit_small: "unat (x::'a::len word) < 2 ^ n \<Longrightarrow> signed_take_bit n (uint x) = int (unat x)"
proof -
  assume "unat x < 2 ^ n"
  then have "uint x < 2 ^ n" by (rule uint_less_unat)
  moreover have "- (2 ^ n) \<le> uint x" by (rule order_trans [of _ 0]) simp_all
  ultimately show ?thesis by (simp add: signed_take_bit_int_eq_self)
qed

lemma sint_ucast_small: "unat (x::u64) < 2 ^ 31 \<Longrightarrow> sint (ucast x :: u32) = int (unat x)"
  using signed_take_bit_small [of x 31] by (simp add: signed_ucast_eq)

lemma sint_small: "unat (x::u32) < 2 ^ 31 \<Longrightarrow> sint x = int (unat x)"
  using signed_take_bit_small [of x 31] by (simp add: sint_uint)

lemma unat_ucast_down: "unat (x::u64) < 2 ^ 32 \<Longrightarrow> unat (ucast x :: u32) = unat x"
  by (simp add: unsigned_ucast_eq take_bit_nat_eq_self)

lemma unat_add_small: "unat (a::u32) + n < 2 ^ 32 \<Longrightarrow> unat (a + of_nat n) = unat a + n"
proof -
  assume a: "unat a + n < 2 ^ 32"
  then have "unat (of_nat n :: u32) = n" by (simp add: unat_of_nat mod_less)
  then show ?thesis using a by (simp add: unat_word_ariths mod_less)
qed

lemma u32_less: "unat (x::u32) < 4294967296"
  using unsigned_less [of x, where ?'a = nat] by simp

lemma unat_plus_small: "unat (a::u32) + unat b < 2 ^ 32 \<Longrightarrow> unat (a + b) = unat a + unat b"
  by (simp add: unat_plus_if')

section \<open>Byte buffers\<close>

definition get_bytes :: "nat \<Rightarrow> nat \<Rightarrow> byte list \<Rightarrow> byte list" where
  "get_bytes off n buf = take n (drop off buf)"

definition put_bytes :: "nat \<Rightarrow> byte list \<Rightarrow> byte list \<Rightarrow> byte list" where
  "put_bytes off xs buf = take off buf @ xs @ drop (off + length xs) buf"

lemma length_get_bytes [simp]: "off + n \<le> length buf \<Longrightarrow> length (get_bytes off n buf) = n"
  by (simp add: get_bytes_def)

lemma length_put_bytes [simp]:
  "off + length xs \<le> length buf \<Longrightarrow> length (put_bytes off xs buf) = length buf"
  by (simp add: put_bytes_def)

lemma nth_get_bytes: "off + n \<le> length buf \<Longrightarrow> i < n \<Longrightarrow> get_bytes off n buf ! i = buf ! (off + i)"
  by (simp add: get_bytes_def)

lemma nth_put_bytes:
  assumes "off + length xs \<le> length buf" and "i < length buf"
  shows "put_bytes off xs buf ! i =
           (if off \<le> i \<and> i < off + length xs then xs ! (i - off) else buf ! i)"
  using assms by (auto simp: put_bytes_def nth_append min_def)

lemma get_put_same [buf_simps]:
  "off + length xs \<le> length buf \<Longrightarrow> n = length xs \<Longrightarrow> get_bytes off n (put_bytes off xs buf) = xs"
  by (simp add: get_bytes_def put_bytes_def)

lemma get_put_disjoint [buf_simps]:
  assumes "off + length xs \<le> length buf" and "i + n \<le> length buf"
    and "i + n \<le> off \<or> off + length xs \<le> i"
  shows "get_bytes i n (put_bytes off xs buf) = get_bytes i n buf"
proof (rule nth_equalityI)
  have len: "length (put_bytes off xs buf) = length buf" using assms(1) by simp
  show "length (get_bytes i n (put_bytes off xs buf)) = length (get_bytes i n buf)"
    using assms(2) len by simp
  fix j assume "j < length (get_bytes i n (put_bytes off xs buf))"
  then have j: "j < n" using assms(2) len by simp
  show "get_bytes i n (put_bytes off xs buf) ! j = get_bytes i n buf ! j"
    using assms j len by (auto simp: nth_get_bytes nth_put_bytes)
qed

lemma get_put_inside:
  assumes "off + length xs \<le> length buf" and "off \<le> i" and "i + n \<le> off + length xs"
  shows "get_bytes i n (put_bytes off xs buf) = get_bytes (i - off) n xs"
proof (rule nth_equalityI)
  have len: "length (put_bytes off xs buf) = length buf" using assms(1) by simp
  show "length (get_bytes i n (put_bytes off xs buf)) = length (get_bytes (i - off) n xs)"
    using assms len by simp
  fix j assume "j < length (get_bytes i n (put_bytes off xs buf))"
  then have "j < n" "i + j - off = i - off + j" using assms len by simp_all
  then show "get_bytes i n (put_bytes off xs buf) ! j = get_bytes (i - off) n xs ! j"
    using assms len by (simp add: nth_get_bytes nth_put_bytes)
qed

lemma put_get_same [buf_simps]:
  "off + n \<le> length buf \<Longrightarrow> put_bytes off (get_bytes off n buf) buf = buf"
  unfolding put_bytes_def get_bytes_def
  by (metis add.commute append_take_drop_id drop_drop length_drop length_take min.absorb2
      add_le_imp_le_diff)

lemma get_bytes_append_left [buf_simps]:
  "off + n \<le> length xs \<Longrightarrow> get_bytes off n (xs @ ys) = get_bytes off n xs"
  by (simp add: get_bytes_def)

lemma get_bytes_append_right [buf_simps]:
  "length xs \<le> off \<Longrightarrow> get_bytes off n (xs @ ys) = get_bytes (off - length xs) n ys"
  by (simp add: get_bytes_def)

lemma get_bytes_all [buf_simps]: "n = length xs \<Longrightarrow> get_bytes 0 n xs = xs"
  by (simp add: get_bytes_def)

lemma get_bytes_replicate [buf_simps]:
  "off + n \<le> m \<Longrightarrow> get_bytes off n (replicate m x) = replicate n x"
  by (simp add: get_bytes_def)

section \<open>Little-endian integers\<close>

definition le16 :: "u16 \<Rightarrow> byte list" where
  "le16 w = [ucast w, ucast (drop_bit 8 w)]"

definition un_le16 :: "byte list \<Rightarrow> u16" where
  "un_le16 bs = ucast (bs ! 0) OR push_bit 8 (ucast (bs ! 1))"

definition le32 :: "u32 \<Rightarrow> byte list" where
  "le32 w = [ucast w, ucast (drop_bit 8 w), ucast (drop_bit 16 w), ucast (drop_bit 24 w)]"

definition un_le32 :: "byte list \<Rightarrow> u32" where
  "un_le32 bs = ucast (bs ! 0) OR push_bit 8 (ucast (bs ! 1)) OR push_bit 16 (ucast (bs ! 2))
     OR push_bit 24 (ucast (bs ! 3))"

lemma length_le16 [simp]: "length (le16 w) = 2"
  by (simp add: le16_def)

lemma length_le32 [simp]: "length (le32 w) = 4"
  by (simp add: le32_def)

lemma un_le16_le16 [simp, layout_simps]: "un_le16 (le16 w) = w"
  by (rule bit_word_eqI)
    (auto simp: un_le16_def le16_def bit_or_iff bit_push_bit_iff bit_ucast_iff bit_drop_bit_eq)

lemma un_le32_le32 [simp, layout_simps]: "un_le32 (le32 w) = w"
proof (rule bit_word_eqI)
  fix n assume "n < LENGTH(32)"
  then consider "n < 8" | "8 \<le> n" "n < 16" | "16 \<le> n" "n < 24" | "24 \<le> n" "n < 32"
    by fastforce
  then show "bit (un_le32 (le32 w)) n \<longleftrightarrow> bit w n"
    by cases (auto simp: un_le32_def le32_def bit_or_iff bit_push_bit_iff bit_ucast_iff
        bit_drop_bit_eq dest: bit_imp_le_length)
qed

text \<open>The 32-bit field at a byte offset of a buffer.\<close>

definition rd32 :: "nat \<Rightarrow> byte list \<Rightarrow> u32" where
  "rd32 off buf = un_le32 (get_bytes off 4 buf)"

definition wr32 :: "nat \<Rightarrow> u32 \<Rightarrow> byte list \<Rightarrow> byte list" where
  "wr32 off w buf = put_bytes off (le32 w) buf"

lemma length_wr32 [simp]: "off + 4 \<le> length buf \<Longrightarrow> length (wr32 off w buf) = length buf"
  by (simp add: wr32_def)

lemma rd32_wr32_same [buf_simps]: "off + 4 \<le> length buf \<Longrightarrow> rd32 off (wr32 off w buf) = w"
  by (simp add: rd32_def wr32_def buf_simps)

lemma rd32_wr32_other [buf_simps]:
  "off + 4 \<le> length buf \<Longrightarrow> i + 4 \<le> length buf \<Longrightarrow> i + 4 \<le> off \<or> off + 4 \<le> i \<Longrightarrow>
   rd32 i (wr32 off w buf) = rd32 i buf"
  by (simp add: rd32_def wr32_def buf_simps)

lemma un_le32_zero [simp]: "un_le32 (replicate 4 0) = 0"
  by (simp add: un_le32_def numeral_nat)

lemma le32_zero [simp]: "le32 0 = replicate 4 0"
  by (simp add: le32_def numeral_nat)

text \<open>Arrays of 32-bit fields.\<close>

definition le32s :: "u32 list \<Rightarrow> byte list" where
  "le32s xs = concat (map le32 xs)"

lemma length_le32s [simp]: "length (le32s xs) = 4 * length xs"
  by (induction xs) (simp_all add: le32s_def)

lemma le32s_Cons: "le32s (x # xs) = le32 x @ le32s xs"
  by (simp add: le32s_def)

lemma rd32_le32s [layout_simps]: "i < length xs \<Longrightarrow> rd32 (4 * i) (le32s xs @ ys) = xs ! i"
proof (induction xs arbitrary: i)
  case (Cons x xs)
  then show ?case
    by (cases i) (simp_all add: rd32_def le32s_Cons get_bytes_def)
qed simp

lemma rd32_shift [layout_simps]: "length pre \<le> k \<Longrightarrow> rd32 k (pre @ buf) = rd32 (k - length pre) buf"
  by (simp add: rd32_def get_bytes_def)

lemma rd32_append: "k + 4 \<le> length buf \<Longrightarrow> rd32 k (buf @ post) = rd32 k buf"
  by (simp add: rd32_def get_bytes_def)

lemma rd32_le32s_only: "i < length xs \<Longrightarrow> rd32 (4 * i) (le32s xs) = xs ! i"
  using rd32_le32s [of i xs "[]"] by simp

lemma le32_un_le32: "length b = 4 \<Longrightarrow> le32 (un_le32 b) = b"
proof -
  assume "length b = 4"
  then obtain p q r s where b: "b = [p, q, r, s]"
    by (auto simp: length_Suc_conv eval_nat_numeral)
  have high: "\<not> bit (x::byte) n" if "8 \<le> n" for x n using that bit_imp_le_length [of x n] by auto
  show ?thesis unfolding b le32_def un_le32_def
    by (auto intro!: bit_word_eqI simp: bit_or_iff bit_push_bit_iff bit_ucast_iff bit_drop_bit_eq high
        dest: bit_imp_le_length)
qed

lemma le32_rd32: "off + 4 \<le> length buf \<Longrightarrow> le32 (rd32 off buf) = get_bytes off 4 buf"
  by (simp add: rd32_def le32_un_le32)

lemma rd32_zeros: "off + 4 \<le> n \<Longrightarrow> rd32 off (replicate n 0) = 0"
  by (simp add: rd32_def get_bytes_replicate)

section \<open>Single bits\<close>

text \<open>Setting, clearing and testing one bit of a byte, as the C bitmaps do.\<close>

lemma bit_or_mask [simp]: "i < 8 \<Longrightarrow> bit ((b::byte) OR 2 ^ i) j \<longleftrightarrow> bit b j \<or> i = j"
  by (auto simp: bit_or_iff bit_exp_iff dest: bit_imp_le_length)

lemma bit_andnot_mask [simp]:
  "i < 8 \<Longrightarrow> bit ((b::byte) AND NOT (2 ^ i)) j \<longleftrightarrow> bit b j \<and> i \<noteq> j"
  by (auto simp: bit_and_iff bit_not_iff bit_exp_iff dest: bit_imp_le_length)

lemma and_mask_zero [simp]: "((b::byte) AND 2 ^ i) = 0 \<longleftrightarrow> \<not> bit b i"
  by (simp add: and_exp_eq_0_iff_not_bit)

lemma bit_byte_255: "n < 8 \<Longrightarrow> bit (255::byte) n"
proof -
  assume "n < 8"
  moreover have "(255::byte) = mask 8" by (simp add: mask_eq_exp_minus_1)
  ultimately show ?thesis by (simp only: bit_mask_iff) simp
qed

section \<open>Lists\<close>

lemma nth_upd_other: "i \<noteq> j \<Longrightarrow> xs[i := x] ! j = xs ! j"
  by simp

text \<open>
  The shape of the sources' search loops: the first index from \<open>i\<close> below \<open>n\<close> that
  satisfies the test.
\<close>

function first_from :: "(nat \<Rightarrow> bool) \<Rightarrow> nat \<Rightarrow> nat \<Rightarrow> nat option" where
  "first_from P i n = (if i < n then (if P i then Some i else first_from P (Suc i) n) else None)"
  by pat_completeness auto
termination
  by (relation "measure (\<lambda>(P, i, n). n - i)") auto

declare first_from.simps [simp del]

lemma first_from_Some:
  "first_from P i n = Some x \<longleftrightarrow> i \<le> x \<and> x < n \<and> P x \<and> (\<forall>y. i \<le> y \<and> y < x \<longrightarrow> \<not> P y)"
proof (induction P i n rule: first_from.induct)
  case (1 P i n)
  show ?case
  proof (cases "i < n \<and> \<not> P i")
    case True
    then have IH: "first_from P (Suc i) n = Some x \<longleftrightarrow>
        Suc i \<le> x \<and> x < n \<and> P x \<and> (\<forall>y. Suc i \<le> y \<and> y < x \<longrightarrow> \<not> P y)"
      using "1.IH" by simp
    have "first_from P i n = first_from P (Suc i) n"
      using True by (simp add: first_from.simps [of P i n])
    then show ?thesis using True IH
      by (metis Suc_leD Suc_leI le_neq_implies_less)
  next
    case False
    then show ?thesis
      by (auto simp: first_from.simps [of P i n] not_le dest: spec [of _ i])
  qed
qed

lemma first_from_None: "first_from P i n = None \<longleftrightarrow> (\<forall>x. i \<le> x \<and> x < n \<longrightarrow> \<not> P x)"
proof (induction P i n rule: first_from.induct)
  case (1 P i n)
  show ?case
  proof (cases "i < n \<and> \<not> P i")
    case True
    then have "first_from P i n = first_from P (Suc i) n"
      by (simp add: first_from.simps [of P i n])
    then show ?thesis using True "1.IH"
      by (metis Suc_leD Suc_leI le_neq_implies_less)
  next
    case False
    then show ?thesis by (auto simp: first_from.simps [of P i n])
  qed
qed

lemma first_from_cong:
  assumes "\<And>x. i \<le> x \<Longrightarrow> x < n \<Longrightarrow> P x = Q x"
  shows "first_from P i n = first_from Q i n"
  using assms
proof (induction P i n rule: first_from.induct)
  case (1 P i n)
  then show ?case
    by (auto simp: first_from.simps [of P i n] first_from.simps [of Q i n])
qed

end
