(* ===== verification/Pmm.thy ===== *)
theory Pmm
  imports Kestrel_Prelude
begin

text \<open>
  The bitmap physical page allocator (\<^verbatim>\<open>kernel/pmm.c\<close>). The state holds the bitmap, the
  counters and the search hint of the C file and the contents of physical memory, which the
  allocator zeroes. Memory is addressed in aligned 8-byte cells. A \<^verbatim>\<open>panic()\<close> is the left
  injection of a sum. The spin lock makes every operation atomic, so each is one state
  transformer. The locale \<open>frame_allocator\<close> states the contract the kernel heap relies on; it is
  interpreted here on the operations of the file.
\<close>

section \<open>State\<close>

abbreviation PAGE_SIZE :: u64 where "PAGE_SIZE \<equiv> 4096"
abbreviation MAX_PHYS :: u64 where "MAX_PHYS \<equiv> 4294967296"
abbreviation MAX_PAGES :: nat where "MAX_PAGES \<equiv> 1048576"
abbreviation KERNEL_OFFSET :: u64 where "KERNEL_OFFSET \<equiv> 0xFFFFFFFF80000000"
abbreviation E820_USABLE :: u32 where "E820_USABLE \<equiv> 1"

record e820_entry =
  e_base :: u64
  e_len :: u64
  e_type :: u32

record pmm_state =
  bitmap :: "nat \<Rightarrow> byte"
  total_pages :: u64
  free_count :: u64
  max_phys :: u64
  search_from :: u64
  cells :: "nat \<Rightarrow> u64"

datatype pmm_panic =
    OutOfMemory
  | OutOfContiguous int
  | DoubleFree u64
  | BitmapOverrun u64  \<comment> \<open>an index past the bitmap array, undefined behaviour in C\<close>

section \<open>Operations\<close>

definition set_used :: "nat \<Rightarrow> pmm_state \<Rightarrow> pmm_state" where
  "set_used page s = s\<lparr>bitmap := (bitmap s)(page div 8 :=
     bitmap s (page div 8) OR push_bit (page mod 8) 1)\<rparr>"

definition set_free :: "nat \<Rightarrow> pmm_state \<Rightarrow> pmm_state" where
  "set_free page s = s\<lparr>bitmap := (bitmap s)(page div 8 :=
     bitmap s (page div 8) AND NOT (push_bit (page mod 8) 1))\<rparr>"

definition is_used :: "pmm_state \<Rightarrow> nat \<Rightarrow> bool" where
  "is_used s page \<longleftrightarrow> bitmap s (page div 8) AND push_bit (page mod 8) 1 \<noteq> 0"

text \<open>\<^verbatim>\<open>memset(P2V(phys), 0, bytes)\<close>, for page-aligned addresses and sizes.\<close>

definition zero_phys :: "u64 \<Rightarrow> u64 \<Rightarrow> pmm_state \<Rightarrow> pmm_state" where
  "zero_phys phys bytes s = s\<lparr>cells := (\<lambda>c. if unat phys div 8 \<le> c \<and>
     c < (unat phys + unat bytes) div 8 then 0 else cells s c)\<rparr>"

definition init_page :: "nat \<Rightarrow> pmm_state \<Rightarrow> pmm_state" where
  "init_page p s = (if \<not> is_used s p then s
     else (set_free p s)\<lparr>free_count := free_count s + 1, total_pages := total_pages s + 1\<rparr>)"

definition init_entry :: "e820_entry \<Rightarrow> pmm_state \<Rightarrow> pmm_state" where
  "init_entry e s = (if e_type e \<noteq> E820_USABLE then s else
     let start = (e_base e + PAGE_SIZE - 1) AND NOT (PAGE_SIZE - 1);
         end0 = (e_base e + e_len e) AND NOT (PAGE_SIZE - 1);
         end1 = (if end0 > MAX_PHYS then MAX_PHYS else end0);
         s1 = fold init_page [unat start div 4096 ..< unat end1 div 4096] s
     in if end1 > max_phys s1 then s1\<lparr>max_phys := end1\<rparr> else s1)"

definition reserve_page :: "nat \<Rightarrow> pmm_state \<Rightarrow> pmm_state" where
  "reserve_page p s = (if \<not> is_used s p
     then (set_used p s)\<lparr>free_count := free_count s - 1\<rparr> else s)"

definition kernel_end_phys :: "u64 \<Rightarrow> u64" where
  "kernel_end_phys kend = (kend - KERNEL_OFFSET + PAGE_SIZE - 1) AND NOT (PAGE_SIZE - 1)"

text \<open>\<open>kend\<close> is the value of the linker symbol \<^verbatim>\<open>__kernel_end\<close>.\<close>

definition pmm_init :: "u64 \<Rightarrow> e820_entry list \<Rightarrow> pmm_state \<Rightarrow> pmm_state" where
  "pmm_init kend e820 s = (
     let s1 = fold init_entry e820 (s\<lparr>bitmap := (\<lambda>_. 255)\<rparr>);
         s2 = fold reserve_page [0 ..< unat (kernel_end_phys kend) div 4096] s1
     in s2\<lparr>search_from := kernel_end_phys kend div PAGE_SIZE\<rparr>)"

definition pmm_alloc :: "pmm_state \<Rightarrow> pmm_panic + u64 \<times> pmm_state" where
  "pmm_alloc s = (case first_from (\<lambda>p. \<not> is_used s p)
       (unat (search_from s)) (unat (max_phys s div PAGE_SIZE)) of
     None \<Rightarrow> Inl OutOfMemory
   | Some p \<Rightarrow>
       let s1 = (set_used p s)\<lparr>free_count := free_count s - 1, search_from := of_nat p + 1\<rparr>;
           phys = of_nat p * PAGE_SIZE
       in Inr (phys, zero_phys phys PAGE_SIZE s1))"

text \<open>
  The scan of \<^verbatim>\<open>pmm_alloc_contig\<close>: the inner loop stops at the first used page and the outer
  loop resumes right behind it. \<open>limit\<close> is below \<open>2 ^ 52\<close>, so \<open>p + npages\<close> wraps in the C
  code only for a negative \<open>npages\<close>, which then fails the bound.
\<close>

function contig_scan :: "pmm_state \<Rightarrow> nat \<Rightarrow> int \<Rightarrow> nat \<Rightarrow> nat option" where
  "contig_scan s limit npages p = (if 0 \<le> int p + npages \<and> int p + npages \<le> int limit
     then (case first_from (\<lambda>i. is_used s (p + i)) 0 (nat npages) of
             None \<Rightarrow> Some p
           | Some i \<Rightarrow> contig_scan s limit npages (p + i + 1))
     else None)"
  by pat_completeness auto
termination
  by (relation "measure (\<lambda>(s, limit, npages, p). limit + nat (- npages) + 1 - p)")
    (auto simp: first_from_Some)

definition claim_page :: "nat \<Rightarrow> pmm_state \<Rightarrow> pmm_state" where
  "claim_page p s = (set_used p s)\<lparr>free_count := free_count s - 1\<rparr>"

definition pmm_alloc_contig :: "int \<Rightarrow> pmm_state \<Rightarrow> pmm_panic + u64 \<times> pmm_state" where
  "pmm_alloc_contig npages s = (case contig_scan s (unat (max_phys s div PAGE_SIZE)) npages 256 of
     None \<Rightarrow> Inl (OutOfContiguous npages)
   | Some p \<Rightarrow>
       let s1 = fold claim_page [p ..< p + nat npages] s;
           phys = of_nat p * PAGE_SIZE
       in Inr (phys, zero_phys phys (of_int npages * PAGE_SIZE) s1))"

definition pmm_free :: "u64 \<Rightarrow> pmm_state \<Rightarrow> pmm_panic + pmm_state" where
  "pmm_free phys s = (
     let p = phys div PAGE_SIZE in
     if unat p \<ge> MAX_PAGES then Inl (BitmapOverrun phys)
     else if \<not> is_used s (unat p) then Inl (DoubleFree phys)
     else Inr ((set_free (unat p) s)\<lparr>free_count := free_count s + 1,
            search_from := (if p < search_from s then p else search_from s)\<rparr>))"

fun free_pages_from :: "u64 \<Rightarrow> nat \<Rightarrow> pmm_state \<Rightarrow> pmm_panic + pmm_state" where
  "free_pages_from phys 0 s = Inr s"
| "free_pages_from phys (Suc n) s = (case pmm_free phys s of
     Inl e \<Rightarrow> Inl e
   | Inr s' \<Rightarrow> free_pages_from (phys + PAGE_SIZE) n s')"

definition pmm_free_contig :: "u64 \<Rightarrow> int \<Rightarrow> pmm_state \<Rightarrow> pmm_panic + pmm_state" where
  "pmm_free_contig phys npages s = free_pages_from phys (nat npages) s"

definition pmm_total_pages :: "pmm_state \<Rightarrow> u64" where "pmm_total_pages s = total_pages s"
definition pmm_free_pages :: "pmm_state \<Rightarrow> u64" where "pmm_free_pages s = free_count s"
definition pmm_max_phys :: "pmm_state \<Rightarrow> u64" where "pmm_max_phys s = max_phys s"

section \<open>The bitmap as a set of used pages\<close>

lemma page_split: "(p::nat) div 8 = q div 8 \<Longrightarrow> p mod 8 = q mod 8 \<longleftrightarrow> p = q"
  by (metis div_mult_mod_eq)

lemma is_used_iff_bit: "is_used s p \<longleftrightarrow> bit (bitmap s (p div 8)) (p mod 8)"
  by (simp add: is_used_def)

lemma is_used_set_used [simp]: "is_used (set_used p s) q \<longleftrightarrow> p = q \<or> is_used s q"
  by (auto simp: is_used_iff_bit set_used_def page_split)

lemma is_used_set_free [simp]: "is_used (set_free p s) q \<longleftrightarrow> p \<noteq> q \<and> is_used s q"
  by (auto simp: is_used_iff_bit set_free_def page_split)

lemma is_used_frame [simp]:
  "is_used (s\<lparr>free_count := a\<rparr>) = is_used s" "is_used (s\<lparr>search_from := a\<rparr>) = is_used s"
  "is_used (s\<lparr>total_pages := a\<rparr>) = is_used s" "is_used (s\<lparr>max_phys := a\<rparr>) = is_used s"
  "is_used (s\<lparr>cells := c\<rparr>) = is_used s"
  by (simp_all add: fun_eq_iff is_used_def)

lemma set_used_fields [simp]:
  "free_count (set_used p s) = free_count s" "search_from (set_used p s) = search_from s"
  "max_phys (set_used p s) = max_phys s" "cells (set_used p s) = cells s"
  "total_pages (set_used p s) = total_pages s"
  by (simp_all add: set_used_def)

lemma set_free_fields [simp]:
  "free_count (set_free p s) = free_count s" "search_from (set_free p s) = search_from s"
  "max_phys (set_free p s) = max_phys s" "cells (set_free p s) = cells s"
  "total_pages (set_free p s) = total_pages s"
  by (simp_all add: set_free_def)

lemma zero_phys_fields [simp]:
  "free_count (zero_phys a n s) = free_count s" "search_from (zero_phys a n s) = search_from s"
  "max_phys (zero_phys a n s) = max_phys s" "is_used (zero_phys a n s) = is_used s"
  by (simp_all add: zero_phys_def)

definition free_set :: "pmm_state \<Rightarrow> nat set" where
  "free_set s = {p. p < MAX_PAGES \<and> \<not> is_used s p}"

lemma finite_free_set [simp]: "finite (free_set s)"
  by (simp add: free_set_def)

lemma free_set_card: "card (free_set s) \<le> MAX_PAGES"
proof -
  have "free_set s \<subseteq> {..<MAX_PAGES}" by (auto simp: free_set_def)
  then have "card (free_set s) \<le> card {..<MAX_PAGES}"
    by (rule card_mono [OF finite_lessThan])
  then show ?thesis by simp
qed

lemma free_set_simps [simp]:
  "free_set (set_used p s) = free_set s - {p}"
  "p < MAX_PAGES \<Longrightarrow> free_set (set_free p s) = insert p (free_set s)"
  "free_set (zero_phys a n s) = free_set s"
  "free_set (s\<lparr>free_count := f\<rparr>) = free_set s" "free_set (s\<lparr>search_from := f\<rparr>) = free_set s"
  "free_set (s\<lparr>total_pages := f\<rparr>) = free_set s" "free_set (s\<lparr>max_phys := f\<rparr>) = free_set s"
  by (auto simp: free_set_def)

text \<open>
  The invariant: free pages lie below the top of memory, the counter counts them, and no page
  below the search hint is free.
\<close>

definition pmm_inv :: "pmm_state \<Rightarrow> bool" where
  "pmm_inv s \<longleftrightarrow> unat (max_phys s) \<le> 4294967296 \<and>
     free_set s \<subseteq> {..< unat (max_phys s) div 4096} \<and>
     unat (free_count s) = card (free_set s) \<and>
     free_set s \<inter> {..< unat (search_from s)} = {} \<and>
     unat (search_from s) \<le> MAX_PAGES"


lemma unat_limit: "unat (max_phys s div PAGE_SIZE) = unat (max_phys s) div 4096"
  by (simp add: unat_div)

lemma unat_page_addr: "p < MAX_PAGES \<Longrightarrow> unat (of_nat p * PAGE_SIZE :: u64) = p * 4096"
  by (simp add: unat_word_ariths unat_of_nat mod_less)

lemma page_addr_div: "p < MAX_PAGES \<Longrightarrow> (of_nat p * PAGE_SIZE :: u64) div PAGE_SIZE = of_nat p"
  by (rule word_unat_eq_iff [THEN iffD2]) (simp add: unat_div unat_page_addr unat_of_nat mod_less)

lemma pmm_inv_freeD: "pmm_inv s \<Longrightarrow> p \<in> free_set s \<Longrightarrow> p < unat (max_phys s) div 4096 \<and> p < MAX_PAGES"
  by (auto simp: pmm_inv_def free_set_def)

lemma pmm_inv_free_iff:
  "pmm_inv s \<Longrightarrow> p < unat (max_phys s) div 4096 \<Longrightarrow> p \<in> free_set s \<longleftrightarrow> \<not> is_used s p"
  by (auto simp: pmm_inv_def free_set_def)

lemma pmm_inv_zero [simp]: "pmm_inv (zero_phys a n s) = pmm_inv s"
  by (simp add: pmm_inv_def)

lemma claim_page_fields [simp]:
  "max_phys (claim_page p s) = max_phys s" "cells (claim_page p s) = cells s"
  "search_from (claim_page p s) = search_from s" "free_set (claim_page p s) = free_set s - {p}"
  "is_used (claim_page p s) q \<longleftrightarrow> p = q \<or> is_used s q"
  by (simp_all add: claim_page_def)

lemma count_down:
  assumes "p \<in> free_set s" and "unat (free_count s) = card (free_set s)"
  shows "unat (free_count s - 1) = card (free_set s - {p})"
proof -
  have "0 < card (free_set s)" using assms(1) by (auto simp: card_gt_0_iff)
  then have "free_count s \<noteq> 0" using assms(2) by auto
  then have "unat (free_count s - 1) = unat (free_count s) - 1" by (rule unat_minus_one)
  then show ?thesis using assms by simp
qed

lemma count_up:
  assumes "p \<notin> free_set s" and "unat (free_count s) = card (free_set s)"
  shows "unat (free_count s + 1) = card (insert p (free_set s))"
proof -
  have "unat (free_count s) + 1 < 2 ^ 64" using assms(2) free_set_card [of s] by simp
  then have "unat (free_count s + 1) = unat (free_count s) + 1"
    by (simp add: unat_word_ariths)
  then show ?thesis using assms by simp
qed

lemma claim_page_inv: "pmm_inv s \<Longrightarrow> p \<in> free_set s \<Longrightarrow> pmm_inv (claim_page p s)"
  using count_down [of p s] unfolding pmm_inv_def claim_page_def by auto

section \<open>Allocating one page\<close>

lemma pmm_alloc_search:
  assumes "pmm_inv s"
  shows "first_from (\<lambda>p. \<not> is_used s p) (unat (search_from s)) (unat (max_phys s div PAGE_SIZE)) =
    (if free_set s = {} then None else Some (Min (free_set s)))"
proof (cases "free_set s = {}")
  case True
  then have "\<forall>p. unat (search_from s) \<le> p \<and> p < unat (max_phys s) div 4096 \<longrightarrow> is_used s p"
    using pmm_inv_free_iff [OF assms] by auto
  then show ?thesis using True by (simp add: first_from_None unat_limit)
next
  case False
  let ?m = "Min (free_set s)"
  have m: "?m \<in> free_set s" using False by simp
  have lo: "unat (search_from s) \<le> ?m"
    using assms m by (fastforce simp: pmm_inv_def)
  have least: "is_used s y" if "unat (search_from s) \<le> y" "y < ?m" for y
  proof (rule ccontr)
    assume "\<not> is_used s y"
    then have "y \<in> free_set s" using that pmm_inv_freeD [OF assms m] by (simp add: free_set_def)
    then have "?m \<le> y" by (rule Min_le [OF finite_free_set])
    then show False using that by simp
  qed
  have "first_from (\<lambda>p. \<not> is_used s p) (unat (search_from s)) (unat (max_phys s div PAGE_SIZE)) = Some ?m"
    using lo least m pmm_inv_freeD [OF assms m] by (auto simp: first_from_Some unat_limit free_set_def)
  then show ?thesis using False by simp
qed

lemma unat_succ_page: "p < MAX_PAGES \<Longrightarrow> unat (of_nat p + 1 :: u64) = p + 1"
  by (simp add: unat_word_ariths unat_of_nat mod_less)

lemma pmm_alloc_eq:
  assumes "pmm_inv s"
  shows "pmm_alloc s = (if free_set s = {} then Inl OutOfMemory
    else let p = Min (free_set s); phys = of_nat p * PAGE_SIZE in
      Inr (phys, zero_phys phys PAGE_SIZE ((claim_page p s)\<lparr>search_from := of_nat p + 1\<rparr>)))"
  by (simp add: pmm_alloc_def pmm_alloc_search [OF assms] claim_page_def Let_def)

lemma pmm_alloc_inv:
  assumes inv: "pmm_inv s" and ret: "pmm_alloc s = Inr (phys, s')"
  shows "pmm_inv s'"
proof -
  let ?p = "Min (free_set s)"
  have ne: "free_set s \<noteq> {}" using assms by (auto simp: pmm_alloc_eq split: if_splits)
  then have p: "?p \<in> free_set s" by simp
  have s': "s' = zero_phys phys PAGE_SIZE ((claim_page ?p s)\<lparr>search_from := of_nat ?p + 1\<rparr>)"
    using assms ne by (auto simp: pmm_alloc_eq Let_def)
  have "x = ?p" if "x \<in> free_set s" "x < ?p + 1" for x
    using Min_le [OF finite_free_set that(1)] that(2) by linarith
  then have "(free_set s - {?p}) \<inter> {..< ?p + 1} = {}" by blast
  moreover have "pmm_inv (claim_page ?p s)" by (rule claim_page_inv [OF inv p])
  moreover have "?p < MAX_PAGES" using p by (simp add: free_set_def)
  ultimately show ?thesis
    unfolding s' by (auto simp: pmm_inv_def unat_succ_page)
qed

section \<open>Allocating contiguous pages\<close>

definition contig_free :: "pmm_state \<Rightarrow> int \<Rightarrow> nat \<Rightarrow> bool" where
  "contig_free s npages p \<longleftrightarrow> (\<forall>i < nat npages. \<not> is_used s (p + i))"

declare contig_scan.simps [simp del]

lemma search_resume:
  fixes B A :: "nat \<Rightarrow> bool"
  assumes bad: "\<And>y. p \<le> y \<Longrightarrow> y < r \<Longrightarrow> \<not> B y" and "p \<le> r"
  shows "(r \<le> q \<and> A q \<and> B q \<and> (\<forall>y. r \<le> y \<and> y < q \<longrightarrow> \<not> B y)) \<longleftrightarrow>
    (p \<le> q \<and> A q \<and> B q \<and> (\<forall>y. p \<le> y \<and> y < q \<longrightarrow> \<not> B y))"
  using assms(2) bad by (meson not_le order.trans)

lemma contig_scan_Some:
  assumes "0 \<le> npages"
  shows "contig_scan s limit npages p = Some q \<longleftrightarrow>
    p \<le> q \<and> int q + npages \<le> int limit \<and> contig_free s npages q \<and>
    (\<forall>y. p \<le> y \<and> y < q \<longrightarrow> \<not> contig_free s npages y)"
  using assms
proof (induction s limit npages p rule: contig_scan.induct)
  case (1 s limit npages p)
  let ?scan = "first_from (\<lambda>i. is_used s (p + i)) 0 (nat npages)"
  consider (out) "\<not> int p + npages \<le> int limit" | (hit) "int p + npages \<le> int limit" "?scan = None"
    | (skip) i where "int p + npages \<le> int limit" "?scan = Some i"
    by fastforce
  then show ?case
  proof cases
    case out
    then show ?thesis using "1.prems" by (auto simp: contig_scan.simps [of s limit npages p])
  next
    case hit
    then have "contig_free s npages p" by (simp add: contig_free_def first_from_None)
    then show ?thesis using hit "1.prems"
      by (auto simp: contig_scan.simps [of s limit npages p] not_le dest: spec [of _ p])
  next
    case skip
    then have i: "i < nat npages" "is_used s (p + i)" by (auto simp: first_from_Some)
    have bad: "\<not> contig_free s npages y" if "p \<le> y" "y < p + i + 1" for y
    proof -
      have "p + i = y + (p + i - y)" "p + i - y < nat npages" using that i by auto
      then show ?thesis using i(2) unfolding contig_free_def by metis
    qed
    have "contig_scan s limit npages p = contig_scan s limit npages (p + i + 1)"
      using skip "1.prems" by (simp add: contig_scan.simps [of s limit npages p])
    moreover have "contig_scan s limit npages (p + i + 1) = Some q \<longleftrightarrow>
        p + i + 1 \<le> q \<and> int q + npages \<le> int limit \<and> contig_free s npages q \<and>
        (\<forall>y. p + i + 1 \<le> y \<and> y < q \<longrightarrow> \<not> contig_free s npages y)"
      using "1.IH" [of i] skip "1.prems" by simp
    ultimately show ?thesis
      using search_resume [of p "p + i + 1" "contig_free s npages" q, OF bad] by simp
  qed
qed

lemma contig_scan_None:
  assumes "0 \<le> npages"
  shows "contig_scan s limit npages p = None \<longleftrightarrow>
    (\<forall>q. p \<le> q \<and> int q + npages \<le> int limit \<longrightarrow> \<not> contig_free s npages q)"
proof
  assume none: "contig_scan s limit npages p = None"
  show "\<forall>q. p \<le> q \<and> int q + npages \<le> int limit \<longrightarrow> \<not> contig_free s npages q"
  proof (rule ccontr)
    assume "\<not> ?thesis"
    then have ex: "\<exists>q. p \<le> q \<and> int q + npages \<le> int limit \<and> contig_free s npages q" by blast
    let ?q = "LEAST q. p \<le> q \<and> int q + npages \<le> int limit \<and> contig_free s npages q"
    have q: "p \<le> ?q \<and> int ?q + npages \<le> int limit \<and> contig_free s npages ?q"
      using LeastI_ex [OF ex] .
    have "\<not> contig_free s npages y" if "p \<le> y" "y < ?q" for y
      using not_less_Least [OF that(2)] that q by auto
    then have "contig_scan s limit npages p = Some ?q"
      using q assms by (simp add: contig_scan_Some)
    then show False using none by simp
  qed
next
  assume "\<forall>q. p \<le> q \<and> int q + npages \<le> int limit \<longrightarrow> \<not> contig_free s npages q"
  then show "contig_scan s limit npages p = None"
    using assms by (cases "contig_scan s limit npages p") (auto simp: contig_scan_Some)
qed

lemma fold_claim:
  assumes "pmm_inv s" and "set ps \<subseteq> free_set s" and "distinct ps"
  shows "pmm_inv (fold claim_page ps s) \<and> free_set (fold claim_page ps s) = free_set s - set ps \<and>
    cells (fold claim_page ps s) = cells s \<and> max_phys (fold claim_page ps s) = max_phys s \<and>
    (\<forall>q. is_used (fold claim_page ps s) q \<longleftrightarrow> q \<in> set ps \<or> is_used s q)"
  using assms
proof (induction ps arbitrary: s)
  case Nil
  then show ?case by simp
next
  case (Cons p ps)
  have "pmm_inv (claim_page p s)" using Cons.prems by (auto intro: claim_page_inv)
  moreover have "set ps \<subseteq> free_set (claim_page p s)" using Cons.prems by auto
  ultimately show ?case using Cons by auto
qed

lemma pmm_alloc_contig_cases:
  assumes "pmm_inv s" and "0 \<le> npages" and "pmm_alloc_contig npages s = Inr (phys, s')"
  obtains p where "256 \<le> p" and "int p + npages \<le> int (unat (max_phys s) div 4096)"
    and "contig_free s npages p" and "\<forall>y. 256 \<le> y \<and> y < p \<longrightarrow> \<not> contig_free s npages y"
    and "phys = of_nat p * PAGE_SIZE"
    and "s' = zero_phys phys (of_int npages * PAGE_SIZE) (fold claim_page [p ..< p + nat npages] s)"
    and "set [p ..< p + nat npages] \<subseteq> free_set s"
proof -
  from assms(3) obtain p where p: "contig_scan s (unat (max_phys s div PAGE_SIZE)) npages 256 = Some p"
    and rest: "phys = of_nat p * PAGE_SIZE"
      "s' = zero_phys phys (of_int npages * PAGE_SIZE) (fold claim_page [p ..< p + nat npages] s)"
    by (auto simp: pmm_alloc_contig_def Let_def split: option.splits)
  from p assms(2) have c: "256 \<le> p" "int p + npages \<le> int (unat (max_phys s) div 4096)"
      "contig_free s npages p" "\<forall>y. 256 \<le> y \<and> y < p \<longrightarrow> \<not> contig_free s npages y"
    by (simp_all add: contig_scan_Some unat_limit)
  have "set [p ..< p + nat npages] \<subseteq> free_set s"
  proof
    fix q assume "q \<in> set [p ..< p + nat npages]"
    then have q: "p \<le> q" "q < p + nat npages" by auto
    then have "q < unat (max_phys s) div 4096" using c(2) assms(2) by linarith
    moreover have "\<not> is_used s q" using c(3) q unfolding contig_free_def
      by (metis le_add_diff_inverse nat_add_left_cancel_less)
    ultimately show "q \<in> free_set s" using pmm_inv_free_iff [OF assms(1)] by blast
  qed
  with c rest that show thesis by blast
qed

lemma pmm_alloc_contig_inv:
  assumes "pmm_inv s" and "0 \<le> npages" and "pmm_alloc_contig npages s = Inr (phys, s')"
  shows "pmm_inv s'"
proof -
  from assms obtain p where
      "s' = zero_phys phys (of_int npages * PAGE_SIZE) (fold claim_page [p ..< p + nat npages] s)"
      "set [p ..< p + nat npages] \<subseteq> free_set s"
    by (rule pmm_alloc_contig_cases)
  then show ?thesis using fold_claim [OF assms(1)] by simp
qed

section \<open>Freeing\<close>

lemma pmm_free_ok:
  assumes "pmm_free phys s = Inr s'"
  shows "unat (phys div PAGE_SIZE) < MAX_PAGES" and "is_used s (unat (phys div PAGE_SIZE))"
    and "free_set s' = insert (unat (phys div PAGE_SIZE)) (free_set s)"
    and "is_used s' q \<longleftrightarrow> unat (phys div PAGE_SIZE) \<noteq> q \<and> is_used s q"
    and "cells s' = cells s" and "max_phys s' = max_phys s"
  using assms by (auto simp: pmm_free_def Let_def split: if_splits)

lemma pmm_free_inv:
  assumes inv: "pmm_inv s" and ret: "pmm_free phys s = Inr s'"
    and low: "unat (phys div PAGE_SIZE) < unat (max_phys s) div 4096"
  shows "pmm_inv s'"
proof -
  let ?p = "unat (phys div PAGE_SIZE)"
  have used: "?p \<notin> free_set s" using pmm_free_ok [OF ret] by (simp add: free_set_def)
  have s': "s' = (set_free ?p s)\<lparr>free_count := free_count s + 1, search_from :=
      (if phys div PAGE_SIZE < search_from s then phys div PAGE_SIZE else search_from s)\<rparr>"
    using ret by (auto simp: pmm_free_def Let_def split: if_splits)
  have "unat (free_count s + 1) = card (insert ?p (free_set s))"
    using count_up [OF used] inv by (simp add: pmm_inv_def)
  then show ?thesis
    using inv low pmm_free_ok(1) [OF ret]
    unfolding s' by (auto simp: pmm_inv_def word_less_nat_alt)
qed


lemma page_addr_succ: "(of_nat p * PAGE_SIZE :: u64) + PAGE_SIZE = of_nat (Suc p) * PAGE_SIZE"
  by (simp add: distrib_right)

lemma free_pages_from_ok:
  assumes "pmm_inv s" and "p + n \<le> unat (max_phys s) div 4096"
    and "\<forall>i < n. is_used s (p + i)"
  shows "\<exists>s'. free_pages_from (of_nat p * PAGE_SIZE) n s = Inr s' \<and> pmm_inv s' \<and>
    free_set s' = free_set s \<union> {p ..< p + n} \<and> cells s' = cells s \<and> max_phys s' = max_phys s"
  using assms
proof (induction n arbitrary: p s)
  case 0
  then show ?case by simp
next
  case (Suc n)
  have top: "unat (max_phys s) div 4096 \<le> MAX_PAGES"
    using Suc.prems(1) div_le_mono [of "unat (max_phys s)" 4294967296 4096] by (simp add: pmm_inv_def)
  have p: "p < MAX_PAGES" "p < unat (max_phys s) div 4096" using Suc.prems(2) top by linarith+
  have idx: "unat ((of_nat p * PAGE_SIZE :: u64) div PAGE_SIZE) = p"
    using p by (simp add: page_addr_div unat_of_nat mod_less)
  have "is_used s p" using Suc.prems(3) by (metis add_0_right zero_less_Suc)
  then obtain s1 where s1: "pmm_free (of_nat p * PAGE_SIZE) s = Inr s1"
    using p idx by (simp add: pmm_free_def Let_def)
  note free = pmm_free_ok [OF s1, unfolded idx]
  have inv1: "pmm_inv s1" using pmm_free_inv [OF Suc.prems(1) s1] p idx by simp
  have "\<forall>i < n. is_used s1 (Suc p + i)"
    using Suc.prems(3) free(4) by (metis Suc_less_eq add_Suc_shift less_add_Suc1 nat_neq_iff)
  then obtain s' where "free_pages_from (of_nat (Suc p) * PAGE_SIZE) n s1 = Inr s'" "pmm_inv s'"
      "free_set s' = free_set s1 \<union> {Suc p ..< Suc p + n}" "cells s' = cells s1" "max_phys s' = max_phys s1"
    using Suc.IH [of s1 "Suc p"] inv1 Suc.prems(2) free(6) by auto
  then show ?case using s1 free
    by (intro exI [of _ s']) (auto simp: page_addr_succ)
qed

section \<open>Initialisation\<close>

definition pmm_boot :: pmm_state where
  "pmm_boot = \<lparr>bitmap = (\<lambda>_. 0), total_pages = 0, free_count = 0, max_phys = 0, search_from = 0,
     cells = (\<lambda>_. 0)\<rparr>"

definition counted :: "pmm_state \<Rightarrow> bool" where
  "counted s \<longleftrightarrow> unat (free_count s) = card (free_set s) \<and> unat (max_phys s) \<le> 4294967296 \<and>
     free_set s \<subseteq> {..< unat (max_phys s) div 4096}"

lemma fold_init_page:
  assumes "unat (free_count s) = card (free_set s)" and "set ps \<subseteq> {..<MAX_PAGES}"
  shows "unat (free_count (fold init_page ps s)) = card (free_set (fold init_page ps s)) \<and>
    free_set (fold init_page ps s) = free_set s \<union> set ps \<and>
    max_phys (fold init_page ps s) = max_phys s"
  using assms
proof (induction ps arbitrary: s)
  case Nil
  then show ?case by simp
next
  case (Cons p ps)
  have p: "p < MAX_PAGES" using Cons.prems(2) by simp
  let ?t = "init_page p s"
  have "unat (free_count ?t) = card (free_set ?t) \<and> free_set ?t = insert p (free_set s) \<and>
      max_phys ?t = max_phys s"
  proof (cases "is_used s p")
    case True
    then show ?thesis using count_up [of p s] Cons.prems(1) p
      by (simp add: init_page_def free_set_def [of s])
  next
    case False
    then show ?thesis using Cons.prems(1) p by (auto simp: init_page_def free_set_def [of s])
  qed
  then show ?case using Cons by auto
qed

text \<open>The pages a memory map entry makes available.\<close>

definition entry_pages :: "e820_entry \<Rightarrow> nat set" where
  "entry_pages e = (if e_type e \<noteq> E820_USABLE then {} else
     {unat ((e_base e + PAGE_SIZE - 1) AND NOT (PAGE_SIZE - 1)) div 4096 ..<
      unat (min ((e_base e + e_len e) AND NOT (PAGE_SIZE - 1)) MAX_PHYS) div 4096})"

lemma init_entry_counted:
  assumes "counted s"
  shows "counted (init_entry e s) \<and> free_set (init_entry e s) = free_set s \<union> entry_pages e"
proof (cases "e_type e = E820_USABLE")
  case True
  define end0 where "end0 = (e_base e + e_len e) AND NOT (PAGE_SIZE - 1)"
  define end1 where "end1 = (if end0 > MAX_PHYS then MAX_PHYS else end0)"
  define ps where "ps = [unat ((e_base e + PAGE_SIZE - 1) AND NOT (PAGE_SIZE - 1)) div 4096 ..<
      unat end1 div 4096]"
  have end1: "unat end1 \<le> 4294967296"
    by (simp add: end1_def word_less_nat_alt not_less)
  then have ps: "set ps \<subseteq> {..< unat end1 div 4096}" "set ps \<subseteq> {..<MAX_PAGES}"
    by (auto simp: ps_def)
  have eq: "init_entry e s = (let s1 = fold init_page ps s in
      if end1 > max_phys s1 then s1\<lparr>max_phys := end1\<rparr> else s1)"
    using True unfolding init_entry_def ps_def end1_def end0_def Let_def by (simp only: simp_thms if_False)
  define s1 where "s1 = fold init_page ps s"
  have s1: "unat (free_count s1) = card (free_set s1)" "free_set s1 = free_set s \<union> set ps"
      "max_phys s1 = max_phys s"
    using assms ps fold_init_page [of s ps] by (auto simp: counted_def s1_def)
  define top where "top = (if end1 > max_phys s1 then end1 else max_phys s1)"
  have top: "unat end1 \<le> unat top" "unat (max_phys s) \<le> unat top" "unat top \<le> 4294967296"
    using assms end1 s1(3) by (auto simp: top_def counted_def word_less_nat_alt)
  have "free_set s1 \<subseteq> {..< unat top div 4096}"
    using assms ps(1) top(1,2)[THEN div_le_mono, of 4096] unfolding s1(2) counted_def by fastforce
  then have "counted (s1\<lparr>max_phys := top\<rparr>)" using s1(1) top(3) by (simp add: counted_def)
  moreover have "init_entry e s = s1\<lparr>max_phys := top\<rparr>"
    by (simp add: eq Let_def s1_def [symmetric] top_def)
  moreover have "end1 = min end0 MAX_PHYS" by (auto simp: end1_def min_def)
  ultimately show ?thesis using s1(2) True
    by (simp add: entry_pages_def ps_def end0_def)
next
  case False
  then show ?thesis using assms by (simp add: init_entry_def entry_pages_def)
qed

lemma fold_init_entry_counted:
  "counted s \<Longrightarrow> counted (fold init_entry es s) \<and>
     free_set (fold init_entry es s) = free_set s \<union> (\<Union>e \<in> set es. entry_pages e)"
  by (induction es arbitrary: s) (auto simp: init_entry_counted)

lemma fold_reserve:
  assumes "counted s" and "set ps \<subseteq> {..<MAX_PAGES}"
  shows "counted (fold reserve_page ps s) \<and> free_set (fold reserve_page ps s) = free_set s - set ps"
  using assms
proof (induction ps arbitrary: s)
  case Nil
  then show ?case by simp
next
  case (Cons p ps)
  have "counted (reserve_page p s) \<and> free_set (reserve_page p s) = free_set s - {p}"
  proof (cases "is_used s p")
    case True
    then show ?thesis using Cons.prems by (auto simp: reserve_page_def free_set_def)
  next
    case False
    then have "p \<in> free_set s" using Cons.prems(2) by (simp add: free_set_def)
    then show ?thesis using False Cons.prems(1) count_down [of p s]
      by (auto simp: reserve_page_def counted_def)
  qed
  then show ?case using Cons by auto
qed

lemma pmm_init_result:
  assumes "unat (kernel_end_phys kend) \<le> 4294967296"
  shows "pmm_inv (pmm_init kend e820 pmm_boot)"
    and pmm_init_free_set: "free_set (pmm_init kend e820 pmm_boot) =
      (\<Union>e \<in> set e820. entry_pages e) - {..< unat (kernel_end_phys kend) div 4096}"
proof -
  let ?ps = "[0 ..< unat (kernel_end_phys kend) div 4096]"
  let ?s0 = "pmm_boot\<lparr>bitmap := \<lambda>_. 255\<rparr>"
  have "is_used ?s0 p" for p
    using bit_byte_255 [of "p mod 8"] by (simp add: is_used_iff_bit)
  then have none: "free_set ?s0 = {}" by (simp add: free_set_def)
  then have "counted ?s0" by (simp add: counted_def pmm_boot_def)
  note ent = fold_init_entry_counted [OF this, of e820]
  have "set ?ps \<subseteq> {..<MAX_PAGES}" using assms by auto
  note res = fold_reserve [OF conjunct1 [OF ent] this]
  show eq: "free_set (pmm_init kend e820 pmm_boot) =
      (\<Union>e \<in> set e820. entry_pages e) - {..< unat (kernel_end_phys kend) div 4096}"
    using res ent none by (auto simp: pmm_init_def Let_def)
  have "free_set (pmm_init kend e820 pmm_boot) \<inter> {..< unat (kernel_end_phys kend) div 4096} = {}"
    unfolding eq by auto
  then show "pmm_inv (pmm_init kend e820 pmm_boot)"
    using res assms by (auto simp: pmm_init_def Let_def counted_def pmm_inv_def unat_div)
qed

section \<open>The allocator as an interface\<close>

text \<open>
  What a client of the allocator relies on: a frame that is handed out was available, is page
  aligned and is not available any more; allocation fails only when nothing is available; a
  managed frame that is in use can be given back.
\<close>

locale frame_allocator =
  fixes alloc :: "'s \<Rightarrow> 'e + u64 \<times> 's"
    and release :: "u64 \<Rightarrow> 's \<Rightarrow> 'e + 's"
    and ok :: "'s \<Rightarrow> bool"
    and avail :: "'s \<Rightarrow> nat set"
    and managed :: "'s \<Rightarrow> nat set"
  assumes alloc_ok: "ok s \<Longrightarrow> alloc s = Inr (a, s') \<Longrightarrow> ok s' \<and> managed s' = managed s"
    and alloc_avail: "ok s \<Longrightarrow> alloc s = Inr (a, s') \<Longrightarrow>
      4096 dvd unat a \<and> unat a div 4096 \<in> avail s \<and> avail s' = avail s - {unat a div 4096}"
    and alloc_fails: "ok s \<Longrightarrow> alloc s = Inl e \<Longrightarrow> avail s = {}"
    and avail_managed: "ok s \<Longrightarrow> avail s \<subseteq> managed s"
    and avail_finite: "ok s \<Longrightarrow> finite (avail s)"
    and release_ok: "ok s \<Longrightarrow> 4096 dvd unat a \<Longrightarrow> unat a div 4096 \<in> managed s - avail s \<Longrightarrow>
      \<exists>s'. release a s = Inr s' \<and> ok s' \<and> managed s' = managed s \<and>
        avail s' = insert (unat a div 4096) (avail s)"

fun alloc_many :: "('s \<Rightarrow> 'e + u64 \<times> 's) \<Rightarrow> nat \<Rightarrow> 's \<Rightarrow> 'e + u64 list \<times> 's" where
  "alloc_many alloc 0 s = Inr ([], s)"
| "alloc_many alloc (Suc n) s = (case alloc s of
     Inl e \<Rightarrow> Inl e
   | Inr (a, s1) \<Rightarrow> (case alloc_many alloc n s1 of
       Inl e \<Rightarrow> Inl e
     | Inr (as, s2) \<Rightarrow> Inr (a # as, s2)))"

context frame_allocator
begin

lemma alloc_many_ok:
  assumes "ok s" and "alloc_many alloc n s = Inr (as, s')"
  shows "ok s' \<and> length as = n \<and> avail s' = avail s - (\<lambda>a. unat a div 4096) ` set as \<and>
    (\<lambda>a. unat a div 4096) ` set as \<subseteq> avail s \<and> (\<forall>a \<in> set as. 4096 dvd unat a) \<and>
    distinct (map (\<lambda>a. unat a div 4096) as)"
  using assms
proof (induction n arbitrary: s as)
  case 0
  then show ?case by simp
next
  case (Suc n)
  from Suc.prems(2) obtain a s1 bs where a: "alloc s = Inr (a, s1)"
    and bs: "alloc_many alloc n s1 = Inr (bs, s')" and as: "as = a # bs"
    by (auto split: sum.splits)
  have "ok s1" using alloc_ok [OF Suc.prems(1) a] by simp
  with bs Suc.IH [of s1 bs] alloc_avail [OF Suc.prems(1) a] show ?case
    by (auto simp: as)
qed

lemma alloc_many_succeeds:
  assumes "ok s" and "n \<le> card (avail s)"
  shows "\<exists>as s'. alloc_many alloc n s = Inr (as, s')"
  using assms
proof (induction n arbitrary: s)
  case 0
  then show ?case by simp
next
  case (Suc n)
  then have "avail s \<noteq> {}" by auto
  then obtain a s1 where a: "alloc s = Inr (a, s1)"
    using alloc_fails [OF Suc.prems(1)] by (cases "alloc s") auto
  then have "ok s1" "avail s1 = avail s - {unat a div 4096}" "unat a div 4096 \<in> avail s"
    using alloc_ok [OF Suc.prems(1)] alloc_avail [OF Suc.prems(1)] by blast+
  then have "n \<le> card (avail s1)" using Suc.prems avail_finite by auto
  then show ?case using Suc.IH [OF \<open>ok s1\<close>] a by fastforce
qed

lemma alloc_release:
  assumes "ok s" and "alloc s = Inr (a, s1)"
  shows "\<exists>s2. release a s1 = Inr s2 \<and> ok s2 \<and> avail s2 = avail s"
proof -
  note al = alloc_ok [OF assms] alloc_avail [OF assms]
  then have "unat a div 4096 \<in> managed s1 - avail s1" using avail_managed [OF assms(1)] by auto
  then show ?thesis using release_ok [of s1 a] al by (auto simp: insert_absorb)
qed

end

definition managed_pages :: "pmm_state \<Rightarrow> nat set" where
  "managed_pages s = {..< unat (max_phys s) div 4096}"

lemma pmm_alloc_page:
  assumes "pmm_inv s" and "pmm_alloc s = Inr (phys, s')"
  shows "4096 dvd unat phys \<and> unat phys div 4096 = Min (free_set s) \<and> free_set s \<noteq> {} \<and>
    free_set s' = free_set s - {unat phys div 4096} \<and> max_phys s' = max_phys s \<and>
    free_count s' = free_count s - 1 \<and>
    (\<forall>q. is_used s' q \<longleftrightarrow> q = unat phys div 4096 \<or> is_used s q)"
proof -
  define p where "p = Min (free_set s)"
  have ne: "free_set s \<noteq> {}" using assms by (auto simp: pmm_alloc_eq split: if_splits)
  then have p: "p < MAX_PAGES" using Min_in [OF finite_free_set ne] by (simp add: free_set_def p_def)
  have phys: "phys = of_nat p * PAGE_SIZE"
    and s': "s' = zero_phys phys PAGE_SIZE ((claim_page p s)\<lparr>search_from := of_nat p + 1\<rparr>)"
    using assms ne by (auto simp: pmm_alloc_eq Let_def p_def)
  have "unat phys = p * 4096" using p by (simp add: phys unat_page_addr)
  then show ?thesis using ne unfolding s' by (auto simp: claim_page_def p_def)
qed

lemma unat_page_index: "unat ((a::u64) div PAGE_SIZE) = unat a div 4096"
  by (simp add: unat_div)

lemma pmm_release:
  assumes "pmm_inv s" and "unat a div 4096 \<in> managed_pages s - free_set s"
  shows "\<exists>s'. pmm_free a s = Inr s' \<and> pmm_inv s' \<and> managed_pages s' = managed_pages s \<and>
    free_set s' = insert (unat a div 4096) (free_set s)"
proof -
  have m: "unat a div 4096 < unat (max_phys s) div 4096" using assms(2) by (simp add: managed_pages_def)
  then have used: "is_used s (unat a div 4096)" using assms pmm_inv_free_iff by blast
  have "unat a div 4096 < MAX_PAGES"
    using m assms(1) div_le_mono [of "unat (max_phys s)" 4294967296 4096] by (simp add: pmm_inv_def)
  then obtain s' where s': "pmm_free a s = Inr s'"
    using used by (simp add: pmm_free_def Let_def unat_page_index)
  show ?thesis
    using s' pmm_free_ok [OF s'] pmm_free_inv [OF assms(1) s'] m
    by (simp add: unat_page_index managed_pages_def)
qed

lemma pmm_alloc_law:
  assumes "pmm_inv s" and "pmm_alloc s = Inr (a, s')"
  shows "4096 dvd unat a \<and> unat a div 4096 \<in> free_set s \<and> free_set s' = free_set s - {unat a div 4096}"
proof -
  have ne: "free_set s \<noteq> {}" using pmm_alloc_page [OF assms] by blast
  show ?thesis using pmm_alloc_page [OF assms] Min_in [OF finite_free_set ne] by metis
qed

lemma pmm_alloc_fails: "pmm_inv s \<Longrightarrow> pmm_alloc s = Inl e \<Longrightarrow> free_set s = {}"
  by (simp add: pmm_alloc_eq Let_def split: if_splits)

interpretation pmm: frame_allocator pmm_alloc pmm_free pmm_inv free_set managed_pages
proof (unfold_locales, goal_cases)
  case (1 s a s')
  then show ?case using pmm_alloc_inv pmm_alloc_page [OF 1] by (simp add: managed_pages_def)
next
  case (2 s a s')
  then show ?case by (rule pmm_alloc_law)
next
  case (3 s e)
  then show ?case by (rule pmm_alloc_fails)
next
  case (4 s)
  then show ?case by (simp add: pmm_inv_def managed_pages_def)
next
  case (5 s)
  show ?case by (rule finite_free_set)
next
  case (6 s a)
  then show ?case by (intro pmm_release)
qed


section \<open>One allocation step\<close>

lemma zero_page_cells:
  "p < MAX_PAGES \<Longrightarrow> cells (zero_phys (of_nat p * PAGE_SIZE) PAGE_SIZE s) c =
     (if p * 512 \<le> c \<and> c < (p + 1) * 512 then 0 else cells s c)"
  by (simp add: zero_phys_def unat_page_addr)

lemma pmm_alloc_step:
  assumes "pmm_inv s" and ret: "pmm_alloc s = Inr (phys, s')"
  shows "pmm_inv s' \<and> unat (pmm_free_pages s) = unat (pmm_free_pages s') + 1 \<and>
    (\<exists>p. unat phys = p * 4096 \<and> \<not> is_used s p \<and> (\<forall>q < p. is_used s q) \<and>
      (\<forall>q. is_used s' q \<longleftrightarrow> q = p \<or> is_used s q) \<and>
      (\<forall>c. cells s' c = (if p * 512 \<le> c \<and> c < (p + 1) * 512 then 0 else cells s c)))"
proof -
  define p where "p = Min (free_set s)"
  note pg = pmm_alloc_page [OF assms]
  then have ne: "free_set s \<noteq> {}" by blast
  have p: "p \<in> free_set s" "p < MAX_PAGES" using Min_in [OF finite_free_set ne]
    by (simp_all add: free_set_def p_def)
  have phys: "phys = of_nat p * PAGE_SIZE"
    and s': "s' = zero_phys phys PAGE_SIZE ((claim_page p s)\<lparr>search_from := of_nat p + 1\<rparr>)"
    using ne assms by (auto simp: pmm_alloc_eq Let_def p_def)
  have low: "is_used s q" if "q < p" for q
    using Min_le [OF finite_free_set, of q s] that p by (fastforce simp: free_set_def p_def)
  have inv': "pmm_inv s'" by (rule pmm_alloc_inv [OF assms])
  have card: "0 < card (free_set s)" using ne by (simp add: card_gt_0_iff)
  have "unat (pmm_free_pages s) = unat (pmm_free_pages s') + 1"
    using inv' assms(1) p(1) card pg by (simp add: pmm_inv_def pmm_free_pages_def p_def)
  then show ?thesis
    using inv' p low unfolding s' phys
    by (auto simp: unat_page_addr zero_page_cells free_set_def intro!: exI [of _ p])
qed

section \<open>Properties\<close>

text \<open>A small machine for the witnesses: eight free pages above 1 MiB.\<close>

definition pmm_demo :: pmm_state where
  "pmm_demo = \<lparr>bitmap = (\<lambda>i. if i = 32 then 0 else 255), total_pages = 8, free_count = 8,
     max_phys = 1081344, search_from = 256, cells = (\<lambda>_. 7)\<rparr>"

lemma is_used_demo: "is_used pmm_demo p \<longleftrightarrow> p div 8 \<noteq> 32"
  using bit_byte_255 [of "p mod 8"] by (simp add: is_used_iff_bit pmm_demo_def)

lemma free_set_demo: "free_set pmm_demo = {256 ..< 264}"
proof (rule set_eqI)
  fix p :: nat
  have "p div 8 = 32 \<longleftrightarrow> 256 \<le> p \<and> p < 264" by presburger
  then show "p \<in> free_set pmm_demo \<longleftrightarrow> p \<in> {256 ..< 264}"
    by (auto simp: free_set_def is_used_demo)
qed

lemma pmm_inv_demo: "pmm_inv pmm_demo"
proof -
  have "unat (max_phys pmm_demo) = 1081344" "unat (free_count pmm_demo) = 8"
    "unat (search_from pmm_demo) = 256"
    by (simp_all add: pmm_demo_def)
  then show ?thesis by (auto simp: pmm_inv_def free_set_demo)
qed

text \<open>
  C18. \<^verbatim>\<open>pmm_alloc\<close> returns the lowest free page, zeroed, claims exactly that page and counts it
  down, and keeps the invariant; it panics only when no page of memory is free.
\<close>

theorem pmm_alloc_correct:
  assumes "pmm_inv s"
  shows "case pmm_alloc s of
      Inl e \<Rightarrow> e = OutOfMemory \<and> pmm_free_pages s = 0 \<and> (\<forall>p < unat (max_phys s) div 4096. is_used s p)
    | Inr (phys, s') \<Rightarrow> pmm_inv s' \<and> unat (pmm_free_pages s) = unat (pmm_free_pages s') + 1 \<and>
        (\<exists>p. unat phys = p * 4096 \<and> \<not> is_used s p \<and> (\<forall>q < p. is_used s q) \<and>
          (\<forall>q. is_used s' q \<longleftrightarrow> q = p \<or> is_used s q) \<and>
          (\<forall>c. cells s' c = (if p * 512 \<le> c \<and> c < (p + 1) * 512 then 0 else cells s c)))"
proof (cases "pmm_alloc s")
  case (Inl e)
  then have "free_set s = {}" "e = OutOfMemory" using assms
    by (auto simp: pmm_alloc_eq Let_def split: if_splits)
  moreover from this have "pmm_free_pages s = 0" using assms
    by (simp add: pmm_inv_def pmm_free_pages_def unat_eq_0)
  ultimately show ?thesis using Inl pmm_inv_free_iff [OF assms] by auto
next
  case (Inr r)
  obtain phys s' where r: "r = (phys, s')" by (cases r)
  then show ?thesis using Inr pmm_alloc_step [OF assms, of phys s'] by simp
qed

theorem pmm_alloc_correct_witness:
  "pmm_inv pmm_demo \<and> (\<exists>phys s'. pmm_alloc pmm_demo = Inr (phys, s') \<and> unat phys = 256 * 4096 \<and>
     pmm_inv s' \<and> is_used s' 256)"
proof -
  have "pmm_alloc pmm_demo \<noteq> Inl OutOfMemory"
    by (simp add: pmm_alloc_eq [OF pmm_inv_demo] free_set_demo Let_def)
  with pmm_alloc_correct [OF pmm_inv_demo] obtain phys s' p where
    r: "pmm_alloc pmm_demo = Inr (phys, s')" "pmm_inv s'" "unat phys = p * 4096"
      "\<not> is_used pmm_demo p" "\<forall>q < p. is_used pmm_demo q" "is_used s' p"
    by (auto split: sum.splits)
  have "\<not> 256 < p" using r(5) is_used_demo [of 256] by auto
  moreover have "p div 8 = 32" using r(4) by (simp add: is_used_demo)
  ultimately have "p = 256" by presburger
  then show ?thesis using r pmm_inv_demo by blast
qed


text \<open>
  C19. \<^verbatim>\<open>pmm_alloc_contig\<close>, whose scan skips past every used page it meets, is first fit: it
  returns the lowest run of free pages above 1 MiB, claims exactly these pages, and panics only
  when there is no such run.
\<close>

theorem pmm_alloc_contig_first_fit:
  assumes "pmm_inv s" and "0 \<le> npages"
  shows "case pmm_alloc_contig npages s of
      Inl e \<Rightarrow> e = OutOfContiguous npages \<and>
        (\<forall>p \<ge> 256. p + nat npages \<le> unat (max_phys s) div 4096 \<longrightarrow> (\<exists>i < nat npages. is_used s (p + i)))
    | Inr (phys, s') \<Rightarrow> pmm_inv s' \<and>
        (\<exists>p \<ge> 256. phys = of_nat p * PAGE_SIZE \<and> p + nat npages \<le> unat (max_phys s) div 4096 \<and>
          (\<forall>i < nat npages. \<not> is_used s (p + i)) \<and>
          (\<forall>q. 256 \<le> q \<and> q < p \<longrightarrow> (\<exists>i < nat npages. is_used s (q + i))) \<and>
          (\<forall>q. is_used s' q \<longleftrightarrow> (p \<le> q \<and> q < p + nat npages) \<or> is_used s q))"
proof (cases "pmm_alloc_contig npages s")
  case (Inl e)
  then have "contig_scan s (unat (max_phys s div PAGE_SIZE)) npages 256 = None" "e = OutOfContiguous npages"
    by (auto simp: pmm_alloc_contig_def Let_def split: option.splits)
  then show ?thesis
    using Inl assms(2) by (auto simp: contig_scan_None unat_limit contig_free_def)
next
  case (Inr r)
  then obtain phys s' where r: "r = (phys, s')" by (cases r)
  from Inr have ret: "pmm_alloc_contig npages s = Inr (phys, s')" by (simp add: r)
  from assms ret obtain p where p: "256 \<le> p" "int p + npages \<le> int (unat (max_phys s) div 4096)"
      "contig_free s npages p" "\<forall>y. 256 \<le> y \<and> y < p \<longrightarrow> \<not> contig_free s npages y"
      "phys = of_nat p * PAGE_SIZE"
      "s' = zero_phys phys (of_int npages * PAGE_SIZE) (fold claim_page [p ..< p + nat npages] s)"
      "set [p ..< p + nat npages] \<subseteq> free_set s"
    by (rule pmm_alloc_contig_cases)
  have used: "is_used s' q \<longleftrightarrow> (p \<le> q \<and> q < p + nat npages) \<or> is_used s q" for q
    using fold_claim [OF assms(1) p(7)] by (simp add: p(6))
  have "p + nat npages \<le> unat (max_phys s) div 4096" using p(2) assms(2) by linarith
  with p(1,3,4,5) used pmm_alloc_contig_inv [OF assms ret] show ?thesis
    unfolding Inr r contig_free_def by (simp, intro exI [of _ p]) simp
qed

theorem pmm_alloc_contig_first_fit_witness:
  "pmm_inv pmm_demo \<and> (\<exists>phys s'. pmm_alloc_contig 3 pmm_demo = Inr (phys, s') \<and> is_used s' 258)"
proof -
  have run: "\<not> (\<exists>i < nat 3. is_used pmm_demo (256 + i))"
    by (auto simp: is_used_demo)
  have top: "unat (max_phys pmm_demo) div 4096 = 264" by (simp add: pmm_demo_def)
  note ff = pmm_alloc_contig_first_fit [OF pmm_inv_demo, of 3, unfolded top]
  show ?thesis
  proof (cases "pmm_alloc_contig 3 pmm_demo")
    case (Inl e)
    then have "\<forall>p \<ge> 256. p + nat 3 \<le> 264 \<longrightarrow> (\<exists>i < nat 3. is_used pmm_demo (p + i))"
      using ff by simp
    then show ?thesis using run by (auto dest: spec [of _ 256])
  next
    case (Inr r)
    then obtain phys s' p where r: "r = (phys, s')" "256 \<le> p"
        "\<forall>q. 256 \<le> q \<and> q < p \<longrightarrow> (\<exists>i < nat 3. is_used pmm_demo (q + i))"
        "\<forall>q. is_used s' q \<longleftrightarrow> (p \<le> q \<and> q < p + nat 3) \<or> is_used pmm_demo q"
      using ff by (auto split: prod.splits)
    then have "p = 256" using run by (metis le_neq_implies_less order_refl)
    then have "is_used s' 258" using r(4) by simp
    then show ?thesis using Inr r(1) pmm_inv_demo by blast
  qed
qed

text \<open>
  C20. Round trip: giving a contiguous run back with \<^verbatim>\<open>pmm_free_contig\<close> succeeds and restores the
  set of free pages and the counter.
\<close>

theorem pmm_contig_roundtrip:
  assumes "pmm_inv s" and "0 \<le> npages" and "pmm_alloc_contig npages s = Inr (phys, s1)"
  shows "\<exists>s2. pmm_free_contig phys npages s1 = Inr s2 \<and> pmm_inv s2 \<and> free_set s2 = free_set s \<and>
    pmm_free_pages s2 = pmm_free_pages s"
proof -
  from assms obtain p where p: "256 \<le> p" "int p + npages \<le> int (unat (max_phys s) div 4096)"
      "phys = of_nat p * PAGE_SIZE"
      "s1 = zero_phys phys (of_int npages * PAGE_SIZE) (fold claim_page [p ..< p + nat npages] s)"
      "set [p ..< p + nat npages] \<subseteq> free_set s"
    by (rule pmm_alloc_contig_cases)
  note f = fold_claim [OF assms(1) p(5)]
  have "pmm_inv s1" "max_phys s1 = max_phys s" "free_set s1 = free_set s - {p ..< p + nat npages}"
    "\<forall>i < nat npages. is_used s1 (p + i)"
    using f by (simp_all add: p(4))
  moreover have "p + nat npages \<le> unat (max_phys s) div 4096" using p(2) assms(2) by linarith
  ultimately obtain s2 where s2: "free_pages_from phys (nat npages) s1 = Inr s2" "pmm_inv s2"
      "free_set s2 = free_set s1 \<union> {p ..< p + nat npages}"
    using free_pages_from_ok [of s1 p "nat npages"] unfolding p(3) by auto
  then have "free_set s2 = free_set s" using p(5) \<open>free_set s1 = _\<close> by auto
  moreover from this have "free_count s2 = free_count s"
    using s2(2) assms(1) by (simp add: pmm_inv_def word_unat_eq_iff)
  ultimately show ?thesis using s2 by (simp add: pmm_free_contig_def pmm_free_pages_def)
qed

theorem pmm_contig_roundtrip_witness:
  "\<exists>phys s1 s2. pmm_alloc_contig 8 pmm_demo = Inr (phys, s1) \<and> pmm_free_contig phys 8 s1 = Inr s2 \<and>
     free_set s2 = {256 ..< 264}"
proof -
  have "contig_free pmm_demo 8 256" by (simp add: contig_free_def is_used_demo) presburger
  moreover have "unat (max_phys pmm_demo div PAGE_SIZE) = 264" by (simp add: pmm_demo_def unat_div)
  ultimately have "contig_scan pmm_demo (unat (max_phys pmm_demo div PAGE_SIZE)) 8 256 = Some 256"
    by (auto simp: contig_scan_Some)
  then obtain phys s1 where r: "pmm_alloc_contig 8 pmm_demo = Inr (phys, s1)"
    by (simp add: pmm_alloc_contig_def Let_def)
  then show ?thesis using pmm_contig_roundtrip [OF pmm_inv_demo _ r] free_set_demo by auto
qed

text \<open>The pages of an entry that does not wrap around the address space lie inside it.\<close>

lemma page_align: "unat ((x :: u64) AND NOT (PAGE_SIZE - 1)) div 4096 = unat x div 4096"
proof -
  have "drop_bit 12 (x AND NOT (mask 12)) = drop_bit 12 x"
    by (rule bit_word_eqI) (auto simp: bit_simps dest: bit_imp_le_length)
  then have "unat (drop_bit 12 (x AND NOT (mask 12))) = unat (drop_bit 12 x)" by simp
  moreover have "mask 12 = (PAGE_SIZE - 1 :: u64)" by (simp add: mask_eq_exp_minus_1)
  ultimately show ?thesis by (simp add: unat_div drop_bit_eq_div)
qed

lemma entry_pages_inside:
  assumes p: "p \<in> entry_pages e" and wrap: "unat (e_base e) + unat (e_len e) + 4095 < 2 ^ 64"
  shows "e_type e = E820_USABLE" and "unat (e_base e) \<le> p * 4096" and "p * 4096 + 4096 \<le> unat (e_base e) + unat (e_len e)"
proof -
  show t: "e_type e = E820_USABLE" using p by (auto simp: entry_pages_def split: if_splits)
  have lo: "unat ((e_base e + PAGE_SIZE - 1) AND NOT (PAGE_SIZE - 1)) div 4096 \<le> p"
    and hi: "p < unat (min ((e_base e + e_len e) AND NOT (PAGE_SIZE - 1)) MAX_PHYS) div 4096"
    using p t by (simp_all only: entry_pages_def atLeastLessThan_iff if_False not_True_eq_False simp_thms)
  have "unat (e_base e + PAGE_SIZE - 1) = unat (e_base e) + 4095" using wrap by (simp add: unat_word_ariths)
  then have "(unat (e_base e) + 4095) div 4096 \<le> p" using lo unfolding page_align by (simp only:)
  then show "unat (e_base e) \<le> p * 4096" by linarith
  have s: "unat (e_base e + e_len e) = unat (e_base e) + unat (e_len e)" using wrap by (simp add: unat_word_ariths)
  have "min ((e_base e + e_len e) AND NOT (PAGE_SIZE - 1)) MAX_PHYS \<le> (e_base e + e_len e) AND NOT (PAGE_SIZE - 1)"
    by (rule min.cobounded1)
  then have "unat (min ((e_base e + e_len e) AND NOT (PAGE_SIZE - 1)) MAX_PHYS) div 4096
      \<le> unat ((e_base e + e_len e) AND NOT (PAGE_SIZE - 1)) div 4096"
    unfolding word_le_nat_alt by (rule div_le_mono)
  then have "p < (unat (e_base e) + unat (e_len e)) div 4096" using hi unfolding page_align s by linarith
  then have "(p + 1) * 4096 \<le> unat (e_base e) + unat (e_len e)" by (simp add: less_eq_div_iff_mult_less_eq Suc_le_eq [symmetric])
  then show "p * 4096 + 4096 \<le> unat (e_base e) + unat (e_len e)" by simp
qed

text \<open>
  C17. What \<^verbatim>\<open>pmm_init\<close> makes of the firmware's memory map is safe to allocate from.  If no entry of the map
  wraps around the 64-bit address space, then every page that any number of calls of \<^verbatim>\<open>pmm_alloc\<close> after it return is a
  whole page, distinct from the others, above the end of the kernel image, and inside one entry of
  the map that is marked usable.
\<close>

theorem pmm_init_protects_kernel:
  assumes "unat (kernel_end_phys kend) \<le> 4294967296"
    and wrap: "\<forall>e \<in> set e820. unat (e_base e) + unat (e_len e) + 4095 < 2 ^ 64"
    and run: "alloc_many pmm_alloc n (pmm_init kend e820 pmm_boot) = Inr (frames, s')"
    and a: "a \<in> set frames"
  shows "pmm_inv s' \<and> distinct frames \<and> 4096 dvd unat a \<and> unat (kernel_end_phys kend) div 4096 \<le> unat a div 4096 \<and>
    (\<exists>e \<in> set e820. e_type e = E820_USABLE \<and> unat (e_base e) \<le> unat a \<and> unat a + 4096 \<le> unat (e_base e) + unat (e_len e))"
proof -
  note init = pmm_init_result [OF assms(1), of e820]
  note many = pmm.alloc_many_ok [OF init(1) run]
  have free: "unat a div 4096 \<in> free_set (pmm_init kend e820 pmm_boot)" using many a by blast
  then have k: "\<not> unat a div 4096 < unat (kernel_end_phys kend) div 4096" using init(2) by blast
  have al: "4096 dvd unat a" using many a by blast
  then have ua: "unat a div 4096 * 4096 = unat a" by simp
  from free init(2) obtain e where e: "e \<in> set e820" "unat a div 4096 \<in> entry_pages e" by blast
  note ins = entry_pages_inside [OF e(2) bspec [OF wrap e(1)], unfolded ua]
  show ?thesis using many a k al e(1) ins by (auto simp: distinct_map)
qed

theorem pmm_init_protects_kernel_witness:
  "\<exists>a s'. alloc_many pmm_alloc 1 (pmm_init 0xFFFFFFFF80101000
     [\<lparr>e_base = 0, e_len = 2097152, e_type = 1\<rparr>] pmm_boot) = Inr ([a], s') \<and>
     257 \<le> unat a div 4096 \<and> unat a + 4096 \<le> 2097152"
proof -
  let ?e = "\<lparr>e_base = 0, e_len = 2097152, e_type = 1\<rparr> :: e820_entry"
  let ?s = "pmm_init 0xFFFFFFFF80101000 [?e] pmm_boot"
  have k: "unat (kernel_end_phys 0xFFFFFFFF80101000) = 1052672"
    by (simp add: kernel_end_phys_def)
  note init = pmm_init_result [of "0xFFFFFFFF80101000", unfolded k, of "[?e]"]
  have "300 \<in> free_set ?s"
    using pmm_init_free_set [of "0xFFFFFFFF80101000" "[?e]"]
    by (simp add: k entry_pages_def)
  then have "1 \<le> card (free_set ?s)" by (metis One_nat_def Suc_leI card_gt_0_iff empty_iff finite_free_set)
  then obtain frames s' where r: "alloc_many pmm_alloc 1 ?s = Inr (frames, s')"
    using pmm.alloc_many_succeeds [OF init(1)] by force
  then have "length frames = 1" using pmm.alloc_many_ok [OF init(1)] by force
  then obtain a where a: "frames = [a]" by (auto simp: length_Suc_conv)
  show ?thesis
    using pmm_init_protects_kernel [OF _ _ r, unfolded k, of a] r a by auto
qed

end
