(* ===== verification/Kheap.thy ===== *)
theory Kheap
  imports Pmm
begin

text \<open>
  The kernel heap (\<^verbatim>\<open>kernel/kheap.c\<close>): power-of-two free lists, threaded through the free objects
  themselves, on top of the page allocator, and whole page runs for large requests. The free list
  heads and the object headers are read and written in the modelled physical memory, so a header
  shares its 8-byte cell with the link of a free object as it does in the C structs. Pointers are
  64-bit virtual addresses in the direct map, \<open>0\<close> is \<^verbatim>\<open>NULL\<close>.
\<close>

section \<open>State and operations\<close>

abbreviation PHYS_MAP_BASE :: u64 where "PHYS_MAP_BASE \<equiv> 0xFFFF800000000000"
abbreviation MIN_SHIFT :: nat where "MIN_SHIFT \<equiv> 4"
abbreviation MAX_SHIFT :: nat where "MAX_SHIFT \<equiv> 11"
abbreviation MAGIC_SMALL :: u32 where "MAGIC_SMALL \<equiv> 0x4B534D4C"
abbreviation MAGIC_LARGE :: u32 where "MAGIC_LARGE \<equiv> 0x4B4C5247"

record kheap_state =
  pm :: pmm_state
  freelist :: "nat \<Rightarrow> u64"

datatype heap_panic = Pmm pmm_panic | BadMagic u32 u64 | ClassOverrun u32

definition P2V :: "u64 \<Rightarrow> u64" where "P2V p = p + PHYS_MAP_BASE"
definition V2P :: "u64 \<Rightarrow> u64" where "V2P v = v - PHYS_MAP_BASE"

text \<open>The aligned 8-byte cell behind a virtual address.\<close>

definition load :: "u64 \<Rightarrow> kheap_state \<Rightarrow> u64" where
  "load v s = cells (pm s) (unat (V2P v) div 8)"

definition store :: "u64 \<Rightarrow> u64 \<Rightarrow> kheap_state \<Rightarrow> kheap_state" where
  "store v x s = s\<lparr>pm := (pm s)\<lparr>cells := (cells (pm s))(unat (V2P v) div 8 := x)\<rparr>\<rparr>"

text \<open>\<^verbatim>\<open>struct hdr\<close>: \<^verbatim>\<open>magic\<close> in the low half of the cell, \<^verbatim>\<open>info\<close> in the high half.\<close>

definition hdr :: "u32 \<Rightarrow> u32 \<Rightarrow> u64" where
  "hdr magic info = push_bit 32 (ucast info) OR ucast magic"

definition hdr_magic :: "u64 \<Rightarrow> u32" where "hdr_magic c = ucast c"
definition hdr_info :: "u64 \<Rightarrow> u32" where "hdr_info c = ucast (drop_bit 32 c)"

definition push_free :: "nat \<Rightarrow> u64 \<Rightarrow> kheap_state \<Rightarrow> kheap_state" where
  "push_free shift obj s = (store obj (freelist s shift) s)\<lparr>freelist := (freelist s)(shift := obj)\<rparr>"

definition refill :: "nat \<Rightarrow> kheap_state \<Rightarrow> heap_panic + kheap_state" where
  "refill shift s = (case pmm_alloc (pm s) of
     Inl e \<Rightarrow> Inl (Pmm e)
   | Inr (phys, p') \<Rightarrow>
       Inr (fold (\<lambda>k. push_free shift (P2V phys + of_nat (k * 2 ^ shift)))
              [0 ..< 4096 div 2 ^ shift] (s\<lparr>pm := p'\<rparr>)))"

text \<open>\<^verbatim>\<open>while ((1 << shift) < need) shift++\<close>, entered with \<^verbatim>\<open>need <= 1 << MAX_SHIFT\<close>.\<close>

lemma less_of_exp_less: "2 ^ n < (m::nat) \<Longrightarrow> n < m"
  using less_exp [of n] by (rule less_trans)

function size_class :: "nat \<Rightarrow> nat \<Rightarrow> nat" where
  "size_class need shift = (if 2 ^ shift < need then size_class need (shift + 1) else shift)"
  by pat_completeness auto
termination
  by (relation "measure (\<lambda>(need, shift). need - shift)") (auto dest: less_of_exp_less)

declare size_class.simps [simp del]

definition kmalloc :: "u64 \<Rightarrow> kheap_state \<Rightarrow> heap_panic + u64 \<times> kheap_state" where
  "kmalloc sz s = (if sz = 0 then Inr (0, s) else
     let need = sz + 8 in
     if need \<le> push_bit MAX_SHIFT 1 then
       let shift = size_class (unat need) MIN_SHIFT in
       (case (if freelist s shift = 0 then refill shift s else Inr s) of
          Inl e \<Rightarrow> Inl e
        | Inr s1 \<Rightarrow>
            let obj = freelist s1 shift in
            if obj = 0 then Inr (0, s1) else
            let s2 = s1\<lparr>freelist := (freelist s1)(shift := load obj s1)\<rparr>
            in Inr (obj + 8, store obj (hdr MAGIC_SMALL (of_nat shift)) s2))
     else
       let npages = sint (ucast ((need + PAGE_SIZE - 1) div PAGE_SIZE) :: u32) in
       (case pmm_alloc_contig npages (pm s) of
          Inl e \<Rightarrow> Inl (Pmm e)
        | Inr (phys, p') \<Rightarrow>
            Inr (P2V phys + 8, store (P2V phys) (hdr MAGIC_LARGE (of_int npages)) (s\<lparr>pm := p'\<rparr>))))"

definition kfree :: "u64 \<Rightarrow> kheap_state \<Rightarrow> heap_panic + kheap_state" where
  "kfree ptr s = (if ptr = 0 then Inr s else
     let h = ptr - 8; c = load h s in
     if hdr_magic c = MAGIC_SMALL then
       let shift = hdr_info c; s1 = store h (hdr 0 (hdr_info c)) s in
       if unat shift > MAX_SHIFT then Inl (ClassOverrun shift)
       else Inr (push_free (unat shift) h s1)
     else if hdr_magic c = MAGIC_LARGE then
       let s1 = store h (hdr 0 (hdr_info c)) s in
       (case pmm_free_contig (V2P h) (sint (hdr_info c)) (pm s1) of
          Inl e \<Rightarrow> Inl (Pmm e)
        | Inr p' \<Rightarrow> Inr (s1\<lparr>pm := p'\<rparr>))
     else Inl (BadMagic (hdr_magic c) ptr))"

text \<open>\<^verbatim>\<open>memset(p, 0, size)\<close> for an 8-byte aligned \<open>p\<close>: whole cells, then the low bytes of the last.\<close>

definition clear_bytes :: "u64 \<Rightarrow> u64 \<Rightarrow> kheap_state \<Rightarrow> kheap_state" where
  "clear_bytes p sz s = (let a = unat (V2P p) div 8; full = unat sz div 8; r = unat sz mod 8 in
     s\<lparr>pm := (pm s)\<lparr>cells := (\<lambda>c. if a \<le> c \<and> c < a + full then 0
       else if c = a + full then cells (pm s) c AND NOT (mask (8 * r)) else cells (pm s) c)\<rparr>\<rparr>)"

definition kzalloc :: "u64 \<Rightarrow> kheap_state \<Rightarrow> heap_panic + u64 \<times> kheap_state" where
  "kzalloc sz s = (case kmalloc sz s of
     Inl e \<Rightarrow> Inl e
   | Inr (p, s') \<Rightarrow> Inr (p, if p = 0 then s' else clear_bytes p sz s'))"

section \<open>Well-formed heaps\<close>

datatype kind = Small nat | Large nat

type_synonym hobj = "nat \<times> kind"

fun osize :: "kind \<Rightarrow> nat" where
  "osize (Small sh) = 2 ^ sh"
| "osize (Large n) = n * 4096"

fun ohdr :: "kind \<Rightarrow> u64" where
  "ohdr (Small sh) = hdr MAGIC_SMALL (of_nat sh)"
| "ohdr (Large n) = hdr MAGIC_LARGE (of_nat n)"

definition range_of :: "hobj \<Rightarrow> nat set" where
  "range_of ob = {fst ob ..< fst ob + osize (snd ob)}"

text \<open>The free list threaded through memory, as the list of physical addresses it visits.\<close>

fun chain :: "(nat \<Rightarrow> u64) \<Rightarrow> u64 \<Rightarrow> nat list \<Rightarrow> bool" where
  "chain c p [] \<longleftrightarrow> p = 0"
| "chain c p (b # bs) \<longleftrightarrow> p = P2V (of_nat b) \<and> chain c (c (b div 8)) bs"

definition free_objs :: "(nat \<Rightarrow> nat list) \<Rightarrow> hobj set" where
  "free_objs fl = {(b, Small sh) | b sh. 4 \<le> sh \<and> sh \<le> 11 \<and> b \<in> set (fl sh)}"

definition placed :: "pmm_state \<Rightarrow> hobj \<Rightarrow> bool" where
  "placed p ob \<longleftrightarrow> (case snd ob of
       Small sh \<Rightarrow> 4 \<le> sh \<and> sh \<le> 11 \<and> 2 ^ sh dvd fst ob
     | Large n \<Rightarrow> 0 < n \<and> n < 2 ^ 31 \<and> 4096 dvd fst ob) \<and>
     fst ob + osize (snd ob) \<le> unat (max_phys p) \<and> (\<forall>a \<in> range_of ob. is_used p (a div 4096))"

text \<open>
  \<open>heap_ok s fl live\<close>: \<open>fl\<close> lists the free objects of each class in list order, \<open>live\<close> is
  the set of allocated objects; every object lies in allocated pages, no two overlap, and every
  live object carries its header.
\<close>

definition heap_ok :: "kheap_state \<Rightarrow> (nat \<Rightarrow> nat list) \<Rightarrow> hobj set \<Rightarrow> bool" where
  "heap_ok s fl live \<longleftrightarrow> pmm_inv (pm s) \<and>
     (\<forall>sh. 4 \<le> sh \<and> sh \<le> 11 \<longrightarrow> distinct (fl sh) \<and> chain (cells (pm s)) (freelist s sh) (fl sh)) \<and>
     free_objs fl \<inter> live = {} \<and>
     (\<forall>ob \<in> free_objs fl \<union> live. placed (pm s) ob) \<and>
     (\<forall>x \<in> free_objs fl \<union> live. \<forall>y \<in> free_objs fl \<union> live. x \<noteq> y \<longrightarrow> range_of x \<inter> range_of y = {}) \<and>
     (\<forall>ob \<in> live. cells (pm s) (fst ob div 8) = ohdr (snd ob))"

section \<open>Addresses and headers\<close>

lemma V2P_P2V [simp]: "V2P (P2V x) = x"
  by (simp add: V2P_def P2V_def)

lemma V2P_P2V_add [simp]: "V2P (P2V x + y) = x + y"
  by (simp add: V2P_def P2V_def)

lemma P2V_nonzero: "b \<le> 4294967296 \<Longrightarrow> P2V (of_nat b) \<noteq> 0"
proof
  assume b: "b \<le> 4294967296" and "P2V (of_nat b) = 0"
  then have "unat (of_nat b + PHYS_MAP_BASE) = 0" by (simp add: P2V_def)
  then show False using b by (simp add: unat_word_ariths unat_of_nat mod_less)
qed

lemma unat_phys: "b \<le> 4294967296 \<Longrightarrow> unat (of_nat b :: u64) = b"
  by (simp add: unat_of_nat mod_less)

lemma hdr_magic_hdr [simp]: "hdr_magic (hdr m i) = m"
  by (rule bit_word_eqI) (auto simp: hdr_magic_def hdr_def bit_or_iff bit_push_bit_iff bit_ucast_iff)

lemma hdr_info_hdr [simp]: "hdr_info (hdr m i) = i"
  by (rule bit_word_eqI)
    (auto simp: hdr_info_def hdr_def bit_or_iff bit_push_bit_iff bit_ucast_iff bit_drop_bit_eq
      dest: bit_imp_le_length)

lemma load_at: "b \<le> 4294967296 \<Longrightarrow> load (P2V (of_nat b)) s = cells (pm s) (b div 8)"
  by (simp add: load_def unat_phys)

lemma store_at: "b \<le> 4294967296 \<Longrightarrow> store (P2V (of_nat b)) x s =
    s\<lparr>pm := (pm s)\<lparr>cells := (cells (pm s))(b div 8 := x)\<rparr>\<rparr>"
  by (simp add: store_def unat_phys)

lemma pmm_inv_cells [simp]: "pmm_inv (p\<lparr>cells := c\<rparr>) = pmm_inv p"
  by (simp add: pmm_inv_def free_set_def)

lemma placed_cells [simp]: "placed (p\<lparr>cells := c\<rparr>) ob = placed p ob"
  by (simp add: placed_def)

lemma size_class_bounds:
  "need \<le> 2048 \<Longrightarrow> sh \<le> 11 \<Longrightarrow> sh \<le> size_class need sh \<and> size_class need sh \<le> 11 \<and>
     need \<le> 2 ^ size_class need sh"
proof (induction need sh rule: size_class.induct)
  case (1 need sh)
  show ?case
  proof (cases "2 ^ sh < need")
    case True
    then have "sh \<noteq> 11" using "1.prems" by auto
    then show ?thesis using True "1.IH" "1.prems" by (simp add: size_class.simps [of need sh])
  next
    case False
    then show ?thesis using "1.prems" by (simp add: size_class.simps [of need sh])
  qed
qed

section \<open>Objects\<close>

lemma placed_aligned: "placed p ob \<Longrightarrow> 8 dvd fst ob \<and> 16 \<le> osize (snd ob)"
proof (cases "snd ob")
  case (Small sh)
  assume "placed p ob"
  then have sh: "4 \<le> sh" "2 ^ sh dvd fst ob" using Small by (simp_all add: placed_def)
  have "(8::nat) dvd 2 ^ sh" using le_imp_power_dvd [of 3 sh "2::nat"] sh(1) by simp
  moreover have "(16::nat) \<le> 2 ^ sh" using power_increasing [of 4 sh "2::nat"] sh(1) by simp
  ultimately show ?thesis using sh(2) Small by (auto intro: dvd_trans)
next
  case (Large n)
  assume "placed p ob"
  then have "0 < n" "4096 dvd fst ob" using Large by (simp_all add: placed_def)
  moreover have "(8::nat) dvd 4096" by simp
  ultimately show ?thesis using Large by (auto intro: dvd_trans)
qed

lemma placed_bound: "placed p ob \<Longrightarrow> pmm_inv p \<Longrightarrow> fst ob \<le> 4294967296"
  by (simp add: placed_def pmm_inv_def)

lemma base_in_range: "placed p ob \<Longrightarrow> fst ob \<in> range_of ob"
  using placed_aligned [of p ob] by (simp add: range_of_def)

lemma disjoint_cells:
  assumes "placed p x" and "placed p y" and "range_of x \<inter> range_of y = {}"
  shows "fst x div 8 \<noteq> fst y div 8"
proof
  assume "fst x div 8 = fst y div 8"
  then have "fst x = fst y" using placed_aligned [OF assms(1)] placed_aligned [OF assms(2)]
    by (metis dvd_div_mult_self)
  then show False using base_in_range [OF assms(1)] base_in_range [OF assms(2)] assms(3) by auto
qed

lemma chain_cong:
  "chain c p bs \<Longrightarrow> (\<And>b. b \<in> set bs \<Longrightarrow> c' (b div 8) = c (b div 8)) \<Longrightarrow> chain c' p bs"
  by (induction bs arbitrary: p) auto

lemma free_objs_mem: "(b, Small sh) \<in> free_objs fl \<longleftrightarrow> 4 \<le> sh \<and> sh \<le> 11 \<and> b \<in> set (fl sh)"
  by (auto simp: free_objs_def)

lemma free_objs_Large: "(b, Large n) \<notin> free_objs fl"
  by (auto simp: free_objs_def)

lemma free_objs_push:
  "4 \<le> sh \<Longrightarrow> sh \<le> 11 \<Longrightarrow> free_objs (fl(sh := b # fl sh)) = insert (b, Small sh) (free_objs fl)"
  by (auto simp: free_objs_def split: if_splits)

lemma free_objs_pop:
  "4 \<le> sh \<Longrightarrow> sh \<le> 11 \<Longrightarrow> fl sh = b # bs \<Longrightarrow> distinct (fl sh) \<Longrightarrow>
   free_objs (fl(sh := bs)) = free_objs fl - {(b, Small sh)}"
proof (rule set_eqI)
  fix x :: hobj
  assume "4 \<le> sh" "sh \<le> 11" "fl sh = b # bs" "distinct (fl sh)"
  then show "x \<in> free_objs (fl(sh := bs)) \<longleftrightarrow> x \<in> free_objs fl - {(b, Small sh)}"
    by (cases x; cases "snd x") (auto simp: free_objs_mem free_objs_Large)
qed

section \<open>The two list operations\<close>

lemma heap_okI:
  assumes "pmm_inv (pm s)"
    and "\<And>sh. 4 \<le> sh \<Longrightarrow> sh \<le> 11 \<Longrightarrow> distinct (fl sh)"
    and "\<And>sh. 4 \<le> sh \<Longrightarrow> sh \<le> 11 \<Longrightarrow> chain (cells (pm s)) (freelist s sh) (fl sh)"
    and "free_objs fl \<inter> live = {}"
    and "\<And>ob. ob \<in> free_objs fl \<union> live \<Longrightarrow> placed (pm s) ob"
    and "\<And>x y. x \<in> free_objs fl \<union> live \<Longrightarrow> y \<in> free_objs fl \<union> live \<Longrightarrow> x \<noteq> y \<Longrightarrow>
      range_of x \<inter> range_of y = {}"
    and "\<And>ob. ob \<in> live \<Longrightarrow> cells (pm s) (fst ob div 8) = ohdr (snd ob)"
  shows "heap_ok s fl live"
  using assms by (simp add: heap_ok_def)

lemma heap_okD:
  assumes "heap_ok s fl live"
  shows "pmm_inv (pm s)"
    and "\<And>sh. 4 \<le> sh \<Longrightarrow> sh \<le> 11 \<Longrightarrow> distinct (fl sh)"
    and "\<And>sh. 4 \<le> sh \<Longrightarrow> sh \<le> 11 \<Longrightarrow> chain (cells (pm s)) (freelist s sh) (fl sh)"
    and "free_objs fl \<inter> live = {}"
    and "\<And>ob. ob \<in> free_objs fl \<union> live \<Longrightarrow> placed (pm s) ob"
    and "\<And>x y. x \<in> free_objs fl \<union> live \<Longrightarrow> y \<in> free_objs fl \<union> live \<Longrightarrow> x \<noteq> y \<Longrightarrow>
      range_of x \<inter> range_of y = {}"
    and "\<And>ob. ob \<in> live \<Longrightarrow> cells (pm s) (fst ob div 8) = ohdr (snd ob)"
  using assms by (simp_all add: heap_ok_def)

lemma push_free_ok:
  assumes ok: "heap_ok s fl live" and pl: "placed (pm s) (b, Small sh)"
    and sep: "\<forall>x \<in> free_objs fl \<union> live. range_of (b, Small sh) \<inter> range_of x = {}"
  shows "heap_ok (push_free sh (P2V (of_nat b)) s) (fl(sh := b # fl sh)) live"
proof -
  let ?n = "(b, Small sh)"
  have inv: "pmm_inv (pm s)" using ok by (simp add: heap_ok_def)
  have b: "b \<le> 4294967296" using placed_bound [OF pl inv] by simp
  have sh: "4 \<le> sh" "sh \<le> 11" using pl by (simp_all add: placed_def)
  have pls: "\<forall>x \<in> free_objs fl \<union> live. placed (pm s) x" using ok by (simp add: heap_ok_def)
  have cell: "fst x div 8 \<noteq> b div 8" if "x \<in> free_objs fl \<union> live" for x
    using disjoint_cells [OF pl, of x] pls sep that by auto
  have new: "?n \<notin> free_objs fl \<union> live" using sep base_in_range [OF pl] by auto
  let ?s = "push_free sh (P2V (of_nat b)) s"
  let ?c = "(cells (pm s))(b div 8 := freelist s sh)"
  have s: "pm ?s = (pm s)\<lparr>cells := ?c\<rparr>" "freelist ?s = (freelist s)(sh := P2V (of_nat b))"
    by (simp_all add: push_free_def store_at [OF b])
  have ch: "chain ?c (freelist s t) (fl t)" if t: "4 \<le> t" "t \<le> 11" for t
  proof (rule chain_cong [OF heap_okD(3) [OF ok t]])
    fix a assume "a \<in> set (fl t)"
    then show "?c (a div 8) = cells (pm s) (a div 8)"
      using cell [of "(a, Small t)"] t by (simp add: free_objs_mem)
  qed
  show ?thesis
  proof (rule heap_okI, unfold free_objs_push [OF sh] s)
    show "pmm_inv (pm s\<lparr>cells := ?c\<rparr>)" using inv by simp
    fix t :: nat assume t: "4 \<le> t" "t \<le> 11"
    show "distinct ((fl(sh := b # fl sh)) t)"
      using heap_okD(2) [OF ok t] new sh by (auto simp: free_objs_mem)
    show "chain (cells (pm s\<lparr>cells := ?c\<rparr>)) (((freelist s)(sh := P2V (of_nat b))) t)
        ((fl(sh := b # fl sh)) t)"
      using ch [OF t] ch [OF sh] by simp
  next
    show "insert ?n (free_objs fl) \<inter> live = {}" using heap_okD(4) [OF ok] new by blast
  next
    fix ob assume "ob \<in> insert ?n (free_objs fl) \<union> live"
    then show "placed (pm s\<lparr>cells := ?c\<rparr>) ob" using pl pls by auto
  next
    fix x y assume "x \<in> insert ?n (free_objs fl) \<union> live" "y \<in> insert ?n (free_objs fl) \<union> live" "x \<noteq> y"
    then show "range_of x \<inter> range_of y = {}"
      using heap_okD(6) [OF ok, of x y] sep by (auto simp: Int_commute)
  next
    fix ob assume "ob \<in> live"
    then show "cells (pm s\<lparr>cells := ?c\<rparr>) (fst ob div 8) = ohdr (snd ob)"
      using heap_okD(7) [OF ok] cell by simp
  qed
qed

lemma pop_free_ok:
  assumes ok: "heap_ok s fl live" and sh: "4 \<le> sh" "sh \<le> 11" and ne: "freelist s sh \<noteq> 0"
  obtains b where "freelist s sh = P2V (of_nat b)" and "(b, Small sh) \<in> free_objs fl"
    and "heap_ok (store (P2V (of_nat b)) (hdr MAGIC_SMALL (of_nat sh))
        (s\<lparr>freelist := (freelist s)(sh := load (P2V (of_nat b)) s)\<rparr>))
      (fl(sh := tl (fl sh))) (insert (b, Small sh) live)"
proof -
  have inv: "pmm_inv (pm s)" using ok by (simp add: heap_ok_def)
  have lst: "distinct (fl sh)" "chain (cells (pm s)) (freelist s sh) (fl sh)"
    using ok sh by (simp_all add: heap_ok_def)
  then obtain b bs where fl: "fl sh = b # bs" using ne by (cases "fl sh") auto
  have head: "freelist s sh = P2V (of_nat b)" "chain (cells (pm s)) (cells (pm s) (b div 8)) bs"
    using lst fl by simp_all
  have mem: "(b, Small sh) \<in> free_objs fl" using fl sh by (simp add: free_objs_mem)
  have pls: "\<forall>x \<in> free_objs fl \<union> live. placed (pm s) x" using ok by (simp add: heap_ok_def)
  have pl: "placed (pm s) (b, Small sh)" using pls mem by blast
  have b: "b \<le> 4294967296" using placed_bound [OF pl inv] by simp
  let ?h = "hdr MAGIC_SMALL (of_nat sh)"
  let ?c = "(cells (pm s))(b div 8 := ?h)"
  let ?s = "store (P2V (of_nat b)) ?h (s\<lparr>freelist := (freelist s)(sh := load (P2V (of_nat b)) s)\<rparr>)"
  have s: "pm ?s = (pm s)\<lparr>cells := ?c\<rparr>" "freelist ?s = (freelist s)(sh := cells (pm s) (b div 8))"
    by (simp_all add: store_at [OF b] load_at [OF b])
  have rest: "free_objs (fl(sh := bs)) = free_objs fl - {(b, Small sh)}"
    using sh fl lst(1) by (intro free_objs_pop)
  have cell: "fst x div 8 \<noteq> b div 8" if "x \<in> free_objs fl \<union> live" "x \<noteq> (b, Small sh)" for x
    using disjoint_cells [OF pl, of x] heap_okD(6) [OF ok, of "(b, Small sh)" x] pls that mem
    by (metis UnI1 fst_conv)
  have objs: "free_objs (fl(sh := bs)) \<union> insert (b, Small sh) live = free_objs fl \<union> live"
    using rest mem by blast
  have "heap_ok ?s (fl(sh := bs)) (insert (b, Small sh) live)"
  proof (rule heap_okI, unfold objs s)
    show "pmm_inv (pm s\<lparr>cells := ?c\<rparr>)" using inv by simp
    fix t :: nat assume t: "4 \<le> t" "t \<le> 11"
    show "distinct ((fl(sh := bs)) t)"
      using heap_okD(2) [OF ok t] lst(1) fl by simp
    have "chain (cells (pm s)) (((freelist s)(sh := cells (pm s) (b div 8))) t) ((fl(sh := bs)) t)"
      using heap_okD(3) [OF ok t] head(2) by simp
    moreover have "?c (a div 8) = cells (pm s) (a div 8)" if "a \<in> set ((fl(sh := bs)) t)" for a
    proof -
      have "(a, Small t) \<in> free_objs (fl(sh := bs))" using that t by (simp only: free_objs_mem)
      then show ?thesis using cell [of "(a, Small t)"] unfolding rest by simp
    qed
    ultimately show "chain (cells (pm s\<lparr>cells := ?c\<rparr>)) (((freelist s)(sh := cells (pm s) (b div 8))) t)
        ((fl(sh := bs)) t)"
      using chain_cong [where c' = ?c] by simp
  next
    show "free_objs (fl(sh := bs)) \<inter> insert (b, Small sh) live = {}"
      using heap_okD(4) [OF ok] unfolding rest by blast
  next
    fix ob assume "ob \<in> free_objs fl \<union> live"
    then show "placed (pm s\<lparr>cells := ?c\<rparr>) ob" using pls by simp
  next
    fix x y assume "x \<in> free_objs fl \<union> live" "y \<in> free_objs fl \<union> live" "x \<noteq> y"
    then show "range_of x \<inter> range_of y = {}" by (rule heap_okD(6) [OF ok])
  next
    fix ob assume ob: "ob \<in> insert (b, Small sh) live"
    show "cells (pm s\<lparr>cells := ?c\<rparr>) (fst ob div 8) = ohdr (snd ob)"
    proof (cases "ob = (b, Small sh)")
      case False
      then show ?thesis using ob heap_okD(7) [OF ok] cell [of ob] by simp
    qed simp
  qed
  then show thesis using that head(1) mem fl by simp
qed

section \<open>Client writes\<close>

lemma heap_ok_pm:
  assumes ok: "heap_ok s fl live" and inv: "pmm_inv p'"
    and pl: "\<And>x. x \<in> free_objs fl \<union> live \<Longrightarrow> placed p' x"
    and same: "\<And>x. x \<in> free_objs fl \<union> live \<Longrightarrow> cells p' (fst x div 8) = cells (pm s) (fst x div 8)"
  shows "heap_ok (s\<lparr>pm := p'\<rparr>) fl live"
proof (rule heap_okI)
  let ?s = "s\<lparr>pm := p'\<rparr>"
  show "pmm_inv (pm ?s)" using inv by simp
  show "distinct (fl t)" if "4 \<le> t" "t \<le> 11" for t by (rule heap_okD(2) [OF ok that])
  show "chain (cells (pm ?s)) (freelist ?s t) (fl t)" if t: "4 \<le> t" "t \<le> 11" for t
  proof -
    have "cells p' (a div 8) = cells (pm s) (a div 8)" if "a \<in> set (fl t)" for a
      using same [of "(a, Small t)"] that t by (simp add: free_objs_mem)
    then show ?thesis using chain_cong [OF heap_okD(3) [OF ok t], of "cells p'"] by simp
  qed
  show "free_objs fl \<inter> live = {}" by (rule heap_okD(4) [OF ok])
  show "placed (pm ?s) x" if "x \<in> free_objs fl \<union> live" for x using pl [OF that] by simp
  show "range_of x \<inter> range_of y = {}"
    if "x \<in> free_objs fl \<union> live" "y \<in> free_objs fl \<union> live" "x \<noteq> y" for x y
    by (rule heap_okD(6) [OF ok that])
  show "cells (pm ?s) (fst x div 8) = ohdr (snd x)" if "x \<in> live" for x
    using heap_okD(7) [OF ok that] same [of x] that by simp
qed

lemma heap_ok_cells:
  assumes ok: "heap_ok s fl live" and q: "q = (pm s)\<lparr>cells := c\<rparr>"
    and same: "\<And>x. x \<in> free_objs fl \<union> live \<Longrightarrow> c (fst x div 8) = cells (pm s) (fst x div 8)"
  shows "heap_ok (s\<lparr>pm := q\<rparr>) fl live"
  by (rule heap_ok_pm [OF ok]) (use heap_okD(1,5) [OF ok] q same in simp_all)

text \<open>A client may write anywhere in its object behind the header.\<close>

lemma heap_ok_client_write:
  assumes ok: "heap_ok s fl live" and ob: "ob \<in> live"
    and pay: "8 * c \<in> range_of ob" and hd: "c \<noteq> fst ob div 8"
  shows "heap_ok (s\<lparr>pm := (pm s)\<lparr>cells := (cells (pm s))(c := x)\<rparr>\<rparr>) fl live"
proof -
  have diff: "fst y div 8 \<noteq> c" if y: "y \<in> free_objs fl \<union> live" for y
  proof (cases "y = ob")
    case False
    then have "range_of y \<inter> range_of ob = {}" using heap_okD(6) [OF ok y, of ob] ob by blast
    moreover have "8 * (fst y div 8) \<in> range_of y"
      using base_in_range placed_aligned heap_okD(5) [OF ok y] by fastforce
    ultimately show ?thesis using pay by auto
  qed (use hd in simp)
  show ?thesis by (rule heap_ok_cells [OF ok refl]) (use diff in simp)
qed

section \<open>Fresh pages\<close>

text \<open>Claiming pages that were free leaves every object in place.\<close>

lemma heap_ok_new_pages:
  assumes ok: "heap_ok s fl live" and inv: "pmm_inv p'"
    and used: "\<And>q. is_used (pm s) q \<Longrightarrow> is_used p' q" and top: "max_phys p' = max_phys (pm s)"
    and same: "\<And>c. is_used (pm s) (8 * c div 4096) \<Longrightarrow> cells p' c = cells (pm s) c"
  shows "heap_ok (s\<lparr>pm := p'\<rparr>) fl live"
proof -
  have pl: "placed p' y" if "y \<in> free_objs fl \<union> live" for y
    using heap_okD(5) [OF ok that] used top by (auto simp: placed_def split: kind.splits)
  have cell: "cells p' (fst y div 8) = cells (pm s) (fst y div 8)" if y: "y \<in> free_objs fl \<union> live" for y
  proof (rule same)
    have "8 * (fst y div 8) = fst y" using placed_aligned [OF heap_okD(5) [OF ok y]] by simp
    then show "is_used (pm s) (8 * (fst y div 8) div 4096)"
      using heap_okD(5) [OF ok y] base_in_range [OF heap_okD(5) [OF ok y]] by (simp add: placed_def)
  qed
  show ?thesis by (rule heap_ok_pm [OF ok inv pl cell])
qed

text \<open>An object inside pages that were free overlaps no object of the heap.\<close>

lemma fresh_disjoint:
  assumes ok: "heap_ok s fl live" and y: "y \<in> free_objs fl \<union> live"
    and free: "\<And>a. a \<in> range_of x \<Longrightarrow> \<not> is_used (pm s) (a div 4096)"
  shows "range_of x \<inter> range_of y = {}"
  using heap_okD(5) [OF ok y] free by (auto simp: placed_def)

lemma page_index: "p * 4096 \<le> a \<Longrightarrow> a < p * 4096 + 4096 \<Longrightarrow> a div 4096 = (p::nat)"
  by (simp add: div_nat_eqI)

lemma fold_push_ok:
  assumes "heap_ok s fl live" and "distinct ks"
    and "\<And>k. k \<in> set ks \<Longrightarrow> placed (pm s) (base + k * 2 ^ sh, Small sh)"
    and "\<And>k x. k \<in> set ks \<Longrightarrow> x \<in> free_objs fl \<union> live \<Longrightarrow>
      range_of (base + k * 2 ^ sh, Small sh) \<inter> range_of x = {}"
  shows "\<exists>fl'. heap_ok (fold (\<lambda>k. push_free sh (P2V (of_nat (base + k * 2 ^ sh)))) ks s) fl' live \<and>
     (ks \<noteq> [] \<longrightarrow> fl' sh \<noteq> []) \<and> (fl sh \<noteq> [] \<longrightarrow> fl' sh \<noteq> [])"
  using assms
proof (induction ks arbitrary: s fl)
  case Nil
  then show ?case by auto
next
  case (Cons k ks)
  let ?b = "base + k * 2 ^ sh"
  let ?s = "push_free sh (P2V (of_nat ?b)) s" and ?fl = "fl(sh := ?b # fl sh)"
  have pl: "placed (pm s) (?b, Small sh)" using Cons.prems(3) by simp
  have sh: "4 \<le> sh" "sh \<le> 11" using pl by (simp_all add: placed_def)
  have ok: "heap_ok ?s ?fl live" using push_free_ok [OF Cons.prems(1) pl] Cons.prems(4) by simp
  have pm: "placed (pm ?s) = placed (pm s)"
    by (simp add: fun_eq_iff push_free_def store_def)
  have sep: "range_of (base + j * 2 ^ sh, Small sh) \<inter> range_of x = {}"
    if j: "j \<in> set ks" and x: "x \<in> free_objs ?fl \<union> live" for j x
  proof (cases "x = (?b, Small sh)")
    case True
    have "j \<noteq> k" using j Cons.prems(2) by auto
    then have "j * 2 ^ sh + 2 ^ sh \<le> k * 2 ^ sh \<or> k * 2 ^ sh + 2 ^ sh \<le> j * 2 ^ sh"
      by (metis Suc_leI add.commute linorder_neqE_nat mult_Suc mult_le_mono1)
    then show ?thesis unfolding True range_of_def by auto
  next
    case False
    then show ?thesis using x Cons.prems(4) [of j x] j by (auto simp: free_objs_push [OF sh])
  qed
  have "\<exists>fl'. heap_ok (fold (\<lambda>k. push_free sh (P2V (of_nat (base + k * 2 ^ sh)))) ks ?s) fl' live \<and>
      (ks \<noteq> [] \<longrightarrow> fl' sh \<noteq> []) \<and> (?fl sh \<noteq> [] \<longrightarrow> fl' sh \<noteq> [])"
  proof (rule Cons.IH [OF ok])
    show "distinct ks" using Cons.prems(2) by simp
    show "placed (pm ?s) (base + j * 2 ^ sh, Small sh)" if "j \<in> set ks" for j
      unfolding pm using Cons.prems(3) that by simp
  qed (rule sep)
  then show ?case by auto
qed

lemma refill_ok:
  assumes ok: "heap_ok s fl live" and sh: "4 \<le> sh" "sh \<le> 11" and ret: "refill sh s = Inr s'"
  shows "\<exists>fl'. heap_ok s' fl' live \<and> fl' sh \<noteq> [] \<and> freelist s' sh \<noteq> 0"
proof -
  have inv: "pmm_inv (pm s)" by (rule heap_okD(1) [OF ok])
  from ret obtain phys p' where al: "pmm_alloc (pm s) = Inr (phys, p')"
    and s': "s' = fold (\<lambda>k. push_free sh (P2V phys + of_nat (k * 2 ^ sh))) [0 ..< 4096 div 2 ^ sh] (s\<lparr>pm := p'\<rparr>)"
    by (auto simp: refill_def split: sum.splits)
  obtain p where p: "unat phys = p * 4096" "\<not> is_used (pm s) p" "\<forall>q. is_used p' q \<longleftrightarrow> q = p \<or> is_used (pm s) q"
      "\<forall>c. cells p' c = (if p * 512 \<le> c \<and> c < (p + 1) * 512 then 0 else cells (pm s) c)" "pmm_inv p'"
    using pmm_alloc_step [OF inv al] by blast
  have top: "max_phys p' = max_phys (pm s)" "p \<in> free_set (pm s)"
    using pmm_alloc_page [OF inv al] pmm_alloc_law [OF inv al] p(1) by simp_all
  have ok1: "heap_ok (s\<lparr>pm := p'\<rparr>) fl live"
  proof (rule heap_ok_new_pages [OF ok p(5)])
    show "is_used p' q" if "is_used (pm s) q" for q using p(3) that by blast
    show "max_phys p' = max_phys (pm s)" by (rule top(1))
    show "cells p' c = cells (pm s) c" if "is_used (pm s) (8 * c div 4096)" for c
    proof -
      have "8 * c div 4096 \<noteq> p" using that p(2) by blast
      then have "\<not> (p * 512 \<le> c \<and> c < (p + 1) * 512)" by (auto simp: div_nat_eqI)
      then show ?thesis using p(4) by auto
    qed
  qed
  have split: "4096 div 2 ^ sh * 2 ^ sh = (4096::nat)"
  proof -
    have "(2::nat) ^ sh dvd 2 ^ 12" using sh(2) by (intro le_imp_power_dvd) simp
    then show ?thesis by (simp add: dvd_div_mult_self)
  qed
  have off: "k * 2 ^ sh + 2 ^ sh \<le> 4096" if "k < 4096 div 2 ^ sh" for k :: nat
  proof -
    have "Suc k * 2 ^ sh \<le> 4096 div 2 ^ sh * 2 ^ sh" using that by (intro mult_le_mono1) simp
    then show ?thesis using split by simp
  qed
  have page: "a div 4096 = p" if "k < 4096 div 2 ^ sh" "a \<in> range_of (p * 4096 + k * 2 ^ sh, Small sh)" for k a
    using that off [OF that(1)] by (auto simp: range_of_def intro!: page_index)
  have lim: "p * 4096 + 4096 \<le> unat (max_phys (pm s))"
    using pmm_inv_freeD [OF inv top(2)] by linarith
  have addr: "P2V phys + of_nat (k * 2 ^ sh) = P2V (of_nat (p * 4096 + k * 2 ^ sh))" for k
  proof -
    have "phys = of_nat (unat phys)" by simp
    then have "phys = of_nat (p * 4096)" by (simp only: p(1))
    then show ?thesis by (simp add: P2V_def)
  qed
  have "\<exists>fl'. heap_ok (fold (\<lambda>k. push_free sh (P2V (of_nat (p * 4096 + k * 2 ^ sh)))) [0 ..< 4096 div 2 ^ sh]
       (s\<lparr>pm := p'\<rparr>)) fl' live \<and> ([0 ..< 4096 div 2 ^ sh] \<noteq> [] \<longrightarrow> fl' sh \<noteq> []) \<and> (fl sh \<noteq> [] \<longrightarrow> fl' sh \<noteq> [])"
  proof (rule fold_push_ok [OF ok1])
    fix k assume k: "k \<in> set [0 ..< 4096 div 2 ^ sh]"
    then have "2 ^ sh dvd p * 4096 + k * 2 ^ sh" using split by (metis dvd_add dvd_triv_right dvd_mult)
    then show "placed (pm (s\<lparr>pm := p'\<rparr>)) (p * 4096 + k * 2 ^ sh, Small sh)"
      using k sh off [of k] lim top p(3) page [of k] by (auto simp: placed_def)
    fix x assume x: "x \<in> free_objs fl \<union> live"
    show "range_of (p * 4096 + k * 2 ^ sh, Small sh) \<inter> range_of x = {}"
      by (rule fresh_disjoint [OF ok x]) (use k page p(2) in auto)
  qed simp
  then obtain fl' where fl': "heap_ok s' fl' live" "fl' sh \<noteq> []"
    using split unfolding s' addr by (auto simp: not_less)
  obtain b bs where "fl' sh = b # bs" using fl'(2) by (cases "fl' sh") auto
  then have "freelist s' sh = P2V (of_nat b)" "(b, Small sh) \<in> free_objs fl'"
    using heap_okD(3) [OF fl'(1) sh] sh by (simp_all add: free_objs_mem)
  then have "freelist s' sh \<noteq> 0"
    using P2V_nonzero placed_bound heap_okD(1,5) [OF fl'(1)] by force
  then show ?thesis using fl' by blast
qed


section \<open>Allocation\<close>

lemma kmalloc_small_ok:
  assumes ok: "heap_ok s fl live" and sz: "0 < unat sz" "unat sz \<le> 2040"
    and ret: "kmalloc sz s = Inr (ptr, s')"
  shows "\<exists>fl' b sh. heap_ok s' fl' (insert (b, Small sh) live) \<and> (b, Small sh) \<notin> live \<and>
    ptr = P2V (of_nat b) + 8 \<and> unat sz + 8 \<le> 2 ^ sh"
proof -
  define sh where "sh = size_class (unat sz + 8) 4"
  have need: "unat (sz + 8) = unat sz + 8" using sz by (simp add: unat_word_ariths)
  then have small: "sz + 8 \<le> push_bit MAX_SHIFT 1" using sz by (simp add: word_le_nat_alt)
  have sh: "4 \<le> sh" "sh \<le> 11" "unat sz + 8 \<le> 2 ^ sh"
    using size_class_bounds [of "unat sz + 8" 4] sz by (simp_all add: sh_def)
  have nz: "sz \<noteq> 0" using sz by auto
  obtain s1 where s1: "(if freelist s sh = 0 then refill sh s else Inr s) = Inr s1"
    and rest: "(ptr, s') = (let obj = freelist s1 sh in if obj = 0 then (0, s1) else
        (obj + 8, store obj (hdr MAGIC_SMALL (of_nat sh)) (s1\<lparr>freelist := (freelist s1)(sh := load obj s1)\<rparr>)))"
    using ret nz small unfolding kmalloc_def Let_def need sh_def [symmetric]
    by (cases "if freelist s sh = 0 then refill sh s else Inr s") (auto split: if_splits)
  obtain fl1 where ok1: "heap_ok s1 fl1 live" and ne: "freelist s1 sh \<noteq> 0"
    using s1 ok refill_ok [OF ok sh(1,2), of s1] by (cases "freelist s sh = 0") auto
  obtain b where b: "freelist s1 sh = P2V (of_nat b)" "(b, Small sh) \<in> free_objs fl1"
      "heap_ok (store (P2V (of_nat b)) (hdr MAGIC_SMALL (of_nat sh))
        (s1\<lparr>freelist := (freelist s1)(sh := load (P2V (of_nat b)) s1)\<rparr>))
      (fl1(sh := tl (fl1 sh))) (insert (b, Small sh) live)"
    by (rule pop_free_ok [OF ok1 sh(1,2) ne])
  have "(b, Small sh) \<notin> live" using b(2) heap_okD(4) [OF ok1] by blast
  then show ?thesis using b rest ne sh(3) unfolding Let_def by (auto simp: b(1))
qed

lemma large_pages:
  assumes "2040 < unat sz" and "unat sz + 8 \<le> 2147483647 * 4096"
  shows "sint (ucast ((sz + 8 + PAGE_SIZE - 1) div PAGE_SIZE) :: u32) = int ((unat sz + 4103) div 4096)"
proof -
  have "unat (sz + 8 + PAGE_SIZE - 1) = unat sz + 4103"
    using assms(2) by (simp add: unat_word_ariths)
  then have d: "unat ((sz + 8 + PAGE_SIZE - 1) div PAGE_SIZE) = (unat sz + 4103) div 4096"
    by (simp only: unat_div) simp
  have lt: "(unat sz + 4103) div 4096 < 2 ^ 31" using assms(2) by simp
  show ?thesis by (subst sint_ucast_small) (simp_all only: d lt)
qed

lemma heap_ok_add_live:
  assumes ok: "heap_ok s fl live" and pl: "placed (pm s) ob"
    and sep: "\<And>x. x \<in> free_objs fl \<union> live \<Longrightarrow> range_of ob \<inter> range_of x = {}"
    and h: "cells (pm s) (fst ob div 8) = ohdr (snd ob)"
  shows "heap_ok s fl (insert ob live)"
proof (rule heap_okI)
  have new: "ob \<notin> free_objs fl \<union> live" using sep base_in_range [OF pl] by blast
  show "pmm_inv (pm s)" by (rule heap_okD(1) [OF ok])
  show "distinct (fl t)" "chain (cells (pm s)) (freelist s t) (fl t)" if "4 \<le> t" "t \<le> 11" for t
    using heap_okD(2,3) [OF ok that] by simp_all
  show "free_objs fl \<inter> insert ob live = {}" using heap_okD(4) [OF ok] new by blast
  show "placed (pm s) x" if "x \<in> free_objs fl \<union> insert ob live" for x
    using heap_okD(5) [OF ok, of x] pl that by blast
  show "range_of x \<inter> range_of y = {}"
    if "x \<in> free_objs fl \<union> insert ob live" "y \<in> free_objs fl \<union> insert ob live" "x \<noteq> y" for x y
    using heap_okD(6) [OF ok, of x y] sep [of x] sep [of y] that by blast
  show "cells (pm s) (fst x div 8) = ohdr (snd x)" if "x \<in> insert ob live" for x
    using heap_okD(7) [OF ok, of x] h that by blast
qed

lemma kmalloc_large_ok:
  assumes ok: "heap_ok s fl live" and sz: "2040 < unat sz" "unat sz + 8 \<le> 2147483647 * 4096"
    and ret: "kmalloc sz s = Inr (ptr, s')"
  shows "\<exists>b n. heap_ok s' fl (insert (b, Large n) live) \<and> (b, Large n) \<notin> live \<and>
    ptr = P2V (of_nat b) + 8 \<and> unat sz + 8 \<le> n * 4096"
proof -
  define n where "n = (unat sz + 4103) div 4096"
  have n: "0 < n" "n < 2 ^ 31" "unat sz + 8 \<le> n * 4096" using sz by (simp_all add: n_def)
  have inv: "pmm_inv (pm s)" by (rule heap_okD(1) [OF ok])
  have "unat (sz + 8) = unat sz + 8" using sz by (simp add: unat_word_ariths)
  then have big: "\<not> sz + 8 \<le> push_bit MAX_SHIFT 1" "sz \<noteq> 0" using sz by (auto simp: word_le_nat_alt)
  obtain phys p' where al: "pmm_alloc_contig (int n) (pm s) = Inr (phys, p')"
    and out: "ptr = P2V phys + 8" "s' = store (P2V phys) (hdr MAGIC_LARGE (of_nat n)) (s\<lparr>pm := p'\<rparr>)"
    using ret big unfolding kmalloc_def Let_def large_pages [OF sz] n_def [symmetric]
    by (auto split: sum.splits)
  from inv _ al obtain p where p: "int p + int n \<le> int (unat (max_phys (pm s)) div 4096)"
      "contig_free (pm s) (int n) p" "phys = of_nat p * PAGE_SIZE"
      "p' = zero_phys phys (of_int (int n) * PAGE_SIZE) (fold claim_page [p ..< p + nat (int n)] (pm s))"
      "set [p ..< p + nat (int n)] \<subseteq> free_set (pm s)"
    by (rule pmm_alloc_contig_cases) simp
  have top: "unat (max_phys (pm s)) \<le> 4294967296" using inv by (simp add: pmm_inv_def)
  have lim: "p * 4096 + n * 4096 \<le> unat (max_phys (pm s))" using p(1) by linarith
  have small: "p < MAX_PAGES" "p * 4096 \<le> 4294967296" using lim top n(1) by simp_all
  note f = fold_claim [OF inv p(5) distinct_upt]
  have phys: "phys = of_nat (p * 4096)" "unat phys = p * 4096"
    using p(3) small by (simp_all add: unat_page_addr)
  have bytes: "unat (of_nat n * PAGE_SIZE :: u64) = n * 4096"
    using lim top by (simp add: unat_word_ariths unat_of_nat mod_less)
  have used: "is_used p' q \<longleftrightarrow> (p \<le> q \<and> q < p + n) \<or> is_used (pm s) q" for q
    using f by (simp add: p(4))
  have cells': "cells p' c = (if p * 512 \<le> c \<and> c < (p + n) * 512 then 0 else cells (pm s) c)" for c
  proof -
    have "(p * 4096 + n * 4096) div 8 = (p + n) * 512" "p * 4096 div 8 = p * 512" by presburger+
    then show ?thesis using f by (simp add: p(4) zero_phys_def phys(2) bytes)
  qed
  have free: "\<not> is_used (pm s) q" if "p \<le> q" "q < p + n" for q
    using p(2) that unfolding contig_free_def by (metis le_add_diff_inverse nat_add_left_cancel_less nat_int)
  have ok1: "heap_ok (s\<lparr>pm := p'\<rparr>) fl live"
  proof (rule heap_ok_new_pages [OF ok])
    show "pmm_inv p'" "max_phys p' = max_phys (pm s)" using f by (simp_all add: p(4))
    show "is_used p' q" if "is_used (pm s) q" for q using used that by blast
    show "cells p' c = cells (pm s) c" if "is_used (pm s) (8 * c div 4096)" for c
    proof -
      have "\<not> (p \<le> 8 * c div 4096 \<and> 8 * c div 4096 < p + n)" using free that by blast
      moreover have "8 * c div 4096 = c div 512" using div_mult_mult1 [of 8 c 512] by simp
      ultimately have "\<not> (p * 512 \<le> c \<and> c < (p + n) * 512)"
        by (simp add: less_eq_div_iff_mult_less_eq div_less_iff_less_mult)
      then show ?thesis unfolding cells' by (rule if_not_P)
    qed
  qed
  let ?ob = "(p * 4096, Large n)"
  have rng: "p \<le> a div 4096 \<and> a div 4096 < p + n" if "a \<in> range_of ?ob" for a
    using that by (simp add: range_of_def) linarith
  have pl: "placed (pm (s\<lparr>pm := p'\<rparr>)) ?ob"
    using n lim f rng used by (auto simp: placed_def p(4))
  have sep: "range_of ?ob \<inter> range_of x = {}" if "x \<in> free_objs fl \<union> live" for x
    by (rule fresh_disjoint [OF ok that]) (use rng free in blast)
  have cell: "fst x div 8 \<noteq> p * 4096 div 8" if x: "x \<in> free_objs fl \<union> live" for x
    using disjoint_cells [OF pl heap_okD(5) [OF ok1 x] sep [OF x]] by simp
  have s': "s' = s\<lparr>pm := p'\<lparr>cells := (cells p')(p * 4096 div 8 := hdr MAGIC_LARGE (of_nat n))\<rparr>\<rparr>"
    unfolding out(2) phys(1) store_at [OF small(2)] by simp
  have ok2: "heap_ok s' fl live"
  proof -
    let ?c = "(cells p')(p * 4096 div 8 := hdr MAGIC_LARGE (of_nat n))"
    have "heap_ok ((s\<lparr>pm := p'\<rparr>)\<lparr>pm := p'\<lparr>cells := ?c\<rparr>\<rparr>) fl live"
    proof (rule heap_ok_cells [OF ok1, where c = ?c])
      show "?c (fst x div 8) = cells (pm (s\<lparr>pm := p'\<rparr>)) (fst x div 8)" if "x \<in> free_objs fl \<union> live" for x
        using cell [OF that] by simp
    qed simp
    then show ?thesis by (simp add: s')
  qed
  have "heap_ok s' fl (insert ?ob live)"
    by (rule heap_ok_add_live [OF ok2 _ sep]) (use pl in \<open>simp_all add: s'\<close>)
  moreover have "?ob \<notin> live" using sep base_in_range [OF pl] by blast
  ultimately show ?thesis using out(1) phys(1) n(3) by blast
qed


section \<open>Release\<close>

lemma heap_ok_subset: "heap_ok s fl live \<Longrightarrow> live' \<subseteq> live \<Longrightarrow> heap_ok s fl live'"
  by (rule heap_okI) (blast dest: heap_okD)+

lemma live_other:
  assumes ok: "heap_ok s fl live" and ob: "ob \<in> live" and x: "x \<in> free_objs fl \<union> (live - {ob})"
  shows "range_of ob \<inter> range_of x = {}" and "fst x div 8 \<noteq> fst ob div 8"
proof -
  have "x \<noteq> ob" using x ob heap_okD(4) [OF ok] by blast
  then show "range_of ob \<inter> range_of x = {}" using heap_okD(6) [OF ok, of ob x] ob x by blast
  then show "fst x div 8 \<noteq> fst ob div 8"
    using disjoint_cells [of "pm s" ob x] heap_okD(5) [OF ok] ob x by fastforce
qed

lemma kfree_header:
  assumes ok: "heap_ok s fl live" and ob: "(b, k) \<in> live"
  shows "load (P2V (of_nat b)) s = ohdr k" and "b \<le> 4294967296"
proof -
  show b: "b \<le> 4294967296" using placed_bound [of "pm s" "(b, k)"] heap_okD(1,5) [OF ok] ob by auto
  show "load (P2V (of_nat b)) s = ohdr k" using heap_okD(7) [OF ok ob] by (simp add: load_at [OF b])
qed

text \<open>The header cell of a live object is no cell of another object.\<close>

lemma cell_in_range:
  assumes "placed p ob" and "a div 8 = fst ob div 8" shows "a \<in> range_of ob"
proof -
  have "8 dvd fst ob \<and> 8 \<le> osize (snd ob)"
  proof (cases "snd ob")
    case (Small sh)
    then have sh: "3 \<le> sh" "2 ^ sh dvd fst ob" using assms(1) by (simp_all add: placed_def)
    have d: "(2 :: nat) ^ 3 dvd 2 ^ sh" by (rule le_imp_power_dvd [OF sh(1)])
    have "(2 :: nat) ^ 3 \<le> 2 ^ sh" by (rule power_increasing [OF sh(1)]) simp
    then show ?thesis using Small dvd_trans [OF d sh(2)] by simp
  next
    case (Large n)
    then have "0 < n" "4096 dvd fst ob" using assms(1) by (simp_all add: placed_def)
    then show ?thesis using Large dvd_trans [of 8 4096 "fst ob"] by simp
  qed
  then obtain q where q: "fst ob = 8 * q" "8 \<le> osize (snd ob)" by (auto simp: dvd_def)
  have "a = 8 * q + a mod 8" using assms(2) div_mult_mod_eq [of a 8] unfolding q(1) by simp
  moreover have "a mod 8 < 8" by simp
  ultimately show ?thesis using q unfolding range_of_def atLeastLessThan_iff by linarith
qed

lemma other_cells:
  assumes ok: "heap_ok s fl live" and ob: "ob \<in> live" and x: "x \<in> live - {ob}" and a: "a \<in> range_of x"
  shows "a div 8 \<noteq> fst ob div 8"
proof
  assume "a div 8 = fst ob div 8"
  then have "a \<in> range_of ob" using cell_in_range heap_okD(5) [OF ok, of ob] ob by blast
  then show False using live_other(1) [OF ok ob, of x] x a by blast
qed

lemma store_free_set [simp]: "free_set (pm (store v x s)) = free_set (pm s)"
  by (simp add: store_def free_set_def)

lemma kfree_small_ok:
  assumes ok: "heap_ok s fl live" and ob: "(b, Small sh) \<in> live"
  shows "\<exists>s'. kfree (P2V (of_nat b) + 8) s = Inr s' \<and>
    heap_ok s' (fl(sh := b # fl sh)) (live - {(b, Small sh)}) \<and> free_set (pm s') = free_set (pm s) \<and>
    (\<forall>c. c \<noteq> b div 8 \<longrightarrow> cells (pm s') c = cells (pm s) c)"
proof -
  note h = kfree_header [OF ok ob]
  have pl: "placed (pm s) (b, Small sh)" using heap_okD(5) [OF ok] ob by blast
  then have sh: "4 \<le> sh" "sh \<le> 11" by (simp_all add: placed_def)
  have info: "unat (of_nat sh :: u32) = sh" using sh by (simp add: unat_of_nat mod_less)
  let ?s1 = "store (P2V (of_nat b)) (hdr 0 (of_nat sh)) s"
  have ok1: "heap_ok ?s1 fl (live - {(b, Small sh)})"
    unfolding store_at [OF h(2)]
    by (rule heap_ok_cells [OF heap_ok_subset [OF ok] refl]) (use live_other(2) [OF ok ob] in auto)
  have "P2V (of_nat b) + 8 \<noteq> 0"
  proof
    assume "P2V (of_nat b) + 8 = 0"
    then have "unat (of_nat b + PHYS_MAP_BASE + 8) = 0" by (simp add: P2V_def)
    then show False using h(2) by (simp add: unat_word_ariths unat_of_nat mod_less)
  qed
  then have ret: "kfree (P2V (of_nat b) + 8) s = Inr (push_free sh (P2V (of_nat b)) ?s1)"
    using h(1) sh by (simp add: kfree_def Let_def info)
  have "heap_ok (push_free sh (P2V (of_nat b)) ?s1) (fl(sh := b # fl sh)) (live - {(b, Small sh)})"
  proof (rule push_free_ok [OF ok1])
    show "placed (pm ?s1) (b, Small sh)" using pl by (simp add: store_def)
    show "\<forall>x \<in> free_objs fl \<union> (live - {(b, Small sh)}). range_of (b, Small sh) \<inter> range_of x = {}"
      using live_other(1) [OF ok ob] by blast
  qed
  moreover have "free_set (pm (push_free sh (P2V (of_nat b)) ?s1)) = free_set (pm s)" by (simp add: push_free_def)
  moreover have "\<forall>c. c \<noteq> b div 8 \<longrightarrow> cells (pm (push_free sh (P2V (of_nat b)) ?s1)) c = cells (pm s) c"
    by (simp add: push_free_def store_at [OF h(2)])
  ultimately show ?thesis using ret by blast
qed

lemma kfree_large_ok:
  assumes ok: "heap_ok s fl live" and ob: "(b, Large n) \<in> live"
  shows "\<exists>s'. kfree (P2V (of_nat b) + 8) s = Inr s' \<and> heap_ok s' fl (live - {(b, Large n)}) \<and>
    free_set (pm s') = free_set (pm s) \<union> {b div 4096 ..< b div 4096 + n} \<and>
    (\<forall>c. c \<noteq> b div 8 \<longrightarrow> cells (pm s') c = cells (pm s) c)"
proof -
  note h = kfree_header [OF ok ob]
  have pl: "placed (pm s) (b, Large n)" using heap_okD(5) [OF ok] ob by blast
  then have n: "0 < n" "n < 2 ^ 31" "4096 dvd b" "b + n * 4096 \<le> unat (max_phys (pm s))"
    by (simp_all add: placed_def)
  then obtain p where b: "b = p * 4096" by (auto simp: dvd_def)
  have info: "sint (of_nat n :: u32) = int n"
    using sint_small [of "of_nat n"] n(2) by (simp add: unat_of_nat mod_less)
  let ?s1 = "store (P2V (of_nat b)) (hdr 0 (of_nat n)) s"
  have ok1: "heap_ok ?s1 fl (live - {(b, Large n)})"
    unfolding store_at [OF h(2)]
    by (rule heap_ok_cells [OF heap_ok_subset [OF ok] refl]) (use live_other(2) [OF ok ob] in auto)
  have in_range: "a \<in> range_of (b, Large n) \<longleftrightarrow> p \<le> a div 4096 \<and> a div 4096 < p + n" for a
    unfolding range_of_def b
    by (simp add: less_eq_div_iff_mult_less_eq div_less_iff_less_mult distrib_right)
  have lim: "p + n \<le> unat (max_phys (pm ?s1)) div 4096"
    using n(4) unfolding b by (simp add: store_def less_eq_div_iff_mult_less_eq distrib_right)
  have used: "\<forall>i < n. is_used (pm ?s1) (p + i)"
  proof (intro allI impI)
    fix i assume "i < n"
    then have "(p + i) * 4096 \<in> range_of (b, Large n)" by (simp add: in_range)
    then have "is_used (pm s) ((p + i) * 4096 div 4096)" using pl by (simp only: placed_def)
    then show "is_used (pm ?s1) (p + i)" by (simp add: store_def)
  qed
  obtain p' where p': "free_pages_from (of_nat p * PAGE_SIZE) n (pm ?s1) = Inr p'" "pmm_inv p'"
      "free_set p' = free_set (pm ?s1) \<union> {p ..< p + n}" "cells p' = cells (pm ?s1)"
      "max_phys p' = max_phys (pm ?s1)"
    using free_pages_from_ok [OF heap_okD(1) [OF ok1] lim used] by blast
  have "P2V (of_nat b) + 8 \<noteq> 0"
  proof
    assume "P2V (of_nat b) + 8 = 0"
    then have "unat (of_nat b + PHYS_MAP_BASE + 8) = 0" by (simp add: P2V_def)
    then show False using h(2) by (simp add: unat_word_ariths unat_of_nat mod_less)
  qed
  then have ret: "kfree (P2V (of_nat b) + 8) s = Inr (?s1\<lparr>pm := p'\<rparr>)"
    using h(1) p'(1) by (simp add: kfree_def Let_def pmm_free_contig_def info b)
  have "heap_ok (?s1\<lparr>pm := p'\<rparr>) fl (live - {(b, Large n)})"
  proof (rule heap_ok_pm [OF ok1 p'(2)])
    fix x assume x: "x \<in> free_objs fl \<union> (live - {(b, Large n)})"
    show "cells p' (fst x div 8) = cells (pm ?s1) (fst x div 8)" by (simp add: p'(4))
    have plx: "placed (pm ?s1) x" by (rule heap_okD(5) [OF ok1 x])
    have "is_used p' (a div 4096)" if a: "a \<in> range_of x" for a
    proof -
      have "a \<notin> range_of (b, Large n)" using live_other(1) [OF ok ob x] a by blast
      then have "a div 4096 \<notin> {p ..< p + n}" using in_range by simp
      moreover have "is_used (pm ?s1) (a div 4096)" using plx a by (simp add: placed_def)
      then have "a div 4096 \<notin> free_set (pm ?s1)" by (simp add: free_set_def)
      ultimately have nf: "a div 4096 \<notin> free_set p'" unfolding p'(3) by blast
      have "a < unat (max_phys p')" using plx a p'(5) by (auto simp: placed_def range_of_def)
      also have "\<dots> \<le> 4294967296" using p'(2) by (simp add: pmm_inv_def)
      finally have "a div 4096 < MAX_PAGES" by (simp add: div_less_iff_less_mult)
      then show ?thesis using nf unfolding free_set_def by blast
    qed
    then show "placed p' x" using plx p'(5) by (simp add: placed_def)
  qed
  moreover have "free_set (pm (?s1\<lparr>pm := p'\<rparr>)) = free_set (pm s) \<union> {b div 4096 ..< b div 4096 + n}" using p'(3) by (simp add: b)
  moreover have "\<forall>c. c \<noteq> b div 8 \<longrightarrow> cells (pm (?s1\<lparr>pm := p'\<rparr>)) c = cells (pm s) c"
    using p'(4) by (simp add: store_at [OF h(2)])
  ultimately show ?thesis using ret by blast
qed

section \<open>Properties\<close>

lemma heap_ok_boot: "pmm_inv p \<Longrightarrow> heap_ok \<lparr>pm = p, freelist = \<lambda>_. 0\<rparr> (\<lambda>_. []) {}"
  by (simp add: heap_ok_def free_objs_def)

definition kheap_demo :: kheap_state where
  "kheap_demo = \<lparr>pm = pmm_demo, freelist = \<lambda>_. 0\<rparr>"

lemma heap_ok_demo: "heap_ok kheap_demo (\<lambda>_. []) {}"
  unfolding kheap_demo_def by (rule heap_ok_boot [OF pmm_inv_demo])

lemma kmalloc_panics:
  assumes "kmalloc sz s = Inl e" shows "\<exists>pe. e = Pmm pe"
  using assms
  by (auto simp: kmalloc_def refill_def Let_def split: if_splits sum.splits prod.splits)

lemma kmalloc_cases:
  assumes ok: "heap_ok s fl live" and sz: "0 < unat sz" "unat sz + 8 \<le> 2147483647 * 4096"
    and ret: "kmalloc sz s = Inr (ptr, s')"
  shows "\<exists>fl' ob. heap_ok s' fl' (insert ob live) \<and> ob \<notin> live \<and>
    ptr = P2V (of_nat (fst ob)) + 8 \<and> unat sz + 8 \<le> osize (snd ob)"
proof (cases "unat sz \<le> 2040")
  case True
  then obtain fl' b sh where "heap_ok s' fl' (insert (b, Small sh) live)" "(b, Small sh) \<notin> live"
      "ptr = P2V (of_nat b) + 8" "unat sz + 8 \<le> 2 ^ sh"
    using kmalloc_small_ok [OF ok sz(1) _ ret] by blast
  then show ?thesis by (intro exI [of _ fl'] exI [of _ "(b, Small sh)"]) simp
next
  case False
  then obtain b n where "heap_ok s' fl (insert (b, Large n) live)" "(b, Large n) \<notin> live"
      "ptr = P2V (of_nat b) + 8" "unat sz + 8 \<le> n * 4096"
    using kmalloc_large_ok [OF ok _ sz(2) ret] by auto
  then show ?thesis by (intro exI [of _ fl] exI [of _ "(b, Large n)"]) simp
qed

text \<open>
  C3. In a well-formed heap \<^verbatim>\<open>kmalloc\<close> of a size between 1 and 2147483647 pages less the header (the
  most whose page count an \<^verbatim>\<open>int\<close> can hold) hands out an object that was not live, has room for the
  header and the requested bytes, and overlaps no live object, and leaves the heap well-formed
  with the object added to the live ones; its only panics are the page allocator's. Beyond that
  bound the code truncates the page count, and close to \<^verbatim>\<open>SIZE_MAX\<close> the size itself wraps.
\<close>

theorem kmalloc_correct:
  assumes "heap_ok s fl live" and "0 < unat sz" and "unat sz + 8 \<le> 2147483647 * 4096"
  shows "case kmalloc sz s of
      Inl e \<Rightarrow> \<exists>pe. e = Pmm pe
    | Inr (ptr, s') \<Rightarrow> \<exists>fl' ob. heap_ok s' fl' (insert ob live) \<and> ob \<notin> live \<and>
        ptr = P2V (of_nat (fst ob)) + 8 \<and> unat sz + 8 \<le> osize (snd ob) \<and>
        (\<forall>x \<in> live. range_of x \<inter> range_of ob = {})"
proof (cases "kmalloc sz s")
  case (Inl e)
  then show ?thesis using kmalloc_panics [OF Inl] by simp
next
  case (Inr r)
  obtain ptr s' where r: "r = (ptr, s')" by (cases r)
  obtain fl' ob where ob: "heap_ok s' fl' (insert ob live)" "ob \<notin> live"
      "ptr = P2V (of_nat (fst ob)) + 8" "unat sz + 8 \<le> osize (snd ob)"
    using kmalloc_cases [OF assms, of ptr s'] Inr r by auto
  have "range_of x \<inter> range_of ob = {}" if "x \<in> live" for x
    using heap_okD(6) [OF ob(1), of x ob] ob(2) that by blast
  then have "\<exists>fl' ob. heap_ok s' fl' (insert ob live) \<and> ob \<notin> live \<and>
      ptr = P2V (of_nat (fst ob)) + 8 \<and> unat sz + 8 \<le> osize (snd ob) \<and>
      (\<forall>x \<in> live. range_of x \<inter> range_of ob = {})" using ob by blast
  then show ?thesis unfolding Inr r by simp
qed

lemma kmalloc_demo_returns: "\<exists>ptr s'. kmalloc 24 kheap_demo = Inr (ptr, s')"
proof -
  obtain phys p where al: "pmm_alloc pmm_demo = Inr (phys, p)"
    by (simp add: pmm_alloc_eq pmm_inv_demo free_set_demo Let_def)
  then have "refill 5 kheap_demo \<noteq> Inl e" for e by (simp add: refill_def kheap_demo_def)
  then obtain s1 where s1: "refill 5 kheap_demo = Inr s1" by (cases "refill 5 kheap_demo") auto
  have sh: "size_class 32 4 = 5" by (simp add: size_class.simps)
  have "unat (24 + 8 :: u64) = 32" by simp
  then show ?thesis using s1 sh
    by (auto simp: kmalloc_def Let_def kheap_demo_def)
qed

theorem kmalloc_correct_witness:
  "\<exists>ptr s' fl' ob. kmalloc 24 kheap_demo = Inr (ptr, s') \<and> heap_ok s' fl' {ob} \<and>
     ptr = P2V (of_nat (fst ob)) + 8 \<and> 32 \<le> osize (snd ob)"
proof -
  obtain ptr s' where k: "kmalloc 24 kheap_demo = Inr (ptr, s')" using kmalloc_demo_returns by blast
  have "\<exists>fl' ob. heap_ok s' fl' {ob} \<and> ptr = P2V (of_nat (fst ob)) + 8 \<and> 32 \<le> osize (snd ob)"
    using kmalloc_correct [OF heap_ok_demo, of 24] unfolding k by auto
  then show ?thesis using k by blast
qed

text \<open>
  C21. \<^verbatim>\<open>kfree\<close> of the payload pointer of a live object never panics and really frees it: a small
  object becomes the head of the free list of its class and no page changes hands, the pages of a
  large object and no others become available to the page allocator again, and the free lists
  stay as they are. The heap stays well-formed with that object no longer live, and no memory cell
  but the one of the object's header is written, so the contents of every other live object are kept.
\<close>

theorem kfree_live:
  assumes "heap_ok s fl live" and "ob \<in> live"
  shows "\<exists>s' fl'. kfree (P2V (of_nat (fst ob)) + 8) s = Inr s' \<and> heap_ok s' fl' (live - {ob}) \<and>
    (case snd ob of
      Small sh \<Rightarrow> fl' = fl(sh := fst ob # fl sh) \<and> free_set (pm s') = free_set (pm s)
    | Large n \<Rightarrow> fl' = fl \<and> free_set (pm s') = free_set (pm s) \<union> {fst ob div 4096 ..< fst ob div 4096 + n}) \<and>
    (\<forall>x \<in> live - {ob}. \<forall>a \<in> range_of x. cells (pm s') (a div 8) = cells (pm s) (a div 8))"
proof (cases ob)
  case (Pair b k)
  have keep: "\<forall>x \<in> live - {ob}. \<forall>a \<in> range_of x. cells (pm s') (a div 8) = cells (pm s) (a div 8)"
    if "\<forall>c. c \<noteq> b div 8 \<longrightarrow> cells (pm s') c = cells (pm s) c" for s'
    using that other_cells [OF assms] unfolding Pair fst_conv by blast
  show ?thesis
  proof (cases k)
    case (Small sh)
    then obtain s' where s': "kfree (P2V (of_nat b) + 8) s = Inr s'" "heap_ok s' (fl(sh := b # fl sh)) (live - {ob})"
        "free_set (pm s') = free_set (pm s)" "\<forall>c. c \<noteq> b div 8 \<longrightarrow> cells (pm s') c = cells (pm s) c"
      using kfree_small_ok [OF assms(1), of b sh] assms(2) Pair by blast
    show ?thesis using s'(1-3) keep [OF s'(4)] Pair Small by (intro exI [of _ s'] exI [of _ "fl(sh := b # fl sh)"]) simp
  next
    case (Large n)
    then obtain s' where s': "kfree (P2V (of_nat b) + 8) s = Inr s'" "heap_ok s' fl (live - {ob})"
        "free_set (pm s') = free_set (pm s) \<union> {b div 4096 ..< b div 4096 + n}" "\<forall>c. c \<noteq> b div 8 \<longrightarrow> cells (pm s') c = cells (pm s) c"
      using kfree_large_ok [OF assms(1), of b n] assms(2) Pair by blast
    show ?thesis using s'(1-3) keep [OF s'(4)] Pair Large by (intro exI [of _ s'] exI [of _ fl]) simp
  qed
qed

theorem kfree_live_witness:
  "\<exists>ptr s' s'' fl'' ob. kmalloc 24 kheap_demo = Inr (ptr, s') \<and> kfree ptr s' = Inr s'' \<and> heap_ok s'' fl'' {} \<and>
     ptr = P2V (of_nat (fst ob)) + 8 \<and> (ob \<in> free_objs fl'' \<or> fst ob div 4096 \<in> free_set (pm s''))"
proof -
  obtain ptr s' where k: "kmalloc 24 kheap_demo = Inr (ptr, s')" using kmalloc_demo_returns by blast
  have "\<exists>fl' ob. heap_ok s' fl' {ob} \<and> ptr = P2V (of_nat (fst ob)) + 8"
    using kmalloc_cases [OF heap_ok_demo _ _ k] by auto
  then obtain fl' ob where ob: "heap_ok s' fl' {ob}" "ptr = P2V (of_nat (fst ob)) + 8" by blast
  have pl: "placed (pm s') ob" using heap_okD(5) [OF ob(1)] by blast
  from kfree_live [OF ob(1), of ob] obtain s'' fl'' where f: "kfree ptr s' = Inr s''" "heap_ok s'' fl'' {}"
    "case snd ob of Small sh \<Rightarrow> fl'' = fl'(sh := fst ob # fl' sh) \<and> free_set (pm s'') = free_set (pm s')
      | Large n \<Rightarrow> fl'' = fl' \<and> free_set (pm s'') = free_set (pm s') \<union> {fst ob div 4096 ..< fst ob div 4096 + n}"
    using ob(2) by auto
  have "ob \<in> free_objs fl'' \<or> fst ob div 4096 \<in> free_set (pm s'')"
    using f(3) pl by (cases ob) (auto simp: placed_def free_objs_def split: kind.splits)
  then show ?thesis using k f(1,2) ob(2) by blast
qed

text \<open>
  C22. The size computation of \<^verbatim>\<open>kmalloc\<close> wraps: a request of up to 8 bytes below \<^verbatim>\<open>SIZE_MAX\<close> is
  served exactly like a request for 8 bytes, with a 16-byte object.
\<close>

theorem kmalloc_size_wraps:
  assumes "2 ^ 64 - 8 \<le> unat sz"
  shows "kmalloc sz s = kmalloc 8 s"
proof -
  have "unat (sz + 8) = (unat sz + 8) mod 2 ^ 64" by (simp add: unat_word_ariths)
  also have "\<dots> = unat sz + 8 - 2 ^ 64"
    using assms unsigned_less [of sz, where ?'a = nat] by (simp add: mod_if)
  finally have need: "unat (sz + 8) < 8" using unsigned_less [of sz, where ?'a = nat] by simp
  then have "sz + 8 \<le> push_bit 11 1" by (simp add: word_le_nat_alt)
  moreover have "size_class (unat (sz + 8)) 4 = 4" using need by (simp add: size_class.simps [of _ 4])
  moreover have "size_class 16 4 = 4" by (simp add: size_class.simps)
  moreover have "unat (8 + 8 :: u64) = 16" "(8 + 8 :: u64) \<le> push_bit 11 1" by simp_all
  moreover have "sz \<noteq> 0" using assms by auto
  ultimately show ?thesis by (simp add: kmalloc_def Let_def)
qed

theorem kmalloc_size_wraps_witness:
  "unat (0xFFFFFFFFFFFFFFFC :: u64) = 2 ^ 64 - 4 \<and>
   kmalloc 0xFFFFFFFFFFFFFFFC kheap_demo = kmalloc 8 kheap_demo"
  using kmalloc_size_wraps [of "0xFFFFFFFFFFFFFFFC" kheap_demo] by simp

text \<open>The page count is truncated to an \<^verbatim>\<open>int\<close>: a request for 16 TiB is served with a single page.\<close>

lemma kmalloc_pages_truncate: "kmalloc (2 ^ 44) s = kmalloc 4000 s"
  by (simp add: kmalloc_def Let_def)

end
