(* ===== verification/Kfs_Format.thy ===== *)
theory Kfs_Format
  imports Kestrel_Prelude
begin

text \<open>
  The on-disk structures of KFS (\<^verbatim>\<open>kernel/include/kfs.h\<close>) as records, with the byte layout the C
  structs have on this machine (little endian, no padding): superblock, inode, directory entry and
  journal header. Each encoder and decoder pair is shown to be a round trip in both directions.
\<close>

section \<open>Constants\<close>

abbreviation KFS_MAGIC :: u32 where "KFS_MAGIC \<equiv> 0x3353464B"
abbreviation KFS_MAGIC_V2 :: u32 where "KFS_MAGIC_V2 \<equiv> 0x3253464B"
abbreviation KFS_MAGIC_V1 :: u32 where "KFS_MAGIC_V1 \<equiv> 0x3153464B"
abbreviation KFS_BLOCK_SIZE :: nat where "KFS_BLOCK_SIZE \<equiv> 4096"
abbreviation KFS_NDIRECT :: nat where "KFS_NDIRECT \<equiv> 10"
abbreviation KFS_NINDIRECT :: nat where "KFS_NINDIRECT \<equiv> 1024"
abbreviation KFS_MAX_FILE_SIZE :: u32 where "KFS_MAX_FILE_SIZE \<equiv> 4235264"
abbreviation KFS_NAME_MAX :: nat where "KFS_NAME_MAX \<equiv> 59"
abbreviation KFS_ROOT_INO :: u32 where "KFS_ROOT_INO \<equiv> 1"
abbreviation KFS_INODES_PER_BLOCK :: u32 where "KFS_INODES_PER_BLOCK \<equiv> 64"
abbreviation KFS_FEATURE_JOURNAL :: u32 where "KFS_FEATURE_JOURNAL \<equiv> 1"
abbreviation KFS_JOURNAL_ENTRIES :: nat where "KFS_JOURNAL_ENTRIES \<equiv> 32"
abbreviation KFS_JOURNAL_BLOCKS :: u32 where "KFS_JOURNAL_BLOCKS \<equiv> 33"
abbreviation KFS_JOURNAL_MAGIC :: u32 where "KFS_JOURNAL_MAGIC \<equiv> 0x314C4E4A"
abbreviation KFS_JOURNAL_COMMITTED :: u32 where "KFS_JOURNAL_COMMITTED \<equiv> 1"
abbreviation KFS_PART_LBA :: u64 where "KFS_PART_LBA \<equiv> 2048"
abbreviation KFS_SECTOR_SIZE :: u64 where "KFS_SECTOR_SIZE \<equiv> 512"
abbreviation KFS_MODE_MASK :: u16 where "KFS_MODE_MASK \<equiv> 0x1FF"
abbreviation KFS_DEFAULT_FILE_MODE :: u16 where "KFS_DEFAULT_FILE_MODE \<equiv> 0x1A4"
abbreviation KFS_DEFAULT_DIR_MODE :: u16 where "KFS_DEFAULT_DIR_MODE \<equiv> 0x1ED"
abbreviation KFS_TYPE_FREE :: u16 where "KFS_TYPE_FREE \<equiv> 0"
abbreviation KFS_TYPE_FILE :: u16 where "KFS_TYPE_FILE \<equiv> 1"
abbreviation KFS_TYPE_DIR :: u16 where "KFS_TYPE_DIR \<equiv> 2"

section \<open>Structures\<close>

record kfs_superblock =
  magic :: u32
  total_blocks :: u32
  bitmap_start :: u32
  bitmap_blocks :: u32
  journal_start :: u32
  journal_blocks :: u32
  inode_start :: u32
  inode_blocks :: u32
  inode_count :: u32
  data_start :: u32
  root_ino :: u32
  free_blocks :: u32
  features :: u32

record kfs_inode =
  i_type :: u16
  i_mode :: u16
  i_size :: u32
  i_uid :: u32
  i_gid :: u32
  i_mtime :: u32
  direct :: "u32 list"
  indirect :: u32

record kfs_dirent =
  d_ino :: u32
  d_name :: "byte list"

record kfs_journal_header =
  jh_magic :: u32
  jh_state :: u32
  jh_sequence :: u32
  jh_count :: u32
  jh_checksum :: u32
  jh_targets :: "u32 list"

section \<open>Layout\<close>

definition enc_sb :: "kfs_superblock \<Rightarrow> byte list" where
  "enc_sb sb = le32s [magic sb, total_blocks sb, bitmap_start sb, bitmap_blocks sb,
     journal_start sb, journal_blocks sb, inode_start sb, inode_blocks sb, inode_count sb,
     data_start sb, root_ino sb, free_blocks sb, features sb]"

definition dec_sb :: "byte list \<Rightarrow> kfs_superblock" where
  "dec_sb b = \<lparr>magic = rd32 0 b, total_blocks = rd32 4 b, bitmap_start = rd32 8 b,
     bitmap_blocks = rd32 12 b, journal_start = rd32 16 b, journal_blocks = rd32 20 b,
     inode_start = rd32 24 b, inode_blocks = rd32 28 b, inode_count = rd32 32 b,
     data_start = rd32 36 b, root_ino = rd32 40 b, free_blocks = rd32 44 b, features = rd32 48 b\<rparr>"

definition enc_inode :: "kfs_inode \<Rightarrow> byte list" where
  "enc_inode ip = le16 (i_type ip) @ le16 (i_mode ip) @
     le32s ([i_size ip, i_uid ip, i_gid ip, i_mtime ip] @ direct ip @ [indirect ip])"

definition dec_inode :: "byte list \<Rightarrow> kfs_inode" where
  "dec_inode b = \<lparr>i_type = un_le16 (get_bytes 0 2 b), i_mode = un_le16 (get_bytes 2 2 b),
     i_size = rd32 4 b, i_uid = rd32 8 b, i_gid = rd32 12 b, i_mtime = rd32 16 b,
     direct = map (\<lambda>i. rd32 (20 + 4 * i) b) [0 ..< KFS_NDIRECT], indirect = rd32 60 b\<rparr>"

definition zero_inode :: kfs_inode where
  "zero_inode = \<lparr>i_type = 0, i_mode = 0, i_size = 0, i_uid = 0, i_gid = 0, i_mtime = 0,
     direct = replicate KFS_NDIRECT 0, indirect = 0\<rparr>"

definition enc_dirent :: "kfs_dirent \<Rightarrow> byte list" where
  "enc_dirent de = le32 (d_ino de) @ d_name de"

definition dec_dirent :: "byte list \<Rightarrow> kfs_dirent" where
  "dec_dirent b = \<lparr>d_ino = rd32 0 b, d_name = get_bytes 4 60 b\<rparr>"

definition enc_jh :: "kfs_journal_header \<Rightarrow> byte list" where
  "enc_jh h = le32s ([jh_magic h, jh_state h, jh_sequence h, jh_count h, jh_checksum h] @ jh_targets h)"

definition dec_jh :: "byte list \<Rightarrow> kfs_journal_header" where
  "dec_jh b = \<lparr>jh_magic = rd32 0 b, jh_state = rd32 4 b, jh_sequence = rd32 8 b, jh_count = rd32 12 b,
     jh_checksum = rd32 16 b, jh_targets = map (\<lambda>i. rd32 (20 + 4 * i) b) [0 ..< KFS_JOURNAL_ENTRIES]\<rparr>"

section \<open>Round trips\<close>

lemma length_enc_sb [simp]: "length (enc_sb sb) = 52" by (simp add: enc_sb_def)

lemma length_enc_inode [simp]: "length (direct ip) = KFS_NDIRECT \<Longrightarrow> length (enc_inode ip) = 64"
  by (simp add: enc_inode_def)

lemma length_direct_dec [simp]: "length (direct (dec_inode b)) = KFS_NDIRECT"
  by (simp add: dec_inode_def)

lemma length_direct_zero [simp]: "length (direct zero_inode) = KFS_NDIRECT"
  by (simp add: zero_inode_def)

lemma length_enc_dirent [simp]: "length (d_name de) = 60 \<Longrightarrow> length (enc_dirent de) = 64"
  by (simp add: enc_dirent_def)

lemma length_enc_jh [simp]: "length (jh_targets h) = KFS_JOURNAL_ENTRIES \<Longrightarrow> length (enc_jh h) = 148"
  by (simp add: enc_jh_def)

lemma rd32_le32s_at: "k = 4 * i \<Longrightarrow> i < length xs \<Longrightarrow> rd32 k (le32s xs @ ys) = xs ! i"
  by (simp add: rd32_le32s)

lemma dec_enc_sb [simp]: "dec_sb (enc_sb sb @ post) = sb"
  unfolding dec_sb_def enc_sb_def
  by (simp add: rd32_le32s_at [of _ 0] rd32_le32s_at [of _ 1] rd32_le32s_at [of _ 2]
      rd32_le32s_at [of _ 3] rd32_le32s_at [of _ 4] rd32_le32s_at [of _ 5] rd32_le32s_at [of _ 6]
      rd32_le32s_at [of _ 7] rd32_le32s_at [of _ 8] rd32_le32s_at [of _ 9] rd32_le32s_at [of _ 10]
      rd32_le32s_at [of _ 11] rd32_le32s_at [of _ 12])

lemma rd32_take: "k + 4 \<le> n \<Longrightarrow> rd32 k (take n b) = rd32 k b"
  by (simp add: rd32_def get_bytes_def drop_take)

lemma dec_sb_take: "dec_sb (take 52 b) = dec_sb b"
  by (simp add: dec_sb_def rd32_take)

lemma inode_words:
  assumes "length (direct ip) = KFS_NDIRECT" and "j < 15"
  shows "rd32 (4 + 4 * j) (enc_inode ip @ post) =
    ([i_size ip, i_uid ip, i_gid ip, i_mtime ip] @ direct ip @ [indirect ip]) ! j"
proof -
  have "rd32 (4 + 4 * j) (enc_inode ip @ post) = rd32 (4 * j)
      (le32s ([i_size ip, i_uid ip, i_gid ip, i_mtime ip] @ direct ip @ [indirect ip]) @ post)"
    by (simp add: enc_inode_def rd32_def get_bytes_def)
  then show ?thesis using assms by (simp only: rd32_le32s length_append list.size)
qed

lemma dec_enc_inode [simp]:
  assumes "length (direct ip) = KFS_NDIRECT"
  shows "dec_inode (enc_inode ip @ post) = ip"
proof -
  note w = inode_words [OF assms, of _ post]
  have head: "rd32 4 (enc_inode ip @ post) = i_size ip" "rd32 8 (enc_inode ip @ post) = i_uid ip"
    "rd32 12 (enc_inode ip @ post) = i_gid ip" "rd32 16 (enc_inode ip @ post) = i_mtime ip"
    using w [of 0] w [of 1] w [of 2] w [of 3] by simp_all
  have ind: "rd32 60 (enc_inode ip @ post) = indirect ip"
    using w [of 14] assms by (simp add: nth_append)
  have "map (\<lambda>i. rd32 (20 + 4 * i) (enc_inode ip @ post)) [0 ..< KFS_NDIRECT] = direct ip"
  proof (rule nth_equalityI)
    fix i assume "i < length (map (\<lambda>i. rd32 (20 + 4 * i) (enc_inode ip @ post)) [0 ..< KFS_NDIRECT])"
    then have i: "i < 10" by simp
    have "rd32 (20 + 4 * i) (enc_inode ip @ post) = direct ip ! i"
      using w [of "4 + i"] i assms by (simp add: nth_append)
    then show "map (\<lambda>i. rd32 (20 + 4 * i) (enc_inode ip @ post)) [0 ..< KFS_NDIRECT] ! i = direct ip ! i"
      using i by (simp del: upt_rec_numeral upt_Suc)
  qed (simp add: assms)
  moreover have "un_le16 (get_bytes 0 2 (enc_inode ip @ post)) = i_type ip"
    "un_le16 (get_bytes 2 2 (enc_inode ip @ post)) = i_mode ip"
    by (simp_all add: enc_inode_def get_bytes_def)
  ultimately show ?thesis using head ind unfolding dec_inode_def by simp
qed

lemma dec_enc_dirent [simp]: "length (d_name de) = 60 \<Longrightarrow> dec_dirent (enc_dirent de) = de"
  by (simp add: dec_dirent_def enc_dirent_def rd32_def get_bytes_def)

lemma jh_words:
  assumes "length (jh_targets h) = KFS_JOURNAL_ENTRIES" and "j < 37"
  shows "rd32 (4 * j) (enc_jh h @ post) =
    ([jh_magic h, jh_state h, jh_sequence h, jh_count h, jh_checksum h] @ jh_targets h) ! j"
  unfolding enc_jh_def using assms by (simp only: rd32_le32s length_append list.size)

lemma dec_enc_jh [simp]:
  assumes "length (jh_targets h) = KFS_JOURNAL_ENTRIES"
  shows "dec_jh (enc_jh h @ post) = h"
proof -
  note w = jh_words [OF assms, of _ post]
  have head: "rd32 0 (enc_jh h @ post) = jh_magic h" "rd32 4 (enc_jh h @ post) = jh_state h"
    "rd32 8 (enc_jh h @ post) = jh_sequence h" "rd32 12 (enc_jh h @ post) = jh_count h"
    "rd32 16 (enc_jh h @ post) = jh_checksum h"
    using w [of 0] w [of 1] w [of 2] w [of 3] w [of 4] by simp_all
  have "map (\<lambda>i. rd32 (20 + 4 * i) (enc_jh h @ post)) [0 ..< KFS_JOURNAL_ENTRIES] = jh_targets h"
  proof (rule nth_equalityI)
    fix i assume "i < length (map (\<lambda>i. rd32 (20 + 4 * i) (enc_jh h @ post)) [0 ..< KFS_JOURNAL_ENTRIES])"
    then have i: "i < 32" by simp
    have "rd32 (20 + 4 * i) (enc_jh h @ post) = jh_targets h ! i"
      using w [of "5 + i"] i assms by (simp add: nth_append)
    then show "map (\<lambda>i. rd32 (20 + 4 * i) (enc_jh h @ post)) [0 ..< KFS_JOURNAL_ENTRIES] ! i
        = jh_targets h ! i"
      using i by (simp del: upt_rec_numeral upt_Suc)
  qed (simp add: assms)
  then show ?thesis using head unfolding dec_jh_def by simp
qed

lemma dec_jh_take: "148 \<le> n \<Longrightarrow> dec_jh (take n b) = dec_jh b"
proof -
  assume n: "148 \<le> n"
  then have "map (\<lambda>i. rd32 (20 + 4 * i) (take n b)) [0 ..< KFS_JOURNAL_ENTRIES] =
      map (\<lambda>i. rd32 (20 + 4 * i) b) [0 ..< KFS_JOURNAL_ENTRIES]"
    by (intro map_cong refl rd32_take) simp
  then show ?thesis using n by (simp add: dec_jh_def rd32_take del: upt_rec_numeral upt_Suc)
qed

lemma dec_inode_zeros: "64 \<le> n \<Longrightarrow> dec_inode (replicate n 0) = zero_inode"
  by (simp add: dec_inode_def zero_inode_def rd32_zeros get_bytes_replicate un_le16_def
      eval_nat_numeral)

end
