(* ===== verification/Blockdev.thy ===== *)
theory Blockdev
  imports Kestrel_Prelude
begin

text \<open>
  The block device layer (\<^verbatim>\<open>kernel/blockdev.c\<close>) and the RAM disk driver (\<^verbatim>\<open>modules/ramdisk.c\<close>).

  A device is its descriptor together with the medium behind the driver's callbacks: the bytes of
  every device block and a fault pattern. The \<open>n\<close>-th transfer of a device succeeds when
  \<open>fault n = None\<close>; with \<open>fault n = Some k\<close> it fails, and a failing write leaves its first
  \<open>k\<close> blocks on the medium, which is what the sector-by-sector loop of the disk driver does. A power
  loss is the pattern in which every transfer from some point on fails with \<open>k = 0\<close>. Pointers to
  descriptors are indices into a table of descriptors.
\<close>

section \<open>Descriptors and media\<close>

abbreviation BLOCKDEV_MAX :: nat where "BLOCKDEV_MAX \<equiv> 8"
abbreviation BLOCKDEV_NAME_MAX :: nat where "BLOCKDEV_NAME_MAX \<equiv> 16"

record blockdev =
  bd_name :: "byte list"
  block_size :: u32
  blocks :: u64
  has_read :: bool
  has_write :: bool
  medium :: "nat \<Rightarrow> byte list"
  io :: nat
  fault :: "nat \<Rightarrow> nat option"

definition dev_read :: "blockdev \<Rightarrow> nat \<Rightarrow> nat \<Rightarrow> byte list option \<times> blockdev" where
  "dev_read bd lba n = (let bd' = bd\<lparr>io := Suc (io bd)\<rparr> in
     case fault bd (io bd) of
       None \<Rightarrow> (Some (concat (map (medium bd) [lba ..< lba + n])), bd')
     | Some _ \<Rightarrow> (None, bd'))"

definition put_blocks :: "nat \<Rightarrow> nat \<Rightarrow> nat \<Rightarrow> byte list \<Rightarrow> (nat \<Rightarrow> byte list) \<Rightarrow> nat \<Rightarrow> byte list" where
  "put_blocks bs lba n data m i =
     (if lba \<le> i \<and> i < lba + n then get_bytes ((i - lba) * bs) bs data else m i)"

definition dev_write :: "blockdev \<Rightarrow> nat \<Rightarrow> nat \<Rightarrow> byte list \<Rightarrow> bool \<times> blockdev" where
  "dev_write bd lba n data = (let bd' = bd\<lparr>io := Suc (io bd)\<rparr>; bs = unat (block_size bd) in
     case fault bd (io bd) of
       None \<Rightarrow> (True, bd'\<lparr>medium := put_blocks bs lba n data (medium bd)\<rparr>)
     | Some k \<Rightarrow> (False, bd'\<lparr>medium := put_blocks bs lba (min k n) data (medium bd)\<rparr>))"

section \<open>The bounds-checked wrappers\<close>

definition range_ok :: "blockdev \<Rightarrow> u64 \<Rightarrow> u32 \<Rightarrow> bool" where
  "range_ok bd lba count = (if count = 0 then True
     else if lba \<ge> blocks bd \<or> ucast count > blocks bd - lba then False else True)"

definition blockdev_read :: "blockdev \<Rightarrow> u64 \<Rightarrow> u32 \<Rightarrow> byte list option \<times> blockdev" where
  "blockdev_read bd lba count = (if \<not> range_ok bd lba count then (None, bd)
     else if count = 0 then (Some [], bd)
     else dev_read bd (unat lba) (unat count))"

definition blockdev_write :: "blockdev \<Rightarrow> u64 \<Rightarrow> u32 \<Rightarrow> byte list \<Rightarrow> bool \<times> blockdev" where
  "blockdev_write bd lba count buf = (if \<not> range_ok bd lba count then (False, bd)
     else if \<not> has_write bd then (False, bd)
     else if count = 0 then (True, bd)
     else dev_write bd (unat lba) (unat count) buf)"

section \<open>The registry\<close>

text \<open>\<^verbatim>\<open>strcmp(a, b) == 0\<close> on NUL-terminated arrays.\<close>

definition c_string :: "byte list \<Rightarrow> cstr" where
  "c_string a = takeWhile (\<lambda>c. c \<noteq> 0) a"

type_synonym devtab = "nat option list"

text \<open>
  The table walk of \<^verbatim>\<open>blockdev_register\<close>: \<open>None\<close> when a device of that name is met, otherwise the
  first free slot, or \<open>- 1\<close>.
\<close>

fun reg_scan :: "(nat \<Rightarrow> blockdev) \<Rightarrow> cstr \<Rightarrow> devtab \<Rightarrow> int \<Rightarrow> int \<Rightarrow> int option" where
  "reg_scan devs nm [] i slot = Some slot"
| "reg_scan devs nm (None # t) i slot = reg_scan devs nm t (i + 1) (if slot < 0 then i else slot)"
| "reg_scan devs nm (Some d # t) i slot =
     (if c_string (bd_name (devs d)) = nm then None else reg_scan devs nm t (i + 1) slot)"

definition blockdev_register :: "(nat \<Rightarrow> blockdev) \<Rightarrow> nat option \<Rightarrow> devtab \<Rightarrow> int \<times> devtab" where
  "blockdev_register devs p tab = (case p of None \<Rightarrow> (- 1, tab) | Some d \<Rightarrow>
     let bd = devs d in
     if \<not> has_read bd \<or> bd_name bd ! 0 = 0 then (- 1, tab)
     else if block_size bd = 0 \<or> (block_size bd AND (block_size bd - 1)) \<noteq> 0 then (- 1, tab)
     else if bd_name bd ! (BLOCKDEV_NAME_MAX - 1) \<noteq> 0 then (- 1, tab)
     else (case reg_scan devs (c_string (bd_name bd)) tab 0 (- 1) of
         None \<Rightarrow> (- 1, tab)
       | Some slot \<Rightarrow> if slot < 0 then (- 1, tab) else (0, tab[nat slot := Some d])))"

fun clear_first :: "nat \<Rightarrow> devtab \<Rightarrow> devtab" where
  "clear_first d [] = []"
| "clear_first d (e # t) = (if e = Some d then None # t else e # clear_first d t)"

definition blockdev_unregister :: "nat option \<Rightarrow> devtab \<Rightarrow> devtab" where
  "blockdev_unregister p tab = (case p of None \<Rightarrow> tab | Some d \<Rightarrow> clear_first d tab)"

fun find_name :: "(nat \<Rightarrow> blockdev) \<Rightarrow> cstr \<Rightarrow> devtab \<Rightarrow> nat option" where
  "find_name devs nm [] = None"
| "find_name devs nm (None # t) = find_name devs nm t"
| "find_name devs nm (Some d # t) =
     (if c_string (bd_name (devs d)) = nm then Some d else find_name devs nm t)"

definition blockdev_find :: "(nat \<Rightarrow> blockdev) \<Rightarrow> cstr option \<Rightarrow> devtab \<Rightarrow> nat option" where
  "blockdev_find devs nm tab = (case nm of None \<Rightarrow> None
     | Some n \<Rightarrow> if n = [] then None else find_name devs n tab)"

fun list_from :: "int \<Rightarrow> int \<Rightarrow> devtab \<Rightarrow> nat option" where
  "list_from index seen [] = None"
| "list_from index seen (None # t) = list_from index seen t"
| "list_from index seen (Some d # t) = (if seen = index then Some d else list_from index (seen + 1) t)"

definition blockdev_list :: "int \<Rightarrow> devtab \<Rightarrow> nat option" where
  "blockdev_list index tab = (if index < 0 then None else list_from index 0 tab)"

section \<open>The RAM disk\<close>

abbreviation RD_BLOCK_SIZE :: nat where "RD_BLOCK_SIZE \<equiv> 512"
abbreviation RD_BLOCKS :: nat where "RD_BLOCKS \<equiv> 512"

text \<open>\<^verbatim>\<open>rd_data\<close>: \<open>None\<close> before \<^verbatim>\<open>ramdisk_init\<close>, then the heap buffer.\<close>

definition rd_range_ok :: "byte list option \<Rightarrow> u64 \<Rightarrow> u32 \<Rightarrow> bool" where
  "rd_range_ok rd lba count = (if rd = None \<or> count = 0 then False
     else if lba \<ge> 512 \<or> ucast count > 512 - lba then False else True)"

definition rd_read :: "byte list option \<Rightarrow> u64 \<Rightarrow> u32 \<Rightarrow> byte list option" where
  "rd_read rd lba count = (if \<not> rd_range_ok rd lba count then None
     else Some (get_bytes (unat lba * RD_BLOCK_SIZE) (unat count * RD_BLOCK_SIZE) (the rd)))"

definition rd_write :: "byte list option \<Rightarrow> u64 \<Rightarrow> u32 \<Rightarrow> byte list \<Rightarrow> bool \<times> byte list option" where
  "rd_write rd lba count buf = (if \<not> rd_range_ok rd lba count then (False, rd)
     else (True, Some (put_bytes (unat lba * RD_BLOCK_SIZE)
       (take (unat count * RD_BLOCK_SIZE) buf) (the rd))))"

definition rd_name :: "byte list" where
  "rd_name = [114, 97, 109, 48, 0, 0, 0, 0, 0, 0, 0, 0, 0, 0, 0, 0]"

section \<open>Media\<close>

lemma dev_write_cases:
  obtains "dev_write bd lba n data = (True, bd\<lparr>io := Suc (io bd),
      medium := put_blocks (unat (block_size bd)) lba n data (medium bd)\<rparr>)" "fault bd (io bd) = None"
  | k where "k \<le> n" "dev_write bd lba n data = (False, bd\<lparr>io := Suc (io bd),
      medium := put_blocks (unat (block_size bd)) lba k data (medium bd)\<rparr>)" "fault bd (io bd) \<noteq> None"
proof (cases "fault bd (io bd)")
  case None
  then show thesis using that(1) by (simp add: dev_write_def Let_def)
next
  case (Some j)
  then show thesis using that(2) [of "min j n"] by (simp add: dev_write_def Let_def)
qed

lemma put_blocks_0: "put_blocks bs lba 0 data m = m"
  by (rule ext) (auto simp: put_blocks_def)

lemma get_bytes_split:
  "a + m + n \<le> length xs \<Longrightarrow> get_bytes a (m + n) xs = get_bytes a m xs @ get_bytes (a + m) n xs"
  by (simp add: get_bytes_def take_add add.commute)

lemma concat_get_bytes:
  "n * bs \<le> length data \<Longrightarrow> concat (map (\<lambda>i. get_bytes (i * bs) bs data) [0 ..< n]) = take (n * bs) data"
proof (induction n)
  case (Suc n)
  have "take (Suc n * bs) data = take (n * bs + bs) data" by (simp add: add.commute)
  also have "\<dots> = take (n * bs) data @ take bs (drop (n * bs) data)" by (rule take_add)
  finally show ?case using Suc by (simp add: get_bytes_def)
qed simp

lemma concat_put_blocks:
  assumes "length data = n * bs"
  shows "concat (map (put_blocks bs lba n data m) [lba ..< lba + n]) = data"
proof -
  have "map (put_blocks bs lba n data m) [lba ..< lba + n] =
      map (\<lambda>i. get_bytes (i * bs) bs data) [0 ..< n]"
    by (rule nth_equalityI) (simp_all add: put_blocks_def)
  then show ?thesis using concat_get_bytes [of n bs data] assms by simp
qed

lemma range_ok_iff: "range_ok bd lba count \<longleftrightarrow> count = 0 \<or> unat lba + unat count \<le> unat (blocks bd)"
proof (cases "lba < blocks bd")
  case True
  then have "unat (blocks bd - lba) = unat (blocks bd) - unat lba" "unat lba < unat (blocks bd)"
    using unat_sub [OF less_imp_le [OF True]] by (simp_all add: word_less_nat_alt)
  moreover have "unat (ucast count :: u64) = unat count" by (simp add: unsigned_ucast_eq take_bit_nat_eq_self_iff order_less_trans [OF unsigned_less])
  ultimately show ?thesis by (auto simp: range_ok_def word_less_nat_alt word_le_nat_alt)
next
  case False
  then show ?thesis
    using unat_eq_0 [of count] by (auto simp: range_ok_def word_less_nat_alt word_le_nat_alt)
qed

section \<open>The device table\<close>

fun entries :: "devtab \<Rightarrow> nat list" where
  "entries [] = []"
| "entries (None # t) = entries t"
| "entries (Some d # t) = d # entries t"

definition names :: "(nat \<Rightarrow> blockdev) \<Rightarrow> devtab \<Rightarrow> cstr list" where
  "names devs tab = map (\<lambda>d. c_string (bd_name (devs d))) (entries tab)"

lemma names_simps [simp]:
  "names devs [] = []" "names devs (None # t) = names devs t"
  "names devs (Some d # t) = c_string (bd_name (devs d)) # names devs t"
  by (simp_all add: names_def)

lemma reg_scan_Some:
  "reg_scan devs nm tab i slot = Some r \<Longrightarrow> 0 \<le> i \<Longrightarrow> slot < 0 \<Longrightarrow>
   nm \<notin> set (names devs tab) \<and> (0 \<le> r \<longrightarrow> i \<le> r \<and> nat (r - i) < length tab \<and> tab ! nat (r - i) = None)"
proof (induction tab arbitrary: i)
  case (Cons e t)
  show ?case
  proof (cases e)
    case None
    have keep: "reg_scan devs nm t j k = Some r' \<Longrightarrow> 0 \<le> k \<Longrightarrow> r' = k \<and> nm \<notin> set (names devs t)" for j k r'
      by (induction devs nm t j k rule: reg_scan.induct) (auto split: if_splits)
    then show ?thesis using Cons.prems None by fastforce
  next
    case (Some d)
    then have "reg_scan devs nm t (i + 1) slot = Some r" "c_string (bd_name (devs d)) \<noteq> nm"
      using Cons.prems by (auto split: if_splits)
    note ih = Cons.IH [OF this(1)] this(2)
    have "nat (r - i) = Suc (nat (r - (i + 1)))" if "i + 1 \<le> r" using that by simp
    then show ?thesis using ih Cons.prems Some by auto
  qed
qed simp

lemma names_update:
  "k < length tab \<Longrightarrow> tab ! k = None \<Longrightarrow>
   set (names devs (tab[k := Some d])) = insert (c_string (bd_name (devs d))) (set (names devs tab)) \<and>
   (c_string (bd_name (devs d)) \<notin> set (names devs tab) \<and> distinct (names devs tab) \<longrightarrow>
     distinct (names devs (tab[k := Some d])))"
proof (induction tab arbitrary: k)
  case (Cons e t)
  then show ?case
  proof (cases k)
    case (Suc j)
    then show ?thesis using Cons.IH [of j] Cons.prems by (cases e) auto
  qed (use Cons.prems in auto)
qed simp

lemma find_name_update:
  "k < length tab \<Longrightarrow> tab ! k = None \<Longrightarrow> c_string (bd_name (devs d)) \<notin> set (names devs tab) \<Longrightarrow>
   find_name devs nm (tab[k := Some d]) =
     (if nm = c_string (bd_name (devs d)) then Some d else find_name devs nm tab)"
proof (induction tab arbitrary: k)
  case (Cons e t)
  have none: "nm' \<notin> set (names devs t') \<Longrightarrow> find_name devs nm' t' = None" for nm' t'
    by (induction devs nm' t' rule: find_name.induct) auto
  show ?case
  proof (cases k)
    case 0
    then show ?thesis using Cons.prems none by auto
  next
    case (Suc j)
    then show ?thesis using Cons.IH [of j] Cons.prems by (cases e) auto
  qed
qed simp

lemma find_name_iff:
  "distinct (names devs tab) \<Longrightarrow>
   find_name devs nm tab = Some d \<longleftrightarrow> Some d \<in> set tab \<and> c_string (bd_name (devs d)) = nm"
proof (induction devs nm tab rule: find_name.induct)
  case (3 devs nm e t)
  have mem: "Some x \<in> set t \<Longrightarrow> c_string (bd_name (devs x)) \<in> set (names devs t)" for x
    by (induction t rule: entries.induct) auto
  show ?case using 3 mem [of d] by auto
qed auto

lemma clear_first_names:
  "distinct (names devs tab) \<Longrightarrow>
   find_name devs nm (clear_first d tab) =
     (if find_name devs nm tab = Some d then None else find_name devs nm tab) \<and>
   set (names devs (clear_first d tab)) \<subseteq> set (names devs tab) \<and>
   distinct (names devs (clear_first d tab))"
proof (induction tab)
  case (Cons e t)
  have none: "nm' \<notin> set (names devs t') \<Longrightarrow> find_name devs nm' t' = None" for nm' t'
    by (induction devs nm' t' rule: find_name.induct) auto
  have only: "find_name devs nm' t = Some x \<Longrightarrow> nm' = c_string (bd_name (devs x))" for nm' x
    by (induction devs nm' t rule: find_name.induct) (auto split: if_splits)
  show ?case
  proof (cases e)
    case None
    then show ?thesis using Cons by simp
  next
    case (Some x)
    then show ?thesis using Cons none only by (auto split: if_splits)
  qed
qed simp


section \<open>Properties\<close>

definition demo_dev :: blockdev where
  "demo_dev = \<lparr>bd_name = rd_name, block_size = 4, blocks = 8, has_read = True, has_write = True,
     medium = (\<lambda>_. [0, 0, 0, 0]), io = 0, fault = (\<lambda>n. if n = 2 then Some 1 else None)\<rparr>"

text \<open>
  C27. Whatever request \<^verbatim>\<open>blockdev_write\<close> is given, it changes no block outside the requested range. A
  request that reaches past the end of the device, and any request to a read-only device, is refused
  and changes nothing, not even the count of transfers. Otherwise a prefix of the data is on the range when the
  driver fails and all of it when it succeeds, which it does whenever the driver does not fail; and after a
  success \<^verbatim>\<open>blockdev_read\<close> of the same range returns the data unless the driver fails.
\<close>

theorem blockdev_write_correct:
  assumes w: "blockdev_write bd lba count buf = (ok, bd')"
    and len: "length buf = unat count * unat (block_size bd)"
  shows "(\<exists>k \<le> unat count. (ok \<longrightarrow> k = unat count) \<and>
      medium bd' = put_blocks (unat (block_size bd)) (unat lba) k buf (medium bd)) \<and>
    (\<not> has_write bd \<or> count \<noteq> 0 \<and> unat lba + unat count > unat (blocks bd) \<longrightarrow> \<not> ok \<and> bd' = bd) \<and>
    (has_write bd \<and> (count = 0 \<or> unat lba + unat count \<le> unat (blocks bd)) \<and> fault bd (io bd) = None \<longrightarrow> ok) \<and>
    (ok \<and> fault bd' (io bd') = None \<longrightarrow> fst (blockdev_read bd' lba count) = Some buf)"
proof (intro conjI impI, goal_cases)
  case 1
  show ?case
  proof (cases "range_ok bd lba count \<and> has_write bd \<and> count \<noteq> 0")
    case True
    then have "dev_write bd (unat lba) (unat count) buf = (ok, bd')" using w by (auto simp: blockdev_write_def)
    then show ?thesis by (cases rule: dev_write_cases [of bd "unat lba" "unat count" buf]) auto
  next
    case False
    then have "bd' = bd" "ok \<longrightarrow> count = 0" using w by (auto simp: blockdev_write_def split: if_splits)
    moreover from this have "medium bd' = put_blocks (unat (block_size bd)) (unat lba) 0 buf (medium bd)"
      by (simp add: put_blocks_0)
    ultimately show ?thesis by (intro exI [of _ 0]) simp
  qed
next
  case 2
  then show ?case using w by (auto simp: blockdev_write_def range_ok_iff split: if_splits)
next
  case 3
  then show ?case using w by (auto simp: blockdev_write_def range_ok_iff split: if_splits)
next
  case 4
  then show ?case using w
    by (cases rule: dev_write_cases [of bd "unat lba" "unat count" buf]) (auto simp: blockdev_write_def range_ok_iff split: if_splits)
next
  case 5
  show ?case
  proof (cases "count = 0")
    case True
    then show ?thesis using len by (simp add: blockdev_read_def range_ok_def)
  next
    case False
    then have "range_ok bd lba count" "dev_write bd (unat lba) (unat count) buf = (True, bd')"
      using w 5 by (auto simp: blockdev_write_def split: if_splits)
    then have "range_ok bd' lba count"
        "medium bd' = put_blocks (unat (block_size bd)) (unat lba) (unat count) buf (medium bd)"
      by (cases rule: dev_write_cases [of bd "unat lba" "unat count" buf]; auto simp: range_ok_iff)+
    then show ?thesis using False 5 concat_put_blocks [OF len]
      by (simp add: blockdev_read_def dev_read_def Let_def)
  qed
qed

theorem blockdev_write_correct_witness:
  "fst (blockdev_read (snd (blockdev_write demo_dev 2 2 [1, 2, 3, 4, 5, 6, 7, 8])) 2 2) = Some [1, 2, 3, 4, 5, 6, 7, 8] \<and>
   blockdev_write (demo_dev\<lparr>has_write := False\<rparr>) 2 2 [1, 2, 3, 4, 5, 6, 7, 8] = (False, demo_dev\<lparr>has_write := False\<rparr>)"
proof -
  let ?buf = "[1, 2, 3, 4, 5, 6, 7, 8] :: byte list" and ?ro = "demo_dev\<lparr>has_write := False\<rparr>"
  have w: "blockdev_write demo_dev 2 2 ?buf = (True, snd (blockdev_write demo_dev 2 2 ?buf))"
    by (simp add: blockdev_write_def dev_write_def demo_dev_def range_ok_def Let_def)
  have "fault (snd (blockdev_write demo_dev 2 2 ?buf)) (io (snd (blockdev_write demo_dev 2 2 ?buf))) = None"
    by (simp add: blockdev_write_def dev_write_def demo_dev_def range_ok_def Let_def)
  then have 1: "fst (blockdev_read (snd (blockdev_write demo_dev 2 2 ?buf)) 2 2) = Some ?buf"
    using blockdev_write_correct [OF w, THEN conjunct2, THEN conjunct2, THEN conjunct2] by (simp add: demo_dev_def)
  obtain ok bd' where r: "blockdev_write ?ro 2 2 ?buf = (ok, bd')" by fastforce
  have "\<not> ok \<and> bd' = ?ro" using blockdev_write_correct [OF r, THEN conjunct2, THEN conjunct1] by (simp add: demo_dev_def)
  then show ?thesis using 1 r by simp
qed

text \<open>
  C28. The device table is a map from names to devices. Registering a device either fails and changes
  nothing, or makes exactly that name resolve to it; names stay unique; unregistering removes
  exactly the name of that device.
\<close>

theorem blockdev_registry_correct:
  assumes "distinct (names devs tab)" and len: "length (bd_name (devs d)) = BLOCKDEV_NAME_MAX"
  shows "(case blockdev_register devs (Some d) tab of (r, tab') \<Rightarrow>
      distinct (names devs tab') \<and> (r \<noteq> 0 \<longrightarrow> r = - 1 \<and> tab' = tab) \<and>
      (r = 0 \<longrightarrow> (\<forall>nm. blockdev_find devs (Some nm) tab' =
         (if nm = c_string (bd_name (devs d)) then Some d else blockdev_find devs (Some nm) tab)))) \<and>
    blockdev_find devs (Some nm) (blockdev_unregister (Some d) tab) =
      (if blockdev_find devs (Some nm) tab = Some d then None else blockdev_find devs (Some nm) tab)"
proof (rule conjI, goal_cases)
  case 1
  let ?nm = "c_string (bd_name (devs d))"
  obtain r tab' where ret: "blockdev_register devs (Some d) tab = (r, tab')" by fastforce
  show ?case
  proof (cases "r = 0")
    case True
    then obtain slot where scan: "reg_scan devs ?nm tab 0 (- 1) = Some slot" "0 \<le> slot"
        and tab': "tab' = tab[nat slot := Some d]" and nm: "bd_name (devs d) ! 0 \<noteq> 0"
      using ret by (auto simp: blockdev_register_def Let_def split: if_splits option.splits)
    have free: "?nm \<notin> set (names devs tab)" "nat slot < length tab" "tab ! nat slot = None"
      using reg_scan_Some [OF scan(1)] scan(2) by simp_all
    have ne: "?nm \<noteq> []"
      using nm len by (cases "bd_name (devs d)") (simp_all add: c_string_def)
    have "distinct (names devs tab')"
      using names_update [OF free(2,3), of devs d] free(1) assms(1) tab' by blast
    moreover have "blockdev_find devs (Some n) tab' =
        (if n = ?nm then Some d else blockdev_find devs (Some n) tab)" for n
      using find_name_update [OF free(2,3,1), of n] ne unfolding tab'
      by (cases "n = ?nm") (simp_all add: blockdev_find_def)
    ultimately show ?thesis using ret True by simp
  next
    case False
    then have "r = - 1 \<and> tab' = tab"
      using ret by (auto simp: blockdev_register_def Let_def split: if_splits option.splits)
    then show ?thesis using assms ret False by simp
  qed
next
  case 2
  show ?case
    using clear_first_names [OF assms(1), of nm d] by (simp add: blockdev_find_def blockdev_unregister_def)
qed

theorem blockdev_registry_correct_witness:
  "blockdev_register (\<lambda>_. demo_dev) (Some 5) [None, None] = (0, [Some 5, None]) \<and>
   blockdev_find (\<lambda>_. demo_dev) (Some [114, 97, 109, 48]) [Some 5, None] = Some 5"
proof -
  let ?devs = "\<lambda>_::nat. demo_dev" and ?tab = "[None, None] :: devtab"
  have reg: "blockdev_register ?devs (Some 5) ?tab = (0, [Some 5, None])"
    by (simp add: blockdev_register_def demo_dev_def rd_name_def Let_def)
  have "distinct (names ?devs ?tab)" "length (bd_name (?devs 5)) = 16"
    by (simp_all add: demo_dev_def rd_name_def)
  note law = blockdev_registry_correct [of ?devs ?tab 5, OF this, unfolded reg]
  have nm: "c_string (bd_name demo_dev) = [114, 97, 109, 48]"
    by (simp add: demo_dev_def rd_name_def c_string_def)
  show ?thesis using law reg by (simp add: nm)
qed

section \<open>The RAM disk is such a device\<close>

text \<open>The device of the block layer whose medium is the buffer \<open>d\<close>.\<close>

definition rd_dev :: "byte list \<Rightarrow> blockdev" where
  "rd_dev d = \<lparr>bd_name = rd_name, block_size = 512, blocks = 512, has_read = True, has_write = True,
     medium = (\<lambda>i. get_bytes (i * 512) 512 d), io = 0, fault = (\<lambda>_. None)\<rparr>"

lemma rd_range: "rd_range_ok (Some d) lba count \<longleftrightarrow> count \<noteq> 0 \<and> range_ok (rd_dev d) lba count"
  by (simp add: rd_range_ok_def range_ok_def rd_dev_def)

lemma concat_blocks_from:
  "(a + n) * bs \<le> length d \<Longrightarrow>
   concat (map (\<lambda>i. get_bytes (i * bs) bs d) [a ..< a + n]) = get_bytes (a * bs) (n * bs) d"
proof (induction n)
  case (Suc n)
  have "get_bytes (a * bs) (n * bs + bs) d = get_bytes (a * bs) (n * bs) d @ get_bytes ((a + n) * bs) bs d"
    using Suc.prems get_bytes_split [of "a * bs" "n * bs" bs d] by (simp add: algebra_simps)
  then show ?case using Suc by (simp add: algebra_simps)
qed (simp add: get_bytes_def)

text \<open>
  C29. The RAM disk refines the block device model with no faults: for a buffer of 256 KiB, its read
  returns and its write leaves what the model's transfers do, and both refuse the same requests.
\<close>

theorem ramdisk_refines:
  assumes len: "length d = RD_BLOCKS * RD_BLOCK_SIZE" and c: "count \<noteq> 0"
    and buf: "length buf = unat count * RD_BLOCK_SIZE"
  shows "rd_read (Some d) lba count = fst (blockdev_read (rd_dev d) lba count) \<and>
    (case rd_write (Some d) lba count buf of (ok, rd') \<Rightarrow>
       case blockdev_write (rd_dev d) lba count buf of (ok', bd') \<Rightarrow>
         ok = ok' \<and> length (the rd') = length d \<and>
         (\<forall>i < RD_BLOCKS. medium bd' i = medium (rd_dev (the rd')) i))"
proof (cases "range_ok (rd_dev d) lba count")
  case False
  then show ?thesis using c
    by (simp add: rd_read_def rd_write_def rd_range blockdev_read_def blockdev_write_def)
next
  case True
  let ?l = "unat lba" and ?n = "unat count"
  have le: "?l + ?n \<le> 512" using True c by (simp add: range_ok_iff rd_dev_def)
  then have le': "(?l + ?n) * 512 \<le> length d" using len by simp
  have rd: "rd_read (Some d) lba count = fst (blockdev_read (rd_dev d) lba count)"
    using True c concat_blocks_from [OF le']
    by (simp add: rd_read_def rd_range blockdev_read_def dev_read_def rd_dev_def Let_def)
  have in_buf: "?l * 512 + length buf \<le> length d" using le' buf by (simp add: algebra_simps)
  have blk: "put_blocks 512 ?l ?n buf (\<lambda>i. get_bytes (i * 512) 512 d) i =
      get_bytes (i * 512) 512 (put_bytes (?l * 512) buf d)" if "i < 512" for i
  proof (cases "?l \<le> i \<and> i < ?l + ?n")
    case True
    then have "?l * 512 \<le> i * 512" "i * 512 + 512 \<le> ?l * 512 + length buf" using buf by auto
    then have "get_bytes (i * 512) 512 (put_bytes (?l * 512) buf d) = get_bytes ((i - ?l) * 512) 512 buf"
      using get_put_inside [OF in_buf] by (simp add: diff_mult_distrib)
    then show ?thesis using True by (simp add: put_blocks_def)
  next
    case False
    then have "i * 512 + 512 \<le> ?l * 512 \<or> ?l * 512 + length buf \<le> i * 512" using buf by auto
    then show ?thesis using False in_buf len that
      by (auto simp: put_blocks_def get_put_disjoint)
  qed
  then show ?thesis using rd True c in_buf buf
    by (simp add: rd_write_def rd_range blockdev_write_def dev_write_def rd_dev_def Let_def)
qed

theorem ramdisk_refines_witness:
  "rd_read (Some (replicate (512 * 512) 7)) 3 1 = Some (replicate 512 7)"
proof -
  have "length (replicate (512 * 512) (7 :: byte)) = RD_BLOCKS * RD_BLOCK_SIZE"
    by (simp only: length_replicate)
  from ramdisk_refines [OF this, of 1 "replicate 512 0" 3] show ?thesis
    by (simp add: blockdev_read_def dev_read_def rd_dev_def range_ok_def Let_def get_bytes_replicate)
qed

end
