(* ===== verification/Kfs_Journal.thy ===== *)
theory Kfs_Journal
  imports Kfs_Format Blockdev
begin

text \<open>
  The block layer of KFS (\<^verbatim>\<open>kernel/kfs.c\<close>, first part): the write-through block cache, the redo
  journal with its commit protocol, and mount-time recovery. The file's static data is one state
  record; file system instances and block devices are referred to by index. The driver-wide mutex
  is not modelled: every operation runs to completion. Scratch buffers that hold nothing across
  calls are local; \<^verbatim>\<open>sb_block\<close>, whose tail is written back as it was read, is part of the state.
\<close>

section \<open>State\<close>

record kfs_fs =
  f_bd :: "nat option"
  start_lba :: u64
  spb :: u32
  f_sb :: kfs_superblock
  f_used :: bool
  mounted :: bool
  handles :: int

record bcache_slot =
  c_fs :: "nat option"
  c_blk :: u32
  c_stamp :: u64
  c_data :: "byte list"

type_synonym journal_entry = "u32 \<times> byte list"

record journal_tx =
  j_fs :: "nat option"
  j_active :: bool
  j_failed :: bool
  j_sequence :: u32
  j_entries :: "journal_entry list"
  j_saved :: kfs_superblock

record kfs_state =
  devs :: "nat \<Rightarrow> blockdev"
  fss :: "nat \<Rightarrow> kfs_fs"
  bcache :: "bcache_slot list"
  bcache_clock :: u64
  bcache_hits :: u64
  bcache_misses :: u64
  jtx :: journal_tx
  sb_block :: "byte list"

abbreviation sb_of :: "nat \<Rightarrow> kfs_state \<Rightarrow> kfs_superblock" where
  "sb_of f s \<equiv> f_sb (fss s f)"

definition upd_fs :: "nat \<Rightarrow> (kfs_fs \<Rightarrow> kfs_fs) \<Rightarrow> kfs_state \<Rightarrow> kfs_state" where
  "upd_fs f g s = s\<lparr>fss := (fss s)(f := g (fss s f))\<rparr>"

definition set_sb :: "nat \<Rightarrow> kfs_superblock \<Rightarrow> kfs_state \<Rightarrow> kfs_state" where
  "set_sb f sb s = upd_fs f (\<lambda>fs. fs\<lparr>f_sb := sb\<rparr>) s"

section \<open>Device access\<close>

definition fs_lba :: "kfs_fs \<Rightarrow> u32 \<Rightarrow> u64" where
  "fs_lba fs blk = start_lba fs + ucast blk * ucast (spb fs)"

definition journal_raw_read :: "nat \<Rightarrow> u32 \<Rightarrow> kfs_state \<Rightarrow> byte list option \<times> kfs_state" where
  "journal_raw_read f blk s = (case f_bd (fss s f) of None \<Rightarrow> (None, s) | Some d \<Rightarrow>
     case blockdev_read (devs s d) (fs_lba (fss s f) blk) (spb (fss s f)) of
       (r, bd) \<Rightarrow> (r, s\<lparr>devs := (devs s)(d := bd)\<rparr>))"

definition journal_raw_write :: "nat \<Rightarrow> u32 \<Rightarrow> byte list \<Rightarrow> kfs_state \<Rightarrow> bool \<times> kfs_state" where
  "journal_raw_write f blk buf s = (case f_bd (fss s f) of None \<Rightarrow> (False, s) | Some d \<Rightarrow>
     case blockdev_write (devs s d) (fs_lba (fss s f) blk) (spb (fss s f)) buf of
       (r, bd) \<Rightarrow> (r, s\<lparr>devs := (devs s)(d := bd)\<rparr>))"

section \<open>The block cache\<close>

definition bcache_find :: "nat \<Rightarrow> u32 \<Rightarrow> bcache_slot list \<Rightarrow> nat option" where
  "bcache_find f blk cs =
     first_from (\<lambda>i. c_fs (cs ! i) = Some f \<and> c_blk (cs ! i) = blk) 0 (length cs)"

text \<open>The victim scan: the first empty slot, otherwise the first slot with the least stamp.\<close>

function victim_from :: "bcache_slot list \<Rightarrow> nat \<Rightarrow> nat \<Rightarrow> nat" where
  "victim_from cs best i = (if i < length cs then
      if c_fs (cs ! i) = None then i
      else victim_from cs (if c_stamp (cs ! i) < c_stamp (cs ! best) then i else best) (Suc i)
    else best)"
  by pat_completeness auto
termination by (relation "measure (\<lambda>(cs, best, i). length cs - i)") auto

declare victim_from.simps [simp del]

definition bcache_victim :: "bcache_slot list \<Rightarrow> nat" where
  "bcache_victim cs = victim_from cs 0 0"

definition bcache_invalidate :: "nat option \<Rightarrow> kfs_state \<Rightarrow> kfs_state" where
  "bcache_invalidate fo s = s\<lparr>bcache :=
     map (\<lambda>c. if fo = None \<or> c_fs c = fo then c\<lparr>c_fs := None\<rparr> else c) (bcache s)\<rparr>"

definition cache_fill :: "nat \<Rightarrow> nat \<Rightarrow> u32 \<Rightarrow> byte list \<Rightarrow> kfs_state \<Rightarrow> kfs_state" where
  "cache_fill i f blk buf s = s\<lparr>bcache_clock := bcache_clock s + 1,
     bcache := (bcache s)[i := \<lparr>c_fs = Some f, c_blk = blk, c_stamp = bcache_clock s + 1, c_data = buf\<rparr>]\<rparr>"

definition journal_pending :: "nat \<Rightarrow> u32 \<Rightarrow> kfs_state \<Rightarrow> byte list option" where
  "journal_pending f blk s =
     (if \<not> j_active (jtx s) \<or> j_fs (jtx s) \<noteq> Some f then None
      else map_of (j_entries (jtx s)) blk)"

definition bread :: "nat \<Rightarrow> u32 \<Rightarrow> kfs_state \<Rightarrow> byte list option \<times> kfs_state" where
  "bread f blk s = (case journal_pending f blk s of
     Some data \<Rightarrow> (Some data, s)
   | None \<Rightarrow> (case bcache_find f blk (bcache s) of
       Some i \<Rightarrow> (Some (c_data (bcache s ! i)),
         (cache_fill i f blk (c_data (bcache s ! i)) s)\<lparr>bcache_hits := bcache_hits s + 1\<rparr>)
     | None \<Rightarrow> (case journal_raw_read f blk s of
         (None, s1) \<Rightarrow> (None, s1)
       | (Some buf, s1) \<Rightarrow> (Some buf,
           (cache_fill (bcache_victim (bcache s1)) f blk buf s1)\<lparr>bcache_misses := bcache_misses s + 1\<rparr>))))"

definition bwrite :: "nat \<Rightarrow> u32 \<Rightarrow> byte list \<Rightarrow> kfs_state \<Rightarrow> bool \<times> kfs_state" where
  "bwrite f blk buf s = (let hit = bcache_find f blk (bcache s) in
     case journal_raw_write f blk buf s of
       (False, s1) \<Rightarrow> (False, case hit of None \<Rightarrow> s1
          | Some i \<Rightarrow> s1\<lparr>bcache := (bcache s1)[i := (bcache s1 ! i)\<lparr>c_fs := None\<rparr>]\<rparr>)
     | (True, s1) \<Rightarrow> (True, cache_fill (case hit of Some i \<Rightarrow> i | None \<Rightarrow> bcache_victim (bcache s1))
          f blk buf s1))"

definition kfs_cache_stats :: "kfs_state \<Rightarrow> u64 \<times> u64" where
  "kfs_cache_stats s = (bcache_hits s, bcache_misses s)"

section \<open>The journal\<close>

definition crc_bit :: "u32 \<Rightarrow> u32" where
  "crc_bit crc = (drop_bit 1 crc) XOR (0xEDB88320 AND (- (crc AND 1)))"

definition crc_byte :: "byte \<Rightarrow> u32 \<Rightarrow> u32" where
  "crc_byte b crc = (crc_bit ^^ 8) (crc XOR ucast b)"

definition crc32_update :: "u32 \<Rightarrow> byte list \<Rightarrow> u32" where
  "crc32_update crc data = fold crc_byte data crc"

definition journal_checksum :: "u32 \<Rightarrow> u32 \<Rightarrow> journal_entry list \<Rightarrow> u32" where
  "journal_checksum sequence count es =
     (let crc = crc32_update (crc32_update 0xFFFFFFFF (le32 sequence)) (le32 count);
          crc = fold (\<lambda>e c. crc32_update c (le32 (fst e))) es crc;
          crc = fold (\<lambda>e c. crc32_update c (snd e)) es crc
      in crc XOR 0xFFFFFFFF)"

definition journal_clear :: "nat \<Rightarrow> kfs_state \<Rightarrow> bool \<times> kfs_state" where
  "journal_clear f s = journal_raw_write f (journal_start (sb_of f s)) (replicate KFS_BLOCK_SIZE 0) s"

definition next_sequence :: "u32 \<Rightarrow> u32" where
  "next_sequence q = (if q + 1 = 0 then 1 else q + 1)"

definition journal_begin :: "nat \<Rightarrow> kfs_state \<Rightarrow> bool \<times> kfs_state" where
  "journal_begin f s = (if j_active (jtx s) then (False, s)
     else (True, s\<lparr>jtx := \<lparr>j_fs = Some f, j_active = True, j_failed = False,
       j_sequence = next_sequence (j_sequence (jtx s)), j_entries = [], j_saved = sb_of f s\<rparr>\<rparr>))"

definition journal_reset :: "kfs_state \<Rightarrow> kfs_state" where
  "journal_reset s = s\<lparr>jtx := (jtx s)\<lparr>j_active := False, j_failed := False, j_entries := [], j_fs := None\<rparr>\<rparr>"

definition journal_abort :: "kfs_state \<Rightarrow> kfs_state" where
  "journal_abort s = journal_reset (case j_fs (jtx s) of
     Some f \<Rightarrow> if j_active (jtx s) then set_sb f (j_saved (jtx s)) s else s
   | None \<Rightarrow> s)"

definition stage_entry :: "u32 \<Rightarrow> byte list \<Rightarrow> journal_entry list \<Rightarrow> journal_entry list" where
  "stage_entry blk buf es = (case first_from (\<lambda>i. fst (es ! i) = blk) 0 (length es) of
     Some i \<Rightarrow> es[i := (blk, buf)] | None \<Rightarrow> es @ [(blk, buf)])"

definition journal_stage :: "nat \<Rightarrow> u32 \<Rightarrow> byte list \<Rightarrow> kfs_state \<Rightarrow> bool \<times> kfs_state" where
  "journal_stage f blk buf s =
     (if \<not> j_active (jtx s) \<or> j_fs (jtx s) \<noteq> Some f then bwrite f blk buf s
      else if blk \<notin> fst ` set (j_entries (jtx s)) \<and> length (j_entries (jtx s)) \<ge> KFS_JOURNAL_ENTRIES
      then (False, s\<lparr>jtx := (jtx s)\<lparr>j_failed := True\<rparr>\<rparr>)
      else (True, s\<lparr>jtx := (jtx s)\<lparr>j_entries := stage_entry blk buf (j_entries (jtx s))\<rparr>\<rparr>))"

fun write_payloads :: "nat \<Rightarrow> u32 \<Rightarrow> journal_entry list \<Rightarrow> kfs_state \<Rightarrow> bool \<times> kfs_state" where
  "write_payloads f at [] s = (True, s)"
| "write_payloads f at (e # es) s = (case journal_raw_write f at (snd e) s of
     (False, s1) \<Rightarrow> (False, s1) | (True, s1) \<Rightarrow> write_payloads f (at + 1) es s1)"

fun write_home :: "nat \<Rightarrow> journal_entry list \<Rightarrow> kfs_state \<Rightarrow> bool \<times> kfs_state" where
  "write_home f [] s = (True, s)"
| "write_home f (e # es) s = (case bwrite f (fst e) (snd e) s of
     (False, s1) \<Rightarrow> (False, s1) | (True, s1) \<Rightarrow> write_home f es s1)"

definition commit_header :: "u32 \<Rightarrow> journal_entry list \<Rightarrow> kfs_journal_header" where
  "commit_header sequence es = \<lparr>jh_magic = KFS_JOURNAL_MAGIC, jh_state = KFS_JOURNAL_COMMITTED,
     jh_sequence = sequence, jh_count = of_nat (length es),
     jh_checksum = journal_checksum sequence (of_nat (length es)) es,
     jh_targets = map fst es @ replicate (KFS_JOURNAL_ENTRIES - length es) 0\<rparr>"

definition header_block :: "u32 \<Rightarrow> journal_entry list \<Rightarrow> byte list" where
  "header_block sequence es = enc_jh (commit_header sequence es) @ replicate (KFS_BLOCK_SIZE - 148) 0"

text \<open>Give up on the instance: the next mount classifies what is on the device.\<close>

definition fs_fence :: "nat \<Rightarrow> kfs_state \<Rightarrow> kfs_state" where
  "fs_fence f s = bcache_invalidate (Some f) (upd_fs f (\<lambda>fs. fs\<lparr>mounted := False\<rparr>) s)"

definition commit_body :: "nat \<Rightarrow> kfs_state \<Rightarrow> bool \<times> kfs_state" where
  "commit_body f s = (let es = j_entries (jtx s); q = j_sequence (jtx s); js = journal_start (sb_of f s) in
     if \<not> j_active (jtx s) \<or> j_fs (jtx s) \<noteq> Some f \<or> j_failed (jtx s) then (False, s)
     else if es = [] then (True, s)
     else case write_payloads f (js + 1) es s of (False, s1) \<Rightarrow> (False, s1) | (True, s1) \<Rightarrow>
       (case journal_raw_write f js (header_block q es) s1 of
         (False, s2) \<Rightarrow> (False, fs_fence f s2)
       | (True, s2) \<Rightarrow> (case write_home f es s2 of
           (False, s3) \<Rightarrow> (False, fs_fence f s3)
         | (True, s3) \<Rightarrow> (case journal_clear f s3 of
             (False, s4) \<Rightarrow> (False, fs_fence f s4)
           | (True, s4) \<Rightarrow> (True, s4)))))"

definition journal_commit :: "nat \<Rightarrow> kfs_state \<Rightarrow> bool \<times> kfs_state" where
  "journal_commit f s = (case commit_body f s of (r, s1) \<Rightarrow>
     (r, journal_reset (if \<not> r \<and> mounted (fss s1 f) then set_sb f (j_saved (jtx s1)) s1 else s1)))"

section \<open>Recovery\<close>

definition target_unsafe :: "kfs_superblock \<Rightarrow> u32 \<Rightarrow> bool" where
  "target_unsafe sb t \<longleftrightarrow> t \<ge> total_blocks sb \<or>
     (t \<ge> journal_start sb \<and> t < journal_start sb + journal_blocks sb)"

fun recover_load :: "nat \<Rightarrow> u32 list \<Rightarrow> journal_entry list \<Rightarrow> kfs_state \<Rightarrow>
    journal_entry list option \<times> kfs_state" where
  "recover_load f [] acc s = (Some acc, s)"
| "recover_load f (t # ts) acc s =
     (if target_unsafe (sb_of f s) t then (None, s)
      else if t \<in> fst ` set acc then (None, s)
      else case journal_raw_read f (journal_start (sb_of f s) + 1 + of_nat (length acc)) s of
        (None, s1) \<Rightarrow> (None, s1)
      | (Some data, s1) \<Rightarrow> recover_load f ts (acc @ [(t, data)]) s1)"

definition journal_recover :: "nat \<Rightarrow> kfs_state \<Rightarrow> int \<times> kfs_state" where
  "journal_recover f s =
     (case journal_raw_read f (journal_start (sb_of f s)) s of (None, s1) \<Rightarrow> (- 1, s1)
      | (Some buf, s1) \<Rightarrow>
     let jh = dec_jh buf in
     if jh_magic jh = 0 \<and> jh_state jh = 0 \<and> jh_count jh = 0 then (0, s1)
     else if jh_magic jh \<noteq> KFS_JOURNAL_MAGIC \<or> jh_state jh \<noteq> KFS_JOURNAL_COMMITTED \<or>
       jh_count jh = 0 \<or> jh_count jh > of_nat KFS_JOURNAL_ENTRIES
     then (case journal_clear f s1 of (r, s2) \<Rightarrow> (if r then 0 else - 1, s2))
     else case recover_load f (take (unat (jh_count jh)) (jh_targets jh)) [] s1 of
       (None, s2) \<Rightarrow> (- 1, s2)
     | (Some es, s2) \<Rightarrow>
       if journal_checksum (jh_sequence jh) (jh_count jh) es \<noteq> jh_checksum jh
       then (case journal_clear f s2 of (r, s3) \<Rightarrow> (if r then 0 else - 1, s3))
       else case write_home f es s2 of (False, s3) \<Rightarrow> (- 1, s3) | (True, s3) \<Rightarrow>
         (case journal_clear f s3 of (r, s4) \<Rightarrow> (if r then 1 else - 1, s4)))"

section \<open>Superblock write-back\<close>

definition sb_sync :: "nat \<Rightarrow> kfs_state \<Rightarrow> bool \<times> kfs_state" where
  "sb_sync f s = (let b = put_bytes 0 (enc_sb (sb_of f s)) (sb_block s)
     in journal_stage f 0 b (s\<lparr>sb_block := b\<rparr>))"

section \<open>The blocks of an instance\<close>

abbreviation f_dev :: "kfs_state \<Rightarrow> nat \<Rightarrow> nat" where
  "f_dev s f \<equiv> the (f_bd (fss s f))"

definition fs_block :: "kfs_state \<Rightarrow> nat \<Rightarrow> nat \<Rightarrow> byte list" where
  "fs_block s f b = (let sp = unat (spb (fss s f)); l = unat (start_lba (fss s f)) + b * sp
     in concat (map (medium (devs s (f_dev s f))) [l ..< l + sp]))"

text \<open>
  The instance lies on a writable device, its blocks are whole numbers of device blocks that hold
  a journal header each, it does not run past the end of the device, and the journal lies inside.
\<close>

definition geom_ok :: "kfs_state \<Rightarrow> nat \<Rightarrow> bool" where
  "geom_ok s f \<longleftrightarrow> (let fs = fss s f; bd = devs s (f_dev s f); bs = unat (block_size bd) in
     f_bd fs \<noteq> None \<and> has_write bd \<and> 256 \<le> bs \<and> bs * unat (spb fs) = KFS_BLOCK_SIZE \<and>
     unat (start_lba fs) + unat (total_blocks (f_sb fs)) * unat (spb fs) \<le> unat (blocks bd) \<and>
     (\<forall>i. length (medium bd i) = bs) \<and>
     unat (journal_start (f_sb fs)) + 33 \<le> unat (total_blocks (f_sb fs)) \<and>
     journal_blocks (f_sb fs) = KFS_JOURNAL_BLOCKS)"

lemma geom_okD:
  assumes "geom_ok s f"
  shows "f_bd (fss s f) = Some (f_dev s f)" and "has_write (devs s (f_dev s f))"
    and "256 \<le> unat (block_size (devs s (f_dev s f)))"
    and "unat (block_size (devs s (f_dev s f))) * unat (spb (fss s f)) = KFS_BLOCK_SIZE"
    and "unat (start_lba (fss s f)) + unat (total_blocks (sb_of f s)) * unat (spb (fss s f))
           \<le> unat (blocks (devs s (f_dev s f)))"
    and "length (medium (devs s (f_dev s f)) i) = unat (block_size (devs s (f_dev s f)))"
    and "unat (journal_start (sb_of f s)) + 33 \<le> unat (total_blocks (sb_of f s))"
    and "journal_blocks (sb_of f s) = KFS_JOURNAL_BLOCKS"
  using assms by (auto simp: geom_ok_def Let_def)

text \<open>The blocks outside the journal.\<close>

definition home :: "kfs_superblock \<Rightarrow> nat \<Rightarrow> bool" where
  "home sb b \<longleftrightarrow> b < unat (total_blocks sb) \<and>
     \<not> (unat (journal_start sb) \<le> b \<and> b < unat (journal_start sb) + 33)"

text \<open>What the device operations of an instance keep: everything but the media and the counters.\<close>

definition dev_frame :: "blockdev \<Rightarrow> blockdev \<Rightarrow> bool" where
  "dev_frame bd bd' \<longleftrightarrow> bd' = bd\<lparr>medium := medium bd', io := io bd'\<rparr> \<and>
     ((\<forall>i. length (medium bd i) = unat (block_size bd)) \<longrightarrow>
      (\<forall>i. length (medium bd' i) = unat (block_size bd)))"

definition disk_frame :: "nat \<Rightarrow> kfs_state \<Rightarrow> kfs_state \<Rightarrow> bool" where
  "disk_frame f s s' \<longleftrightarrow> (\<forall>d. dev_frame (devs s d) (devs s' d)) \<and>
     (\<forall>d. d \<noteq> f_dev s f \<longrightarrow> devs s' d = devs s d) \<and> s' = s\<lparr>devs := devs s'\<rparr>"

lemma dev_frame_refl [simp]: "dev_frame bd bd" by (simp add: dev_frame_def)

lemma dev_frame_fields:
  assumes "dev_frame bd bd'"
  shows "bd_name bd' = bd_name bd" and "block_size bd' = block_size bd" and "blocks bd' = blocks bd"
    and "has_write bd' = has_write bd" and "fault bd' = fault bd"
  using assms unfolding dev_frame_def by (metis blockdev.select_convs blockdev.update_convs blockdev.surjective)+

lemma disk_frame_fields:
  assumes "disk_frame f s s'"
  shows "fss s' = fss s" and "jtx s' = jtx s" and "bcache s' = bcache s" and "sb_block s' = sb_block s"
    and "bcache_clock s' = bcache_clock s"
  using assms unfolding disk_frame_def
  by (metis kfs_state.select_convs kfs_state.update_convs kfs_state.surjective)+


lemma geom_ok_frame:
  assumes "disk_frame f s s'" and "geom_ok s f"
  shows "geom_ok s' f"
proof -
  have d: "dev_frame (devs s (f_dev s f)) (devs s' (f_dev s f))" using assms(1) by (simp add: disk_frame_def)
  have "\<forall>i. length (medium (devs s' (f_dev s f)) i) = unat (block_size (devs s (f_dev s f)))"
    using d geom_okD(6) [OF assms(2)] by (simp add: dev_frame_def)
  then show ?thesis
    using assms(2) dev_frame_fields [OF d] disk_frame_fields [OF assms(1)]
    by (simp add: geom_ok_def Let_def)
qed

lemma disk_frame_refl [simp]: "disk_frame f s s" by (simp add: disk_frame_def)

lemma dev_frame_trans: "dev_frame a b \<Longrightarrow> dev_frame b c \<Longrightarrow> dev_frame a c"
  by (cases a; cases b; cases c) (auto simp: dev_frame_def)

lemma disk_frame_trans:
  assumes "disk_frame f a b" and "disk_frame f b c" shows "disk_frame f a c"
proof -
  have "f_dev b f = f_dev a f" using disk_frame_fields(1) [OF assms(1)] by simp
  then have "\<forall>d. dev_frame (devs a d) (devs c d)" "\<forall>d. d \<noteq> f_dev a f \<longrightarrow> devs c d = devs a d"
    using assms dev_frame_trans unfolding disk_frame_def by (blast, auto)
  moreover have "c = a\<lparr>devs := devs c\<rparr>"
    using assms unfolding disk_frame_def by (cases a; cases b; cases c) simp
  ultimately show ?thesis by (simp add: disk_frame_def)
qed

lemma fs_lba_unat:
  assumes "geom_ok s f" and "unat b < unat (total_blocks (sb_of f s))"
  shows "unat (fs_lba (fss s f) b) = unat (start_lba (fss s f)) + unat b * unat (spb (fss s f))"
    and "unat (fs_lba (fss s f) b) + unat (spb (fss s f)) \<le> unat (blocks (devs s (f_dev s f)))"
proof -
  let ?st = "unat (start_lba (fss s f))" and ?sp = "unat (spb (fss s f))"
  have "(unat b + 1) * ?sp \<le> unat (total_blocks (sb_of f s)) * ?sp" using assms(2) by (intro mult_right_mono) auto
  then have le: "?st + unat b * ?sp + ?sp \<le> unat (blocks (devs s (f_dev s f)))"
    using geom_okD(5) [OF assms(1)] by (simp add: algebra_simps)
  have sp: "0 < ?sp" using geom_okD(4) [OF assms(1)] by (cases ?sp) auto
  have bnd: "?st + unat b * ?sp < 2 ^ 64"
    using le sp unsigned_less [of "blocks (devs s (f_dev s f))", where ?'a = nat] by simp
  have u: "unat (ucast x :: u64) = unat x" for x :: u32
    by (simp add: unsigned_ucast_eq take_bit_nat_eq_self_iff order_less_trans [OF unsigned_less])
  have "unat (ucast b * ucast (spb (fss s f)) :: u64) = unat b * ?sp"
    using bnd by (simp add: unat_word_ariths u mod_less)
  then have "unat (fs_lba (fss s f) b) = ?st + unat b * ?sp"
    using bnd by (simp add: fs_lba_def unat_word_ariths mod_less)
  then show "unat (fs_lba (fss s f) b) = ?st + unat b * ?sp"
    and "unat (fs_lba (fss s f) b) + ?sp \<le> unat (blocks (devs s (f_dev s f)))" using le by simp_all
qed

lemma length_concat_const: "(\<And>x. x \<in> set xs \<Longrightarrow> length (m x) = n) \<Longrightarrow> length (concat (map m xs)) = length xs * n"
  by (induction xs) auto

lemma length_fs_block [simp]: "geom_ok s f \<Longrightarrow> length (fs_block s f b) = KFS_BLOCK_SIZE"
  using geom_okD(4,6)
  by (simp add: fs_block_def Let_def length_concat_const [where n = "unat (block_size (devs s (f_dev s f)))"] mult.commute)

lemma concat_put_prefix:
  assumes "k \<le> n" and "length data = n * bs" and "\<And>i. length (m i) = bs"
  shows "concat (map (put_blocks bs l k data m) [l ..< l + n]) =
    take (k * bs) data @ drop (k * bs) (concat (map m [l ..< l + n]))"
proof -
  have split: "[l ..< l + n] = [l ..< l + k] @ [l + k ..< l + n]"
    using assms(1) upt_add_eq_append [of l "l + k" "n - k"] by simp
  have "map (put_blocks bs l k data m) [l ..< l + k] = map (\<lambda>i. get_bytes (i * bs) bs data) [0 ..< k]"
    by (rule nth_equalityI) (simp_all add: put_blocks_def)
  moreover have "k * bs \<le> length data" using assms by simp
  ultimately have one: "concat (map (put_blocks bs l k data m) [l ..< l + k]) = take (k * bs) data"
    by (simp add: concat_get_bytes)
  have two: "map (put_blocks bs l k data m) [l + k ..< l + n] = map m [l + k ..< l + n]"
    by (rule map_cong) (simp_all add: put_blocks_def)
  have "length (concat (map m [l ..< l + k])) = k * bs"
    using length_concat_const [of "[l ..< l + k]" m bs] assms(3) by simp
  then show ?thesis unfolding split map_append concat_append one two by simp
qed

lemma raw_write_effect:
  assumes g: "geom_ok s f" and b: "unat b < unat (total_blocks (sb_of f s))"
    and len: "length buf = KFS_BLOCK_SIZE" and ret: "journal_raw_write f b buf s = (ok, s')"
  shows "disk_frame f s s'" and "geom_ok s' f"
    and "\<exists>k. (k = 0 \<or> 256 \<le> k) \<and> k \<le> KFS_BLOCK_SIZE \<and> (ok \<longrightarrow> k = KFS_BLOCK_SIZE) \<and>
      fs_block s' f = (fs_block s f)(unat b := take k buf @ drop k (fs_block s f (unat b)))"
proof -
  let ?d = "f_dev s f" and ?sp = "unat (spb (fss s f))" and ?st = "unat (start_lba (fss s f))"
  let ?bd = "devs s ?d"
  let ?bs = "unat (block_size ?bd)" and ?l = "?st + unat b * ?sp"
  note gd = geom_okD [OF g]
  have lba: "unat (fs_lba (fss s f) b) = ?l" "?l + ?sp \<le> unat (blocks ?bd)"
    using fs_lba_unat [OF g b] by simp_all
  have sp: "spb (fss s f) \<noteq> 0" using gd(4) by auto
  obtain bd' where w: "dev_write ?bd ?l ?sp buf = (ok, bd')" and s': "s' = s\<lparr>devs := (devs s)(?d := bd')\<rparr>"
    using ret gd(1,2) lba sp
    by (cases "dev_write ?bd ?l ?sp buf")
      (auto simp: journal_raw_write_def blockdev_write_def range_ok_iff split: option.splits prod.splits)
  have len': "length buf = ?sp * ?bs" using len gd(4) by (simp add: mult.commute)
  obtain k where k: "k \<le> ?sp" "ok \<longrightarrow> k = ?sp"
      and bd': "bd' = ?bd\<lparr>io := Suc (io ?bd), medium := put_blocks ?bs ?l k buf (medium ?bd)\<rparr>"
    using w by (cases rule: dev_write_cases [of ?bd ?l ?sp buf]) auto
  have chunk: "length (get_bytes ((i - ?l) * ?bs) ?bs buf) = ?bs" if "?l \<le> i" "i < ?l + k" for i
  proof -
    have "(i - ?l + 1) * ?bs \<le> ?sp * ?bs" using that k(1) by (intro mult_right_mono) auto
    then show ?thesis using len' by (simp add: algebra_simps)
  qed
  have fr: "dev_frame ?bd bd'"
    unfolding bd' dev_frame_def using chunk by (auto simp: put_blocks_def)
  show df: "disk_frame f s s'" unfolding s' disk_frame_def using fr by simp
  show "geom_ok s' f" by (rule geom_ok_frame [OF df g])
  have blk: "fs_block s' f b' = ((fs_block s f)(unat b := take (k * ?bs) buf @ drop (k * ?bs) (fs_block s f (unat b)))) b'" for b'
  proof (cases "b' = unat b")
    case True
    then show ?thesis
      using concat_put_prefix [OF k(1) len', of "medium ?bd" ?l] gd(6)
      by (simp add: s' fs_block_def Let_def bd')
  next
    case False
    then have "b' + 1 \<le> unat b \<or> unat b + 1 \<le> b'" by arith
    then have "(b' + 1) * ?sp \<le> unat b * ?sp \<or> (unat b + 1) * ?sp \<le> b' * ?sp"
      using mult_right_mono [of "b' + 1" "unat b" ?sp] mult_right_mono [of "unat b + 1" b' ?sp] by blast
    then have eq: "map (put_blocks ?bs ?l k buf (medium ?bd)) [?st + b' * ?sp ..< ?st + b' * ?sp + ?sp] =
        map (medium ?bd) [?st + b' * ?sp ..< ?st + b' * ?sp + ?sp]"
      using k(1) by (intro map_cong refl) (auto simp: put_blocks_def)
    have "fs_block s' f b' =
        concat (map (put_blocks ?bs ?l k buf (medium ?bd)) [?st + b' * ?sp ..< ?st + b' * ?sp + ?sp])"
      by (simp add: s' fs_block_def Let_def bd')
    also have "\<dots> = fs_block s f b'" unfolding eq by (simp add: fs_block_def Let_def)
    finally show ?thesis using False by simp
  qed
  have kb: "k * ?bs \<le> KFS_BLOCK_SIZE" "k = 0 \<or> 256 \<le> k * ?bs" "ok \<longrightarrow> k * ?bs = KFS_BLOCK_SIZE"
  proof -
    show "k * ?bs \<le> KFS_BLOCK_SIZE" using mult_le_mono1 [OF k(1), of ?bs] gd(4) by (metis mult.commute)
    show "k = 0 \<or> 256 \<le> k * ?bs" using gd(3) by (cases k) auto
    show "ok \<longrightarrow> k * ?bs = KFS_BLOCK_SIZE" using k(2) gd(4) by (simp add: mult.commute)
  qed
  show "\<exists>k. (k = 0 \<or> 256 \<le> k) \<and> k \<le> KFS_BLOCK_SIZE \<and> (ok \<longrightarrow> k = KFS_BLOCK_SIZE) \<and>
      fs_block s' f = (fs_block s f)(unat b := take k buf @ drop k (fs_block s f (unat b)))"
    by (rule exI [of _ "k * ?bs"]) (use kb blk in auto)
qed

lemma raw_read_effect:
  assumes g: "geom_ok s f" and b: "unat b < unat (total_blocks (sb_of f s))"
    and ret: "journal_raw_read f b s = (r, s')"
  shows "disk_frame f s s'" and "geom_ok s' f" and "fs_block s' f = fs_block s f"
    and "r = Some x \<Longrightarrow> x = fs_block s f (unat b)"
proof -
  let ?d = "f_dev s f" and ?sp = "unat (spb (fss s f))" and ?st = "unat (start_lba (fss s f))"
  let ?bd = "devs s ?d"
  let ?l = "?st + unat b * ?sp"
  note gd = geom_okD [OF g]
  have lba: "unat (fs_lba (fss s f) b) = ?l" "?l + ?sp \<le> unat (blocks ?bd)"
    using fs_lba_unat [OF g b] by simp_all
  have sp: "spb (fss s f) \<noteq> 0" using gd(4) by auto
  have w: "dev_read ?bd ?l ?sp = (r, ?bd\<lparr>io := Suc (io ?bd)\<rparr>)"
      and s': "s' = s\<lparr>devs := (devs s)(?d := ?bd\<lparr>io := Suc (io ?bd)\<rparr>)\<rparr>"
    using ret gd(1) lba sp
    by (auto simp: journal_raw_read_def blockdev_read_def range_ok_iff dev_read_def Let_def
        split: option.splits prod.splits)
  have fr: "dev_frame ?bd (?bd\<lparr>io := Suc (io ?bd)\<rparr>)" by (simp add: dev_frame_def)
  show df: "disk_frame f s s'" unfolding s' disk_frame_def using fr by simp
  show "geom_ok s' f" by (rule geom_ok_frame [OF df g])
  show "fs_block s' f = fs_block s f" by (rule ext) (simp add: s' fs_block_def Let_def)
  show "x = fs_block s f (unat b)" if "r = Some x"
    using w that by (simp add: dev_read_def fs_block_def Let_def split: option.splits)
qed

section \<open>Effects of the journal's writes\<close>

definition frm :: "nat \<Rightarrow> kfs_state \<Rightarrow> kfs_state \<Rightarrow> bool" where
  "frm f s s' \<longleftrightarrow> (\<forall>d. dev_frame (devs s d) (devs s' d)) \<and>
     (\<forall>d. d \<noteq> f_dev s f \<longrightarrow> devs s' d = devs s d) \<and>
     fss s' = fss s \<and> jtx s' = jtx s \<and> sb_block s' = sb_block s"

lemma frm_refl [simp]: "frm f s s" by (simp add: frm_def)

lemma frm_trans: "frm f a b \<Longrightarrow> frm f b c \<Longrightarrow> frm f a c"
  unfolding frm_def using dev_frame_trans by (metis (no_types))

lemma frm_disk: "disk_frame f s s' \<Longrightarrow> frm f s s'"
  using disk_frame_fields [of f s s'] unfolding frm_def disk_frame_def by simp

lemma frm_sb: "frm f s s' \<Longrightarrow> sb_of f s' = sb_of f s" by (simp add: frm_def)

lemma fs_block_cache [simp]:
  "fs_block (cache_fill i f' b buf s) f = fs_block s f"
  "fs_block (s\<lparr>bcache := c\<rparr>) f = fs_block s f"
  "geom_ok (cache_fill i f' b buf s) f = geom_ok s f"
  "geom_ok (s\<lparr>bcache := c\<rparr>) f = geom_ok s f"
  "frm f s0 (cache_fill i f' b buf s) = frm f s0 s"
  "frm f s0 (s\<lparr>bcache := c\<rparr>) = frm f s0 s"
  by (auto simp: fun_eq_iff fs_block_def geom_ok_def cache_fill_def frm_def Let_def)

lemma bwrite_disk:
  assumes "bwrite f b buf s = (ok, s')"
  obtains s1 where "journal_raw_write f b buf s = (ok, s1)" and "fs_block s' f = fs_block s1 f"
    and "geom_ok s' f = geom_ok s1 f" and "\<And>s0. frm f s0 s' = frm f s0 s1"
proof -
  obtain r s1 where w: "journal_raw_write f b buf s = (r, s1)" by fastforce
  have "ok = r" using assms w by (cases r) (simp_all add: bwrite_def Let_def)
  moreover have "(\<exists>i buf'. s' = cache_fill i f b buf' s1) \<or> (\<exists>c. s' = s1\<lparr>bcache := c\<rparr>) \<or> s' = s1"
    using assms w by (cases r; cases "bcache_find f b (bcache s)") (auto simp: bwrite_def Let_def)
  ultimately show thesis using that [of s1] w by auto
qed

lemma bwrite_effect:
  assumes g: "geom_ok s f" and b: "unat b < unat (total_blocks (sb_of f s))"
    and len: "length buf = KFS_BLOCK_SIZE" and ret: "bwrite f b buf s = (ok, s')"
  shows "frm f s s'" and "geom_ok s' f"
    and "\<forall>b'. b' \<noteq> unat b \<longrightarrow> fs_block s' f b' = fs_block s f b'"
    and "ok \<Longrightarrow> fs_block s' f (unat b) = buf"
proof -
  obtain s1 where s1: "journal_raw_write f b buf s = (ok, s1)" "fs_block s' f = fs_block s1 f"
      "geom_ok s' f = geom_ok s1 f" "\<And>s0. frm f s0 s' = frm f s0 s1"
    using bwrite_disk [OF ret] by blast
  note eff = raw_write_effect [OF g b len s1(1)]
  obtain k where k: "ok \<longrightarrow> k = KFS_BLOCK_SIZE"
      "fs_block s1 f = (fs_block s f)(unat b := take k buf @ drop k (fs_block s f (unat b)))"
    using eff(3) by blast
  show "frm f s s'" using s1(4) frm_disk [OF eff(1)] by simp
  show "geom_ok s' f" using s1(3) eff(2) by simp
  show "\<forall>b'. b' \<noteq> unat b \<longrightarrow> fs_block s' f b' = fs_block s f b'" using s1(2) k(2) by simp
  show "fs_block s' f (unat b) = buf" if ok using s1(2) k that len g by simp
qed

lemma write_home_effect:
  assumes "geom_ok s f" and "write_home f es s = (ok, s')"
    and "\<forall>e \<in> set es. unat (fst e) < unat (total_blocks (sb_of f s)) \<and> length (snd e) = KFS_BLOCK_SIZE"
  shows "frm f s s' \<and> geom_ok s' f \<and>
    (\<forall>b. b \<notin> unat ` fst ` set es \<longrightarrow> fs_block s' f b = fs_block s f b) \<and>
    (ok \<and> distinct (map fst es) \<longrightarrow> (\<forall>e \<in> set es. fs_block s' f (unat (fst e)) = snd e))"
  using assms
proof (induction es arbitrary: s)
  case (Cons e es)
  obtain r s1 where w: "bwrite f (fst e) (snd e) s = (r, s1)" by fastforce
  have "unat (fst e) < unat (total_blocks (sb_of f s))" "length (snd e) = KFS_BLOCK_SIZE"
    using Cons.prems(3) by simp_all
  note eff = bwrite_effect [OF Cons.prems(1) this w]
  show ?case
  proof (cases r)
    case False
    then have "ok = False" "s' = s1" using Cons.prems(2) w by simp_all
    then show ?thesis using eff by auto
  next
    case True
    then have "write_home f es s1 = (ok, s')" using Cons.prems(2) w by simp
    then have ih: "frm f s1 s'" "geom_ok s' f"
        "\<forall>b. b \<notin> unat ` fst ` set es \<longrightarrow> fs_block s' f b = fs_block s1 f b"
        "ok \<and> distinct (map fst es) \<longrightarrow> (\<forall>e \<in> set es. fs_block s' f (unat (fst e)) = snd e)"
      using Cons.IH [OF eff(2)] Cons.prems(3) frm_sb [OF eff(1)] by simp_all
    have "fs_block s' f (unat (fst e)) = snd e" if "ok" "distinct (map fst (e # es))"
    proof -
      have "unat (fst e) \<notin> unat ` fst ` set es" using that by (auto simp: image_iff simp flip: word_unat_eq_iff)
      then show ?thesis using ih(3) eff(4) [OF True] by simp
    qed
    then show ?thesis using ih eff(3) frm_trans [OF eff(1) ih(1)] by auto
  qed
qed simp

lemma write_payloads_effect:
  assumes "geom_ok s f" and "write_payloads f at es s = (ok, s')"
    and "unat at + length es \<le> unat (total_blocks (sb_of f s))"
    and "\<forall>e \<in> set es. length (snd e) = KFS_BLOCK_SIZE"
  shows "frm f s s' \<and> geom_ok s' f \<and>
    (\<forall>b. b < unat at \<or> unat at + length es \<le> b \<longrightarrow> fs_block s' f b = fs_block s f b) \<and>
    (ok \<longrightarrow> (\<forall>i < length es. fs_block s' f (unat at + i) = snd (es ! i)))"
  using assms
proof (induction es arbitrary: s at)
  case (Cons e es)
  obtain r s1 where w: "journal_raw_write f at (snd e) s = (r, s1)" by fastforce
  have b: "unat at < unat (total_blocks (sb_of f s))" "length (snd e) = KFS_BLOCK_SIZE"
    using Cons.prems(3,4) by simp_all
  note eff = raw_write_effect [OF Cons.prems(1) b w]
  have fr: "frm f s s1" by (rule frm_disk [OF eff(1)])
  obtain k where k: "r \<longrightarrow> k = KFS_BLOCK_SIZE"
      "fs_block s1 f = (fs_block s f)(unat at := take k (snd e) @ drop k (fs_block s f (unat at)))"
    using eff(3) by blast
  show ?case
  proof (cases r)
    case False
    then have "ok = False" "s' = s1" using Cons.prems(2) w by simp_all
    then show ?thesis using eff(2) fr k(2) by auto
  next
    case True
    have next_at: "unat (at + 1) = unat at + 1"
      using b(1) unsigned_less [of "total_blocks (sb_of f s)", where ?'a = nat]
      by (simp add: unat_word_ariths mod_less)
    have "write_payloads f (at + 1) es s1 = (ok, s')" using Cons.prems(2) w True by simp
    then have ih: "frm f s1 s'" "geom_ok s' f"
        "\<forall>b. b < unat at + 1 \<or> unat at + 1 + length es \<le> b \<longrightarrow> fs_block s' f b = fs_block s1 f b"
        "ok \<longrightarrow> (\<forall>i < length es. fs_block s' f (unat at + 1 + i) = snd (es ! i))"
      using Cons.IH [OF eff(2), of "at + 1"] Cons.prems(3,4) frm_sb [OF fr] next_at by simp_all
    have "fs_block s1 f (unat at) = snd e" using k True b(2) Cons.prems(1) by simp
    then have "fs_block s' f (unat at + i) = snd ((e # es) ! i)" if ok "i < length (e # es)" for i
      using ih(3,4) that by (cases i) auto
    then show ?thesis using ih k(2) frm_trans [OF fr ih(1)] by auto
  qed
qed simp

end
