(* ===== verification/Kfs_Crash.thy ===== *)
theory Kfs_Crash
  imports Kfs_Journal
begin

text \<open>
  Crash safety of the KFS journal. The disk of an instance is in one of three phases with respect
  to a transaction: nothing of it is visible (clean journal header, all home blocks old), committed
  (a valid header and all payloads in the journal, home blocks outside the transaction old), or
  installed (clean header, home blocks new). Every write of the commit protocol and of recovery,
  completed, torn or failed, moves between these phases in that order.
\<close>

section \<open>Phases\<close>

definition tx_ok :: "kfs_superblock \<Rightarrow> journal_entry list \<Rightarrow> bool" where
  "tx_ok sb es \<longleftrightarrow> es \<noteq> [] \<and> length es \<le> KFS_JOURNAL_ENTRIES \<and> distinct (map fst es) \<and>
     (\<forall>e \<in> set es. home sb (unat (fst e)) \<and> length (snd e) = KFS_BLOCK_SIZE)"

definition jh_clean :: "byte list \<Rightarrow> bool" where
  "jh_clean b \<longleftrightarrow> jh_magic (dec_jh b) = 0 \<and> jh_state (dec_jh b) = 0 \<and> jh_count (dec_jh b) = 0"

definition install :: "journal_entry list \<Rightarrow> (nat \<Rightarrow> byte list) \<Rightarrow> nat \<Rightarrow> byte list" where
  "install es old b = (case map_of (map (\<lambda>e. (unat (fst e), snd e)) es) b of Some d \<Rightarrow> d | None \<Rightarrow> old b)"

definition settled :: "kfs_superblock \<Rightarrow> (nat \<Rightarrow> byte list) \<Rightarrow> (nat \<Rightarrow> byte list) \<Rightarrow> bool" where
  "settled sb old B \<longleftrightarrow> jh_clean (B (unat (journal_start sb))) \<and> (\<forall>b. home sb b \<longrightarrow> B b = old b)"

definition committed :: "kfs_superblock \<Rightarrow> u32 \<Rightarrow> journal_entry list \<Rightarrow>
    (nat \<Rightarrow> byte list) \<Rightarrow> (nat \<Rightarrow> byte list) \<Rightarrow> bool" where
  "committed sb q es old B \<longleftrightarrow>
     take 256 (B (unat (journal_start sb))) = take 256 (header_block q es) \<and>
     (\<forall>i < length es. B (unat (journal_start sb) + 1 + i) = snd (es ! i)) \<and>
     (\<forall>b. home sb b \<and> b \<notin> unat ` fst ` set es \<longrightarrow> B b = old b)"

lemma length_header_block [simp]:
  "length es \<le> KFS_JOURNAL_ENTRIES \<Longrightarrow> length (header_block q es) = KFS_BLOCK_SIZE"
  by (simp add: header_block_def commit_header_def)

lemma dec_header_block:
  "length es \<le> KFS_JOURNAL_ENTRIES \<Longrightarrow> dec_jh (header_block q es) = commit_header q es"
  unfolding header_block_def by (rule dec_enc_jh) (simp add: commit_header_def)

lemma dec_jh_256: "take 256 b = take 256 b' \<Longrightarrow> dec_jh b = dec_jh b'"
  using dec_jh_take [of 256 b] dec_jh_take [of 256 b'] by simp

lemma jh_clean_zero: "jh_clean (replicate 4096 0)"
  by (simp add: jh_clean_def dec_jh_def rd32_zeros)

text \<open>A torn write of a block leaves its first 256 bytes either old or new.\<close>

lemma torn_head:
  "k = 0 \<or> 256 \<le> k \<Longrightarrow> length old = length new \<Longrightarrow> 256 \<le> length new \<Longrightarrow>
   take 256 (take k new @ drop k old) = (if k = 0 then take 256 old else take 256 new)"
  by (auto simp: min_def)

lemma install_target: "distinct (map fst es) \<Longrightarrow> e \<in> set es \<Longrightarrow> install es old (unat (fst e)) = snd e"
proof -
  assume d: "distinct (map fst es)" and e: "e \<in> set es"
  have "map fst (map (\<lambda>e. (unat (fst e), snd e)) es) = map unat (map fst es)" by simp
  moreover have "distinct (map unat (map fst es))"
    using d by (simp add: distinct_map inj_on_def word_unat_eq_iff)
  ultimately have "distinct (map fst (map (\<lambda>e. (unat (fst e), snd e)) es))" by (simp only:)
  moreover have "(unat (fst e), snd e) \<in> set (map (\<lambda>e. (unat (fst e), snd e)) es)" using e by simp
  ultimately show ?thesis by (simp add: install_def map_of_is_SomeI)
qed

lemma install_other: "b \<notin> unat ` fst ` set es \<Longrightarrow> install es old b = old b"
  by (auto simp: install_def map_of_eq_None_iff image_image split: option.splits dest!: map_of_SomeD)

lemma home_not_journal:
  "home sb b \<Longrightarrow> i < 33 \<Longrightarrow> b \<noteq> unat (journal_start sb) + i"
  by (auto simp: home_def)

section \<open>Commit\<close>

lemma clear_effect:
  assumes g: "geom_ok s f" and ret: "journal_clear f s = (ok, s')"
  shows "frm f s s'" and "geom_ok s' f"
    and "\<And>b. b \<noteq> unat (journal_start (sb_of f s)) \<Longrightarrow> fs_block s' f b = fs_block s f b"
    and "jh_clean (fs_block s' f (unat (journal_start (sb_of f s)))) \<or>
         \<not> ok \<and> take 256 (fs_block s' f (unat (journal_start (sb_of f s)))) =
                 take 256 (fs_block s f (unat (journal_start (sb_of f s))))"
proof -
  let ?js = "journal_start (sb_of f s)"
  have js: "unat ?js < unat (total_blocks (sb_of f s))" using geom_okD(7) [OF g] by simp
  have "journal_raw_write f ?js (replicate 4096 0) s = (ok, s')" using ret by (simp add: journal_clear_def)
  note eff = raw_write_effect [OF g js length_replicate this]
  obtain k where k: "k = 0 \<or> 256 \<le> k" "ok \<longrightarrow> k = KFS_BLOCK_SIZE"
      "fs_block s' f = (fs_block s f)(unat ?js := take k (replicate 4096 0) @ drop k (fs_block s f (unat ?js)))"
    using eff(3) by blast
  show "frm f s s'" by (rule frm_disk [OF eff(1)])
  show "geom_ok s' f" by (rule eff(2))
  show "fs_block s' f b = fs_block s f b" if "b \<noteq> unat ?js" for b using k(3) that by simp
  have "take 256 (fs_block s' f (unat ?js)) =
      (if k = 0 then take 256 (fs_block s f (unat ?js)) else take 256 (replicate 4096 0))"
    using torn_head [OF k(1), of "fs_block s f (unat ?js)" "replicate 4096 0"] g k(3) by simp
  moreover have "jh_clean x" if "take 256 x = take 256 (replicate 4096 (0::byte))" for x
    using dec_jh_256 [OF that] jh_clean_zero by (simp add: jh_clean_def)
  ultimately show "jh_clean (fs_block s' f (unat ?js)) \<or>
      \<not> ok \<and> take 256 (fs_block s' f (unat ?js)) = take 256 (fs_block s f (unat ?js))"
    using k(2) by (cases "k = 0") auto
qed

text \<open>From the committed phase, writing the home blocks and clearing the header.\<close>

lemma install_effect:
  assumes g: "geom_ok s f" and tx: "tx_ok (sb_of f s) es"
    and com: "committed (sb_of f s) q es old (fs_block s f)"
    and wh: "write_home f es s = (ok1, s1)"
  shows "frm f s s1" and "geom_ok s1 f" and "committed (sb_of f s) q es old (fs_block s1 f)"
    and "\<lbrakk>ok1; journal_clear f s1 = (ok2, s2)\<rbrakk> \<Longrightarrow> frm f s s2 \<and> geom_ok s2 f \<and>
       (settled (sb_of f s) (install es old) (fs_block s2 f) \<or>
        \<not> ok2 \<and> committed (sb_of f s) q es old (fs_block s2 f))"
proof -
  let ?sb = "sb_of f s" and ?T = "unat ` fst ` set es"
  let ?js = "unat (journal_start ?sb)"
  have tgt: "\<forall>e \<in> set es. unat (fst e) < unat (total_blocks ?sb) \<and> length (snd e) = KFS_BLOCK_SIZE"
    using tx by (auto simp: tx_ok_def home_def)
  have eff: "frm f s s1" "geom_ok s1 f" "\<forall>b. b \<notin> ?T \<longrightarrow> fs_block s1 f b = fs_block s f b"
      "ok1 \<and> distinct (map fst es) \<longrightarrow> (\<forall>e \<in> set es. fs_block s1 f (unat (fst e)) = snd e)"
    using write_home_effect [OF g wh tgt] by blast+
  then show "frm f s s1" and g1: "geom_ok s1 f" by blast+
  have jr: "?js + i \<notin> ?T" if "i < 33" for i
    using tx that home_not_journal by (fastforce simp: tx_ok_def)
  have len: "length es \<le> 32" using tx by (simp add: tx_ok_def)
  show com1: "committed ?sb q es old (fs_block s1 f)"
    using com eff(3) jr [of 0] jr [of "Suc i" for i] len by (auto simp: committed_def)
  assume ok1 and cl: "journal_clear f s1 = (ok2, s2)"
  note ce = clear_effect [OF g1 cl, unfolded frm_sb [OF eff(1)]]
  have all: "fs_block s1 f (unat (fst e)) = snd e" if "e \<in> set es" for e
    using eff(4) \<open>ok1\<close> tx that by (simp add: tx_ok_def)
  have new: "fs_block s2 f b = install es old b" if "home ?sb b" for b
  proof -
    have b: "fs_block s2 f b = fs_block s1 f b" using ce(3) home_not_journal [OF that, of 0] by simp
    show ?thesis
    proof (cases "b \<in> ?T")
      case True
      then obtain e where "e \<in> set es" "b = unat (fst e)" by auto
      then show ?thesis using b all install_target tx by (simp add: tx_ok_def)
    next
      case False
      then show ?thesis using b eff(3) com that by (simp add: install_other committed_def)
    qed
  qed
  have keep: "committed ?sb q es old (fs_block s2 f)"
    if "take 256 (fs_block s2 f ?js) = take 256 (fs_block s1 f ?js)"
  proof -
    have "fs_block s2 f (?js + 1 + i) = fs_block s1 f (?js + 1 + i)" for i by (rule ce(3)) simp
    moreover have "fs_block s2 f b = fs_block s1 f b" if "home ?sb b" for b
      by (rule ce(3)) (use home_not_journal [OF that, of 0] in simp)
    ultimately show ?thesis using com1 that by (simp add: committed_def)
  qed
  show "frm f s s2 \<and> geom_ok s2 f \<and> (settled ?sb (install es old) (fs_block s2 f) \<or>
        \<not> ok2 \<and> committed ?sb q es old (fs_block s2 f))"
    using frm_trans [OF eff(1) ce(1)] ce(2,4) new keep by (auto simp: settled_def)
qed

lemma fs_block_mem [simp]:
  "fs_block (fs_fence f' s) f = fs_block s f" "fs_block (journal_reset s) f = fs_block s f"
  "fs_block (set_sb f' sb s) f = fs_block s f"
  by (auto simp: fs_block_def fs_fence_def bcache_invalidate_def upd_fs_def journal_reset_def set_sb_def
      Let_def fun_eq_iff)

lemma journal_commit_disk:
  "journal_commit f s = (ok, s') \<Longrightarrow> commit_body f s = (ok, s1) \<Longrightarrow> fs_block s' f = fs_block s1 f"
  by (auto simp: journal_commit_def)

lemma header_write_effect:
  assumes g: "geom_ok s f" and tx: "tx_ok (sb_of f s) es"
    and pay: "\<forall>i < length es. fs_block s f (unat (journal_start (sb_of f s)) + 1 + i) = snd (es ! i)"
    and st: "settled (sb_of f s) old (fs_block s f)"
    and ret: "journal_raw_write f (journal_start (sb_of f s)) (header_block q es) s = (ok, s')"
  shows "frm f s s'" and "geom_ok s' f"
    and "committed (sb_of f s) q es old (fs_block s' f) \<or> \<not> ok \<and> settled (sb_of f s) old (fs_block s' f)"
proof -
  let ?sb = "sb_of f s" and ?js = "journal_start (sb_of f s)"
  have js: "unat ?js < unat (total_blocks ?sb)" using geom_okD(7) [OF g] by simp
  have len: "length es \<le> 32" "length (header_block q es) = KFS_BLOCK_SIZE"
    using tx by (simp_all add: tx_ok_def)
  note eff = raw_write_effect [OF g js len(2) ret]
  show "frm f s s'" and "geom_ok s' f" using frm_disk [OF eff(1)] eff(2) by blast+
  obtain k where k: "k = 0 \<or> 256 \<le> k" "ok \<longrightarrow> k = KFS_BLOCK_SIZE"
      "fs_block s' f = (fs_block s f)(unat ?js := take k (header_block q es) @ drop k (fs_block s f (unat ?js)))"
    using eff(3) by blast
  have head: "take 256 (fs_block s' f (unat ?js)) =
      (if k = 0 then take 256 (fs_block s f (unat ?js)) else take 256 (header_block q es))"
    using torn_head [OF k(1), of "fs_block s f (unat ?js)" "header_block q es"] g len k(3) by simp
  have other: "fs_block s' f b = fs_block s f b" if "b \<noteq> unat ?js" for b using k(3) that by simp
  have hm: "fs_block s' f b = fs_block s f b" if "home ?sb b" for b
    by (rule other) (use home_not_journal [OF that, of 0] in simp)
  show "committed ?sb q es old (fs_block s' f) \<or> \<not> ok \<and> settled ?sb old (fs_block s' f)"
  proof (cases "k = 0")
    case True
    have "dec_jh (fs_block s' f (unat ?js)) = dec_jh (fs_block s f (unat ?js))"
      by (rule dec_jh_256) (use head True in simp)
    then show ?thesis using True k(2) st hm by (auto simp: settled_def jh_clean_def)
  next
    case False
    have "fs_block s' f (unat ?js + 1 + i) = snd (es ! i)" if "i < length es" for i
      using pay that other [of "unat ?js + 1 + i"] by simp
    then show ?thesis using False head st hm by (auto simp: committed_def settled_def)
  qed
qed

lemma install_Nil [simp]: "install [] old = old" by (rule ext) (simp add: install_def)

lemma commit_effect:
  assumes g: "geom_ok s f" and st: "settled (sb_of f s) old (fs_block s f)"
    and tx: "j_entries (jtx s) \<noteq> [] \<Longrightarrow> tx_ok (sb_of f s) (j_entries (jtx s))"
    and ret: "journal_commit f s = (ok, s')"
  shows "settled (sb_of f s) (install (j_entries (jtx s)) old) (fs_block s' f) \<or>
    \<not> ok \<and> (settled (sb_of f s) old (fs_block s' f) \<or>
      committed (sb_of f s) (j_sequence (jtx s)) (j_entries (jtx s)) old (fs_block s' f))"
proof -
  let ?sb = "sb_of f s" and ?es = "j_entries (jtx s)" and ?q = "j_sequence (jtx s)"
  let ?js = "journal_start (sb_of f s)"
  obtain b1 where body: "commit_body f s = (ok, b1)"
    using ret by (cases "commit_body f s") (auto simp: journal_commit_def)
  have blk: "fs_block s' f = fs_block b1 f" by (rule journal_commit_disk [OF ret body])
  show ?thesis
  proof (cases "\<not> j_active (jtx s) \<or> j_fs (jtx s) \<noteq> Some f \<or> j_failed (jtx s)")
    case True
    then have "\<not> ok" "b1 = s" using body by (auto simp: commit_body_def Let_def)
    then show ?thesis using st blk by simp
  next
    case act: False
    show ?thesis
    proof (cases "?es = []")
      case True
      then have "b1 = s" using body act by (simp add: commit_body_def Let_def)
      then show ?thesis using st blk True by simp
    next
      case False
      note tx = tx [OF False]
      have len: "length ?es \<le> 32" "\<forall>e \<in> set ?es. length (snd e) = KFS_BLOCK_SIZE"
        using tx by (auto simp: tx_ok_def)
      have js1: "unat (?js + 1) = unat ?js + 1"
        using geom_okD(7) [OF g] unsigned_less [of "total_blocks ?sb", where ?'a = nat]
        by (simp add: unat_word_ariths mod_less)
      obtain ok1 s1 where p: "write_payloads f (?js + 1) ?es s = (ok1, s1)" by fastforce
      have "unat (?js + 1) + length ?es \<le> unat (total_blocks ?sb)"
        using geom_okD(7) [OF g] len(1) js1 by simp
      note pe = write_payloads_effect [OF g p this len(2), unfolded js1]
      have fr1: "frm f s s1" and g1: "geom_ok s1 f" using pe by blast+
      have "fs_block s1 f b = fs_block s f b" if "home ?sb b \<or> b = unat ?js" for b
        using pe that len(1) by (auto simp: home_def)
      then have st1: "settled ?sb old (fs_block s1 f)" using st by (simp add: settled_def)
      note sb1 = frm_sb [OF fr1]
      show ?thesis
      proof (cases ok1)
        case False
        then have "\<not> ok" "b1 = s1" using body act p \<open>?es \<noteq> []\<close> by (auto simp: commit_body_def Let_def)
        then show ?thesis using st1 blk by simp
      next
        case True
        obtain ok2 s2 where h: "journal_raw_write f ?js (header_block ?q ?es) s1 = (ok2, s2)" by fastforce
        have "\<forall>i < length ?es. fs_block s1 f (unat ?js + 1 + i) = snd (?es ! i)" using pe True by simp
        note he = header_write_effect [OF g1, unfolded sb1, OF tx this st1 h]
        show ?thesis
        proof (cases ok2)
          case False
          then have "\<not> ok" "fs_block b1 f = fs_block s2 f"
            using body act p \<open>?es \<noteq> []\<close> True h by (auto simp: commit_body_def Let_def)
          then show ?thesis using he(3) blk by auto
        next
          case ok2: True
          have com: "committed ?sb ?q ?es old (fs_block s2 f)" using he(3) ok2 by simp
          obtain ok3 s3 where wh: "write_home f ?es s2 = (ok3, s3)" by fastforce
          note sb2 = frm_sb [OF frm_trans [OF fr1 he(1)]]
          note ie = install_effect [OF he(2), unfolded sb2, OF tx com wh]
          show ?thesis
          proof (cases ok3)
            case False
            then have "\<not> ok" "fs_block b1 f = fs_block s3 f"
              using body act p \<open>?es \<noteq> []\<close> True h ok2 wh by (auto simp: commit_body_def Let_def)
            then show ?thesis using ie(3) blk by auto
          next
            case ok3: True
            obtain ok4 s4 where cl: "journal_clear f s3 = (ok4, s4)" by fastforce
            then have "ok = ok4" "fs_block b1 f = fs_block s4 f"
              using body act p \<open>?es \<noteq> []\<close> True h ok2 wh ok3
              by (cases ok4; auto simp: commit_body_def Let_def)+
            then show ?thesis using ie(4) [OF ok3 cl] blk by auto
          qed
        qed
      qed
    qed
  qed
qed

section \<open>Recovery\<close>

lemma target_safe:
  assumes "geom_ok s f" and "home (sb_of f s) (unat t)" shows "\<not> target_unsafe (sb_of f s) t"
proof -
  let ?sb = "sb_of f s"
  have "unat (journal_start ?sb + 33) = unat (journal_start ?sb) + 33"
    using geom_okD(7) [OF assms(1)] unsigned_less [of "total_blocks ?sb", where ?'a = nat]
    by (simp add: unat_word_ariths mod_less)
  then show ?thesis using assms(2) geom_okD(8) [OF assms(1)]
    by (auto simp: target_unsafe_def home_def word_less_nat_alt word_le_nat_alt)
qed

lemma recover_load_effect:
  assumes "geom_ok s f" and "tx_ok (sb_of f s) (acc @ rest)"
    and "\<forall>i < length (acc @ rest). fs_block s f (unat (journal_start (sb_of f s)) + 1 + i) = snd ((acc @ rest) ! i)"
    and "recover_load f (map fst rest) acc s = (r, s')"
  shows "frm f s s' \<and> geom_ok s' f \<and> fs_block s' f = fs_block s f \<and> (r = None \<or> r = Some (acc @ rest))"
  using assms
proof (induction rest arbitrary: acc s)
  case (Cons e rest)
  let ?sb = "sb_of f s" and ?js = "journal_start (sb_of f s)"
  have e: "home ?sb (unat (fst e))" "fst e \<notin> fst ` set acc" "length (acc @ e # rest) \<le> 32"
    using Cons.prems(2) by (auto simp: tx_ok_def)
  have safe: "\<not> target_unsafe ?sb (fst e)" by (rule target_safe [OF Cons.prems(1) e(1)])
  let ?b = "?js + 1 + of_nat (length acc)"
  have "unat (of_nat (length acc) :: u32) = length acc" using e(3) by (simp add: unat_of_nat mod_less)
  then have ub: "unat ?b = unat ?js + 1 + length acc"
    using geom_okD(7) [OF Cons.prems(1)] e(3) unsigned_less [of "total_blocks ?sb", where ?'a = nat]
    by (simp add: unat_word_ariths mod_less)
  then have b: "unat ?b < unat (total_blocks ?sb)" using geom_okD(7) [OF Cons.prems(1)] e(3) by simp
  obtain d s1 where rd: "journal_raw_read f ?b s = (d, s1)" by fastforce
  note re = raw_read_effect [OF Cons.prems(1) b rd]
  have fr: "frm f s s1" by (rule frm_disk [OF re(1)])
  show ?case
  proof (cases d)
    case None
    then have "r = None" "s' = s1" using Cons.prems(4) safe e(2) rd by simp_all
    then show ?thesis using fr re by simp
  next
    case (Some x)
    then have "x = snd e" using re(4) ub Cons.prems(3) by (auto simp: nth_append dest: spec [of _ "length acc"])
    then have "recover_load f (map fst rest) (acc @ [e]) s1 = (r, s')"
      using Cons.prems(4) safe e(2) rd Some by simp
    then have "frm f s1 s' \<and> geom_ok s' f \<and> fs_block s' f = fs_block s1 f \<and> (r = None \<or> r = Some (acc @ e # rest))"
      using Cons.IH [OF re(2), of "acc @ [e]"] Cons.prems(2,3) frm_sb [OF fr] re(3) by simp
    then show ?thesis using re(3) frm_trans [OF fr] by auto
  qed
qed simp

lemma recover_settled:
  assumes g: "geom_ok s f" and st: "settled (sb_of f s) old (fs_block s f)"
    and ret: "journal_recover f s = (v, s')"
  shows "(v = 0 \<or> v = - 1) \<and> frm f s s' \<and> geom_ok s' f \<and> settled (sb_of f s) old (fs_block s' f)"
proof -
  let ?js = "journal_start (sb_of f s)"
  have js: "unat ?js < unat (total_blocks (sb_of f s))" using geom_okD(7) [OF g] by simp
  obtain d s1 where rd: "journal_raw_read f ?js s = (d, s1)" by fastforce
  note re = raw_read_effect [OF g js rd]
  have "s' = s1 \<and> (v = 0 \<or> v = - 1)"
  proof (cases d)
    case None
    then show ?thesis using ret rd by (simp add: journal_recover_def)
  next
    case (Some buf)
    then have "jh_clean buf" using re(4) st by (simp add: settled_def)
    then show ?thesis using ret rd Some by (simp add: journal_recover_def jh_clean_def Let_def)
  qed
  then show ?thesis using frm_disk [OF re(1)] re(2,3) st by simp
qed

lemma recover_committed:
  assumes g: "geom_ok s f" and tx: "tx_ok (sb_of f s) es"
    and com: "committed (sb_of f s) q es old (fs_block s f)"
    and ret: "journal_recover f s = (v, s')"
  shows "frm f s s' \<and> geom_ok s' f \<and> (settled (sb_of f s) (install es old) (fs_block s' f) \<or>
      v = - 1 \<and> committed (sb_of f s) q es old (fs_block s' f))"
proof -
  let ?sb = "sb_of f s" and ?js = "journal_start (sb_of f s)"
  have len: "es \<noteq> []" "length es \<le> 32" using tx by (simp_all add: tx_ok_def)
  have js: "unat ?js < unat (total_blocks ?sb)" using geom_okD(7) [OF g] by simp
  obtain d s1 where rd: "journal_raw_read f ?js s = (d, s1)" by fastforce
  note re = raw_read_effect [OF g js rd]
  have fr1: "frm f s s1" by (rule frm_disk [OF re(1)])
  show ?thesis
  proof (cases d)
    case None
    then show ?thesis using ret rd re com fr1 by (simp add: journal_recover_def)
  next
    case (Some buf)
    have "take 256 buf = take 256 (header_block q es)" using re(4) [OF Some] com by (simp add: committed_def)
    then have jh: "dec_jh buf = commit_header q es" using dec_jh_256 dec_header_block [OF len(2)] by metis
    have cnt: "unat (of_nat (length es) :: u32) = length es" using len(2) by (simp add: unat_of_nat mod_less)
    have cnt_ok: "(of_nat (length es) :: u32) \<noteq> 0" "\<not> (of_nat 32 :: u32) < of_nat (length es)"
      using len cnt by (auto simp: word_unat_eq_iff word_less_nat_alt)
    have tg: "take (length es) (map fst es @ replicate (32 - length es) 0) = map fst es" by simp
    obtain r s2 where ld: "recover_load f (map fst es) [] s1 = (r, s2)" by fastforce
    have le: "frm f s1 s2" "geom_ok s2 f" "fs_block s2 f = fs_block s1 f" "r = None \<or> r = Some es"
      using recover_load_effect [OF re(2), of "[]" es r s2] ld tx com frm_sb [OF fr1] re(3)
      by (simp_all add: committed_def)
    have fr2: "frm f s s2" by (rule frm_trans [OF fr1 le(1)])
    have com2: "committed ?sb q es old (fs_block s2 f)" using com re(3) le(3) by simp
    show ?thesis
    proof (cases r)
      case None
      then have "v = - 1" "s' = s2"
        using ret rd Some jh ld cnt cnt_ok by (simp_all add: journal_recover_def commit_header_def Let_def)
      then show ?thesis using fr2 le(2) com2 by simp
    next
      case (Some es')
      then have es': "es' = es" using le(4) by simp
      obtain ok3 s3 where wh: "write_home f es s2 = (ok3, s3)" by fastforce
      note ie = install_effect [OF le(2), unfolded frm_sb [OF fr2], OF tx com2 wh]
      have run: "journal_recover f s = (case write_home f es s2 of (False, s3) \<Rightarrow> (- 1, s3)
          | (True, s3) \<Rightarrow> (case journal_clear f s3 of (r, s4) \<Rightarrow> (if r then 1 else - 1, s4)))"
        using rd \<open>d = Some buf\<close> jh ld cnt cnt_ok Some es'
        by (simp add: journal_recover_def commit_header_def Let_def)
      show ?thesis
      proof (cases ok3)
        case False
        then show ?thesis using ret run wh ie(1-3) frm_trans [OF fr2 ie(1)] by simp
      next
        case True
        obtain ok4 s4 where cl: "journal_clear f s3 = (ok4, s4)" by fastforce
        then show ?thesis using ret run wh True ie(4) [OF True cl] frm_trans [OF fr2] by auto
      qed
    qed
  qed
qed

section \<open>Crashes\<close>

text \<open>
  A reboot keeps the disk and nothing else: the new kernel's state is arbitrary except that its
  instance \<open>f\<close> shows the same blocks with the same geometry. The device may fail anywhere again.
\<close>

definition reboot :: "nat \<Rightarrow> kfs_superblock \<Rightarrow> kfs_state \<Rightarrow> kfs_state \<Rightarrow> bool" where
  "reboot f sb s r \<longleftrightarrow> geom_ok r f \<and> fs_block r f = fs_block s f \<and>
     total_blocks (sb_of f r) = total_blocks sb \<and> journal_start (sb_of f r) = journal_start sb"

text \<open>Any number of reboots, each of which runs recovery, whatever it returns.\<close>

inductive recoveries :: "nat \<Rightarrow> kfs_superblock \<Rightarrow> kfs_state \<Rightarrow> kfs_state \<Rightarrow> bool" for f sb where
  rec_none: "recoveries f sb s s"
| rec_step: "recoveries f sb s s1 \<Longrightarrow> reboot f sb s1 r \<Longrightarrow> journal_recover f r = (v, s2) \<Longrightarrow> recoveries f sb s s2"

lemma same_geom:
  assumes "total_blocks sb' = total_blocks sb" and "journal_start sb' = journal_start sb"
  shows "home sb' = home sb" and "tx_ok sb' = tx_ok sb" and "settled sb' = settled sb"
    and "committed sb' = committed sb"
  using assms by (auto simp: fun_eq_iff home_def tx_ok_def settled_def committed_def)

lemma recovery_step:
  assumes r: "reboot f sb s r" and ret: "journal_recover f r = (v, s')" and tx: "tx_ok sb es"
  shows "settled sb old (fs_block s f) \<Longrightarrow> settled sb old (fs_block s' f)"
    and "committed sb q es old (fs_block s f) \<Longrightarrow>
      settled sb (install es old) (fs_block s' f) \<or> v = - 1 \<and> committed sb q es old (fs_block s' f)"
proof -
  have g: "geom_ok r f" and blk: "fs_block r f = fs_block s f"
    and eq: "total_blocks (sb_of f r) = total_blocks sb" "journal_start (sb_of f r) = journal_start sb"
    using r by (simp_all add: reboot_def)
  note sg = same_geom [OF eq]
  show "settled sb old (fs_block s' f)" if "settled sb old (fs_block s f)"
    using recover_settled [OF g _ ret, unfolded sg] that blk by simp
  show "settled sb (install es old) (fs_block s' f) \<or> v = - 1 \<and> committed sb q es old (fs_block s' f)"
    if "committed sb q es old (fs_block s f)"
    using recover_committed [OF g _ _ ret, unfolded sg, OF tx] that blk by auto
qed

lemma recoveries_phases:
  assumes "recoveries f sb s s'" and tx: "tx_ok sb es"
  shows "(settled sb old (fs_block s f) \<longrightarrow> settled sb old (fs_block s' f)) \<and>
    (committed sb q es old (fs_block s f) \<longrightarrow>
      settled sb (install es old) (fs_block s' f) \<or> committed sb q es old (fs_block s' f))"
  using assms(1)
proof (induction rule: recoveries.induct)
  case (rec_step s s1 r v s2)
  note st = recovery_step [OF rec_step.hyps(2,3) tx]
  show ?case using rec_step.IH st(1) [of old] st(1) [of "install es old"] st(2) [of q old] by blast
qed simp

section \<open>Recovery on a working device\<close>

definition no_faults :: "kfs_state \<Rightarrow> nat \<Rightarrow> bool" where
  "no_faults s f \<longleftrightarrow> (\<forall>n. fault (devs s (f_dev s f)) n = None)"

lemma no_faults_frm: "frm f s s' \<Longrightarrow> no_faults s f \<Longrightarrow> no_faults s' f"
  using dev_frame_fields(5) [of "devs s (f_dev s f)" "devs s' (f_dev s f)"]
  by (simp add: frm_def no_faults_def)

lemma raw_io_no_fault:
  assumes g: "geom_ok s f" and b: "unat b < unat (total_blocks (sb_of f s))" and nf: "no_faults s f"
  shows "\<exists>x s'. journal_raw_read f b s = (Some x, s')" and "\<exists>s'. journal_raw_write f b buf s = (True, s')"
proof -
  have sp: "spb (fss s f) \<noteq> 0" using geom_okD(4) [OF g] by auto
  have "range_ok (devs s (f_dev s f)) (fs_lba (fss s f) b) (spb (fss s f))"
    using fs_lba_unat [OF g b] by (simp add: range_ok_iff)
  then show "\<exists>x s'. journal_raw_read f b s = (Some x, s')" "\<exists>s'. journal_raw_write f b buf s = (True, s')"
    using geom_okD(1,2) [OF g] nf sp
    by (auto simp: journal_raw_read_def journal_raw_write_def blockdev_read_def blockdev_write_def
        dev_read_def dev_write_def Let_def no_faults_def split: option.splits)
qed

lemma write_home_no_fault:
  assumes "geom_ok s f" and "no_faults s f"
    and "\<forall>e \<in> set es. unat (fst e) < unat (total_blocks (sb_of f s)) \<and> length (snd e) = KFS_BLOCK_SIZE"
  shows "\<exists>s'. write_home f es s = (True, s')"
  using assms
proof (induction es arbitrary: s)
  case (Cons e es)
  obtain r s1 where w: "bwrite f (fst e) (snd e) s = (r, s1)" by fastforce
  have b: "unat (fst e) < unat (total_blocks (sb_of f s))" "length (snd e) = KFS_BLOCK_SIZE"
    using Cons.prems(3) by simp_all
  note eff = bwrite_effect [OF Cons.prems(1) b w]
  obtain s0 where "journal_raw_write f (fst e) (snd e) s = (True, s0)"
    using raw_io_no_fault(2) [OF Cons.prems(1) b(1) Cons.prems(2)] by blast
  then have r using w bwrite_disk [OF w] by auto
  then show ?case using w Cons.IH [OF eff(2) no_faults_frm [OF eff(1) Cons.prems(2)]] Cons.prems(3)
      frm_sb [OF eff(1)] by simp
qed simp

lemma recover_load_no_fault:
  assumes "geom_ok s f" and "no_faults s f" and "tx_ok (sb_of f s) (acc @ rest)"
  shows "\<exists>es s'. recover_load f (map fst rest) acc s = (Some es, s')"
  using assms
proof (induction rest arbitrary: acc s)
  case (Cons e rest)
  let ?b = "journal_start (sb_of f s) + 1 + of_nat (length acc)"
  have e: "home (sb_of f s) (unat (fst e))" "fst e \<notin> fst ` set acc" "length acc < 32"
    using Cons.prems(3) by (auto simp: tx_ok_def)
  have "unat (of_nat (length acc) :: u32) = length acc" using e(3) by (simp add: unat_of_nat mod_less)
  then have b: "unat ?b < unat (total_blocks (sb_of f s))"
    using geom_okD(7) [OF Cons.prems(1)] e(3) unsigned_less [of "total_blocks (sb_of f s)", where ?'a = nat]
    by (simp add: unat_word_ariths mod_less)
  obtain x s1 where rd: "journal_raw_read f ?b s = (Some x, s1)"
    using raw_io_no_fault(1) [OF Cons.prems(1) b Cons.prems(2)] by blast
  note re = raw_read_effect [OF Cons.prems(1) b rd]
  have fr: "frm f s s1" by (rule frm_disk [OF re(1)])
  have "length x = KFS_BLOCK_SIZE" using re(4) [of x] Cons.prems(1) by simp
  then have "tx_ok (sb_of f s1) ((acc @ [(fst e, x)]) @ rest)"
    using Cons.prems(3) frm_sb [OF fr] by (auto simp: tx_ok_def)
  from Cons.IH [OF re(2) no_faults_frm [OF fr Cons.prems(2)] this]
  show ?case using rd target_safe [OF Cons.prems(1) e(1)] e(2) by simp
qed simp

lemma recover_no_fault:
  assumes g: "geom_ok s f" and nf: "no_faults s f" and tx: "tx_ok (sb_of f s) es"
    and ph: "settled (sb_of f s) old (fs_block s f) \<or> committed (sb_of f s) q es old (fs_block s f)"
    and ret: "journal_recover f s = (v, s')"
  shows "0 \<le> v"
proof -
  let ?sb = "sb_of f s" and ?js = "journal_start (sb_of f s)"
  have js: "unat ?js < unat (total_blocks ?sb)" using geom_okD(7) [OF g] by simp
  obtain buf s1 where rd: "journal_raw_read f ?js s = (Some buf, s1)"
    using raw_io_no_fault(1) [OF g js nf] by blast
  note re = raw_read_effect [OF g js rd]
  have fr1: "frm f s s1" by (rule frm_disk [OF re(1)])
  note nf1 = no_faults_frm [OF fr1 nf]
  show ?thesis
  proof (cases "jh_clean buf")
    case True
    then show ?thesis using ret rd by (simp add: journal_recover_def jh_clean_def Let_def)
  next
    case False
    then have com: "committed ?sb q es old (fs_block s f)"
      using ph re(4) [OF refl] by (auto simp: settled_def)
    have "take 256 buf = take 256 (header_block q es)" using re(4) com by (simp add: committed_def)
    moreover have len: "length es \<le> 32" "es \<noteq> []" using tx by (simp_all add: tx_ok_def)
    ultimately have jh: "dec_jh buf = commit_header q es" using dec_jh_256 dec_header_block by metis
    have cnt: "unat (of_nat (length es) :: u32) = length es" using len by (simp add: unat_of_nat mod_less)
    have cnt_ok: "(of_nat (length es) :: u32) \<noteq> 0" "\<not> (of_nat 32 :: u32) < of_nat (length es)"
      using len cnt by (auto simp: word_unat_eq_iff word_less_nat_alt)
    have pay: "\<forall>i < length ([] @ es). fs_block s1 f (unat (journal_start (sb_of f s1)) + 1 + i) = snd (([] @ es) ! i)"
      using com re(3) frm_sb [OF fr1] by (simp add: committed_def)
    have tx1: "tx_ok (sb_of f s1) ([] @ es)" using tx frm_sb [OF fr1] by simp
    obtain es' s2 where ld: "recover_load f (map fst es) [] s1 = (Some es', s2)"
      using recover_load_no_fault [OF re(2) nf1 tx1] by blast
    have le: "frm f s1 s2" "geom_ok s2 f" "es' = es"
      using recover_load_effect [OF re(2) tx1 pay ld] by simp_all
    have fr2: "frm f s s2" by (rule frm_trans [OF fr1 le(1)])
    have tgt: "\<forall>e \<in> set es. unat (fst e) < unat (total_blocks (sb_of f s2)) \<and> length (snd e) = KFS_BLOCK_SIZE"
      using tx frm_sb [OF fr2] by (auto simp: tx_ok_def home_def)
    obtain s3 where wh: "write_home f es s2 = (True, s3)"
      using write_home_no_fault [OF le(2) no_faults_frm [OF fr2 nf] tgt] by blast
    note we = write_home_effect [OF le(2) wh tgt]
    have fr3: "frm f s s3" using we frm_trans [OF fr2] by blast
    have g3: "geom_ok s3 f" using we by blast
    have js3: "unat (journal_start (sb_of f s3)) < unat (total_blocks (sb_of f s3))"
      using geom_okD(7) [OF g3] by simp
    obtain s4 where "journal_clear f s3 = (True, s4)"
      using raw_io_no_fault(2) [OF g3 js3 no_faults_frm [OF fr3 nf]] by (auto simp: journal_clear_def)
    then show ?thesis using ret rd jh ld le(3) cnt cnt_ok wh
      by (simp add: journal_recover_def commit_header_def Let_def)
  qed
qed

section \<open>After the last recovery\<close>

text \<open>What the blocks are once a recovery has completed, after any number that were interrupted.\<close>

definition after_recovery :: "nat \<Rightarrow> kfs_superblock \<Rightarrow> kfs_state \<Rightarrow> ((nat \<Rightarrow> byte list) \<Rightarrow> bool) \<Rightarrow> bool" where
  "after_recovery f sb s P \<longleftrightarrow> (\<forall>s2 r v s3. recoveries f sb s s2 \<and> reboot f sb s2 r \<and> journal_recover f r = (v, s3) \<and>
     (0 \<le> v \<or> no_faults r f) \<longrightarrow> 0 \<le> v \<and> P (fs_block s3 f))"

lemma after_recovery_mono: "after_recovery f sb s P \<Longrightarrow> (\<And>B. P B \<Longrightarrow> Q B) \<Longrightarrow> after_recovery f sb s Q"
  unfolding after_recovery_def by blast

lemma recovery_ends:
  assumes recs: "recoveries f sb s1 s2" and boot: "reboot f sb s2 r" and last: "journal_recover f r = (v, s3)"
    and fine: "0 \<le> v \<or> no_faults r f" and tx: "tx_ok sb es"
  shows "settled sb old (fs_block s1 f) \<Longrightarrow> 0 \<le> v \<and> settled sb old (fs_block s3 f)"
    and "committed sb q es old (fs_block s1 f) \<Longrightarrow> 0 \<le> v \<and> settled sb (install es old) (fs_block s3 f)"
proof -
  have g: "geom_ok r f" and blk: "fs_block r f = fs_block s2 f"
    and eq: "total_blocks (sb_of f r) = total_blocks sb" "journal_start (sb_of f r) = journal_start sb"
    using boot by (simp_all add: reboot_def)
  note sg = same_geom [OF eq] and ph = recoveries_phases [OF recs tx] and rs = recovery_step [OF boot last tx]
  have v: "0 \<le> v" if "settled sb old' (fs_block s2 f) \<or> committed sb q old'' old' (fs_block s2 f) \<and> old'' = es" for old' old''
    using fine that recover_no_fault [OF g _ _ _ last, unfolded sg, OF _ tx] blk by metis
  show "0 \<le> v \<and> settled sb old (fs_block s3 f)" if "settled sb old (fs_block s1 f)"
    using that ph [of old q] rs(1) [of old] v [of old] by blast
  show "0 \<le> v \<and> settled sb (install es old) (fs_block s3 f)" if "committed sb q es old (fs_block s1 f)"
  proof -
    have s2: "settled sb (install es old) (fs_block s2 f) \<or> committed sb q es old (fs_block s2 f)" using that ph [of old q] by blast
    then have "0 \<le> v" using v [of "install es old"] v [of old es] by blast
    then show ?thesis using s2 rs(1) [of "install es old"] rs(2) [of q old] by auto
  qed
qed

lemma recovery_atomic:
  assumes tx: "tx_ok sb es" and ph: "settled sb (install es old) (fs_block s f) \<or> settled sb old (fs_block s f) \<or>
    committed sb q es old (fs_block s f)"
  shows "after_recovery f sb s (\<lambda>B. (\<forall>b. home sb b \<longrightarrow> B b = old b) \<or> (\<forall>b. home sb b \<longrightarrow> B b = install es old b))"
  unfolding after_recovery_def
proof (intro allI impI, elim conjE)
  fix s2 r v s3
  assume a: "recoveries f sb s s2" "reboot f sb s2 r" "journal_recover f r = (v, s3)" "0 \<le> v \<or> no_faults r f"
  note l = recovery_ends [OF a tx]
  have "0 \<le> v \<and> (settled sb (install es old) (fs_block s3 f) \<or> settled sb old (fs_block s3 f))"
    using ph l(1) [of "install es old"] l(1) [of old] l(2) [of q old] by blast
  then show "0 \<le> v \<and> ((\<forall>b. home sb b \<longrightarrow> fs_block s3 f b = old b) \<or> (\<forall>b. home sb b \<longrightarrow> fs_block s3 f b = install es old b))"
    by (auto simp: settled_def)
qed

section \<open>Properties\<close>

text \<open>
  C1. Crash atomicity. Start from a clean journal and a staged transaction, let the device fail or
  tear any transfer of \<^verbatim>\<open>journal_commit\<close>, reboot any number of times with \<^verbatim>\<open>journal_recover\<close> itself
  failing or torn anywhere, and reboot once more: if that last recovery reports success, which it
  does whenever the device works, every block outside the journal is as before the transaction, or
  every such block is as the transaction left it, and the latter if the commit reported success.
\<close>

theorem journal_crash_atomic:
  assumes g: "geom_ok s f" and st: "settled (sb_of f s) old (fs_block s f)"
    and tx: "tx_ok (sb_of f s) (j_entries (jtx s))"
    and com: "journal_commit f s = (ok, s1)"
    and recs: "recoveries f (sb_of f s) s1 s2" and boot: "reboot f (sb_of f s) s2 r"
    and last: "journal_recover f r = (v, s3)" and fine: "0 \<le> v \<or> no_faults r f"
  shows "0 \<le> v \<and>
    ((\<forall>b. home (sb_of f s) b \<longrightarrow> fs_block s3 f b = install (j_entries (jtx s)) old b) \<or>
     \<not> ok \<and> (\<forall>b. home (sb_of f s) b \<longrightarrow> fs_block s3 f b = old b))"
proof -
  note l = recovery_ends [OF recs boot last fine tx]
  have "settled (sb_of f s) (install (j_entries (jtx s)) old) (fs_block s1 f) \<or>
      \<not> ok \<and> (settled (sb_of f s) old (fs_block s1 f) \<or>
        committed (sb_of f s) (j_sequence (jtx s)) (j_entries (jtx s)) old (fs_block s1 f))"
    using commit_effect [OF g st tx com] by blast
  then have "0 \<le> v \<and> (settled (sb_of f s) (install (j_entries (jtx s)) old) (fs_block s3 f) \<or>
      \<not> ok \<and> settled (sb_of f s) old (fs_block s3 f))"
    using l(1) [of old] l(1) [of "install (j_entries (jtx s)) old"] l(2) [of "j_sequence (jtx s)" old] by blast
  then show ?thesis by (auto simp: settled_def)
qed

text \<open>A 40-block file system for the witnesses, whose third transfer fails.\<close>

definition demo_sb :: kfs_superblock where
  "demo_sb = \<lparr>magic = KFS_MAGIC, total_blocks = 40, bitmap_start = 1, bitmap_blocks = 1,
     journal_start = 2, journal_blocks = 33, inode_start = 35, inode_blocks = 1, inode_count = 64,
     data_start = 36, root_ino = 1, free_blocks = 3, features = 1\<rparr>"

definition demo_disk :: "(nat \<Rightarrow> nat option) \<Rightarrow> (nat \<Rightarrow> byte list) \<Rightarrow> blockdev" where
  "demo_disk flt m = \<lparr>bd_name = rd_name, block_size = 4096, blocks = 40, has_read = True,
     has_write = True, medium = m, io = 0, fault = flt\<rparr>"

definition demo_kfs :: "blockdev \<Rightarrow> journal_entry list \<Rightarrow> kfs_state" where
  "demo_kfs bd es = \<lparr>devs = \<lambda>_. bd,
     fss = \<lambda>_. \<lparr>f_bd = Some 0, start_lba = 0, spb = 1, f_sb = demo_sb, f_used = True, mounted = True, handles = 0\<rparr>,
     bcache = [\<lparr>c_fs = None, c_blk = 0, c_stamp = 0, c_data = []\<rparr>], bcache_clock = 0, bcache_hits = 0,
     bcache_misses = 0,
     jtx = \<lparr>j_fs = Some 0, j_active = True, j_failed = False, j_sequence = 1, j_entries = es, j_saved = demo_sb\<rparr>,
     sb_block = replicate 4096 0\<rparr>"

lemma demo_geom: "(\<And>i. length (m i) = 4096) \<Longrightarrow> geom_ok (demo_kfs (demo_disk flt m) es) f"
  by (simp add: geom_ok_def demo_kfs_def demo_disk_def demo_sb_def Let_def)

lemma demo_block: "fs_block (demo_kfs (demo_disk flt m) es) f = m"
  by (rule ext) (simp add: fs_block_def demo_kfs_def demo_disk_def Let_def)

definition demo_es :: "journal_entry list" where "demo_es = [(37, replicate 4096 7)]"

definition demo_zero :: "nat \<Rightarrow> byte list" where "demo_zero = (\<lambda>_. replicate 4096 0)"

lemma demo_commit:
  "\<exists>s1. journal_commit 0 (demo_kfs (demo_disk (\<lambda>n. if n = 2 then Some 0 else None) demo_zero) demo_es) = (False, s1) \<and>
     fs_block s1 0 = put_blocks 4096 2 1 (header_block 1 demo_es)
       (put_blocks 4096 3 1 (replicate 4096 7) demo_zero)"
  by (simp add: journal_commit_def commit_body_def Let_def demo_kfs_def demo_disk_def demo_sb_def
      demo_es_def journal_raw_write_def blockdev_write_def range_ok_def dev_write_def fs_lba_def
      bwrite_def bcache_find_def first_from.simps put_blocks_0)
    (auto simp: fs_block_def fun_eq_iff)

theorem journal_crash_atomic_witness:
  "\<exists>s1 v s3. journal_commit 0 (demo_kfs (demo_disk (\<lambda>n. if n = 2 then Some 0 else None) demo_zero) demo_es) = (False, s1) \<and>
     journal_recover 0 (demo_kfs (demo_disk (\<lambda>_. None) (fs_block s1 0)) []) = (v, s3) \<and> 0 \<le> v \<and>
     (fs_block s3 0 37 = replicate 4096 7 \<or> fs_block s3 0 37 = replicate 4096 0)"
proof -
  let ?s = "demo_kfs (demo_disk (\<lambda>n. if n = 2 then Some 0 else None) demo_zero) demo_es"
  obtain s1 where s1: "journal_commit 0 ?s = (False, s1)"
      "fs_block s1 0 = put_blocks 4096 2 1 (header_block 1 demo_es) (put_blocks 4096 3 1 (replicate 4096 7) demo_zero)"
    using demo_commit by blast
  let ?r = "demo_kfs (demo_disk (\<lambda>_. None) (fs_block s1 0)) []"
  obtain v s3 where rec: "journal_recover 0 ?r = (v, s3)" by fastforce
  have len: "length (fs_block s1 0 i) = 4096" for i
    by (simp add: s1(2) put_blocks_def demo_zero_def demo_es_def)
  have sb: "sb_of 0 ?s = demo_sb" "j_entries (jtx ?s) = demo_es" "sb_of 0 ?r = demo_sb"
    by (simp_all add: demo_kfs_def)
  have 1: "geom_ok ?s 0" by (rule demo_geom) (simp add: demo_zero_def)
  have 2: "settled (sb_of 0 ?s) demo_zero (fs_block ?s 0)"
    unfolding sb demo_block by (simp add: settled_def demo_zero_def jh_clean_zero)
  have 3: "tx_ok (sb_of 0 ?s) (j_entries (jtx ?s))"
    unfolding sb by (simp add: tx_ok_def demo_es_def home_def demo_sb_def)
  have 4: "reboot 0 (sb_of 0 ?s) s1 ?r" using demo_geom [OF len] by (simp add: reboot_def sb demo_block)
  have 5: "no_faults ?r 0" by (simp add: no_faults_def demo_kfs_def demo_disk_def)
  have "home demo_sb 37" by (simp add: home_def demo_sb_def)
  then have "0 \<le> v \<and> (fs_block s3 0 37 = install demo_es demo_zero 37 \<or> fs_block s3 0 37 = demo_zero 37)"
    using journal_crash_atomic [OF 1 2 3 s1(1) rec_none 4 rec] 5 unfolding sb by blast
  moreover have "install demo_es demo_zero 37 = replicate 4096 7" by (simp add: install_def demo_es_def)
  ultimately show ?thesis using s1(1) rec by (auto simp: demo_zero_def)
qed

end
