(* ===== verification/Kfs_Store.thy ===== *)
theory Kfs_Store
  imports Kfs_Crash
begin

text \<open>
  What the upper half of KFS relies on: through the block cache and the running transaction, the
  blocks of an instance behave as one array of blocks. The contract is a locale, interpreted on
  \<^verbatim>\<open>bread\<close> and \<^verbatim>\<open>journal_stage\<close>; its laws rest on the coherence of the write-through cache.
\<close>

section \<open>The contract\<close>

text \<open>
  \<open>ok\<close> is the invariant of the provider, \<open>view\<close> the contents a client sees, \<open>dom\<close> the blocks it
  may use. A read that succeeds returns the contents.
\<close>

locale block_reader =
  fixes ok :: "'s \<Rightarrow> bool"
    and view :: "'s \<Rightarrow> u32 \<Rightarrow> byte list"
    and dom :: "'s \<Rightarrow> u32 \<Rightarrow> bool"
    and rd :: "u32 \<Rightarrow> 's \<Rightarrow> byte list option \<times> 's"
  assumes rd_law: "\<lbrakk>ok s; dom s b; rd b s = (r, s')\<rbrakk> \<Longrightarrow>
      ok s' \<and> view s' = view s \<and> dom s' = dom s \<and> (r = None \<or> r = Some (view s b))"
    and view_len: "ok s \<Longrightarrow> dom s b \<Longrightarrow> length (view s b) = KFS_BLOCK_SIZE"
begin

lemma rd_Some:
  assumes "ok s" and "dom s b" and "rd b s = (Some x, s')"
  shows "x = view s b" and "ok s'" and "view s' = view s" and "dom s' = dom s"
  using rd_law [OF assms] by auto

lemma rd_None:
  assumes "ok s" and "dom s b" and "rd b s = (None, s')"
  shows "ok s'" and "view s' = view s" and "dom s' = dom s"
  using rd_law [OF assms] by auto

end

text \<open>A store also has a write, which changes one block if it succeeds and nothing otherwise.\<close>

locale block_store = block_reader +
  fixes wr :: "u32 \<Rightarrow> byte list \<Rightarrow> 's \<Rightarrow> bool \<times> 's"
  assumes wr_law: "\<lbrakk>ok s; dom s b; length buf = KFS_BLOCK_SIZE; wr b buf s = (w, s')\<rbrakk> \<Longrightarrow>
      ok s' \<and> dom s' = dom s \<and> view s' = (if w then (view s)(b := buf) else view s)"
begin

text \<open>The read-modify-write step of the allocator and the inode table.\<close>

definition patch :: "u32 \<Rightarrow> nat \<Rightarrow> byte list \<Rightarrow> 's \<Rightarrow> bool \<times> 's" where
  "patch b off xs s = (case rd b s of (None, s1) \<Rightarrow> (False, s1)
     | (Some buf, s1) \<Rightarrow> wr b (put_bytes off xs buf) s1)"

lemma patch_ok:
  assumes "ok s" and "dom s b" and "off + length xs \<le> KFS_BLOCK_SIZE" and "patch b off xs s = (r, s')"
  shows "ok s'" and "dom s' = dom s"
    and "view s' = (if r then (view s)(b := put_bytes off xs (view s b)) else view s)"
proof -
  obtain x s1 where rd1: "rd b s = (x, s1)" by fastforce
  note r1 = rd_law [OF assms(1,2) rd1]
  have "ok s' \<and> dom s' = dom s \<and>
      view s' = (if r then (view s)(b := put_bytes off xs (view s b)) else view s)"
  proof (cases x)
    case None
    then show ?thesis using assms(4) rd1 r1 by (simp add: patch_def)
  next
    case (Some buf)
    then have buf: "buf = view s b" using r1 by simp
    then have "wr b (put_bytes off xs (view s b)) s1 = (r, s')" using assms(4) rd1 Some by (simp add: patch_def)
    moreover have "length (put_bytes off xs (view s b)) = KFS_BLOCK_SIZE"
      using assms(3) view_len [OF assms(1,2)] by simp
    ultimately show ?thesis using wr_law [of s1 b _ r s'] r1 assms(2) by simp
  qed
  then show "ok s'" and "dom s' = dom s"
    and "view s' = (if r then (view s)(b := put_bytes off xs (view s b)) else view s)" by blast+
qed

lemma patch_get:
  assumes "ok s" and "dom s b" and "off + length xs \<le> KFS_BLOCK_SIZE" and "patch b off xs s = (True, s')"
  shows "get_bytes off (length xs) (view s' b) = xs"
  using patch_ok(3) [OF assms] view_len [OF assms(1,2)] assms(3) by (simp add: get_put_same)

end

section \<open>Coherence of the cache\<close>

text \<open>
  Every slot of the instance holds what is on the disk, except for the blocks in \<open>X\<close>, no block has
  two slots, and a slot holds a whole block.
\<close>

definition coh_x :: "u32 set \<Rightarrow> kfs_state \<Rightarrow> nat \<Rightarrow> bool" where
  "coh_x X s f \<longleftrightarrow> bcache s \<noteq> [] \<and>
     (\<forall>i < length (bcache s). c_fs (bcache s ! i) = Some f \<and> home (sb_of f s) (unat (c_blk (bcache s ! i))) \<and>
        c_blk (bcache s ! i) \<notin> X \<longrightarrow> c_data (bcache s ! i) = fs_block s f (unat (c_blk (bcache s ! i)))) \<and>
     (\<forall>i < length (bcache s). \<forall>j < length (bcache s). i \<noteq> j \<and> c_fs (bcache s ! i) = Some f \<and>
        c_fs (bcache s ! j) = Some f \<longrightarrow> c_blk (bcache s ! i) \<noteq> c_blk (bcache s ! j)) \<and>
     (\<forall>i < length (bcache s). c_fs (bcache s ! i) = Some f \<longrightarrow> length (c_data (bcache s ! i)) = KFS_BLOCK_SIZE)"

abbreviation coh :: "kfs_state \<Rightarrow> nat \<Rightarrow> bool" where "coh \<equiv> coh_x {}"

lemma victim_from_less: "cs \<noteq> [] \<Longrightarrow> best < length cs \<Longrightarrow> victim_from cs best i < length cs"
  by (induction cs best i rule: victim_from.induct) (simp add: victim_from.simps)

lemma bcache_victim_less: "cs \<noteq> [] \<Longrightarrow> bcache_victim cs < length cs"
  by (simp add: bcache_victim_def victim_from_less)

lemma bcache_find_Some:
  "bcache_find f b cs = Some i \<Longrightarrow> i < length cs \<and> c_fs (cs ! i) = Some f \<and> c_blk (cs ! i) = b"
  by (simp add: bcache_find_def first_from_Some)

lemma bcache_find_None:
  "bcache_find f b cs = None \<Longrightarrow> i < length cs \<Longrightarrow> c_fs (cs ! i) = Some f \<Longrightarrow> c_blk (cs ! i) \<noteq> b"
  by (auto simp: bcache_find_def first_from_None)

lemma coh_fill:
  assumes c: "coh_x X s f" and i: "i < length (bcache s)" and buf: "home (sb_of f s) (unat b) \<Longrightarrow> buf = fs_block s f (unat b)"
    and len: "length buf = KFS_BLOCK_SIZE"
    and alone: "\<And>j. j < length (bcache s) \<Longrightarrow> j \<noteq> i \<Longrightarrow> c_fs (bcache s ! j) = Some f \<Longrightarrow> c_blk (bcache s ! j) \<noteq> b"
  shows "coh_x (X - {b}) (cache_fill i f b buf s) f"
proof -
  let ?s = "cache_fill i f b buf s"
  have bc: "bcache ?s = (bcache s)[i := \<lparr>c_fs = Some f, c_blk = b, c_stamp = bcache_clock s + 1, c_data = buf\<rparr>]"
    and sb: "fss ?s = fss s" by (simp_all add: cache_fill_def)
  show ?thesis unfolding coh_x_def fs_block_cache bc sb
    using c i buf len alone unfolding coh_x_def by (auto simp: nth_list_update)
qed

lemma coh_hit_alone:
  "coh_x X s f \<Longrightarrow> bcache_find f b (bcache s) = Some i \<Longrightarrow> j < length (bcache s) \<Longrightarrow> j \<noteq> i \<Longrightarrow>
   c_fs (bcache s ! j) = Some f \<Longrightarrow> c_blk (bcache s ! j) \<noteq> b"
  unfolding coh_x_def using bcache_find_Some [of f b "bcache s" i] by blast

lemma coh_disk:
  assumes "coh s f" and "disk_frame f s s'"
    and "\<And>b'. b' \<noteq> unat b \<Longrightarrow> fs_block s' f b' = fs_block s f b'"
  shows "coh_x {b} s' f"
  using assms(1,3) disk_frame_fields(1,3) [OF assms(2)]
  unfolding coh_x_def by (auto simp: word_unat_eq_iff)

lemma coh_drop:
  assumes "coh_x {b} s f" and "bcache_find f b (bcache s) = Some i"
  shows "coh (s\<lparr>bcache := (bcache s)[i := (bcache s ! i)\<lparr>c_fs := None\<rparr>]\<rparr>) f"
proof -
  have i: "i < length (bcache s)" "c_blk (bcache s ! i) = b" using bcache_find_Some [OF assms(2)] by simp_all
  show ?thesis using assms(1) i coh_hit_alone [OF assms] unfolding coh_x_def
    by (auto simp: nth_list_update)
qed

lemma coh_no_slot:
  assumes "coh_x {b} s f" and "bcache_find f b (bcache s) = None" shows "coh s f"
  using assms(1) bcache_find_None [OF assms(2)] unfolding coh_x_def by blast

section \<open>Reads and writes through the cache\<close>

definition view :: "nat \<Rightarrow> kfs_state \<Rightarrow> u32 \<Rightarrow> byte list" where
  "view f s b = (case journal_pending f b s of Some d \<Rightarrow> d | None \<Rightarrow> fs_block s f (unat b))"

definition usable :: "nat \<Rightarrow> kfs_state \<Rightarrow> u32 \<Rightarrow> bool" where
  "usable f s b \<longleftrightarrow> home (sb_of f s) (unat b)"

definition store_ok :: "nat \<Rightarrow> kfs_state \<Rightarrow> bool" where
  "store_ok f s \<longleftrightarrow> geom_ok s f \<and> coh s f \<and> length (sb_block s) = KFS_BLOCK_SIZE \<and>
     (j_active (jtx s) \<and> j_fs (jtx s) = Some f \<longrightarrow>
        distinct (map fst (j_entries (jtx s))) \<and> length (j_entries (jtx s)) \<le> KFS_JOURNAL_ENTRIES \<and>
        (\<forall>e \<in> set (j_entries (jtx s)). usable f s (fst e) \<and> length (snd e) = KFS_BLOCK_SIZE))"

text \<open>Superblocks that differ at most in the free-block counter.\<close>

definition same_layout :: "kfs_superblock \<Rightarrow> kfs_superblock \<Rightarrow> bool" where
  "same_layout a b \<longleftrightarrow> a\<lparr>free_blocks := 0\<rparr> = b\<lparr>free_blocks := 0\<rparr>"

definition in_tx :: "nat \<Rightarrow> kfs_state \<Rightarrow> bool" where
  "in_tx f s \<longleftrightarrow> store_ok f s \<and> j_active (jtx s) \<and> j_fs (jtx s) = Some f \<and>
     same_layout (j_saved (jtx s)) (sb_of f s)"

text \<open>What a read leaves alone: everything but the cache, the counters and the device's own state.\<close>

definition read_frame :: "nat \<Rightarrow> kfs_state \<Rightarrow> kfs_state \<Rightarrow> bool" where
  "read_frame f s s' \<longleftrightarrow> frm f s s' \<and> fs_block s' f = fs_block s f"

lemma pending_frm: "frm f s s' \<Longrightarrow> journal_pending f' b s' = journal_pending f' b s"
  by (simp add: frm_def journal_pending_def)

lemma bread_effect:
  assumes ok: "store_ok f s" and b: "usable f s b" and ret: "bread f b s = (r, s')"
  shows "store_ok f s'" and "view f s' = view f s" and "frm f s s'" and "fs_block s' f = fs_block s f"
    and "r = None \<or> r = Some (view f s b)" and "r = None \<Longrightarrow> \<not> (\<forall>n. fault (devs s (f_dev s f)) n = None)"
proof -
  have g: "geom_ok s f" and c: "coh s f" using ok by (simp_all add: store_ok_def)
  have ub: "unat b < unat (total_blocks (sb_of f s))" using b by (simp add: usable_def home_def)
  have main: "geom_ok s' f \<and> coh s' f \<and> frm f s s' \<and> fs_block s' f = fs_block s f \<and>
      (r = None \<or> r = Some (view f s b)) \<and> (r = None \<longrightarrow> \<not> (\<forall>n. fault (devs s (f_dev s f)) n = None))"
  proof (cases "journal_pending f b s")
    case (Some d)
    then have "view f s b = d" by (simp add: view_def)
    moreover have "s' = s" "r = Some d" using ret Some by (simp_all add: bread_def)
    ultimately show ?thesis using g c by simp
  next
    case None
    show ?thesis
    proof (cases "bcache_find f b (bcache s)")
      case (Some i)
      let ?d = "c_data (bcache s ! i)"
      note fi = bcache_find_Some [OF Some]
      have d: "?d = fs_block s f (unat b)" using c fi b by (auto simp: coh_x_def usable_def)
      have "coh (cache_fill i f b ?d s) f"
        using coh_fill [OF c _ d] fi coh_hit_alone [OF c Some] d g by simp
      moreover have s': "s' = (cache_fill i f b ?d s)\<lparr>bcache_hits := bcache_hits s + 1\<rparr>" "r = Some ?d"
        using ret None Some by (simp_all add: bread_def)
      moreover have "coh (x\<lparr>bcache_hits := h\<rparr>) f = coh x f" "geom_ok (x\<lparr>bcache_hits := h\<rparr>) f = geom_ok x f"
        "fs_block (x\<lparr>bcache_hits := h\<rparr>) f = fs_block x f" "frm f s (x\<lparr>bcache_hits := h\<rparr>) = frm f s x" for x h
        by (auto simp: coh_x_def geom_ok_def fs_block_def frm_def fun_eq_iff Let_def)
      ultimately show ?thesis using g d None by (simp add: view_def)
    next
      case miss: None
      obtain x s1 where rd: "journal_raw_read f b s = (x, s1)" by fastforce
      note re = raw_read_effect [OF g ub rd]
      have bc: "bcache s1 = bcache s" using disk_frame_fields(3) [OF re(1)] by simp
      have c1: "coh s1 f" using coh_disk [OF c re(1), of b] re(3) coh_no_slot miss bc by simp
      show ?thesis
      proof (cases x)
        case None
        have "\<not> (\<forall>n. fault (devs s (f_dev s f)) n = None)"
        proof
          assume "\<forall>n. fault (devs s (f_dev s f)) n = None"
          moreover have "spb (fss s f) \<noteq> 0" using geom_okD(4) [OF g] by auto
          moreover have "range_ok (devs s (f_dev s f)) (fs_lba (fss s f) b) (spb (fss s f))"
            using fs_lba_unat [OF g ub] by (simp add: range_ok_iff)
          ultimately show False using rd None geom_okD(1) [OF g]
            by (auto simp: journal_raw_read_def blockdev_read_def dev_read_def Let_def split: option.splits)
        qed
        moreover have "s' = s1" "r = None"
          using ret \<open>journal_pending f b s = None\<close> miss rd None by (simp_all add: bread_def)
        ultimately show ?thesis using re c1 frm_disk [OF re(1)] by simp
      next
        case (Some d)
        let ?v = "bcache_victim (bcache s1)"
        have s': "s' = (cache_fill ?v f b d s1)\<lparr>bcache_misses := bcache_misses s + 1\<rparr>" "r = Some d"
          using ret \<open>journal_pending f b s = None\<close> miss rd Some by (simp_all add: bread_def)
        have d: "d = fs_block s1 f (unat b)" using re(3) re(4) [OF Some] by simp
        have "?v < length (bcache s1)" using c1 by (simp add: coh_x_def bcache_victim_less)
        then have "coh (cache_fill ?v f b d s1) f"
          using coh_fill [OF c1 _ d] bcache_find_None [OF miss] bc d re(2) by simp
        moreover have "coh (x\<lparr>bcache_misses := h\<rparr>) f = coh x f" "geom_ok (x\<lparr>bcache_misses := h\<rparr>) f = geom_ok x f"
          "fs_block (x\<lparr>bcache_misses := h\<rparr>) f = fs_block x f" "frm f s (x\<lparr>bcache_misses := h\<rparr>) = frm f s x" for x h
          by (auto simp: coh_x_def geom_ok_def fs_block_def frm_def fun_eq_iff Let_def)
        ultimately show ?thesis using s' re(2,3) d frm_disk [OF re(1)] \<open>journal_pending f b s = None\<close>
          by (simp add: view_def)
      qed
    qed
  qed
  then have fr: "frm f s s'" and blk: "fs_block s' f = fs_block s f" by blast+
  show "view f s' = view f s" unfolding fun_eq_iff view_def blk pending_frm [OF fr] by simp
  show "store_ok f s'" using ok main fr by (simp add: store_ok_def usable_def frm_def)
  show "frm f s s'" "fs_block s' f = fs_block s f" "r = None \<or> r = Some (view f s b)"
    "r = None \<Longrightarrow> \<not> (\<forall>n. fault (devs s (f_dev s f)) n = None)" using main by blast+
qed

lemma bwrite_coh:
  assumes ok: "store_ok f s" and b: "usable f s b" and len: "length buf = KFS_BLOCK_SIZE"
    and ret: "bwrite f b buf s = (r, s')"
  shows "store_ok f s'"
proof -
  have g: "geom_ok s f" and c: "coh s f" using ok by (simp_all add: store_ok_def)
  have ub: "unat b < unat (total_blocks (sb_of f s))" using b by (simp add: usable_def home_def)
  obtain x s1 where w: "journal_raw_write f b buf s = (x, s1)" by fastforce
  note re = raw_write_effect [OF g ub len w]
  obtain k where k: "x \<longrightarrow> k = KFS_BLOCK_SIZE"
      "fs_block s1 f = (fs_block s f)(unat b := take k buf @ drop k (fs_block s f (unat b)))"
    using re(3) by blast
  have bc: "bcache s1 = bcache s" using disk_frame_fields(3) [OF re(1)] by simp
  have c1: "coh_x {b} s1 f" using coh_disk [OF c re(1), of b] k(2) by simp
  have "coh s' f"
  proof (cases x)
    case False
    then show ?thesis using ret w coh_drop [OF c1] coh_no_slot [OF c1] bc
      by (cases "bcache_find f b (bcache s)") (auto simp: bwrite_def Let_def)
  next
    case True
    then have buf: "buf = fs_block s1 f (unat b)" using k len g by simp
    show ?thesis
    proof (cases "bcache_find f b (bcache s)")
      case None
      have "bcache_victim (bcache s1) < length (bcache s1)" using c1 by (simp add: coh_x_def bcache_victim_less)
      from coh_fill [OF c1 this buf len] bcache_find_None [OF None] bc
      show ?thesis using ret w True None by (auto simp: bwrite_def Let_def)
    next
      case (Some i)
      have i: "i < length (bcache s1)" using bcache_find_Some [OF Some] bc by simp
      have hit: "bcache_find f b (bcache s1) = Some i" using Some bc by simp
      from coh_fill [OF c1 i buf len] coh_hit_alone [OF c1 hit]
      show ?thesis using ret w True Some by (auto simp: bwrite_def Let_def)
    qed
  qed
  moreover have "frm f s s'" and "geom_ok s' f" using bwrite_effect [OF g ub len ret] by blast+
  ultimately show ?thesis using ok by (simp add: store_ok_def usable_def frm_def)
qed


lemma stage_entry_map:
  "stage_entry b buf es = (if b \<in> fst ` set es
     then map (\<lambda>e. if fst e = b then (b, buf) else e) es else es @ [(b, buf)])"
  if "distinct (map fst es)"
proof (cases "first_from (\<lambda>i. fst (es ! i) = b) 0 (length es)")
  case None
  then have "b \<notin> fst ` set es" by (fastforce simp: first_from_None in_set_conv_nth)
  then show ?thesis using None by (simp add: stage_entry_def)
next
  case (Some i)
  then have i: "i < length es" "fst (es ! i) = b" by (simp_all add: first_from_Some)
  then have "b \<in> fst ` set es" by force
  moreover have "es[i := (b, buf)] = map (\<lambda>e. if fst e = b then (b, buf) else e) es"
  proof (rule nth_equalityI)
    fix j assume j: "j < length (es[i := (b, buf)])"
    then have "fst (es ! j) = b \<longleftrightarrow> j = i"
      using nth_eq_iff_index_eq [OF that, of j i] i by auto
    then show "es[i := (b, buf)] ! j = map (\<lambda>e. if fst e = b then (b, buf) else e) es ! j"
      using j by (simp add: nth_list_update)
  qed simp
  ultimately show ?thesis using Some by (simp add: stage_entry_def)
qed

lemma map_of_stage:
  "distinct (map fst es) \<Longrightarrow> map_of (stage_entry b buf es) x = (if x = b then Some buf else map_of es x)"
proof -
  assume d: "distinct (map fst es)"
  have m1: "map_of (map (\<lambda>e. if fst e = b then (b, buf) else e) es) x =
      (if x = b \<and> b \<in> fst ` set es then Some buf else map_of es x)"
    by (induction es) (auto simp: rev_image_eqI)
  have m2: "map_of (es @ [(b, buf)]) x = (case map_of es x of None \<Rightarrow> if x = b then Some buf else None | Some y \<Rightarrow> Some y)"
    by (auto simp: map_add_def split: option.splits)
  show ?thesis
  proof (cases "b \<in> fst ` set es")
    case True
    then show ?thesis unfolding stage_entry_map [OF d] using m1 by simp
  next
    case False
    then have "map_of es b = None" by (simp add: map_of_eq_None_iff)
    then show ?thesis unfolding stage_entry_map [OF d] using False m2 by (auto split: option.splits)
  qed
qed

lemma stage_entry_keys:
  "distinct (map fst es) \<Longrightarrow> fst ` set (stage_entry b buf es) = insert b (fst ` set es) \<and>
   distinct (map fst (stage_entry b buf es)) \<and>
   length (stage_entry b buf es) = (if b \<in> fst ` set es then length es else Suc (length es)) \<and>
   (\<forall>e \<in> set (stage_entry b buf es). e = (b, buf) \<or> e \<in> set es)"
proof -
  assume d: "distinct (map fst es)"
  have m: "map fst (map (\<lambda>e. if fst e = b then (b, buf) else e) es) = map fst es" by (induction es) auto
  then have k: "fst ` set (map (\<lambda>e. if fst e = b then (b, buf) else e) es) = fst ` set es"
    by (metis list.set_map)
  show ?thesis
  proof (cases "b \<in> fst ` set es")
    case True
    then have s: "stage_entry b buf es = map (\<lambda>e. if fst e = b then (b, buf) else e) es"
      by (simp add: stage_entry_map [OF d])
    show ?thesis unfolding s k m using True d by (auto simp: insert_absorb)
  next
    case False
    then have s: "stage_entry b buf es = es @ [(b, buf)]" by (simp add: stage_entry_map [OF d])
    show ?thesis unfolding s using False d by simp
  qed
qed

lemma journal_stage_effect:
  assumes ok: "in_tx f s" and b: "usable f s b" and len: "length buf = KFS_BLOCK_SIZE"
    and ret: "journal_stage f b buf s = (r, s')"
  shows "in_tx f s'" and "view f s' = (if r then (view f s)(b := buf) else view f s)"
    and "s' = s\<lparr>jtx := (jtx s)\<lparr>j_entries := j_entries (jtx s'), j_failed := j_failed (jtx s')\<rparr>\<rparr>"
    and "j_failed (jtx s') = (j_failed (jtx s) \<or> \<not> r)"
    and "fst ` set (j_entries (jtx s')) \<subseteq> insert b (fst ` set (j_entries (jtx s)))"
proof -
  let ?es = "j_entries (jtx s)"
  have act: "j_active (jtx s)" "j_fs (jtx s) = Some f" and so: "store_ok f s"
    using ok by (simp_all add: in_tx_def)
  have es: "distinct (map fst ?es)" "length ?es \<le> KFS_JOURNAL_ENTRIES"
      "\<forall>e \<in> set ?es. usable f s (fst e) \<and> length (snd e) = KFS_BLOCK_SIZE"
    using so act by (simp_all add: store_ok_def)
  have upd: "coh (s\<lparr>jtx := j\<rparr>) f = coh s f" "geom_ok (s\<lparr>jtx := j\<rparr>) f = geom_ok s f"
      "usable f (s\<lparr>jtx := j\<rparr>) = usable f s" "fs_block (s\<lparr>jtx := j\<rparr>) f = fs_block s f" for j
    by (auto simp: coh_x_def geom_ok_def usable_def fs_block_def fun_eq_iff Let_def)
  show "in_tx f s'"
  proof (cases r)
    case False
    then have "s' = s\<lparr>jtx := (jtx s)\<lparr>j_failed := True\<rparr>\<rparr>" using ret act
      by (auto simp: journal_stage_def split: if_splits)
    then show ?thesis using ok act by (simp add: in_tx_def store_ok_def upd)
  next
    case True
    then have s': "s' = s\<lparr>jtx := (jtx s)\<lparr>j_entries := stage_entry b buf ?es\<rparr>\<rparr>"
        "b \<in> fst ` set ?es \<or> length ?es < KFS_JOURNAL_ENTRIES" using ret act
      by (auto simp: journal_stage_def split: if_splits)
    show ?thesis using ok so act es s' stage_entry_keys [OF es(1), of b buf] b len
      by (auto simp: in_tx_def store_ok_def upd)
  qed
  show "view f s' = (if r then (view f s)(b := buf) else view f s)"
  proof (rule ext)
    fix x
    have blk: "fs_block s' f = fs_block s f"
      using ret act by (auto simp: journal_stage_def upd split: if_splits)
    have "journal_pending f x s' = (if r \<and> x = b then Some buf else journal_pending f x s)"
      using ret act map_of_stage [OF es(1), of b buf x]
      by (auto simp: journal_stage_def journal_pending_def split: if_splits)
    then show "view f s' x = (if r then (view f s)(b := buf) else view f s) x"
      unfolding view_def blk by (cases "r \<and> x = b") auto
  qed
  show "s' = s\<lparr>jtx := (jtx s)\<lparr>j_entries := j_entries (jtx s'), j_failed := j_failed (jtx s')\<rparr>\<rparr>"
    "j_failed (jtx s') = (j_failed (jtx s) \<or> \<not> r)"
    using ret act by (auto simp: journal_stage_def split: if_splits)
  show "fst ` set (j_entries (jtx s')) \<subseteq> insert b (fst ` set ?es)"
  proof -
    have "j_entries (jtx s') = stage_entry b buf ?es \<or> j_entries (jtx s') = ?es"
      using ret act by (auto simp: journal_stage_def split: if_splits)
    moreover have "fst ` set (stage_entry b buf ?es) = insert b (fst ` set ?es)"
      using stage_entry_keys [OF es(1)] by simp
    ultimately show ?thesis by (metis order_refl subset_insertI)
  qed
qed

section \<open>The implementation meets the contract\<close>

lemma length_view: "store_ok f s \<Longrightarrow> usable f s b \<Longrightarrow> length (view f s b) = KFS_BLOCK_SIZE"
  by (auto simp: view_def store_ok_def journal_pending_def split: option.splits if_splits dest!: map_of_SomeD)

lemma in_tx_frm:
  assumes "in_tx f s" and "store_ok f s'" and "frm f s s'" shows "in_tx f s'"
  using assms by (simp add: in_tx_def frm_def)

interpretation kfs_rd: block_reader "store_ok f" "view f" "usable f" "bread f" for f
proof (unfold_locales, goal_cases)
  case (1 s b r s')
  note e = bread_effect [OF 1]
  then show ?case using frm_sb [OF e(3)] by (simp add: usable_def fun_eq_iff)
next
  case (2 s b)
  then show ?case by (rule length_view)
qed

interpretation kfs_tx: block_store "in_tx f" "view f" "usable f" "bread f" "journal_stage f" for f
proof (unfold_locales, goal_cases)
  case (1 s b r s')
  then have "store_ok f s" by (simp add: in_tx_def)
  note e = bread_effect [OF this 1(2,3)]
  then show ?case using frm_sb [OF e(3)] in_tx_frm [OF 1(1) e(1,3)] by (simp add: usable_def fun_eq_iff)
next
  case (2 s b)
  then show ?case by (simp add: in_tx_def length_view)
next
  case (3 s b buf w s')
  note e = journal_stage_effect [OF 3]
  have "fss s' = fss s" by (subst e(3)) simp
  then show ?case using e(1,2) by (simp add: usable_def fun_eq_iff)
qed


section \<open>Ending a transaction\<close>

lemma coh_journal_write:
  assumes "coh s f" and "geom_ok s f" and "length buf = KFS_BLOCK_SIZE"
    and b: "unat (journal_start (sb_of f s)) \<le> unat b" "unat b < unat (journal_start (sb_of f s)) + 33"
    and ret: "journal_raw_write f b buf s = (r, s')"
  shows "coh s' f"
proof -
  have ub: "unat b < unat (total_blocks (sb_of f s))" using geom_okD(7) [OF assms(2)] b by simp
  note re = raw_write_effect [OF assms(2) ub assms(3) ret]
  obtain k where "fs_block s' f = (fs_block s f)(unat b := take k buf @ drop k (fs_block s f (unat b)))"
    using re(3) by blast
  moreover have "\<not> home (sb_of f s) (unat b)" using b by (simp add: home_def)
  ultimately show ?thesis using assms(1) disk_frame_fields(1,3) [OF re(1)]
    unfolding coh_x_def by (auto simp: word_unat_eq_iff)
qed

lemma store_ok_disk:
  assumes "store_ok f s" and "frm f s s'" and "geom_ok s' f" and "coh s' f" shows "store_ok f s'"
  using assms by (simp add: store_ok_def usable_def frm_def)

lemma store_ok_home:
  assumes "store_ok f s" and "\<forall>e \<in> set es. usable f s (fst e) \<and> length (snd e) = KFS_BLOCK_SIZE"
    and "write_home f es s = (r, s')"
  shows "store_ok f s'"
  using assms
proof (induction es arbitrary: s)
  case (Cons e es)
  obtain w s1 where w: "bwrite f (fst e) (snd e) s = (w, s1)" by fastforce
  have b: "usable f s (fst e)" "length (snd e) = KFS_BLOCK_SIZE" using Cons.prems(2) by simp_all
  have ok1: "store_ok f s1" by (rule bwrite_coh [OF Cons.prems(1) b w])
  have "unat (fst e) < unat (total_blocks (sb_of f s))" using b(1) by (simp add: usable_def home_def)
  then have fr: "frm f s s1" using bwrite_effect(1) [OF _ _ b(2) w] Cons.prems(1) by (simp add: store_ok_def)
  show ?case
  proof (cases w)
    case False
    then show ?thesis using Cons.prems(3) w ok1 by simp
  next
    case True
    then have "write_home f es s1 = (r, s')" using Cons.prems(3) w by simp
    then show ?thesis using Cons.IH [OF ok1] Cons.prems(2) frm_sb [OF fr] by (simp add: usable_def)
  qed
qed simp

lemma store_ok_payloads:
  assumes "store_ok f s" and "write_payloads f at es s = (r, s')"
    and "unat (journal_start (sb_of f s)) \<le> unat at"
    and "unat at + length es \<le> unat (journal_start (sb_of f s)) + 33"
    and "\<forall>e \<in> set es. length (snd e) = KFS_BLOCK_SIZE"
  shows "store_ok f s'"
  using assms
proof (induction es arbitrary: s at)
  case (Cons e es)
  let ?sb = "sb_of f s"
  have g: "geom_ok s f" and c: "coh s f" using Cons.prems(1) by (simp_all add: store_ok_def)
  obtain w s1 where w: "journal_raw_write f at (snd e) s = (w, s1)" by fastforce
  have len: "length (snd e) = KFS_BLOCK_SIZE" using Cons.prems(5) by simp
  have lt: "unat at < unat (journal_start ?sb) + 33" using Cons.prems(4) by simp
  then have ub: "unat at < unat (total_blocks ?sb)" using geom_okD(7) [OF g] by simp
  note re = raw_write_effect [OF g ub len w]
  have fr: "frm f s s1" by (rule frm_disk [OF re(1)])
  have ok1: "store_ok f s1"
    by (rule store_ok_disk [OF Cons.prems(1) fr re(2) coh_journal_write [OF c g len Cons.prems(3) lt w]])
  show ?case
  proof (cases w)
    case False
    then show ?thesis using Cons.prems(2) w ok1 by simp
  next
    case True
    have "unat (at + 1) = unat at + 1"
      using ub unsigned_less [of "total_blocks ?sb", where ?'a = nat] by (simp add: unat_word_ariths mod_less)
    moreover have "write_payloads f (at + 1) es s1 = (r, s')" using Cons.prems(2) w True by simp
    ultimately show ?thesis using Cons.IH [OF ok1] Cons.prems(3-5) frm_sb [OF fr] by simp
  qed
qed simp

lemma tx_ok_in_tx:
  "in_tx f s \<Longrightarrow> j_entries (jtx s) \<noteq> [] \<Longrightarrow> tx_ok (sb_of f s) (j_entries (jtx s))"
  by (auto simp: in_tx_def store_ok_def tx_ok_def usable_def)

lemma install_view:
  assumes "in_tx f s" shows "install (j_entries (jtx s)) (fs_block s f) (unat b) = view f s b"
proof -
  have "map_of (map (\<lambda>e. (unat (fst e), snd e)) es) (unat b) = map_of es b" for es :: "journal_entry list"
    by (induction es) (auto simp: word_unat_eq_iff)
  then show ?thesis using assms by (simp add: install_def view_def journal_pending_def in_tx_def)
qed

lemma commit_body_ok:
  assumes tx: "in_tx f s" and ret: "commit_body f s = (True, s')"
  shows "store_ok f s'" and "frm f s s'"
proof -
  let ?sb = "sb_of f s" and ?es = "j_entries (jtx s)" and ?js = "journal_start (sb_of f s)"
  have ok: "store_ok f s" and act: "j_active (jtx s)" "j_fs (jtx s) = Some f" using tx by (simp_all add: in_tx_def)
  have g: "geom_ok s f" using ok by (simp add: store_ok_def)
  have nf: "\<not> j_failed (jtx s)" using ret by (auto simp: commit_body_def Let_def split: if_splits)
  have "store_ok f s' \<and> frm f s s'"
  proof (cases "?es = []")
    case True
    then show ?thesis using ret act nf ok by (simp add: commit_body_def Let_def)
  next
    case False
    have es: "\<forall>e \<in> set ?es. usable f s (fst e) \<and> length (snd e) = KFS_BLOCK_SIZE" "length ?es \<le> 32"
      using ok act by (simp_all add: store_ok_def)
    obtain s1 s2 s3 where st: "write_payloads f (?js + 1) ?es s = (True, s1)"
        "journal_raw_write f ?js (header_block (j_sequence (jtx s)) ?es) s1 = (True, s2)"
        "write_home f ?es s2 = (True, s3)" "journal_clear f s3 = (True, s')"
      using ret act nf False by (auto simp: commit_body_def Let_def split: prod.splits bool.splits)
    have js1: "unat (?js + 1) = unat ?js + 1"
      using geom_okD(7) [OF g] unsigned_less [of "total_blocks ?sb", where ?'a = nat]
      by (simp add: unat_word_ariths mod_less)
    have ok1: "store_ok f s1" by (rule store_ok_payloads [OF ok st(1)]) (use es js1 in simp_all)
    have fr1: "frm f s s1"
      using write_payloads_effect [OF g st(1)] geom_okD(7) [OF g] es js1 by simp
    have lj: "unat ?js < unat (total_blocks ?sb)" using geom_okD(7) [OF g] by simp
    have hl: "length (header_block (j_sequence (jtx s)) ?es) = KFS_BLOCK_SIZE" using es(2) by simp
    have g1: "geom_ok s1 f" and c1: "coh s1 f" using ok1 by (simp_all add: store_ok_def)
    note re2 = raw_write_effect [OF g1 _ hl st(2), unfolded frm_sb [OF fr1], OF lj]
    have ok2: "store_ok f s2"
      by (rule store_ok_disk [OF ok1 frm_disk [OF re2(1)] re2(2) coh_journal_write [OF c1 g1 hl _ _ st(2)]])
        (simp_all add: frm_sb [OF fr1])
    have fr2: "frm f s s2" by (rule frm_trans [OF fr1 frm_disk [OF re2(1)]])
    have ok3: "store_ok f s3"
      by (rule store_ok_home [OF ok2 _ st(3)]) (use es frm_sb [OF fr2] in \<open>simp add: usable_def\<close>)
    have g2: "geom_ok s2 f" using ok2 by (simp add: store_ok_def)
    have fr3: "frm f s s3"
    proof -
      have "\<forall>e \<in> set ?es. unat (fst e) < unat (total_blocks (sb_of f s2)) \<and> length (snd e) = KFS_BLOCK_SIZE"
        using es frm_sb [OF fr2] by (auto simp: usable_def home_def)
      then show ?thesis using write_home_effect [OF g2 st(3)] frm_trans [OF fr2] by blast
    qed
    have g3: "geom_ok s3 f" and c3: "coh s3 f" using ok3 by (simp_all add: store_ok_def)
    note ce = clear_effect [OF g3 st(4)]
    have "coh s' f"
      by (rule coh_journal_write [OF c3 g3 length_replicate _ _ st(4) [unfolded journal_clear_def]]) simp_all
    then have "store_ok f s'" by (rule store_ok_disk [OF ok3 ce(1,2)])
    then show ?thesis using frm_trans [OF fr3 ce(1)] by simp
  qed
  then show "store_ok f s'" and "frm f s s'" by blast+
qed


lemma same_layout_refl [simp]: "same_layout a a" by (simp add: same_layout_def)

lemma same_layout_fields:
  assumes "same_layout a b"
  shows "magic a = magic b" and "total_blocks a = total_blocks b" and "bitmap_start a = bitmap_start b"
    and "bitmap_blocks a = bitmap_blocks b" and "journal_start a = journal_start b"
    and "journal_blocks a = journal_blocks b" and "inode_start a = inode_start b"
    and "inode_count a = inode_count b" and "data_start a = data_start b" and "root_ino a = root_ino b"
  using assms by (cases a; cases b; simp add: same_layout_def)+

lemma home_layout: "same_layout a b \<Longrightarrow> home a = home b"
  by (rule ext) (simp add: home_def same_layout_fields)

lemma set_sb_ok:
  assumes "same_layout sb (sb_of f s)" shows "store_ok f (set_sb f sb s) = store_ok f s"
proof -
  let ?s = "set_sb f sb s"
  have fs: "fss ?s f = (fss s f)\<lparr>f_sb := sb\<rparr>" "bcache ?s = bcache s" "jtx ?s = jtx s"
      "sb_block ?s = sb_block s" "devs ?s = devs s"
    by (simp_all add: set_sb_def upd_fs_def)
  have blk: "fs_block ?s f = fs_block s f" by (simp add: fs_block_mem)
  have "geom_ok ?s f = geom_ok s f" using same_layout_fields [OF assms] by (simp add: geom_ok_def fs Let_def)
  moreover have "coh ?s f = coh s f" unfolding coh_x_def blk by (simp add: fs home_layout [OF assms])
  ultimately show ?thesis by (simp add: store_ok_def fs usable_def home_layout [OF assms])
qed

lemma journal_reset_ok:
  assumes "store_ok f s" shows "store_ok f (journal_reset s)" and "view f (journal_reset s) b = fs_block s f (unat b)"
proof -
  let ?s = "journal_reset s"
  have fs: "fss ?s = fss s" "bcache ?s = bcache s" "sb_block ?s = sb_block s" "devs ?s = devs s"
      "\<not> j_active (jtx ?s)"
    by (simp_all add: journal_reset_def)
  have blk: "fs_block ?s f = fs_block s f" by (simp add: fs_block_mem)
  have "geom_ok ?s f = geom_ok s f" "coh ?s f = coh s f"
    unfolding coh_x_def blk by (simp_all add: geom_ok_def fs)
  then show "store_ok f ?s" using assms fs by (simp add: store_ok_def)
  show "view f ?s b = fs_block s f (unat b)" using fs blk by (simp add: view_def journal_pending_def)
qed

lemma journal_begin_ok:
  assumes "store_ok f s" and "journal_begin f s = (True, s')"
  shows "in_tx f s'" and "view f s' b = fs_block s f (unat b)" and "fss s' = fss s" and "fs_block s' f = fs_block s f"
    and "\<not> j_failed (jtx s')" and "j_saved (jtx s') = sb_of f s"
proof -
  have s': "fss s' = fss s" "bcache s' = bcache s" "sb_block s' = sb_block s" "devs s' = devs s"
      "j_active (jtx s')" "j_fs (jtx s') = Some f" "j_entries (jtx s') = []" "j_saved (jtx s') = sb_of f s"
      "\<not> j_failed (jtx s')"
    using assms(2) by (auto simp: journal_begin_def split: if_splits)
  have blk: "fs_block s' f = fs_block s f" by (rule ext) (simp add: fs_block_def s')
  have "geom_ok s' f = geom_ok s f" "coh s' f = coh s f" unfolding coh_x_def blk by (simp_all add: geom_ok_def s')
  then show "in_tx f s'" using assms(1) s' by (simp add: in_tx_def store_ok_def)
  show "view f s' b = fs_block s f (unat b)" using s' blk by (simp add: view_def journal_pending_def)
  show "fss s' = fss s" "fs_block s' f = fs_block s f" "\<not> j_failed (jtx s')" "j_saved (jtx s') = sb_of f s"
    using s' blk by simp_all
qed

section \<open>Properties\<close>

text \<open>
  C15. The block cache and the journal's pending entries are transparent: in a well-formed state a
  block read that succeeds returns the last version staged by the running transaction, or else
  what is on the disk; reads, staged writes and direct writes, successful or not, keep the state
  well-formed, so that this holds for every sequence of them.
\<close>

theorem bread_transparent:
  assumes "store_ok f s" and "usable f s b" and "length buf = KFS_BLOCK_SIZE"
  shows "(case bread f b s of (r, s') \<Rightarrow> store_ok f s' \<and> view f s' = view f s \<and>
      (r = None \<or> r = Some (case journal_pending f b s of Some d \<Rightarrow> d | None \<Rightarrow> fs_block s f (unat b)))) \<and>
    store_ok f (snd (bwrite f b buf s)) \<and>
    (in_tx f s \<longrightarrow> (case journal_stage f b buf s of (r, s') \<Rightarrow> store_ok f s' \<and>
       view f s' = (if r then (view f s)(b := buf) else view f s)))"
proof (intro conjI impI, goal_cases)
  case 1
  obtain r s' where ret: "bread f b s = (r, s')" by fastforce
  show ?case using bread_effect(1,2,5) [OF assms(1,2) ret] ret by (simp add: view_def)
next
  case 2
  show ?case using bwrite_coh [OF assms] by (cases "bwrite f b buf s") auto
next
  case 3
  obtain r s' where ret: "journal_stage f b buf s = (r, s')" by fastforce
  show ?case using journal_stage_effect(1,2) [OF 3 assms(2,3) ret] ret by (simp add: in_tx_def)
qed

lemma commit_ok:
  assumes tx: "in_tx f s" and clean: "jh_clean (fs_block s f (unat (journal_start (sb_of f s))))"
    and ret: "journal_commit f s = (True, s')"
  shows "store_ok f s'" and "fss s' = fss s" and "\<not> j_active (jtx s')" and "no_faults s' f = no_faults s f"
    and "jh_clean (fs_block s' f (unat (journal_start (sb_of f s))))"
    and "usable f s b \<Longrightarrow> fs_block s' f (unat b) = view f s b" and "view f s' b = fs_block s' f (unat b)"
proof -
  obtain s1 where body: "commit_body f s = (True, s1)" and s': "s' = journal_reset s1"
    using ret by (cases "commit_body f s") (auto simp: journal_commit_def)
  note cb = commit_body_ok [OF tx body]
  have g: "geom_ok s f" using tx by (simp add: in_tx_def store_ok_def)
  have "settled (sb_of f s) (fs_block s f) (fs_block s f)" using clean by (simp add: settled_def)
  from commit_effect [OF g this tx_ok_in_tx [OF tx] ret]
  have st: "settled (sb_of f s) (install (j_entries (jtx s)) (fs_block s f)) (fs_block s' f)" by simp
  then show "jh_clean (fs_block s' f (unat (journal_start (sb_of f s))))" by (simp add: settled_def)
  show "fs_block s' f (unat b) = view f s b" if "usable f s b"
    using st that install_view [OF tx, of b] by (simp add: settled_def usable_def)
  have f1: "fss s1 = fss s" "\<forall>d. dev_frame (devs s d) (devs s1 d)" using cb(2) by (simp_all add: frm_def)
  show "store_ok f s'" using journal_reset_ok(1) [OF cb(1)] s' by simp
  show "fss s' = fss s" and "\<not> j_active (jtx s')" using f1 by (simp_all add: s' journal_reset_def)
  show "view f s' b = fs_block s' f (unat b)" using journal_reset_ok(2) [OF cb(1)] s' by simp
  have "fault (devs s' d) = fault (devs s d)" for d
    using dev_frame_fields(5) [of "devs s d" "devs s1 d"] f1(2) by (simp add: s' journal_reset_def)
  then show "no_faults s' f = no_faults s f" by (simp add: no_faults_def s' journal_reset_def f1)
qed

text \<open>
  C23. Durability and rollback. A transaction whose commit reports success has put on the disk, for
  every block outside the journal, exactly what the transaction saw; one that is aborted leaves the
  disk as it was, and later reads see the disk and the superblock as before the transaction.
\<close>

theorem journal_commit_abort:
  assumes tx: "in_tx f s" and clean: "jh_clean (fs_block s f (unat (journal_start (sb_of f s))))"
    and b: "usable f s b"
  shows "(case journal_commit f s of (ok, s') \<Rightarrow> ok \<longrightarrow> store_ok f s' \<and>
      fs_block s' f (unat b) = view f s b \<and> view f s' b = view f s b \<and> sb_of f s' = sb_of f s) \<and>
    store_ok f (journal_abort s) \<and> fs_block (journal_abort s) f = fs_block s f \<and>
    view f (journal_abort s) b = fs_block s f (unat b) \<and> sb_of f (journal_abort s) = j_saved (jtx s)"
proof (intro conjI, goal_cases)
  case 1
  obtain ok s' where ret: "journal_commit f s = (ok, s')" by fastforce
  have "store_ok f s' \<and> fs_block s' f (unat b) = view f s b \<and> view f s' b = view f s b \<and> sb_of f s' = sb_of f s" if ok
  proof -
    have ret': "journal_commit f s = (True, s')" using ret \<open>ok\<close> by simp
    show ?thesis using commit_ok [OF tx clean ret'] b by simp
  qed
  then show ?case using ret by simp
next
  case 2
  have "same_layout (j_saved (jtx s)) (sb_of f s)" "store_ok f s" using tx by (simp_all add: in_tx_def)
  then show ?case using tx journal_reset_ok(1) by (simp add: journal_abort_def in_tx_def set_sb_ok)
next
  case 3
  show ?case using tx by (simp add: journal_abort_def in_tx_def)
next
  case 4
  have "same_layout (j_saved (jtx s)) (sb_of f s)" "store_ok f s" using tx by (simp_all add: in_tx_def)
  then show ?case using tx journal_reset_ok(2) [of f "set_sb f (j_saved (jtx s)) s"]
    by (simp add: journal_abort_def in_tx_def set_sb_ok)
next
  case 5
  show ?case using tx by (simp add: journal_abort_def in_tx_def journal_reset_def set_sb_def upd_fs_def)
qed

lemma demo_in_tx: "(\<And>i. length (m i) = 4096) \<Longrightarrow> in_tx 0 (demo_kfs (demo_disk flt m) demo_es)"
  using demo_geom [of m flt demo_es 0]
  by (simp add: in_tx_def store_ok_def coh_x_def usable_def demo_kfs_def demo_es_def home_def demo_sb_def)

theorem bread_transparent_witness:
  "fst (bread 0 37 (demo_kfs (demo_disk (\<lambda>_. None) demo_zero) demo_es)) = Some (replicate 4096 7) \<and>
   store_ok 0 (snd (bread 0 37 (demo_kfs (demo_disk (\<lambda>_. None) demo_zero) demo_es)))"
proof -
  let ?s = "demo_kfs (demo_disk (\<lambda>_. None) demo_zero) demo_es"
  have tx: "in_tx 0 ?s" by (rule demo_in_tx) (simp add: demo_zero_def)
  have u: "usable 0 ?s 37" by (simp add: usable_def home_def demo_kfs_def demo_sb_def)
  have "fst (bread 0 37 ?s) = Some (replicate 4096 7)"
    by (simp add: bread_def journal_pending_def demo_kfs_def demo_es_def)
  then show ?thesis using bread_transparent [of 0 ?s 37 "replicate 4096 0"] tx u by (auto simp: in_tx_def)
qed

theorem journal_commit_abort_witness:
  "\<exists>s'. journal_commit 0 (demo_kfs (demo_disk (\<lambda>_. None) demo_zero) demo_es) = (True, s') \<and>
     fs_block s' 0 37 = replicate 4096 7"
proof -
  let ?s = "demo_kfs (demo_disk (\<lambda>_. None) demo_zero) demo_es"
  have tx: "in_tx 0 ?s" by (rule demo_in_tx) (simp add: demo_zero_def)
  have u: "usable 0 ?s 37" by (simp add: usable_def home_def demo_kfs_def demo_sb_def)
  have c: "jh_clean (fs_block ?s 0 (unat (journal_start (sb_of 0 ?s))))"
    by (simp add: demo_block demo_zero_def jh_clean_zero)
  have "view 0 ?s 37 = replicate 4096 7"
    by (simp add: view_def journal_pending_def demo_kfs_def demo_es_def)
  moreover have "fst (journal_commit 0 ?s)"
    by (simp add: journal_commit_def commit_body_def Let_def demo_kfs_def demo_disk_def demo_sb_def
        demo_es_def journal_raw_write_def journal_clear_def blockdev_write_def range_ok_def dev_write_def
        fs_lba_def bwrite_def bcache_find_def first_from.simps bcache_victim_def victim_from.simps cache_fill_def)
  ultimately show ?thesis using journal_commit_abort [OF tx c u] by (cases "journal_commit 0 ?s") auto
qed

end
