(* ===== verification/Kfs_Inode.thy ===== *)
theory Kfs_Inode
  imports Kfs_Store
begin

text \<open>
  The block allocator, the inode table, block mapping and file data of KFS (\<^verbatim>\<open>kernel/kfs.c\<close>, middle
  part). Block and inode numbers are 32-bit words; byte offsets inside a file are naturals, since
  the code keeps them below the 4 MiB limit of a file before it adds to them. Loops over a fixed
  range run over the list of its indices.
\<close>

section \<open>Block allocator\<close>

abbreviation BITS_PER_BLOCK :: nat where "BITS_PER_BLOCK \<equiv> 32768"

definition set_free_blocks :: "nat \<Rightarrow> (u32 \<Rightarrow> u32) \<Rightarrow> kfs_state \<Rightarrow> kfs_state" where
  "set_free_blocks f g s = set_sb f ((sb_of f s)\<lparr>free_blocks := g (free_blocks (sb_of f s))\<rparr>) s"

text \<open>The first clear bit of a bitmap block, bytes that are full skipped.\<close>

definition free_bit :: "byte list \<Rightarrow> nat option" where
  "free_bit buf = first_from (\<lambda>n. buf ! (n div 8) \<noteq> 0xFF \<and> (buf ! (n div 8) AND push_bit (n mod 8) 1) = 0)
     0 BITS_PER_BLOCK"

fun balloc_loop :: "nat \<Rightarrow> nat list \<Rightarrow> kfs_state \<Rightarrow> u32 \<times> kfs_state" where
  "balloc_loop f [] s = (0, s)"
| "balloc_loop f (bb # bbs) s =
     (case bread f (bitmap_start (sb_of f s) + of_nat bb) s of (None, s1) \<Rightarrow> (0, s1) | (Some buf, s1) \<Rightarrow>
      case free_bit buf of None \<Rightarrow> balloc_loop f bbs s1 | Some n \<Rightarrow>
      let blk = of_nat bb * of_nat BITS_PER_BLOCK + of_nat n in
      if blk \<ge> total_blocks (sb_of f s1) then (0, s1)
      else case journal_stage f (bitmap_start (sb_of f s1) + of_nat bb)
          (buf[n div 8 := buf ! (n div 8) OR push_bit (n mod 8) 1]) s1 of
        (False, s2) \<Rightarrow> (0, s2)
      | (True, s2) \<Rightarrow>
        let s3 = snd (sb_sync f (set_free_blocks f (\<lambda>n. n - 1) s2)) in
        (case journal_stage f blk (replicate KFS_BLOCK_SIZE 0) s3 of
          (False, s4) \<Rightarrow> (0, s4) | (True, s4) \<Rightarrow> (blk, s4)))"

definition balloc :: "nat \<Rightarrow> kfs_state \<Rightarrow> u32 \<times> kfs_state" where
  "balloc f s = balloc_loop f [0 ..< unat (bitmap_blocks (sb_of f s))] s"

definition bfree :: "nat \<Rightarrow> u32 \<Rightarrow> kfs_state \<Rightarrow> kfs_state" where
  "bfree f blk s = (if blk < data_start (sb_of f s) \<or> blk \<ge> total_blocks (sb_of f s) then s
     else let bb = blk div of_nat BITS_PER_BLOCK;
              i = unat ((blk div 8) mod of_nat KFS_BLOCK_SIZE); bit = unat (blk mod 8) in
     case bread f (bitmap_start (sb_of f s) + bb) s of (None, s1) \<Rightarrow> s1 | (Some buf, s1) \<Rightarrow>
     if (buf ! i AND push_bit bit 1) = 0 then s1
     else let s2 = snd (journal_stage f (bitmap_start (sb_of f s1) + bb)
            (buf[i := buf ! i AND NOT (push_bit bit 1)]) s1)
       in snd (sb_sync f (set_free_blocks f (\<lambda>n. n + 1) s2)))"

section \<open>Inodes\<close>

definition ino_valid :: "kfs_superblock \<Rightarrow> u32 \<Rightarrow> bool" where
  "ino_valid sb ino \<longleftrightarrow> ino \<ge> 1 \<and> ino \<le> inode_count sb"

definition inode_blk :: "kfs_superblock \<Rightarrow> u32 \<Rightarrow> u32" where
  "inode_blk sb ino = inode_start sb + (ino - 1) div KFS_INODES_PER_BLOCK"

definition inode_off :: "u32 \<Rightarrow> nat" where
  "inode_off ino = unat ((ino - 1) mod KFS_INODES_PER_BLOCK) * 64"

definition iget :: "nat \<Rightarrow> u32 \<Rightarrow> kfs_state \<Rightarrow> kfs_inode option \<times> kfs_state" where
  "iget f ino s = (if \<not> mounted (fss s f) \<or> \<not> ino_valid (sb_of f s) ino then (None, s)
     else case bread f (inode_blk (sb_of f s) ino) s of
       (None, s1) \<Rightarrow> (None, s1)
     | (Some buf, s1) \<Rightarrow> (Some (dec_inode (get_bytes (inode_off ino) 64 buf)), s1))"

definition iput :: "nat \<Rightarrow> u32 \<Rightarrow> kfs_inode \<Rightarrow> kfs_state \<Rightarrow> bool \<times> kfs_state" where
  "iput f ino ip s = (case bread f (inode_blk (sb_of f s) ino) s of
     (None, s1) \<Rightarrow> (False, s1)
   | (Some buf, s1) \<Rightarrow> journal_stage f (inode_blk (sb_of f s) ino)
       (put_bytes (inode_off ino) (enc_inode ip) buf) s1)"

definition fresh_inode :: "u16 \<Rightarrow> u16 \<Rightarrow> u32 \<Rightarrow> u32 \<Rightarrow> u32 \<Rightarrow> kfs_inode" where
  "fresh_inode ty mode uid gid mtime = zero_inode\<lparr>i_type := ty, i_mode := mode AND KFS_MODE_MASK,
     i_uid := uid, i_gid := gid, i_mtime := mtime\<rparr>"

fun ialloc_loop :: "nat \<Rightarrow> kfs_inode \<Rightarrow> nat list \<Rightarrow> kfs_state \<Rightarrow> u32 \<times> kfs_state" where
  "ialloc_loop f new [] s = (0, s)"
| "ialloc_loop f new (i # is) s = (case iget f (of_nat i) s of
     (None, s1) \<Rightarrow> (0, s1)
   | (Some ip, s1) \<Rightarrow>
     if i_type ip = KFS_TYPE_FREE then
       (case iput f (of_nat i) new s1 of (False, s2) \<Rightarrow> (0, s2) | (True, s2) \<Rightarrow> (of_nat i, s2))
     else ialloc_loop f new is s1)"

definition ialloc :: "nat \<Rightarrow> u16 \<Rightarrow> u16 \<Rightarrow> u32 \<Rightarrow> u32 \<Rightarrow> u32 \<Rightarrow> kfs_state \<Rightarrow> u32 \<times> kfs_state" where
  "ialloc f ty mode uid gid mtime s =
     ialloc_loop f (fresh_inode ty mode uid gid mtime) [1 ..< Suc (unat (inode_count (sb_of f s)))] s"

definition ifree :: "nat \<Rightarrow> u32 \<Rightarrow> kfs_state \<Rightarrow> kfs_state" where
  "ifree f ino s = snd (iput f ino zero_inode s)"

section \<open>Block mapping\<close>

definition bmap_direct :: "nat \<Rightarrow> u32 \<Rightarrow> kfs_inode \<Rightarrow> nat \<Rightarrow> bool \<Rightarrow> kfs_state \<Rightarrow> u32 \<times> kfs_inode \<times> kfs_state" where
  "bmap_direct f ino ip fbn alloc s = (let b = direct ip ! fbn in
     if b = 0 \<and> alloc then
       (case balloc f s of (b, s1) \<Rightarrow>
          if b = 0 then (0, ip, s1)
          else let ip' = ip\<lparr>direct := (direct ip)[fbn := b]\<rparr> in (b, ip', snd (iput f ino ip' s1)))
     else (b, ip, s))"

definition bmap_table :: "nat \<Rightarrow> kfs_inode \<Rightarrow> nat \<Rightarrow> bool \<Rightarrow> kfs_state \<Rightarrow> u32 \<times> kfs_inode \<times> kfs_state" where
  "bmap_table f ip fbn alloc s = (case bread f (indirect ip) s of (None, s1) \<Rightarrow> (0, ip, s1) | (Some tab, s1) \<Rightarrow>
     let b = rd32 (4 * fbn) tab in
     if b = 0 \<and> alloc then
       (case balloc f s1 of (b, s2) \<Rightarrow>
          if b = 0 then (0, ip, s2)
          else case journal_stage f (indirect ip) (wr32 (4 * fbn) b tab) s2 of
            (False, s3) \<Rightarrow> (0, ip, s3) | (True, s3) \<Rightarrow> (b, ip, s3))
     else (b, ip, s1))"

definition bmap :: "nat \<Rightarrow> u32 \<Rightarrow> kfs_inode \<Rightarrow> nat \<Rightarrow> bool \<Rightarrow> kfs_state \<Rightarrow> u32 \<times> kfs_inode \<times> kfs_state" where
  "bmap f ino ip fbn alloc s = (if fbn < KFS_NDIRECT then bmap_direct f ino ip fbn alloc s
     else let n = fbn - KFS_NDIRECT in
     if n \<ge> KFS_NINDIRECT then (0, ip, s)
     else if indirect ip = 0 then
       if \<not> alloc then (0, ip, s)
       else (case balloc f s of (nb, s1) \<Rightarrow>
         if nb = 0 then (0, ip, s1)
         else let ip' = ip\<lparr>indirect := nb\<rparr> in bmap_table f ip' n alloc (snd (iput f ino ip' s1)))
     else bmap_table f ip n alloc s)"

section \<open>File data\<close>

definition chunk_at :: "nat \<Rightarrow> nat \<Rightarrow> nat" where
  "chunk_at pos left = min (KFS_BLOCK_SIZE - pos mod KFS_BLOCK_SIZE) left"

lemma chunk_at_pos: "0 < left \<Longrightarrow> 0 < chunk_at pos left"
  by (simp add: chunk_at_def)

lemma chunk_at_le: "chunk_at pos left \<le> left"
  by (simp add: chunk_at_def)

text \<open>The copy loop of \<^verbatim>\<open>readi\<close>: \<open>left\<close> bytes are still wanted at \<open>pos\<close>, \<open>acc\<close> has been copied out.\<close>

function readi_loop :: "nat \<Rightarrow> u32 \<Rightarrow> kfs_inode \<Rightarrow> nat \<Rightarrow> nat \<Rightarrow> byte list \<Rightarrow> kfs_state \<Rightarrow>
    int \<times> byte list \<times> kfs_state" where
  "readi_loop f ino ip pos left acc s = (if left = 0 then (int (length acc), acc, s)
     else let stop = (\<lambda>s. (if acc = [] then - 1 else int (length acc), acc, s)); k = chunk_at pos left in
     case bmap f ino ip (pos div KFS_BLOCK_SIZE) False s of (b, _, s1) \<Rightarrow>
     if b = 0 then stop s1
     else case bread f b s1 of (None, s2) \<Rightarrow> stop s2
       | (Some buf, s2) \<Rightarrow> readi_loop f ino ip (pos + k) (left - k)
           (acc @ get_bytes (pos mod KFS_BLOCK_SIZE) k buf) s2)"
  by pat_completeness auto
termination
  by (relation "measure (\<lambda>(f, ino, ip, pos, left, acc, s). left)") (simp_all add: chunk_at_def)

declare readi_loop.simps [simp del]

definition readi :: "nat \<Rightarrow> u32 \<Rightarrow> u32 \<Rightarrow> u32 \<Rightarrow> kfs_state \<Rightarrow> int \<times> byte list \<times> kfs_state" where
  "readi f ino off n s = (case iget f ino s of (None, s1) \<Rightarrow> (- 1, [], s1) | (Some ip, s1) \<Rightarrow>
     if i_type ip = KFS_TYPE_FREE then (- 1, [], s1)
     else if off \<ge> i_size ip then (0, [], s1)
     else let n = (if n > i_size ip - off then i_size ip - off else n)
       in readi_loop f ino ip (unat off) (unat n) [] s1)"

text \<open>The copy loop of \<^verbatim>\<open>writei\<close>: \<open>src\<close> is still to be written at \<open>pos\<close>; returns what is left over.\<close>

definition writei_block :: "nat \<Rightarrow> u32 \<Rightarrow> nat \<Rightarrow> byte list \<Rightarrow> kfs_state \<Rightarrow> bool \<times> kfs_state" where
  "writei_block f b boff xs s =
     (if length xs < KFS_BLOCK_SIZE
      then case bread f b s of (None, s1) \<Rightarrow> (False, s1)
        | (Some buf, s1) \<Rightarrow> journal_stage f b (put_bytes boff xs buf) s1
      else journal_stage f b xs s)"

function writei_loop :: "nat \<Rightarrow> u32 \<Rightarrow> kfs_inode \<Rightarrow> nat \<Rightarrow> byte list \<Rightarrow> kfs_state \<Rightarrow>
    byte list \<times> kfs_inode \<times> kfs_state" where
  "writei_loop f ino ip pos src s = (if src = [] then ([], ip, s)
     else let k = chunk_at pos (length src) in
     case bmap f ino ip (pos div KFS_BLOCK_SIZE) True s of (b, ip1, s1) \<Rightarrow>
     if b = 0 then (src, ip1, s1)
     else case writei_block f b (pos mod KFS_BLOCK_SIZE) (take k src) s1 of
       (False, s2) \<Rightarrow> (src, ip1, s2)
     | (True, s2) \<Rightarrow>
       if pos + k > unat (i_size ip1) then
         let ip2 = ip1\<lparr>i_size := of_nat (pos + k)\<rparr>
         in writei_loop f ino ip2 (pos + k) (drop k src) (snd (iput f ino ip2 s2))
       else writei_loop f ino ip1 (pos + k) (drop k src) s2)"
  by pat_completeness auto
termination
  by (relation "measure (\<lambda>(f, ino, ip, pos, src, s). length src)") (simp_all add: chunk_at_def)

declare writei_loop.simps [simp del]

definition writei :: "nat \<Rightarrow> u32 \<Rightarrow> u32 \<Rightarrow> byte list \<Rightarrow> u32 \<Rightarrow> kfs_state \<Rightarrow> int \<times> kfs_state" where
  "writei f ino off src mtime s = (case iget f ino s of (None, s1) \<Rightarrow> (- 1, s1) | (Some ip, s1) \<Rightarrow>
     if i_type ip = KFS_TYPE_FREE then (- 1, s1)
     else if src = [] then (0, s1)
     else if off > KFS_MAX_FILE_SIZE \<or> of_nat (length src) > KFS_MAX_FILE_SIZE - off then (- 1, s1)
     else case writei_loop f ino ip (unat off) src s1 of (rest, ip1, s2) \<Rightarrow>
       if length rest < length src
       then (int (length src - length rest), snd (iput f ino (ip1\<lparr>i_mtime := mtime\<rparr>) s2))
       else (- 1, s2))"

section \<open>Locked entry points\<close>

definition kfs_iget :: "nat \<Rightarrow> u32 \<Rightarrow> kfs_state \<Rightarrow> kfs_inode option \<times> kfs_state" where
  "kfs_iget f ino s = iget f ino s"

definition kfs_read :: "nat \<Rightarrow> u32 \<Rightarrow> u32 \<Rightarrow> u32 \<Rightarrow> kfs_state \<Rightarrow> int \<times> byte list \<times> kfs_state" where
  "kfs_read f ino off n s = (if \<not> mounted (fss s f) then (- 1, [], s) else readi f ino off n s)"

text \<open>
  The shape of every mutating entry point: begin a transaction, run the body, commit if the body
  reports success and abort otherwise.
\<close>

definition in_journal :: "nat \<Rightarrow> (kfs_state \<Rightarrow> int \<times> kfs_state) \<Rightarrow> kfs_state \<Rightarrow> int \<times> kfs_state" where
  "in_journal f body s = (case journal_begin f s of
     (False, s1) \<Rightarrow> (- 1, journal_abort s1)
   | (True, s1) \<Rightarrow> (case body s1 of (r, s2) \<Rightarrow>
       if r \<ge> 0 then (case journal_commit f s2 of (ok, s3) \<Rightarrow> (if ok then r else - 1, s3))
       else (r, journal_abort s2)))"

definition kfs_write :: "nat \<Rightarrow> u32 \<Rightarrow> u32 \<Rightarrow> byte list \<Rightarrow> u32 \<Rightarrow> kfs_state \<Rightarrow> int \<times> kfs_state" where
  "kfs_write f ino off src mtime s = (if \<not> mounted (fss s f) then (- 1, s)
     else in_journal f (\<lambda>s1. case iget f ino s1 of (None, s2) \<Rightarrow> (- 1, s2)
       | (Some ip, s2) \<Rightarrow> if i_type ip = KFS_TYPE_FILE then writei f ino off src mtime s2 else (- 1, s2)) s)"

section \<open>Truncation\<close>

fun bfree_all :: "nat \<Rightarrow> u32 list \<Rightarrow> kfs_state \<Rightarrow> kfs_state" where
  "bfree_all f [] s = s"
| "bfree_all f (b # bs) s = bfree_all f bs (if b = 0 then s else bfree f b s)"

definition truncate_locked :: "nat \<Rightarrow> u32 \<Rightarrow> u32 \<Rightarrow> kfs_state \<Rightarrow> int \<times> kfs_state" where
  "truncate_locked f ino mtime s = (if \<not> mounted (fss s f) then (- 1, s) else
     case iget f ino s of (None, s1) \<Rightarrow> (- 1, s1) | (Some ip, s1) \<Rightarrow>
     let s2 = bfree_all f (direct ip) s1;
         s4 = (if indirect ip = 0 then s2 else
           let s3 = (case bread f (indirect ip) s2 of (None, s3) \<Rightarrow> s3
             | (Some tab, s3) \<Rightarrow> bfree_all f (map (\<lambda>i. rd32 (4 * i) tab) [0 ..< KFS_NINDIRECT]) s3)
           in bfree f (indirect ip) s3);
         ip' = ip\<lparr>direct := replicate KFS_NDIRECT 0, indirect := 0, i_size := 0, i_mtime := mtime\<rparr>
     in (case iput f ino ip' s4 of (ok, s5) \<Rightarrow> (if ok then 0 else - 1, s5)))"

definition kfs_truncate :: "nat \<Rightarrow> u32 \<Rightarrow> u32 \<Rightarrow> kfs_state \<Rightarrow> int \<times> kfs_state" where
  "kfs_truncate f ino mtime s = (if \<not> mounted (fss s f) then (- 1, journal_abort s)
     else in_journal f (truncate_locked f ino mtime) s)"

definition kfs_chmod :: "nat \<Rightarrow> u32 \<Rightarrow> u16 \<Rightarrow> u32 \<Rightarrow> kfs_state \<Rightarrow> int \<times> kfs_state" where
  "kfs_chmod f ino mode mtime s = (if \<not> mounted (fss s f) then (- 1, journal_abort s)
     else in_journal f (\<lambda>s1. case iget f ino s1 of (None, s2) \<Rightarrow> (- 1, s2) | (Some ip, s2) \<Rightarrow>
       if i_type ip = KFS_TYPE_FREE then (- 1, s2)
       else case iput f ino (ip\<lparr>i_mode := mode AND KFS_MODE_MASK, i_mtime := mtime\<rparr>) s2 of
         (ok, s3) \<Rightarrow> (if ok then 0 else - 1, s3)) s)"

definition kfs_chown :: "nat \<Rightarrow> u32 \<Rightarrow> u32 \<Rightarrow> u32 \<Rightarrow> u32 \<Rightarrow> kfs_state \<Rightarrow> int \<times> kfs_state" where
  "kfs_chown f ino uid gid mtime s = (if \<not> mounted (fss s f) then (- 1, journal_abort s)
     else in_journal f (\<lambda>s1. case iget f ino s1 of (None, s2) \<Rightarrow> (- 1, s2) | (Some ip, s2) \<Rightarrow>
       if i_type ip = KFS_TYPE_FREE then (- 1, s2)
       else case iput f ino (ip\<lparr>i_uid := uid, i_gid := gid, i_mtime := mtime\<rparr>) s2 of
         (ok, s3) \<Rightarrow> (if ok then 0 else - 1, s3)) s)"

section \<open>Layout\<close>

definition layout_ok :: "kfs_superblock \<Rightarrow> bool" where
  "layout_ok sb \<longleftrightarrow> bitmap_start sb = 1 \<and> 0 < unat (bitmap_blocks sb) \<and>
     unat (journal_start sb) = 1 + unat (bitmap_blocks sb) \<and>
     unat (inode_start sb) = unat (journal_start sb) + 33 \<and>
     unat (data_start sb) = unat (inode_start sb) + unat (inode_blocks sb) \<and>
     unat (data_start sb) < unat (total_blocks sb) \<and>
     unat (inode_count sb) \<le> unat (inode_blocks sb) * 64 \<and>
     unat (total_blocks sb) \<le> unat (bitmap_blocks sb) * BITS_PER_BLOCK \<and>
     unat (bitmap_blocks sb) * BITS_PER_BLOCK \<le> 2 ^ 32"

lemma layout_okD:
  assumes "layout_ok sb"
  shows "bitmap_start sb = 1" and "unat (journal_start sb) = 1 + unat (bitmap_blocks sb)"
    and "unat (inode_start sb) = unat (journal_start sb) + 33"
    and "unat (data_start sb) = unat (inode_start sb) + unat (inode_blocks sb)"
    and "unat (data_start sb) < unat (total_blocks sb)"
    and "unat (inode_count sb) \<le> unat (inode_blocks sb) * 64"
    and "unat (total_blocks sb) \<le> unat (bitmap_blocks sb) * BITS_PER_BLOCK"
    and "unat (bitmap_blocks sb) * BITS_PER_BLOCK \<le> 2 ^ 32"
  using assms by (simp_all add: layout_ok_def)

lemma same_layout_inode_blocks: "same_layout a b \<Longrightarrow> inode_blocks a = inode_blocks b"
  by (cases a; cases b) (simp add: same_layout_def)

lemma layout_ok_same: "same_layout a b \<Longrightarrow> layout_ok a = layout_ok b"
  using same_layout_inode_blocks [of a b] by (simp add: layout_ok_def same_layout_fields)

lemma same_layout_trans: "same_layout a b \<Longrightarrow> same_layout b c \<Longrightarrow> same_layout a c"
  by (simp add: same_layout_def)

lemma same_layout_sym: "same_layout a b \<Longrightarrow> same_layout b a"
  by (simp add: same_layout_def)

text \<open>Block numbers computed with 32-bit arithmetic.\<close>

definition bitmap_blk :: "nat \<Rightarrow> kfs_state \<Rightarrow> nat \<Rightarrow> u32" where
  "bitmap_blk f s bb = bitmap_start (sb_of f s) + of_nat bb"

lemma bitmap_blk_unat:
  assumes "layout_ok (sb_of f s)" and "bb < unat (bitmap_blocks (sb_of f s))"
  shows "unat (bitmap_blk f s bb) = 1 + bb" and "usable f s (bitmap_blk f s bb)"
proof -
  note l = layout_okD [OF assms(1)]
  show u: "unat (bitmap_blk f s bb) = 1 + bb"
    unfolding bitmap_blk_def l(1)
    by (subst unat_add_small) (use assms(2) l u32_less [of "journal_start (sb_of f s)"] in simp_all)
  show "usable f s (bitmap_blk f s bb)" unfolding usable_def home_def u using assms(2) l by simp
qed

lemma usable_0: "layout_ok (sb_of f s) \<Longrightarrow> usable f s 0"
  using layout_okD [of "sb_of f s"] by (simp add: usable_def home_def)

lemma usable_data:
  "layout_ok (sb_of f s) \<Longrightarrow> unat (data_start (sb_of f s)) \<le> unat b \<Longrightarrow> unat b < unat (total_blocks (sb_of f s)) \<Longrightarrow> usable f s b"
  using layout_okD [of "sb_of f s"] by (simp add: usable_def home_def)

section \<open>What operations inside a transaction keep\<close>

definition tx_frame :: "nat \<Rightarrow> kfs_state \<Rightarrow> kfs_state \<Rightarrow> bool" where
  "tx_frame f s s' \<longleftrightarrow> in_tx f s' \<and> same_layout (sb_of f s') (sb_of f s) \<and>
     mounted (fss s' f) = mounted (fss s f) \<and> fs_block s' f = fs_block s f \<and>
     j_saved (jtx s') = j_saved (jtx s) \<and> (j_failed (jtx s) \<longrightarrow> j_failed (jtx s')) \<and>
     no_faults s' f = no_faults s f"

lemma tx_frame_refl: "in_tx f s \<Longrightarrow> tx_frame f s s" by (simp add: tx_frame_def)

lemma tx_frame_trans: "tx_frame f a b \<Longrightarrow> tx_frame f b c \<Longrightarrow> tx_frame f a c"
  unfolding tx_frame_def by (auto intro: same_layout_trans)

lemma tx_frameD:
  assumes "tx_frame f s s'"
  shows "in_tx f s'" and "same_layout (sb_of f s') (sb_of f s)" and "mounted (fss s' f) = mounted (fss s f)"
    and "layout_ok (sb_of f s') = layout_ok (sb_of f s)" and "usable f s' = usable f s"
    and "j_failed (jtx s) \<Longrightarrow> j_failed (jtx s')" and "no_faults s' f = no_faults s f"
proof -
  show "no_faults s' f = no_faults s f" using assms by (simp add: tx_frame_def)
  show l: "same_layout (sb_of f s') (sb_of f s)" "in_tx f s'" "mounted (fss s' f) = mounted (fss s f)"
    using assms by (simp_all add: tx_frame_def)
  show "layout_ok (sb_of f s') = layout_ok (sb_of f s)" by (rule layout_ok_same [OF l(1)])
  show "usable f s' = usable f s" by (rule ext) (simp add: usable_def home_layout [OF l(1)])
  show "j_failed (jtx s')" if "j_failed (jtx s)" using assms that by (simp add: tx_frame_def)
qed

lemma tx_bread:
  assumes tx: "in_tx f s" and b: "usable f s b" and ret: "bread f b s = (r, s')"
  shows "tx_frame f s s'" and "view f s' = view f s" and "r = None \<or> r = Some (view f s b)"
    and "sb_of f s' = sb_of f s" and "r = None \<Longrightarrow> \<not> no_faults s f" and "no_faults s' f = no_faults s f"
proof -
  have ok: "store_ok f s" using tx by (simp add: in_tx_def)
  note e = bread_effect [OF ok b ret]
  show "\<not> no_faults s f" if "r = None" using e(6) that by (simp add: no_faults_def)
  have "dev_frame (devs s (f_dev s f)) (devs s' (f_dev s f))" using e(3) by (simp add: frm_def)
  then have "fault (devs s' (f_dev s f)) = fault (devs s (f_dev s f))" by (rule dev_frame_fields(5))
  then show nf: "no_faults s' f = no_faults s f" using e(3) by (simp add: no_faults_def frm_def)
  show "view f s' = view f s" "r = None \<or> r = Some (view f s b)" using e by simp_all
  show sb: "sb_of f s' = sb_of f s" by (rule frm_sb [OF e(3)])
  show "tx_frame f s s'" using in_tx_frm [OF tx e(1,3)] e(3,4) nf by (simp add: tx_frame_def frm_def)
qed

lemma tx_stage:
  assumes tx: "in_tx f s" and b: "usable f s b" and len: "length buf = KFS_BLOCK_SIZE"
    and ret: "journal_stage f b buf s = (r, s')"
  shows "tx_frame f s s'" and "view f s' = (if r then (view f s)(b := buf) else view f s)"
    and "\<not> r \<Longrightarrow> j_failed (jtx s')" and "sb_of f s' = sb_of f s"
proof -
  note e = journal_stage_effect [OF tx b len ret]
  show "view f s' = (if r then (view f s)(b := buf) else view f s)" by (rule e(2))
  show "j_failed (jtx s')" if "\<not> r" using e(4) that by simp
  have fs: "fss s' = fss s" "devs s' = devs s" "j_saved (jtx s') = j_saved (jtx s)" by (subst e(3), simp)+
  then show "sb_of f s' = sb_of f s" by simp
  have "fs_block s' f = fs_block s f" by (rule ext) (simp add: fs_block_def fs)
  then show "tx_frame f s s'" using e(1,4) fs by (simp add: tx_frame_def no_faults_def)
qed

lemma tx_set_sb:
  assumes tx: "in_tx f s" and l: "same_layout sb (sb_of f s)"
  shows "tx_frame f s (set_sb f sb s)" and "view f (set_sb f sb s) = view f s" and "sb_of f (set_sb f sb s) = sb"
proof -
  let ?s = "set_sb f sb s"
  have fs: "fss ?s f = (fss s f)\<lparr>f_sb := sb\<rparr>" "jtx ?s = jtx s" "devs ?s = devs s"
    by (simp_all add: set_sb_def upd_fs_def)
  have blk: "fs_block ?s f = fs_block s f" by simp
  show "sb_of f ?s = sb" by (simp add: fs)
  show "view f ?s = view f s" unfolding fun_eq_iff view_def blk journal_pending_def fs(2) by simp
  show "tx_frame f s ?s"
    using tx l blk set_sb_ok [OF l] same_layout_trans [OF _ same_layout_sym [OF l]]
    by (simp add: tx_frame_def in_tx_def fs no_faults_def)
qed

lemma tx_sb_sync:
  assumes tx: "in_tx f s" and l: "layout_ok (sb_of f s)" and ret: "sb_sync f s = (r, s')"
  shows "tx_frame f s s'" and "\<And>b. b \<noteq> 0 \<Longrightarrow> view f s' b = view f s b" and "\<not> r \<Longrightarrow> j_failed (jtx s')"
    and "sb_of f s' = sb_of f s"
    and "r \<Longrightarrow> dec_sb (view f s' 0) = sb_of f s"
proof -
  let ?b = "put_bytes 0 (enc_sb (sb_of f s)) (sb_block s)"
  let ?s = "s\<lparr>sb_block := ?b\<rparr>"
  have len: "length ?b = KFS_BLOCK_SIZE" using tx by (simp add: in_tx_def store_ok_def)
  have fs: "fs_block ?s f = fs_block s f" by (rule ext) (simp add: fs_block_def)
  have "geom_ok ?s f = geom_ok s f" "coh ?s f = coh s f"
    unfolding coh_x_def fs by (simp_all add: geom_ok_def)
  then have tx1: "in_tx f ?s" using tx len by (simp add: in_tx_def store_ok_def usable_def)
  have v1: "view f ?s = view f s" unfolding fun_eq_iff view_def fs journal_pending_def by simp
  have st: "journal_stage f 0 ?b ?s = (r, s')" using ret by (simp add: sb_sync_def Let_def)
  have u: "usable f ?s 0" by (rule usable_0) (simp add: l)
  note e = tx_stage [OF tx1 u len st]
  show "tx_frame f s s'" using e(1) fs by (simp add: tx_frame_def no_faults_def)
  show "view f s' b = view f s b" if "b \<noteq> 0" for b using e(2) v1 that by simp
  show "j_failed (jtx s')" if "\<not> r" using e(3) that by simp
  show "sb_of f s' = sb_of f s" using e(4) by simp
  show "dec_sb (view f s' 0) = sb_of f s" if r using e(2) that by (simp add: put_bytes_def)
qed

end
