(* ===== verification/Kfs_Mount.thy ===== *)
theory Kfs_Mount
  imports Kfs_Crash Kfs_Inode
begin

text \<open>
  Mounting and unmounting a KFS volume (\<^verbatim>\<open>kernel/kfs.c\<close>): the instance table, the superblock checks and
  the probe for the volume on its device.  An instance is named by its slot and a device by its
  address.  Claiming a slot and probing the device are separate locked sections, as in the code, so
  what other tasks do between them is an argument of the whole call.  A failed device read leaves the
  superblock buffer as it was.
\<close>

section \<open>The superblock checks\<close>

abbreviation (input) KFS_MAX_MOUNTS :: nat where "KFS_MAX_MOUNTS \<equiv> 4"

definition sb_plausible :: "kfs_fs \<Rightarrow> blockdev \<Rightarrow> bool" where
  "sb_plausible fs bd = (let sb = f_sb fs in
     if magic sb = KFS_MAGIC_V1 \<or> magic sb = KFS_MAGIC_V2 then False
     else if magic sb \<noteq> KFS_MAGIC then False
     else let bitmap_end = ucast (bitmap_start sb) + ucast (bitmap_blocks sb) :: u64;
              journal_end = ucast (journal_start sb) + ucast (journal_blocks sb) :: u64;
              inode_end = ucast (inode_start sb) + ucast (inode_blocks sb) :: u64 in
     if total_blocks sb = 0 \<or> root_ino sb \<noteq> KFS_ROOT_INO \<or> bitmap_start sb \<noteq> 1 \<or> bitmap_blocks sb = 0 \<or>
        bitmap_end \<noteq> ucast (journal_start sb) \<or> journal_blocks sb \<noteq> KFS_JOURNAL_BLOCKS \<or>
        journal_end \<noteq> ucast (inode_start sb) \<or> inode_blocks sb = 0 \<or> inode_end \<noteq> ucast (data_start sb) \<or>
        data_start sb \<ge> total_blocks sb \<or> free_blocks sb > total_blocks sb - data_start sb \<or>
        features sb \<noteq> KFS_FEATURE_JOURNAL \<or> inode_count sb = 0 \<or>
        (ucast (inode_count sb) :: u64) > ucast (inode_blocks sb) * 64
     then False
     else let need = ucast (total_blocks sb) * ucast (spb fs) :: u64
       in \<not> (start_lba fs > blocks bd \<or> need > blocks bd - start_lba fs))"

definition try_offset :: "nat \<Rightarrow> u64 \<Rightarrow> kfs_state \<Rightarrow> bool \<times> kfs_state" where
  "try_offset f lba s = (let s = upd_fs f (\<lambda>fs. fs\<lparr>start_lba := lba\<rparr>) s; d = f_dev s f in
     case blockdev_read (devs s d) lba (spb (fss s f)) of
       (None, bd) \<Rightarrow> (False, s\<lparr>devs := (devs s)(d := bd)\<rparr>)
     | (Some buf, bd) \<Rightarrow> let s = set_sb f (dec_sb buf) (s\<lparr>devs := (devs s)(d := bd), sb_block := buf\<rparr>)
         in (sb_plausible (fss s f) (devs s d), s))"

section \<open>Mounting\<close>

definition zero_sb :: kfs_superblock where
  "zero_sb = \<lparr>magic = 0, total_blocks = 0, bitmap_start = 0, bitmap_blocks = 0, journal_start = 0, journal_blocks = 0,
     inode_start = 0, inode_blocks = 0, inode_count = 0, data_start = 0, root_ino = 0, free_blocks = 0, features = 0\<rparr>"

definition zero_fs :: kfs_fs where
  "zero_fs = \<lparr>f_bd = None, start_lba = 0, spb = 0, f_sb = zero_sb, f_used = False, mounted = False, handles = 0\<rparr>"

text \<open>The first locked section: refuse a device that is mounted, otherwise reserve a slot.\<close>

definition kfs_claim :: "nat \<Rightarrow> kfs_state \<Rightarrow> nat option \<times> kfs_state" where
  "kfs_claim d s = (
     if \<exists>i < KFS_MAX_MOUNTS. f_used (fss s i) \<and> mounted (fss s i) \<and> f_bd (fss s i) = Some d then (None, s)
     else case first_from (\<lambda>i. \<not> f_used (fss s i)) 0 KFS_MAX_MOUNTS of None \<Rightarrow> (None, s)
       | Some i \<Rightarrow> (Some i, upd_fs i (\<lambda>_. zero_fs\<lparr>f_used := True\<rparr>) s))"

text \<open>The second one: find the superblock, replay the journal, read the superblock again after a replay.\<close>

definition kfs_find_sb :: "nat \<Rightarrow> u64 \<Rightarrow> kfs_state \<Rightarrow> bool \<times> kfs_state" where
  "kfs_find_sb f part_lba s = (
     let (ok, s) = try_offset f 0 s;
         (ok, s) = (if \<not> ok \<and> part_lba \<noteq> 0 then try_offset f part_lba s else (ok, s))
     in if \<not> ok then try_offset f part_lba s else (ok, s))"

definition kfs_replay :: "nat \<Rightarrow> kfs_state \<Rightarrow> bool \<times> kfs_state" where
  "kfs_replay f s = (case journal_recover f s of (recovered, s) \<Rightarrow>
     if recovered < 0 then (False, s)
     else if recovered > 0 then try_offset f (start_lba (fss s f)) s
     else (True, s))"

definition kfs_probe :: "nat \<Rightarrow> nat \<Rightarrow> kfs_state \<Rightarrow> bool \<times> kfs_state" where
  "kfs_probe d f s = (
     let bs = block_size (devs s d);
         s = upd_fs f (\<lambda>fs. fs\<lparr>f_bd := Some d, spb := of_nat KFS_BLOCK_SIZE div bs\<rparr>) s;
         part_lba = KFS_PART_LBA * KFS_SECTOR_SIZE div ucast bs;
         (ok, s) = kfs_find_sb f part_lba s;
         (ok, s) = (if ok then kfs_replay f s else (ok, s))
     in if ok then (True, upd_fs f (\<lambda>fs. fs\<lparr>mounted := True\<rparr>) s)
        else (False, upd_fs f (\<lambda>fs. fs\<lparr>f_used := False\<rparr>) s))"

text \<open>The instance is stored through a pointer; the boolean says whether there is one.\<close>

definition kfs_type_mount :: "(kfs_state \<Rightarrow> kfs_state) \<Rightarrow> nat option \<Rightarrow> bool \<Rightarrow> kfs_state \<Rightarrow> nat option \<times> kfs_state" where
  "kfs_type_mount others bd fs_priv s = (case bd of None \<Rightarrow> (None, s) | Some d \<Rightarrow>
     if \<not> fs_priv then (None, s)
     else if block_size (devs s d) = 0 \<or> of_nat KFS_BLOCK_SIZE mod block_size (devs s d) \<noteq> 0 then (None, s)
     else case kfs_claim d s of (None, s) \<Rightarrow> (None, s)
       | (Some f, s) \<Rightarrow> (case kfs_probe d f (others s) of (ok, s) \<Rightarrow> (if ok then Some f else None, s)))"

definition instance_release :: "nat \<Rightarrow> kfs_state \<Rightarrow> kfs_state" where
  "instance_release f s = (if \<not> mounted (fss s f) \<and> handles (fss s f) = 0 then upd_fs f (\<lambda>fs. fs\<lparr>f_used := False\<rparr>) s else s)"

definition kfs_type_unmount :: "nat option \<Rightarrow> kfs_state \<Rightarrow> kfs_state" where
  "kfs_type_unmount fs_priv s = (case fs_priv of None \<Rightarrow> s | Some f \<Rightarrow>
     instance_release f (bcache_invalidate (Some f) (upd_fs f (\<lambda>fs. fs\<lparr>mounted := False\<rparr>) s)))"

section \<open>What the superblock checks guarantee\<close>

definition volume_ok :: "kfs_superblock \<Rightarrow> bool" where
  "volume_ok sb \<longleftrightarrow> magic sb = KFS_MAGIC \<and> root_ino sb = KFS_ROOT_INO \<and> bitmap_start sb = 1 \<and> 0 < unat (bitmap_blocks sb) \<and>
     journal_blocks sb = KFS_JOURNAL_BLOCKS \<and> unat (journal_start sb) = 1 + unat (bitmap_blocks sb) \<and>
     unat (inode_start sb) = unat (journal_start sb) + 33 \<and>
     unat (data_start sb) = unat (inode_start sb) + unat (inode_blocks sb) \<and> unat (data_start sb) < unat (total_blocks sb) \<and>
     0 < unat (inode_count sb) \<and> unat (inode_count sb) \<le> unat (inode_blocks sb) * 64 \<and>
     unat (free_blocks sb) \<le> unat (total_blocks sb) - unat (data_start sb)"

lemma unat_up: "unat (ucast (x :: u32) :: u64) = unat x"
  by (simp add: unsigned_ucast_eq take_bit_nat_eq_self_iff order_less_trans [OF unsigned_less])

lemma up_add: "(ucast a + ucast b :: u64) = ucast c \<longleftrightarrow> unat a + unat b = unat c" for a b c :: u32
proof -
  have "unat (ucast a + ucast b :: u64) = unat a + unat b"
    using u32_less [of a] u32_less [of b] by (simp add: unat_word_ariths unat_up mod_less)
  then show ?thesis by (simp add: word_unat_eq_iff unat_up)
qed

lemma up_mult: "unat (ucast a * ucast b :: u64) = unat a * unat b" for a b :: u32
proof -
  have "unat a * unat b < 2 ^ 32 * 2 ^ 32" using u32_less [of a] u32_less [of b] by (intro mult_strict_mono) auto
  then show ?thesis by (simp add: unat_word_ariths unat_up mod_less)
qed

lemma if_refuse: "(if P then False else Q) \<longleftrightarrow> \<not> P \<and> Q"
  by simp

lemma sb_plausible_volume:
  assumes "sb_plausible fs bd"
  shows "volume_ok (f_sb fs)" and "unat (start_lba fs) + unat (total_blocks (f_sb fs)) * unat (spb fs) \<le> unat (blocks bd)"
proof -
  let ?sb = "f_sb fs"
  have p: "magic ?sb = KFS_MAGIC" "root_ino ?sb = KFS_ROOT_INO" "bitmap_start ?sb = 1" "bitmap_blocks ?sb \<noteq> 0"
    "(ucast (bitmap_start ?sb) + ucast (bitmap_blocks ?sb) :: u64) = ucast (journal_start ?sb)" "journal_blocks ?sb = KFS_JOURNAL_BLOCKS"
    "(ucast (journal_start ?sb) + ucast (journal_blocks ?sb) :: u64) = ucast (inode_start ?sb)"
    "(ucast (inode_start ?sb) + ucast (inode_blocks ?sb) :: u64) = ucast (data_start ?sb)"
    "data_start ?sb < total_blocks ?sb" "free_blocks ?sb \<le> total_blocks ?sb - data_start ?sb" "inode_count ?sb \<noteq> 0"
    "(ucast (inode_count ?sb) :: u64) \<le> ucast (inode_blocks ?sb) * 64"
    "start_lba fs \<le> blocks bd" "ucast (total_blocks ?sb) * ucast (spb fs) \<le> blocks bd - start_lba fs"
    using assms unfolding sb_plausible_def Let_def if_refuse de_Morgan_disj not_le not_less not_not by blast+
  have "(ucast (inode_blocks ?sb) * 64 :: u64) = ucast (inode_blocks ?sb) * ucast (64 :: u32)" by simp
  then have 1: "unat (inode_count ?sb) \<le> unat (inode_blocks ?sb) * 64"
    using p(12) up_mult [of "inode_blocks ?sb" 64] by (simp add: word_le_nat_alt unat_up)
  have 2: "unat (free_blocks ?sb) \<le> unat (total_blocks ?sb) - unat (data_start ?sb)"
    using p(10) unat_sub [OF less_imp_le [OF p(9)]] by (simp add: word_le_nat_alt)
  have nz: "0 < unat (bitmap_blocks ?sb)" "0 < unat (inode_count ?sb)" using p(4, 11) by (simp_all add: unat_gt_0)
  have sums: "unat (journal_start ?sb) = 1 + unat (bitmap_blocks ?sb)" "unat (inode_start ?sb) = unat (journal_start ?sb) + 33"
    "unat (data_start ?sb) = unat (inode_start ?sb) + unat (inode_blocks ?sb)"
    using p(5, 7, 8) unfolding up_add p(3) p(6) by simp_all
  show "volume_ok ?sb" unfolding volume_ok_def using p(1, 2, 3, 6, 9) 1 2 nz sums by (simp add: word_less_nat_alt)
  have "unat (total_blocks ?sb) * unat (spb fs) \<le> unat (blocks bd) - unat (start_lba fs)"
    using p(14) up_mult unat_sub [OF p(13)] by (simp add: word_le_nat_alt)
  then show "unat (start_lba fs) + unat (total_blocks ?sb) * unat (spb fs) \<le> unat (blocks bd)"
    using p(13) by (simp add: word_le_nat_alt)
qed

section \<open>The probe\<close>

text \<open>A writable device whose blocks divide a file system block and hold a journal header each.\<close>

definition dev_ok :: "blockdev \<Rightarrow> bool" where
  "dev_ok bd \<longleftrightarrow> has_write bd \<and> 256 \<le> unat (block_size bd) \<and> (\<forall>i. length (medium bd i) = unat (block_size bd))"

lemma dev_ok_frame: "dev_frame a b \<Longrightarrow> dev_ok a \<Longrightarrow> dev_ok b"
  using dev_frame_fields [of a b] by (simp add: dev_ok_def dev_frame_def)

definition probing :: "nat \<Rightarrow> nat \<Rightarrow> kfs_state \<Rightarrow> bool" where
  "probing d f s \<longleftrightarrow> f_bd (fss s f) = Some d \<and> dev_ok (devs s d) \<and> unat (block_size (devs s d)) * unat (spb (fss s f)) = KFS_BLOCK_SIZE"

text \<open>The instance shows a volume, and its superblock in memory is the one on the disk.\<close>

definition attached :: "nat \<Rightarrow> nat \<Rightarrow> kfs_state \<Rightarrow> bool" where
  "attached d f s \<longleftrightarrow> probing d f s \<and> geom_ok s f \<and> volume_ok (sb_of f s) \<and> sb_of f s = dec_sb (fs_block s f 0) \<and> sb_block s = fs_block s f 0"

lemma try_offset_ok:
  assumes p: "probing d f s" and t: "try_offset f lba s = (ok, s')"
  shows "probing d f s'" and "ok \<Longrightarrow> attached d f s'"
proof -
  let ?bd = "devs s d" and ?sp = "unat (spb (fss s f))"
  have d: "f_bd (fss s f) = Some d" and dev: "dev_ok ?bd" and sp: "unat (block_size ?bd) * ?sp = KFS_BLOCK_SIZE"
    using p by (simp_all add: probing_def)
  have "spb (fss s f) \<noteq> 0" using sp by auto
  then obtain r bd where r: "blockdev_read ?bd lba (spb (fss s f)) = (r, bd)" "bd = ?bd \<or> bd = ?bd\<lparr>io := Suc (io ?bd)\<rparr>"
    and buf: "\<And>b. r = Some b \<Longrightarrow> b = concat (map (medium ?bd) [unat lba ..< unat lba + ?sp])"
    by (cases "blockdev_read ?bd lba (spb (fss s f))")
      (fastforce simp: blockdev_read_def dev_read_def Let_def split: if_splits option.splits)
  have same: "block_size bd = block_size ?bd" "has_write bd = has_write ?bd" "medium bd = medium ?bd" "blocks bd = blocks ?bd"
    using r(2) by auto
  have dev': "dev_ok bd" using dev same by (simp add: dev_ok_def)
  show "probing d f s'"
    using t r(1) d sp dev' same by (cases r) (auto simp: try_offset_def upd_fs_def set_sb_def probing_def Let_def)
  assume ok
  then obtain b where b: "r = Some b" using t r(1) d by (cases r) (auto simp: try_offset_def upd_fs_def Let_def)
  let ?fs = "(fss s f)\<lparr>start_lba := lba, f_sb := dec_sb b\<rparr>"
  have s': "fss s' f = ?fs" "devs s' d = bd" "sb_block s' = b" "sb_plausible ?fs bd"
    using t r(1) b d \<open>ok\<close> by (auto simp: try_offset_def upd_fs_def set_sb_def Let_def)
  note v = sb_plausible_volume [OF s'(4)]
  have g: "geom_ok s' f" unfolding geom_ok_def Let_def s'
    using v dev dev' sp same d s' by (simp add: dev_ok_def volume_ok_def)
  have "fs_block s' f 0 = b" using buf [OF b] s' d same by (simp add: fs_block_def Let_def)
  then show "attached d f s'" using g v s' \<open>probing d f s'\<close> by (simp add: attached_def)
qed

lemma recover_load_safe:
  assumes "geom_ok s f" and "length acc + length ts \<le> 32" and "recover_load f ts acc s = (r, s')"
    and "\<forall>e \<in> set acc. unat (fst e) < unat (total_blocks (sb_of f s)) \<and> length (snd e) = KFS_BLOCK_SIZE"
  shows "frm f s s' \<and> geom_ok s' f \<and> fs_block s' f = fs_block s f \<and>
    (\<forall>es. r = Some es \<longrightarrow> (\<forall>e \<in> set es. unat (fst e) < unat (total_blocks (sb_of f s)) \<and> length (snd e) = KFS_BLOCK_SIZE))"
  using assms
proof (induction ts arbitrary: acc s)
  case (Cons t ts)
  let ?js = "journal_start (sb_of f s)"
  let ?b = "?js + 1 + of_nat (length acc)"
  have "unat (of_nat (length acc) :: u32) = length acc" using Cons.prems(2) by (simp add: unat_of_nat mod_less)
  then have "unat ?b = unat ?js + 1 + length acc"
    using geom_okD(7) [OF Cons.prems(1)] Cons.prems(2) u32_less [of "total_blocks (sb_of f s)"]
    by (simp add: unat_word_ariths mod_less)
  then have b: "unat ?b < unat (total_blocks (sb_of f s))" using geom_okD(7) [OF Cons.prems(1)] Cons.prems(2) by simp
  obtain x s1 where rd: "journal_raw_read f ?b s = (x, s1)" by fastforce
  note re = raw_read_effect [OF Cons.prems(1) b rd]
  have fr: "frm f s s1" by (rule frm_disk [OF re(1)])
  show ?case
  proof (cases "target_unsafe (sb_of f s) t \<or> t \<in> fst ` set acc \<or> x = None")
    case True
    then have "r = None \<and> (s' = s \<or> s' = s1)" using Cons.prems(3) rd by (cases x) (auto split: if_splits)
    then show ?thesis using fr re(2, 3) Cons.prems(1) by (elim conjE disjE) simp_all
  next
    case False
    then obtain data where x: "x = Some data" by blast
    have t: "unat t < unat (total_blocks (sb_of f s))" using False by (simp add: target_unsafe_def word_le_nat_alt)
    have "length data = KFS_BLOCK_SIZE" using re(4) [OF x] Cons.prems(1) by simp
    moreover have "recover_load f ts (acc @ [(t, data)]) s1 = (r, s')" using Cons.prems(3) False rd x by simp
    ultimately have ih: "frm f s1 s'" "geom_ok s' f" "fs_block s' f = fs_block s1 f"
        "(\<forall>es. r = Some es \<longrightarrow> (\<forall>e \<in> set es. unat (fst e) < unat (total_blocks (sb_of f s)) \<and> length (snd e) = KFS_BLOCK_SIZE))"
      using Cons.IH [OF re(2), of "acc @ [(t, data)]"] Cons.prems(2, 4) t frm_sb [OF fr] by simp_all
    then show ?thesis using frm_trans [OF fr ih(1)] re(3) by simp
  qed
next
  case Nil
  then have "r = Some acc" "s' = s" by simp_all
  then show ?case using Nil.prems(1, 4) frm_refl by blast
qed

lemma journal_recover_frame:
  assumes g: "geom_ok s f" and js: "0 < unat (journal_start (sb_of f s))" and ret: "journal_recover f s = (v, s')"
  shows "frm f s s' \<and> geom_ok s' f \<and> (v = 0 \<longrightarrow> fs_block s' f 0 = fs_block s f 0)"
proof -
  let ?js = "journal_start (sb_of f s)"
  have lt: "unat ?js < unat (total_blocks (sb_of f s))" using geom_okD(7) [OF g] by simp
  obtain x s1 where rd: "journal_raw_read f ?js s = (x, s1)" by fastforce
  note re = raw_read_effect [OF g lt rd]
  have fr1: "frm f s s1" by (rule frm_disk [OF re(1)])
  have clear: "frm f s s3 \<and> geom_ok s3 f \<and> fs_block s3 f 0 = fs_block s2 f 0"
    if "frm f s s2" "geom_ok s2 f" "journal_clear f s2 = (ok, s3)" for s2 s3 ok
    using clear_effect(1, 2) [OF that(2, 3)] clear_effect(3) [OF that(2, 3), of 0] js frm_sb [OF that(1)] frm_trans [OF that(1)] by simp
  show ?thesis
  proof (cases x)
    case None
    then show ?thesis using ret rd re fr1 by (auto simp: journal_recover_def)
  next
    case (Some buf)
    define jh where "jh = dec_jh buf"
    define ts where "ts = take (unat (jh_count jh)) (jh_targets jh)"
    have "length ts \<le> 32" by (simp add: ts_def jh_def dec_jh_def)
    obtain r s2 where ld: "recover_load f ts [] s1 = (r, s2)" by fastforce
    have l: "frm f s1 s2" "geom_ok s2 f" "fs_block s2 f = fs_block s1 f"
      "\<And>es. r = Some es \<Longrightarrow> \<forall>e \<in> set es. unat (fst e) < unat (total_blocks (sb_of f s1)) \<and> length (snd e) = KFS_BLOCK_SIZE"
      using recover_load_safe [OF re(2) _ ld] \<open>length ts \<le> 32\<close> by simp_all
    have fr2: "frm f s s2" by (rule frm_trans [OF fr1 l(1)])
    have wr: "frm f s s3 \<and> geom_ok s3 f" if "r = Some es" "write_home f es s2 = (ok, s3)" for es ok s3
      using write_home_effect [OF l(2) that(2)] l(4) [OF that(1)] frm_sb [OF l(1)] frm_trans [OF fr2] by simp
    let ?clean = "jh_magic jh = 0 \<and> jh_state jh = 0 \<and> jh_count jh = 0"
    let ?bad = "jh_magic jh \<noteq> KFS_JOURNAL_MAGIC \<or> jh_state jh \<noteq> KFS_JOURNAL_COMMITTED \<or> jh_count jh = 0 \<or> jh_count jh > of_nat KFS_JOURNAL_ENTRIES"
    let ?sum = "\<lambda>es. journal_checksum (jh_sequence jh) (jh_count jh) es \<noteq> jh_checksum jh"
    have run: "(if ?clean then (0, s1) else if ?bad then (case journal_clear f s1 of (r, s2) \<Rightarrow> (if r then 0 else - 1, s2))
        else case r of None \<Rightarrow> (- 1, s2) | Some es \<Rightarrow>
          if ?sum es then (case journal_clear f s2 of (r, s3) \<Rightarrow> (if r then 0 else - 1, s3))
          else case write_home f es s2 of (False, s3) \<Rightarrow> (- 1, s3) | (True, s3) \<Rightarrow>
            (case journal_clear f s3 of (r, s4) \<Rightarrow> (if r then 1 else - 1, s4))) = (v, s')"
      using ret unfolding journal_recover_def rd Some Let_def prod.case option.case jh_def [symmetric] ts_def [symmetric] ld .
    obtain c1 t1 c2 t2 where cl: "journal_clear f s1 = (c1, t1)" "journal_clear f s2 = (c2, t2)" by fastforce
    note k1 = clear [OF fr1 re(2) cl(1)] and k2 = clear [OF fr2 l(2) cl(2)]
    show ?thesis
    proof (cases "?clean \<or> ?bad \<or> r = None \<or> ?sum (the r)")
      case True
      then have "s' = s1 \<or> s' = t1 \<or> s' = s2 \<or> s' = t2" using run unfolding cl prod.case
        by (cases r) (auto split: if_splits)
      then show ?thesis using k1 k2 fr1 fr2 re(2, 3) l(2, 3) by (elim disjE) simp_all
    next
      case False
      then obtain es where es: "r = Some es" by auto
      obtain ok s3 where wh: "write_home f es s2 = (ok, s3)" by fastforce
      note w = wr [OF es wh]
      obtain c4 t4 where c4: "journal_clear f s3 = (c4, t4)" by fastforce
      have "v \<noteq> 0 \<and> (s' = s3 \<or> s' = t4)" using run False unfolding es wh
        by (cases ok) (auto simp: wh c4 split: if_splits)
      then show ?thesis using w clear [OF conjunct1 [OF w] conjunct2 [OF w] c4] by auto
    qed
  qed
qed

definition keeps :: "nat \<Rightarrow> kfs_state \<Rightarrow> kfs_state \<Rightarrow> bool" where
  "keeps f s s' \<longleftrightarrow> (\<forall>i. i \<noteq> f \<longrightarrow> fss s' i = fss s i) \<and> f_used (fss s' f) = f_used (fss s f) \<and> handles (fss s' f) = handles (fss s f)"

lemma keeps_trans: "keeps f a b \<Longrightarrow> keeps f b c \<Longrightarrow> keeps f a c"
  by (simp add: keeps_def)

lemma try_offset_keeps: "try_offset f lba s = (ok, s') \<Longrightarrow> keeps f s s'"
  by (auto simp: try_offset_def Let_def upd_fs_def set_sb_def keeps_def split: prod.splits option.splits)

lemma try_again:
  assumes p: "probing d f s" and t: "(if c then try_offset f lba s else (a, s)) = (b, s')" and a: "a \<Longrightarrow> attached d f s"
  shows "probing d f s' \<and> (b \<longrightarrow> attached d f s') \<and> keeps f s s'"
proof (cases c)
  case True
  then have t': "try_offset f lba s = (b, s')" using t by simp
  show ?thesis using try_offset_ok [OF p t'] try_offset_keeps [OF t'] by blast
next
  case False
  then have "b = a" "s' = s" using t by simp_all
  moreover have "keeps f s s" by (simp add: keeps_def)
  ultimately show ?thesis using p a by blast
qed

lemma kfs_find_sb_ok:
  assumes p: "probing d f s" and t: "kfs_find_sb f part_lba s = (ok, s')"
  shows "probing d f s'" and "ok \<Longrightarrow> attached d f s'" and "keeps f s s'"
proof -
  obtain a s1 where 1: "try_offset f 0 s = (a, s1)" by fastforce
  obtain b s2 where 2: "(if \<not> a \<and> part_lba \<noteq> 0 then try_offset f part_lba s1 else (a, s1)) = (b, s2)" by fastforce
  have 3: "(if \<not> b then try_offset f part_lba s2 else (b, s2)) = (ok, s')"
    using t unfolding kfs_find_sb_def 1 Let_def prod.case 2 .
  note o1 = try_offset_ok [OF p 1]
  note o2 = try_again [OF o1(1) 2 o1(2)]
  have a2: "b \<Longrightarrow> attached d f s2" using o2 by blast
  note o3 = try_again [OF conjunct1 [OF o2] 3 a2]
  show "probing d f s'" and "ok \<Longrightarrow> attached d f s'" using o3 by blast+
  show "keeps f s s'" using keeps_trans [OF keeps_trans [OF try_offset_keeps [OF 1]]] o2 o3 by blast
qed

lemma kfs_replay_ok:
  assumes a: "attached d f s" and t: "kfs_replay f s = (ok, s')"
  shows "ok \<Longrightarrow> attached d f s'" and "keeps f s s'"
proof -
  obtain v s1 where r: "journal_recover f s = (v, s1)" by fastforce
  have pr: "probing d f s" and g: "geom_ok s f" and vol: "volume_ok (sb_of f s)" and sb: "sb_of f s = dec_sb (fs_block s f 0)"
    and blk: "sb_block s = fs_block s f 0" using a unfolding attached_def by blast+
  have fr: "frm f s s1" and g1: "geom_ok s1 f" and z: "v = 0 \<longrightarrow> fs_block s1 f 0 = fs_block s f 0"
    using journal_recover_frame [OF g _ r] vol unfolding volume_ok_def by simp_all
  have fss: "fss s1 = fss s" "sb_block s1 = sb_block s" and dv: "dev_frame (devs s d) (devs s1 d)" using fr by (simp_all add: frm_def)
  have p1: "probing d f s1" using pr dev_ok_frame [OF dv] dev_frame_fields(2) [OF dv] by (simp add: probing_def fss)
  have k1: "keeps f s s1" by (simp add: keeps_def fss)
  have cases: "v < 0 \<and> \<not> ok \<and> s' = s1 \<or> v > 0 \<and> try_offset f (start_lba (fss s1 f)) s1 = (ok, s') \<or> v = 0 \<and> ok \<and> s' = s1"
    using t unfolding kfs_replay_def r prod.case by (cases "v < 0"; cases "v > 0") auto
  then have "s' = s1 \<or> try_offset f (start_lba (fss s1 f)) s1 = (ok, s')" by blast
  then show "keeps f s s'"
  proof
    assume "try_offset f (start_lba (fss s1 f)) s1 = (ok, s')"
    then show ?thesis by (rule keeps_trans [OF k1 try_offset_keeps])
  qed (use k1 in simp)
  show "attached d f s'" if ok
    using cases
  proof (elim disjE conjE)
    assume v: "v = 0" and s': "s' = s1"
    have z0: "fs_block s1 f 0 = fs_block s f 0" using z v by blast
    show ?thesis using p1 g1 vol sb blk unfolding attached_def s' fss z0 by (intro conjI)
  next
    assume "try_offset f (start_lba (fss s1 f)) s1 = (ok, s')"
    then show ?thesis using try_offset_ok(2) [OF p1] that by blast
  qed (use that in simp)
qed

lemma attached_mark: "attached d f (upd_fs f (\<lambda>fs. fs\<lparr>mounted := True\<rparr>) s) = attached d f s"
proof -
  let ?s = "upd_fs f (\<lambda>fs. fs\<lparr>mounted := True\<rparr>) s"
  have e: "fs_block ?s f 0 = fs_block s f 0" "geom_ok ?s f = geom_ok s f" "probing d f ?s = probing d f s" "sb_of f ?s = sb_of f s"
    "sb_block ?s = sb_block s" by (simp_all add: fs_block_def geom_ok_def probing_def upd_fs_def Let_def)
  show ?thesis unfolding attached_def e ..
qed

lemma spb_exact:
  assumes "b \<noteq> 0" and "of_nat KFS_BLOCK_SIZE mod b = (0 :: u32)"
  shows "unat b * unat (of_nat KFS_BLOCK_SIZE div b :: u32) = KFS_BLOCK_SIZE"
proof -
  have "unat (of_nat KFS_BLOCK_SIZE mod b :: u32) = 0" using assms(2) by (simp only: unat_0)
  then have "4096 mod unat b = 0" by (simp add: unat_mod)
  then have "unat b dvd 4096" by (rule mod_0_imp_dvd)
  then show ?thesis by (simp add: unat_div)
qed

lemma kfs_probe_ok:
  assumes dev: "dev_ok (devs s d)" and bs: "block_size (devs s d) \<noteq> 0" "of_nat KFS_BLOCK_SIZE mod block_size (devs s d) = 0"
    and m: "kfs_probe d f s = (ok, s')"
  shows "\<forall>i. i \<noteq> f \<longrightarrow> fss s' i = fss s i" and "\<not> ok \<Longrightarrow> \<not> f_used (fss s' f)" and "handles (fss s' f) = handles (fss s f)"
    and "ok \<Longrightarrow> attached d f s' \<and> mounted (fss s' f) \<and> f_used (fss s' f) = f_used (fss s f)"
proof -
  define s0 where "s0 = upd_fs f (\<lambda>fs. fs\<lparr>f_bd := Some d, spb := of_nat KFS_BLOCK_SIZE div block_size (devs s d)\<rparr>) s"
  have p0: "probing d f s0" using dev spb_exact [OF bs] by (simp add: probing_def s0_def upd_fs_def)
  have k0: "keeps f s s0" by (simp add: keeps_def s0_def upd_fs_def)
  obtain a s1 where 1: "kfs_find_sb f (KFS_PART_LBA * KFS_SECTOR_SIZE div ucast (block_size (devs s d))) s0 = (a, s1)" by fastforce
  obtain b s2 where 2: "(if a then kfs_replay f s1 else (a, s1)) = (b, s2)" by fastforce
  have 3: "(ok, s') = (if b then (True, upd_fs f (\<lambda>fs. fs\<lparr>mounted := True\<rparr>) s2) else (False, upd_fs f (\<lambda>fs. fs\<lparr>f_used := False\<rparr>) s2))"
    using m unfolding kfs_probe_def Let_def s0_def [symmetric] 1 prod.case 2 by (rule sym)
  note o1 = kfs_find_sb_ok [OF p0 1]
  have o2: "(b \<longrightarrow> attached d f s2) \<and> keeps f s1 s2"
  proof (cases a)
    case True
    then show ?thesis using kfs_replay_ok [OF o1(2) [OF True], of b s2] 2 by simp
  qed (use 2 in \<open>simp add: keeps_def\<close>)
  have k2: "keeps f s s2" using keeps_trans [OF keeps_trans [OF k0 o1(3)]] o2 by blast
  show "\<forall>i. i \<noteq> f \<longrightarrow> fss s' i = fss s i" and "\<not> ok \<Longrightarrow> \<not> f_used (fss s' f)" and "handles (fss s' f) = handles (fss s f)"
    using 3 k2 by (auto simp: keeps_def upd_fs_def split: if_splits)
  assume ok
  then have b: b and s': "s' = upd_fs f (\<lambda>fs. fs\<lparr>mounted := True\<rparr>) s2" using 3 by (auto split: if_splits)
  have "attached d f s'" using o2 b unfolding s' attached_mark by blast
  then show "attached d f s' \<and> mounted (fss s' f) \<and> f_used (fss s' f) = f_used (fss s f)"
    using k2 by (simp add: s' upd_fs_def keeps_def)
qed

section \<open>Properties\<close>

text \<open>
  C8. What a successful mount guarantees to the rest of the file system.  When \<^verbatim>\<open>kfs_type_mount\<close> succeeds
  on a writable device, the slot it returns was free and is now a mounted instance of the device with
  no handles.  Its superblock in memory is the one on the disk, also after a journal replay that may
  have replaced block 0.  The bitmap, the journal and the inode table follow one another in front of
  the data, nothing runs past the end of the device, and no instance of that device was mounted when
  the slot was claimed.  Other tasks may run in between, as long as they leave the claimed slot alone.
\<close>

theorem kfs_mount_establishes:
  assumes m: "kfs_type_mount others (Some d) True s = (Some f, s')" and c: "kfs_claim d s = (Some f, t)"
    and dev: "dev_ok (devs (others t) d)" "block_size (devs (others t) d) = block_size (devs s d)"
    and slot: "fss (others t) f = fss t f"
  shows "f < KFS_MAX_MOUNTS \<and> \<not> f_used (fss s f) \<and> f_used (fss s' f) \<and> mounted (fss s' f) \<and> handles (fss s' f) = 0 \<and>
    f_bd (fss s' f) = Some d \<and> geom_ok s' f \<and> volume_ok (sb_of f s') \<and> sb_of f s' = dec_sb (fs_block s' f 0) \<and>
    \<not> (\<exists>i < KFS_MAX_MOUNTS. f_used (fss s i) \<and> mounted (fss s i) \<and> f_bd (fss s i) = Some d)"
proof -
  have bs: "block_size (devs s d) \<noteq> 0" "of_nat KFS_BLOCK_SIZE mod block_size (devs s d) = 0" and p: "kfs_probe d f (others t) = (True, s')"
    using m c by (auto simp: kfs_type_mount_def split: if_splits prod.splits)
  have new: "\<not> (\<exists>i < KFS_MAX_MOUNTS. f_used (fss s i) \<and> mounted (fss s i) \<and> f_bd (fss s i) = Some d)"
    and free: "first_from (\<lambda>i. \<not> f_used (fss s i)) 0 KFS_MAX_MOUNTS = Some f" and t: "t = upd_fs f (\<lambda>_. zero_fs\<lparr>f_used := True\<rparr>) s"
    using c unfolding kfs_claim_def by (auto split: if_splits option.splits)
  have f: "f < KFS_MAX_MOUNTS" "\<not> f_used (fss s f)" using free by (simp_all add: first_from_Some)
  have o: "fss (others t) f = zero_fs\<lparr>f_used := True\<rparr>" using slot by (simp add: t upd_fs_def)
  have "attached d f s' \<and> mounted (fss s' f) \<and> f_used (fss s' f) \<and> handles (fss s' f) = 0"
    using kfs_probe_ok(3, 4) [OF dev(1) _ _ p] bs unfolding dev(2) o by (simp add: zero_fs_def)
  then show ?thesis using f new unfolding attached_def probing_def by blast
qed

text \<open>
  C36. A mount that fails leaves no trace in the instance table.  Whatever the reason, an unusable
  device, a device that is mounted already, no free slot, a bad superblock or a journal that cannot
  be replayed, every instance that was in use is exactly as before and every slot that was free is
  free.
\<close>

theorem kfs_mount_failure:
  assumes m: "kfs_type_mount id bd fs_priv s = (None, s')" and dev: "\<And>d. bd = Some d \<Longrightarrow> dev_ok (devs s d)"
  shows "(\<forall>i. f_used (fss s i) \<longrightarrow> fss s' i = fss s i) \<and> (\<forall>i. \<not> f_used (fss s i) \<longrightarrow> \<not> f_used (fss s' i))"
proof (cases "s' = s")
  case False
  then obtain d f s1 where d: "bd = Some d" and bs: "block_size (devs s d) \<noteq> 0" "of_nat KFS_BLOCK_SIZE mod block_size (devs s d) = 0"
    and c: "kfs_claim d s = (Some f, s1)" and p: "kfs_probe d f s1 = (False, s')"
    using m by (auto simp: kfs_type_mount_def kfs_claim_def split: if_splits option.splits prod.splits)
  have s1: "s1 = upd_fs f (\<lambda>_. zero_fs\<lparr>f_used := True\<rparr>) s" and f: "\<not> f_used (fss s f)"
    using c unfolding kfs_claim_def by (auto simp: first_from_Some split: if_splits option.splits)
  have "\<forall>i. i \<noteq> f \<longrightarrow> fss s' i = fss s i" "\<not> f_used (fss s' f)"
    using kfs_probe_ok(1, 2) [OF _ _ _ p] dev [OF d] bs by (simp_all add: s1 upd_fs_def)
  then show ?thesis using f by metis
qed simp

text \<open>A disk with an empty volume, after some number of transfers.\<close>

definition vol_blocks :: "nat \<Rightarrow> byte list" where
  "vol_blocks i = (if i = 0 then enc_sb demo_sb @ replicate 4044 0 else replicate 4096 0)"

definition vol_disk :: "nat \<Rightarrow> blockdev" where
  "vol_disk n = (demo_disk (\<lambda>_. None) vol_blocks)\<lparr>io := n\<rparr>"

definition boot_state :: kfs_state where
  "boot_state = (demo_kfs (vol_disk 0) [])\<lparr>fss := \<lambda>_. zero_fs\<rparr>"

lemma vol_disk_ok: "dev_ok (vol_disk n)"
  by (simp add: dev_ok_def vol_disk_def demo_disk_def vol_blocks_def)

lemma vol_probe:
  assumes "devs s d = vol_disk n"
  obtains s' where "kfs_probe d f s = (True, s')" and "devs s' d = vol_disk (n + 2)"
    and "fss s' = (fss s)(f := (fss s f)\<lparr>f_bd := Some d, spb := 1, start_lba := 0, f_sb := demo_sb, mounted := True\<rparr>)"
proof -
  let ?s0 = "upd_fs f (\<lambda>fs. fs\<lparr>f_bd := Some d, spb := 1\<rparr>) s"
  let ?s1 = "set_sb f demo_sb ((upd_fs f (\<lambda>fs. fs\<lparr>start_lba := 0\<rparr>) ?s0)\<lparr>devs := (devs s)(d := vol_disk (n + 1)), sb_block := vol_blocks 0\<rparr>)"
  have pl: "sb_plausible (fs\<lparr>spb := 1, start_lba := 0, f_sb := demo_sb\<rparr>) (vol_disk k)" for fs k
    by (simp add: sb_plausible_def demo_sb_def vol_disk_def demo_disk_def)
  have rd: "blockdev_read (vol_disk k) lba 1 = (Some (vol_blocks (unat lba)), vol_disk (k + 1))" if "unat lba < 40" for k lba
    using that by (simp add: blockdev_read_def range_ok_iff dev_read_def vol_disk_def demo_disk_def)
  have d0: "dec_sb (vol_blocks 0) = demo_sb" by (simp add: vol_blocks_def)
  have t: "try_offset f 0 ?s0 = (True, ?s1)"
    using rd [of 0 n] pl [of "fss s f\<lparr>f_bd := Some d\<rparr>" "n + 1"] assms d0 by (simp add: try_offset_def upd_fs_def set_sb_def Let_def)
  have j: "jh_clean (vol_blocks 2)" using jh_clean_zero by (simp add: vol_blocks_def)
  let ?s2 = "?s1\<lparr>devs := (devs s)(d := vol_disk (n + 2))\<rparr>"
  have "journal_raw_read f 2 ?s1 = (Some (vol_blocks 2), ?s2)"
    using rd [of 2 "n + 1"] by (simp add: journal_raw_read_def fs_lba_def set_sb_def upd_fs_def)
  then have r: "kfs_replay f ?s1 = (True, ?s2)"
    using j by (simp add: kfs_replay_def journal_recover_def set_sb_def upd_fs_def demo_sb_def jh_clean_def Let_def)
  have "kfs_find_sb f p ?s0 = (True, ?s1)" for p by (simp add: kfs_find_sb_def t)
  then have "kfs_probe d f s = (True, upd_fs f (\<lambda>fs. fs\<lparr>mounted := True\<rparr>) ?s2)"
    using r assms by (simp add: kfs_probe_def vol_disk_def demo_disk_def)
  then show ?thesis by (rule that) (simp_all add: upd_fs_def set_sb_def)
qed

lemma boot_claim: "kfs_claim d boot_state = (Some 0, upd_fs 0 (\<lambda>_. zero_fs\<lparr>f_used := True\<rparr>) boot_state)"
  by (simp add: kfs_claim_def boot_state_def zero_fs_def first_from.simps)

lemma boot_devs: "devs boot_state d = vol_disk 0" "devs (upd_fs i g boot_state) d = vol_disk 0" "block_size (vol_disk n) = 4096"
  by (simp_all add: boot_state_def demo_kfs_def upd_fs_def vol_disk_def demo_disk_def)

theorem kfs_mount_establishes_witness:
  "\<exists>s'. kfs_type_mount id (Some 0) True boot_state = (Some 0, s') \<and> mounted (fss s' 0) \<and> geom_ok s' 0 \<and> volume_ok (sb_of 0 s')"
proof -
  let ?t = "upd_fs 0 (\<lambda>_. zero_fs\<lparr>f_used := True\<rparr>) boot_state"
  obtain s' where p: "kfs_probe 0 0 ?t = (True, s')" using vol_probe [OF boot_devs(2)] by blast
  then have m: "kfs_type_mount id (Some 0) True boot_state = (Some 0, s')" by (simp add: kfs_type_mount_def boot_claim boot_devs)
  have "dev_ok (devs (id ?t) 0)" "block_size (devs (id ?t) 0) = block_size (devs boot_state 0)" "fss (id ?t) 0 = fss ?t 0"
    by (simp_all add: boot_devs vol_disk_ok)
  from kfs_mount_establishes [OF m boot_claim this] show ?thesis using m by blast
qed

definition blank_state :: kfs_state where
  "blank_state = boot_state\<lparr>devs := \<lambda>_. demo_disk (\<lambda>_. None) demo_zero\<rparr>"

lemma blank_sb: "\<not> sb_plausible (fs\<lparr>f_sb := dec_sb (replicate 4096 0)\<rparr>) bd"
  by (simp add: sb_plausible_def dec_sb_def rd32_zeros)

theorem kfs_mount_failure_witness:
  "\<exists>s'. kfs_type_mount id (Some 0) True blank_state = (None, s') \<and> (\<forall>i. \<not> f_used (fss s' i))"
proof -
  have c: "kfs_claim 0 blank_state = (Some 0, upd_fs 0 (\<lambda>_. zero_fs\<lparr>f_used := True\<rparr>) blank_state)"
    by (simp add: kfs_claim_def blank_state_def boot_state_def zero_fs_def first_from.simps)
  have "fst (kfs_probe 0 0 (upd_fs 0 (\<lambda>_. zero_fs\<lparr>f_used := True\<rparr>) blank_state)) = False"
    by (simp add: kfs_probe_def kfs_find_sb_def try_offset_def upd_fs_def set_sb_def blank_state_def demo_disk_def demo_zero_def
        blockdev_read_def range_ok_def dev_read_def blank_sb)
  then obtain s' where p: "kfs_probe 0 0 (upd_fs 0 (\<lambda>_. zero_fs\<lparr>f_used := True\<rparr>) blank_state) = (False, s')"
    by (metis prod.collapse)
  have "block_size (devs blank_state 0) = 4096" by (simp add: blank_state_def demo_disk_def)
  then have m: "kfs_type_mount id (Some 0) True blank_state = (None, s')" by (simp add: kfs_type_mount_def c p)
  have free: "\<not> f_used (fss blank_state i)" for i by (simp add: blank_state_def boot_state_def zero_fs_def)
  have ok: "dev_ok (devs blank_state d)" for d by (simp add: dev_ok_def blank_state_def demo_disk_def demo_zero_def)
  show ?thesis using kfs_mount_failure [OF m ok] m free by blast
qed

section \<open>Two mounts of one device\<close>

text \<open>
  The test that refuses a device which is mounted already looks only at instances whose probe has
  finished.  When two tasks mount the same device at different mount points and both claim their
  slots first, both probes succeed, and the device has two mounted instances.
\<close>

theorem kfs_mount_race:
  "\<exists>s1 s2 s3 s4. kfs_claim 0 boot_state = (Some 0, s1) \<and> kfs_claim 0 s1 = (Some 1, s2) \<and>
     kfs_probe 0 0 s2 = (True, s3) \<and> kfs_probe 0 1 s3 = (True, s4) \<and>
     mounted (fss s4 0) \<and> mounted (fss s4 1) \<and> f_bd (fss s4 0) = Some 0 \<and> f_bd (fss s4 1) = Some 0"
proof -
  let ?u = "\<lambda>_. zero_fs\<lparr>f_used := True\<rparr>"
  let ?s1 = "upd_fs 0 ?u boot_state" and ?s2 = "upd_fs 1 ?u (upd_fs 0 ?u boot_state)"
  have c: "kfs_claim 0 ?s1 = (Some 1, ?s2)"
    by (simp add: kfs_claim_def boot_state_def zero_fs_def upd_fs_def first_from.simps)
  have d: "devs ?s2 0 = vol_disk 0" by (simp add: upd_fs_def boot_state_def demo_kfs_def)
  obtain s3 where s3: "kfs_probe 0 0 ?s2 = (True, s3)" "devs s3 0 = vol_disk (0 + 2)"
      "fss s3 = (fss ?s2)(0 := (fss ?s2 0)\<lparr>f_bd := Some 0, spb := 1, start_lba := 0, f_sb := demo_sb, mounted := True\<rparr>)"
    by (rule vol_probe [OF d])
  obtain s4 where s4: "kfs_probe 0 1 s3 = (True, s4)"
      "fss s4 = (fss s3)(1 := (fss s3 1)\<lparr>f_bd := Some 0, spb := 1, start_lba := 0, f_sb := demo_sb, mounted := True\<rparr>)"
    by (rule vol_probe [OF s3(2)])
  have "mounted (fss s4 0)" "mounted (fss s4 1)" "f_bd (fss s4 0) = Some 0" "f_bd (fss s4 1) = Some 0" by (simp_all add: s4(2) s3(3))
  then show ?thesis using boot_claim [of 0] c s3(1) s4(1) by blast
qed

end
