(* ===== verification/Kfs_Alloc.thy ===== *)
theory Kfs_Alloc
  imports Kfs_Inode
begin

unbundle bit_operations_syntax

text \<open>
  Correctness of the KFS block allocator and the inode table, against the array of blocks a
  transaction sees: \<^verbatim>\<open>balloc\<close> returns the lowest free block, zeroed, and marks exactly it;
  \<^verbatim>\<open>bfree\<close> clears exactly one bit; \<^verbatim>\<open>iget\<close> returns what \<^verbatim>\<open>iput\<close> stored.
\<close>

section \<open>The bitmap\<close>

definition used :: "nat \<Rightarrow> kfs_state \<Rightarrow> nat \<Rightarrow> bool" where
  "used f s n \<longleftrightarrow> bit (view f s (bitmap_blk f s (n div BITS_PER_BLOCK)) ! (n mod BITS_PER_BLOCK div 8)) (n mod 8)"

definition meta_used :: "nat \<Rightarrow> kfs_state \<Rightarrow> bool" where
  "meta_used f s \<longleftrightarrow> (\<forall>n < unat (data_start (sb_of f s)). used f s n)"

text \<open>Blocks that hold no bitmap and not the superblock.\<close>

abbreviation beyond :: "nat \<Rightarrow> kfs_state \<Rightarrow> u32 \<Rightarrow> bool" where
  "beyond f s c \<equiv> unat (journal_start (sb_of f s)) \<le> unat c"

lemma free_bit_Some:
  "free_bit buf = Some n \<longleftrightarrow> n < BITS_PER_BLOCK \<and> \<not> bit (buf ! (n div 8)) (n mod 8) \<and>
     (\<forall>m < n. bit (buf ! (m div 8)) (m mod 8))"
proof -
  have full: "bit (255::byte) k" if "k < 8" for k using bit_byte_255 [OF that] by simp
  have "(buf ! (m div 8) \<noteq> 0xFF \<and> (buf ! (m div 8) AND push_bit (m mod 8) 1) = 0) \<longleftrightarrow>
      \<not> bit (buf ! (m div 8)) (m mod 8)" for m
    using full [of "m mod 8"] by (auto simp: push_bit_eq_mult)
  then show ?thesis by (auto simp: free_bit_def first_from_Some)
qed

lemma free_bit_None:
  "free_bit buf = None \<longleftrightarrow> (\<forall>m < BITS_PER_BLOCK. bit (buf ! (m div 8)) (m mod 8))"
proof -
  have full: "bit (255::byte) k" if "k < 8" for k using bit_byte_255 [OF that] by simp
  have "(buf ! (m div 8) \<noteq> 0xFF \<and> (buf ! (m div 8) AND push_bit (m mod 8) 1) = 0) \<longleftrightarrow>
      \<not> bit (buf ! (m div 8)) (m mod 8)" for m
    using full [of "m mod 8"] by (auto simp: push_bit_eq_mult)
  then show ?thesis by (auto simp: free_bit_def first_from_None)
qed


text \<open>Setting or clearing one bit of a bitmap block.\<close>

lemma bit_set_bit:
  fixes buf :: "byte list"
  assumes "length buf = KFS_BLOCK_SIZE" and "n < BITS_PER_BLOCK" and "m < BITS_PER_BLOCK"
  shows "bit (buf[n div 8 := buf ! (n div 8) OR push_bit (n mod 8) 1] ! (m div 8)) (m mod 8) \<longleftrightarrow>
      m = n \<or> bit (buf ! (m div 8)) (m mod 8)"
    and "bit (buf[n div 8 := buf ! (n div 8) AND NOT (push_bit (n mod 8) 1)] ! (m div 8)) (m mod 8) \<longleftrightarrow>
      m \<noteq> n \<and> bit (buf ! (m div 8)) (m mod 8)"
proof -
  have n: "n div 8 < length buf" "m div 8 < length buf" using assms by (simp_all add: div_less_iff_less_mult)
  have eq: "m = n \<longleftrightarrow> m div 8 = n div 8 \<and> m mod 8 = n mod 8"
    using div_mult_mod_eq [of m 8] div_mult_mod_eq [of n 8] by metis
  have m8: "n mod 8 < 8" by simp
  show "bit (buf[n div 8 := buf ! (n div 8) OR push_bit (n mod 8) 1] ! (m div 8)) (m mod 8) \<longleftrightarrow>
      m = n \<or> bit (buf ! (m div 8)) (m mod 8)"
    using n eq bit_or_mask [OF m8, of "buf ! (n div 8)" "m mod 8"]
    by (cases "m div 8 = n div 8") (auto simp: push_bit_eq_mult)
  show "bit (buf[n div 8 := buf ! (n div 8) AND NOT (push_bit (n mod 8) 1)] ! (m div 8)) (m mod 8) \<longleftrightarrow>
      m \<noteq> n \<and> bit (buf ! (m div 8)) (m mod 8)"
    using n eq bit_andnot_mask [OF m8, of "buf ! (n div 8)" "m mod 8"]
    by (cases "m div 8 = n div 8") (auto simp: push_bit_eq_mult)
qed

lemma used_cong:
  assumes "layout_ok (sb_of f s)" and "same_layout (sb_of f s') (sb_of f s)"
    and "\<And>bb. bb < unat (bitmap_blocks (sb_of f s)) \<Longrightarrow> view f s' (bitmap_blk f s bb) = view f s (bitmap_blk f s bb)"
    and "n < unat (bitmap_blocks (sb_of f s)) * BITS_PER_BLOCK"
  shows "used f s' n = used f s n"
proof -
  have "n div BITS_PER_BLOCK < unat (bitmap_blocks (sb_of f s))" using assms(4) by (simp add: div_less_iff_less_mult)
  then have "view f s' (bitmap_blk f s (n div BITS_PER_BLOCK)) = view f s (bitmap_blk f s (n div BITS_PER_BLOCK))"
    by (rule assms(3))
  moreover have "bitmap_blk f s' = bitmap_blk f s"
    using same_layout_fields(3) [OF assms(2)] by (simp add: bitmap_blk_def fun_eq_iff)
  ultimately show ?thesis by (simp add: used_def)
qed

text \<open>One bitmap block changes in one bit.\<close>

lemma used_change:
  assumes l: "layout_ok (sb_of f s)" and sl: "same_layout (sb_of f s') (sb_of f s)"
    and bb: "bb < unat (bitmap_blocks (sb_of f s))" and n: "n < BITS_PER_BLOCK"
    and m: "m < unat (bitmap_blocks (sb_of f s)) * BITS_PER_BLOCK"
    and same: "\<And>c. c < unat (bitmap_blocks (sb_of f s)) \<Longrightarrow> c \<noteq> bb \<Longrightarrow>
      view f s' (bitmap_blk f s c) = view f s (bitmap_blk f s c)"
    and chg: "\<And>k. k < BITS_PER_BLOCK \<Longrightarrow> bit (view f s' (bitmap_blk f s bb) ! (k div 8)) (k mod 8) \<longleftrightarrow>
      P (k = n) (bit (view f s (bitmap_blk f s bb) ! (k div 8)) (k mod 8))"
    and P: "\<And>x. P False x = x"
  shows "used f s' m = P (m = bb * BITS_PER_BLOCK + n) (used f s m)"
proof -
  let ?q = "m div BITS_PER_BLOCK" and ?r = "m mod BITS_PER_BLOCK"
  have q: "?q < unat (bitmap_blocks (sb_of f s))" using m by (simp add: div_less_iff_less_mult)
  have bm: "bitmap_blk f s' = bitmap_blk f s"
    using same_layout_fields(3) [OF sl] by (simp add: bitmap_blk_def fun_eq_iff)
  have m8: "?r mod 8 = m mod 8" by (rule mod_mod_cancel) simp
  show ?thesis
  proof (cases "?q = bb")
    case True
    have "m = bb * BITS_PER_BLOCK + n \<longleftrightarrow> ?r = n" using True div_mult_mod_eq [of m BITS_PER_BLOCK] by linarith
    then show ?thesis using chg [of ?r] True m8 by (simp add: used_def bm)
  next
    case False
    then have "m \<noteq> bb * BITS_PER_BLOCK + n" using n by (auto simp: div_mult_self3)
    then show ?thesis using same [OF q False] P by (simp add: used_def bm)
  qed
qed

section \<open>Allocation\<close>

definition balloc_post :: "nat \<Rightarrow> kfs_state \<Rightarrow> u32 \<Rightarrow> kfs_state \<Rightarrow> bool" where
  "balloc_post f s b s' \<longleftrightarrow> unat (data_start (sb_of f s)) \<le> unat b \<and> unat b < unat (total_blocks (sb_of f s)) \<and>
     \<not> used f s (unat b) \<and> view f s' b = replicate KFS_BLOCK_SIZE 0 \<and>
     (\<forall>c. beyond f s c \<and> c \<noteq> b \<longrightarrow> view f s' c = view f s c) \<and>
     (\<forall>m < unat (bitmap_blocks (sb_of f s)) * BITS_PER_BLOCK. used f s' m \<longleftrightarrow> m = unat b \<or> used f s m) \<and>
     free_blocks (sb_of f s') = free_blocks (sb_of f s) - 1 \<and>
     (\<not> j_failed (jtx s') \<longrightarrow> dec_sb (view f s' 0) = sb_of f s')"

lemma balloc_claim:
  assumes tx: "in_tx f s" and l: "layout_ok (sb_of f s)" and mu: "meta_used f s"
    and bb: "bb < unat (bitmap_blocks (sb_of f s))"
    and fb: "free_bit (view f s (bitmap_blk f s bb)) = Some n"
    and blk: "blk = of_nat bb * of_nat BITS_PER_BLOCK + of_nat n" and lt: "blk < total_blocks (sb_of f s)"
    and st1: "journal_stage f (bitmap_blk f s bb)
      ((view f s (bitmap_blk f s bb))[n div 8 := view f s (bitmap_blk f s bb) ! (n div 8) OR push_bit (n mod 8) 1]) s = (True, s2)"
    and st2: "sb_sync f (set_free_blocks f (\<lambda>n. n - 1) s2) = (r3, s3)"
    and st3: "journal_stage f blk (replicate KFS_BLOCK_SIZE 0) s3 = (r4, s4)"
  shows "tx_frame f s s4" and "if r4 then balloc_post f s blk s4 else j_failed (jtx s4)" and "blk \<noteq> 0"
proof -
  let ?sb = "sb_of f s" and ?bm = "bitmap_blk f s bb"
  let ?buf = "view f s ?bm"
  let ?buf' = "?buf[n div 8 := ?buf ! (n div 8) OR push_bit (n mod 8) 1]"
  let ?N = "bb * BITS_PER_BLOCK + n"
  note lo = layout_okD [OF l]
  note bmu = bitmap_blk_unat [OF l bb]
  have n: "n < BITS_PER_BLOCK" "\<not> bit (?buf ! (n div 8)) (n mod 8)" using fb by (simp_all add: free_bit_Some)
  have len: "length ?buf = KFS_BLOCK_SIZE" using tx bmu(2) by (simp add: in_tx_def length_view)
  have "?N + 1 \<le> (bb + 1) * BITS_PER_BLOCK" using n(1) by simp
  also have "\<dots> \<le> unat (bitmap_blocks ?sb) * BITS_PER_BLOCK" using bb by (intro mult_le_mono1) simp
  finally have N: "?N < unat (bitmap_blocks ?sb) * BITS_PER_BLOCK" by simp
  then have "?N < 2 ^ 32" using lo(8) by simp
  then have ub: "unat blk = ?N" unfolding blk
    by (simp add: unat_word_ariths unat_of_nat mod_less)
  have "?N mod 8 = n mod 8" using mod_mult_self3 [of "bb * 4096" 8 n] by (simp add: mult.assoc)
  then have nu: "\<not> used f s ?N" using n by (simp add: used_def)
  then have data: "unat (data_start ?sb) \<le> ?N" using mu by (auto simp: meta_used_def not_less [symmetric])
  then show "blk \<noteq> 0" using ub lo by auto
  have usb: "usable f s blk"
    by (rule usable_data [OF l]) (use data ub lt in \<open>simp_all add: word_less_nat_alt\<close>)
  note e1 = tx_stage [OF tx bmu(2) _ st1]
  have f1: "tx_frame f s s2" using e1(1) len by simp
  have v1: "view f s2 = (view f s)(?bm := ?buf')" using e1(2) len by simp
  have sb1: "sb_of f s2 = ?sb" using e1(4) len by simp
  let ?sb' = "?sb\<lparr>free_blocks := free_blocks ?sb - 1\<rparr>"
  have sl: "same_layout ?sb' (sb_of f s2)" by (simp add: same_layout_def sb1)
  note e2 = tx_set_sb [OF tx_frameD(1) [OF f1] sl]
  have st2': "sb_sync f (set_sb f ?sb' s2) = (r3, s3)" using st2 by (simp add: set_free_blocks_def sb1)
  have l2: "layout_ok (sb_of f (set_sb f ?sb' s2))" using l layout_ok_same [OF sl] e2(3) sb1 by simp
  note e3 = tx_sb_sync [OF tx_frameD(1) [OF e2(1)] l2 st2']
  have f3: "tx_frame f s s3" by (rule tx_frame_trans [OF tx_frame_trans [OF f1 e2(1)] e3(1)])
  note e4 = tx_stage [OF tx_frameD(1) [OF f3] _ length_replicate st3]
  have u4: "usable f s3 blk" using usb tx_frameD(5) [OF f3] by simp
  show f4: "tx_frame f s s4" by (rule tx_frame_trans [OF f3 e4(1) [OF u4]])
  have sb4: "sb_of f s4 = ?sb'" using e4(4) [OF u4] e3(4) e2(3) by simp
  have v3: "view f s3 c = (if c = ?bm then ?buf' else view f s c)" if "c \<noteq> 0" for c
    using e3(2) [OF that] e2(2) v1 by simp
  show "if r4 then balloc_post f s blk s4 else j_failed (jtx s4)"
  proof (cases r4)
    case False
    then show ?thesis using e4(3) [OF u4] by simp
  next
    case True
    have v4: "view f s4 = (view f s3)(blk := replicate KFS_BLOCK_SIZE 0)" using e4(2) [OF u4] True by simp
    have bm0: "bitmap_blk f s c \<noteq> 0" "bitmap_blk f s c \<noteq> blk" "unat (bitmap_blk f s c) < unat (journal_start ?sb)"
      "bitmap_blk f s c = ?bm \<longleftrightarrow> c = bb" if "c < unat (bitmap_blocks ?sb)" for c
    proof -
      have c: "unat (bitmap_blk f s c) = 1 + c" by (rule bitmap_blk_unat(1) [OF l that])
      then show "bitmap_blk f s c \<noteq> 0" by auto
      show "unat (bitmap_blk f s c) < unat (journal_start ?sb)" using c that lo by simp
      then show "bitmap_blk f s c \<noteq> blk" using ub data lo by auto
      show "bitmap_blk f s c = ?bm \<longleftrightarrow> c = bb" using c bmu(1) by (auto simp: word_unat_eq_iff)
    qed
    have "used f s4 m = (\<lambda>p q. p \<or> q) (m = ?N) (used f s m)" if m: "m < unat (bitmap_blocks ?sb) * BITS_PER_BLOCK" for m
    proof (rule used_change [OF l tx_frameD(2) [OF f4] bb n(1) m])
      show "view f s4 (bitmap_blk f s c) = view f s (bitmap_blk f s c)"
        if "c < unat (bitmap_blocks ?sb)" "c \<noteq> bb" for c
        using bm0 [OF that(1)] v3 v4 that(2) by simp
      show "bit (view f s4 ?bm ! (k div 8)) (k mod 8) = (k = n \<or> bit (view f s ?bm ! (k div 8)) (k mod 8))"
        if "k < BITS_PER_BLOCK" for k
        using bm0 [OF bb] v3 v4 bit_set_bit(1) [OF len n(1) that] by simp
    qed simp
    moreover have "view f s4 c = view f s c" if "beyond f s c" "c \<noteq> blk" for c
    proof -
      have "c \<noteq> 0" "c \<noteq> ?bm" using that lo bm0(3) [OF bb] by auto
      then show ?thesis using v3 v4 that(2) by simp
    qed
    moreover have "dec_sb (view f s4 0) = sb_of f s4" if "\<not> j_failed (jtx s4)"
    proof -
      have "\<not> j_failed (jtx s3)" using that e4(1) [OF u4] by (auto simp: tx_frame_def)
      then have r3 using e3(3) by blast
      then have "dec_sb (view f s3 0) = ?sb'" using e3(5) e2(3) by simp
      then show ?thesis using v4 \<open>blk \<noteq> 0\<close> sb4 by simp
    qed
    ultimately show ?thesis using True data ub lt nu sb4 v4
      by (simp add: balloc_post_def word_less_nat_alt)
  qed
qed


lemma upt_Cons: "k < B \<Longrightarrow> [k ..< B] = k # [Suc k ..< B]"
  by (rule upt_conv_Cons)

lemma used_view:
  assumes "view f s' = view f s" and "sb_of f s' = sb_of f s" shows "used f s' = used f s"
  using assms by (simp add: used_def bitmap_blk_def fun_eq_iff)

lemma balloc_loop_ok:
  assumes "in_tx f s" and "layout_ok (sb_of f s)" and "meta_used f s"
    and "B = unat (bitmap_blocks (sb_of f s))" and "k \<le> B"
    and "\<forall>m < k * BITS_PER_BLOCK. used f s m" and "balloc_loop f [k ..< B] s = (b, s')"
  shows "tx_frame f s s' \<and> (if b = 0 then j_failed (jtx s') \<or>
      view f s' = view f s \<and> ((\<forall>m < unat (total_blocks (sb_of f s)). used f s m) \<or> \<not> no_faults s f)
    else balloc_post f s b s' \<and> (\<forall>m < unat b. used f s m))"
  using assms
proof (induction "B - k" arbitrary: k s)
  case 0
  then have "b = 0" "s' = s" by simp_all
  moreover have "unat (total_blocks (sb_of f s)) \<le> k * BITS_PER_BLOCK"
    using layout_okD(7) [OF 0(3)] 0 by simp
  ultimately show ?case using 0 tx_frame_refl by auto
next
  case (Suc d)
  let ?sb = "sb_of f s" and ?bm = "bitmap_blk f s k"
  have k: "k < B" using Suc.hyps(2) by simp
  then have kb: "k < unat (bitmap_blocks ?sb)" using Suc.prems(4) by simp
  note bmu = bitmap_blk_unat [OF Suc.prems(2) kb]
  obtain r s1 where rd: "bread f ?bm s = (r, s1)" by fastforce
  note e = tx_bread [OF Suc.prems(1) bmu(2) rd]
  have bm1: "bitmap_blk f s1 = bitmap_blk f s" using e(4) by (simp add: bitmap_blk_def fun_eq_iff)
  have us: "used f s1 = used f s" by (rule used_view [OF e(2,4)])
  have run: "balloc_loop f (k # [Suc k ..< B]) s = (b, s')" using Suc.prems(7) upt_Cons [OF k] by simp
  show ?case
  proof (cases r)
    case None
    then have "b = 0" "s' = s1" using run rd by (simp_all add: bitmap_blk_def)
    then show ?thesis using e None by simp
  next
    case (Some buf)
    then have buf: "buf = view f s ?bm" using e(3) by simp
    have full: "used f s m" if "m < (k + 1) * BITS_PER_BLOCK" "\<forall>j < c. bit (buf ! (j div 8)) (j mod 8)"
        "m < k * BITS_PER_BLOCK + c" "c \<le> BITS_PER_BLOCK" for m c
    proof (cases "m < k * BITS_PER_BLOCK")
      case True
      then show ?thesis using Suc.prems(6) by simp
    next
      case False
      then have q1: "m div BITS_PER_BLOCK = k" using that(1) by (intro div_nat_eqI) simp_all
      then have q: "m div BITS_PER_BLOCK = k" "m mod BITS_PER_BLOCK = m - k * BITS_PER_BLOCK"
        using minus_div_mult_eq_mod [of m BITS_PER_BLOCK] by simp_all
      have m8: "m mod BITS_PER_BLOCK mod 8 = m mod 8" by (rule mod_mod_cancel) simp
      have "m mod BITS_PER_BLOCK < c" using q(2) that(3) False by simp
      then have "bit (buf ! (m mod BITS_PER_BLOCK div 8)) (m mod BITS_PER_BLOCK mod 8)" using that(2) by blast
      then show ?thesis using q(1) m8 buf by (simp add: used_def)
    qed
    show ?thesis
    proof (cases "free_bit buf")
      case None
      then have fb: "\<forall>j < BITS_PER_BLOCK. bit (buf ! (j div 8)) (j mod 8)" by (simp add: free_bit_None)
      have low: "\<forall>m < Suc k * BITS_PER_BLOCK. used f s1 m" using full [OF _ fb] us by simp
      have go: "balloc_loop f [Suc k ..< B] s1 = (b, s')" using run rd Some None by (simp add: bitmap_blk_def)
      have mu: "meta_used f s1" using Suc.prems(3) us e(4) by (simp add: meta_used_def)
      have d: "d = B - Suc k" "Suc k \<le> B" using Suc.hyps(2) by simp_all
      have l1: "layout_ok (sb_of f s1)" "B = unat (bitmap_blocks (sb_of f s1))" using Suc.prems(2,4) e(4) by simp_all
      note ih = Suc.hyps(1) [OF d(1) tx_frameD(1) [OF e(1)] l1(1) mu l1(2) d(2) low go]
      have "balloc_post f s1 b s' = balloc_post f s b s'" using e(2,4) us by (simp add: balloc_post_def)
      then show ?thesis using ih tx_frame_trans [OF e(1)] e(2,4,6) us by (auto split: if_splits)
    next
      case fb: (Some n)
      let ?blk = "of_nat k * of_nat BITS_PER_BLOCK + of_nat n :: u32"
      have n: "n < BITS_PER_BLOCK" "\<forall>j < n. bit (buf ! (j div 8)) (j mod 8)" using fb by (simp_all add: free_bit_Some)
      have "k * BITS_PER_BLOCK + n < (k + 1) * BITS_PER_BLOCK" using n(1) by simp
      also have "\<dots> \<le> unat (bitmap_blocks ?sb) * BITS_PER_BLOCK" using kb by (intro mult_le_mono1) simp
      finally have "k * BITS_PER_BLOCK + n < 2 ^ 32" using layout_okD(8) [OF Suc.prems(2)] by linarith
      then have ub: "unat ?blk = k * BITS_PER_BLOCK + n" by (simp add: unat_word_ariths unat_of_nat mod_less)
      have low: "\<forall>m < unat ?blk. used f s m" unfolding ub using full [OF _ n(2)] n(1) by simp
      show ?thesis
      proof (cases "total_blocks ?sb \<le> ?blk")
        case True
        then have "b = 0" "s' = s1" using run rd Some fb e(4) by (simp_all add: bitmap_blk_def Let_def)
        moreover have "\<forall>m < unat (total_blocks ?sb). used f s m"
          using low True by (auto simp: word_le_nat_alt)
        ultimately show ?thesis using e by simp
      next
        case False
        let ?buf' = "buf[n div 8 := buf ! (n div 8) OR push_bit (n mod 8) 1]"
        obtain r2 s2 where st1: "journal_stage f ?bm ?buf' s1 = (r2, s2)" by fastforce
        have len: "length ?buf' = KFS_BLOCK_SIZE" using buf Suc.prems(1) bmu(2) by (simp add: in_tx_def length_view)
        have u1: "usable f s1 ?bm" using bmu(2) tx_frameD(5) [OF e(1)] by simp
        note e2 = tx_stage [OF tx_frameD(1) [OF e(1)] u1 len st1]
        show ?thesis
        proof (cases r2)
          case False
          then have "b = 0" "s' = s2"
            using run rd Some fb e(4) st1 \<open>\<not> total_blocks ?sb \<le> ?blk\<close> by (simp_all add: bitmap_blk_def Let_def)
          then show ?thesis using e2(1,3) False tx_frame_trans [OF e(1)] by simp
        next
          case True
          obtain r3 s3 where st2: "sb_sync f (set_free_blocks f (\<lambda>n. n - 1) s2) = (r3, s3)" by fastforce
          obtain r4 s4 where st3: "journal_stage f ?blk (replicate KFS_BLOCK_SIZE 0) s3 = (r4, s4)" by fastforce
          have l1: "layout_ok (sb_of f s1)" and mu1: "meta_used f s1" and kb1: "k < unat (bitmap_blocks (sb_of f s1))"
            using Suc.prems(2,3) kb us e(4) by (simp_all add: meta_used_def)
          have fb1: "free_bit (view f s1 (bitmap_blk f s1 k)) = Some n" using fb buf bm1 e(2) by simp
          have lt: "?blk < total_blocks (sb_of f s1)" using False e(4) by simp
          have st1': "journal_stage f (bitmap_blk f s1 k) ((view f s1 (bitmap_blk f s1 k))[n div 8 :=
              view f s1 (bitmap_blk f s1 k) ! (n div 8) OR push_bit (n mod 8) 1]) s1 = (True, s2)"
            using st1 True buf bm1 e(2) by simp
          note bc = balloc_claim [OF tx_frameD(1) [OF e(1)] l1 mu1 kb1 fb1 refl lt st1' st2 st3]
          have res: "b = (if r4 then ?blk else 0)" "s' = s4"
            using run rd Some fb e(4) st1 True st2 st3 False
            by (cases r4; simp add: bitmap_blk_def Let_def)+
          have "balloc_post f s1 ?blk s4 = balloc_post f s ?blk s4" using e(2,4) us by (simp add: balloc_post_def)
          then show ?thesis using res bc low tx_frame_trans [OF e(1) bc(1)] by (cases r4) auto
        qed
      qed
    qed
  qed
qed

lemma balloc_ok:
  assumes "in_tx f s" and "layout_ok (sb_of f s)" and "meta_used f s" and "balloc f s = (b, s')"
  shows "tx_frame f s s'"
    and "b = 0 \<Longrightarrow> j_failed (jtx s') \<or> view f s' = view f s \<and>
      ((\<forall>m < unat (total_blocks (sb_of f s)). used f s m) \<or> \<not> no_faults s f)"
    and "b \<noteq> 0 \<Longrightarrow> balloc_post f s b s'" and "b \<noteq> 0 \<Longrightarrow> \<forall>m < unat b. used f s m"
  using balloc_loop_ok [OF assms(1-3) refl, of 0 b s'] assms(4) by (auto simp: balloc_def split: if_splits)


section \<open>Release\<close>

lemma bfree_ok:
  assumes tx: "in_tx f s" and l: "layout_ok (sb_of f s)"
    and b: "unat (data_start (sb_of f s)) \<le> unat b" "unat b < unat (total_blocks (sb_of f s))"
  shows "tx_frame f s (bfree f b s)" and "\<And>c. beyond f s c \<Longrightarrow> view f (bfree f b s) c = view f s c"
    and "\<lbrakk>\<not> j_failed (jtx (bfree f b s)); no_faults s f; m < unat (bitmap_blocks (sb_of f s)) * BITS_PER_BLOCK\<rbrakk> \<Longrightarrow>
      used f (bfree f b s) m \<longleftrightarrow> m \<noteq> unat b \<and> used f s m"
    and "\<lbrakk>no_faults s f; used f s (unat b)\<rbrakk> \<Longrightarrow>
      free_blocks (sb_of f (bfree f b s)) = free_blocks (sb_of f s) + 1"
proof -
  let ?sb = "sb_of f s" and ?bb = "unat b div BITS_PER_BLOCK" and ?n = "unat b mod BITS_PER_BLOCK"
  let ?bm = "bitmap_blk f s ?bb" and ?s' = "bfree f b s"
  note lo = layout_okD [OF l]
  have bb: "?bb < unat (bitmap_blocks ?sb)" using b(2) lo(7) by (simp add: div_less_iff_less_mult)
  note bmu = bitmap_blk_unat [OF l bb]
  have n: "?n < BITS_PER_BLOCK" by simp
  have ud: "unat (b div of_nat BITS_PER_BLOCK) = ?bb" by (simp add: unat_div_distrib)
  have "b div of_nat BITS_PER_BLOCK = of_nat ?bb" unfolding ud [symmetric] by simp
  then have bmb: "bitmap_start ?sb + b div of_nat BITS_PER_BLOCK = ?bm" by (simp add: bitmap_blk_def)
  have i: "unat ((b div 8) mod of_nat KFS_BLOCK_SIZE) = ?n div 8" "unat (b mod 8) = ?n mod 8"
  proof -
    have "unat ((b div 8) mod of_nat KFS_BLOCK_SIZE) = unat b div 8 mod 4096"
      by (simp add: unat_mod_distrib unat_div_distrib)
    also have "\<dots> = ?n div 8" using mod_mult2_eq [of "unat b" 8 4096] by simp
    finally show "unat ((b div 8) mod of_nat KFS_BLOCK_SIZE) = ?n div 8" .
    have "?n mod 8 = unat b mod 8" by (rule mod_mod_cancel) simp
    then show "unat (b mod 8) = ?n mod 8" by (simp add: unat_mod_distrib)
  qed
  have guard: "\<not> (b < data_start ?sb \<or> b \<ge> total_blocks ?sb)"
    using b by (simp add: word_less_nat_alt word_le_nat_alt)
  obtain r s1 where rd: "bread f ?bm s = (r, s1)" by fastforce
  note e = tx_bread [OF tx bmu(2) rd]
  have bm1: "bitmap_start (sb_of f s1) + b div of_nat BITS_PER_BLOCK = ?bm" using e(4) bmb by simp
  have us: "used f s1 = used f s" by (rule used_view [OF e(2,4)])
  have bmlt: "unat (bitmap_blk f s c) < unat (journal_start ?sb)" "bitmap_blk f s c \<noteq> 0"
    "bitmap_blk f s c = ?bm \<longleftrightarrow> c = ?bb" if "c < unat (bitmap_blocks ?sb)" for c
    using bitmap_blk_unat(1) [OF l that] bmu(1) that lo by (auto simp: word_unat_eq_iff)
  have nn: "?bb * BITS_PER_BLOCK + ?n = unat b" by simp
  have main: "tx_frame f s ?s' \<and> (\<forall>c. beyond f s c \<longrightarrow> view f ?s' c = view f s c) \<and>
      (\<not> j_failed (jtx ?s') \<and> no_faults s f \<longrightarrow> (\<forall>m < unat (bitmap_blocks ?sb) * BITS_PER_BLOCK.
          used f ?s' m \<longleftrightarrow> m \<noteq> unat b \<and> used f s m)) \<and>
      (no_faults s f \<and> used f s (unat b) \<longrightarrow> free_blocks (sb_of f ?s') = free_blocks ?sb + 1)"
  proof (cases r)
    case None
    then have "?s' = s1" using guard rd bmb by (simp add: bfree_def Let_def)
    then show ?thesis using e None by simp
  next
    case (Some buf)
    then have buf: "buf = view f s ?bm" using e(3) by simp
    have ub: "used f s (unat b) \<longleftrightarrow> bit (buf ! (?n div 8)) (?n mod 8)"
      using i(2) by (simp add: used_def buf unat_mod_distrib)
    have len: "length buf = KFS_BLOCK_SIZE" using buf tx bmu(2) by (simp add: in_tx_def length_view)
    have tst: "(buf ! (?n div 8) AND push_bit (?n mod 8) 1) = 0 \<longleftrightarrow> \<not> used f s (unat b)"
      unfolding ub by (simp add: push_bit_eq_mult)
    show ?thesis
    proof (cases "used f s (unat b)")
      case False
      then have "?s' = s1" using guard rd bmb Some i tst by (simp add: bfree_def Let_def)
      moreover have "used f s m = (m \<noteq> unat b \<and> used f s m)" for m using False by auto
      ultimately show ?thesis using e(1,2) us False by simp
    next
      case True
      let ?buf' = "buf[?n div 8 := buf ! (?n div 8) AND NOT (push_bit (?n mod 8) 1)]"
      obtain r2 s2 where st1: "journal_stage f ?bm ?buf' s1 = (r2, s2)" by fastforce
      have len': "length ?buf' = KFS_BLOCK_SIZE" using len by simp
      have u1: "usable f s1 ?bm" using bmu(2) tx_frameD(5) [OF e(1)] by simp
      note e2 = tx_stage [OF tx_frameD(1) [OF e(1)] u1 len' st1]
      have sb2: "sb_of f s2 = ?sb" using e2(4) e(4) by simp
      let ?sb' = "?sb\<lparr>free_blocks := free_blocks ?sb + 1\<rparr>"
      have sl: "same_layout ?sb' (sb_of f s2)" by (simp add: same_layout_def sb2)
      note e3 = tx_set_sb [OF tx_frameD(1) [OF e2(1)] sl]
      obtain r4 s4 where st4: "sb_sync f (set_sb f ?sb' s2) = (r4, s4)" by fastforce
      have l3: "layout_ok (sb_of f (set_sb f ?sb' s2))" using l layout_ok_same [OF sl] e3(3) sb2 by simp
      note e4 = tx_sb_sync [OF tx_frameD(1) [OF e3(1)] l3 st4]
      have s': "?s' = s4"
        using guard rd bmb bm1 Some i tst True st1 st4 sb2
        by (simp add: bfree_def Let_def set_free_blocks_def)
      have fr: "tx_frame f s s4"
        by (rule tx_frame_trans [OF tx_frame_trans [OF tx_frame_trans [OF e(1) e2(1)] e3(1)] e4(1)])
      have v: "view f s4 c = (if r2 \<and> c = ?bm then ?buf' else view f s c)" if "c \<noteq> 0" for c
        using e4(2) [OF that] e3(2) e2(2) e(2) by simp
      have "view f s4 c = view f s c" if "beyond f s c" for c
      proof -
        have "c \<noteq> 0" "c \<noteq> ?bm" using that bmlt(1) [OF bb] lo by auto
        then show ?thesis using v by simp
      qed
      moreover have "used f s4 m = (\<lambda>p q. \<not> p \<and> q) (m = ?bb * BITS_PER_BLOCK + ?n) (used f s m)"
        if nf: "\<not> j_failed (jtx s4)" and m: "m < unat (bitmap_blocks ?sb) * BITS_PER_BLOCK" for m
      proof -
        have "tx_frame f s2 s4" by (rule tx_frame_trans [OF e3(1) e4(1)])
        then have r2: r2 using nf e2(3) tx_frameD(6) by blast
        show ?thesis
        proof (rule used_change [OF l tx_frameD(2) [OF fr] bb n m])
          show "view f s4 (bitmap_blk f s c) = view f s (bitmap_blk f s c)"
            if "c < unat (bitmap_blocks ?sb)" "c \<noteq> ?bb" for c
            using bmlt [OF that(1)] v that(2) by simp
          show "bit (view f s4 ?bm ! (k div 8)) (k mod 8) = (\<not> k = ?n \<and> bit (view f s ?bm ! (k div 8)) (k mod 8))"
            if "k < BITS_PER_BLOCK" for k
            using bmlt(2) [OF bb] v r2 bit_set_bit(2) [OF len n that] buf by simp
        qed simp
      qed
      moreover have "sb_of f s4 = ?sb'" using e4(4) e3(3) by simp
      ultimately show ?thesis using s' fr nn by simp
    qed
  qed
  then show "tx_frame f s ?s'" "\<And>c. beyond f s c \<Longrightarrow> view f ?s' c = view f s c" by blast+
  show "used f ?s' m \<longleftrightarrow> m \<noteq> unat b \<and> used f s m"
    if "\<not> j_failed (jtx ?s')" "no_faults s f" "m < unat (bitmap_blocks ?sb) * BITS_PER_BLOCK"
    using main that by blast
  show "free_blocks (sb_of f ?s') = free_blocks ?sb + 1" if "no_faults s f" "used f s (unat b)"
    using main that by blast
qed


section \<open>Inodes\<close>

definition inode_at :: "nat \<Rightarrow> kfs_state \<Rightarrow> u32 \<Rightarrow> kfs_inode" where
  "inode_at f s ino = dec_inode (get_bytes (inode_off ino) 64 (view f s (inode_blk (sb_of f s) ino)))"

lemma inode_off_le: "inode_off ino + 64 \<le> KFS_BLOCK_SIZE"
proof -
  have "(ino - 1) mod (64::u32) < 64" by (rule word_mod_less_divisor) simp
  then have "unat ((ino - 1) mod 64) < 64" by (simp add: word_less_nat_alt)
  then show ?thesis by (simp add: inode_off_def)
qed

lemma unat_pred: "1 \<le> ino \<Longrightarrow> unat (ino - 1 :: u32) = unat ino - 1"
  by (simp add: unat_sub)

lemma inode_blk_unat:
  assumes "layout_ok (sb_of f s)" and "ino_valid (sb_of f s) ino"
  shows "unat (inode_blk (sb_of f s) ino) = unat (inode_start (sb_of f s)) + (unat ino - 1) div 64"
    and "usable f s (inode_blk (sb_of f s) ino)"
    and "unat (inode_blk (sb_of f s) ino) < unat (data_start (sb_of f s))"
    and "beyond f s (inode_blk (sb_of f s) ino)"
proof -
  let ?sb = "sb_of f s"
  note lo = layout_okD [OF assms(1)]
  have v: "1 \<le> ino" "unat ino \<le> unat (inode_count ?sb)"
    using assms(2) by (simp_all add: ino_valid_def word_le_nat_alt)
  have "0 < unat ino" using v(1) by (simp add: word_le_nat_alt)
  then have q: "(unat ino - 1) div 64 < unat (inode_blocks ?sb)"
    using v(2) lo(6) by (simp add: div_less_iff_less_mult)
  have "unat ((ino - 1) div 64) = (unat ino - 1) div 64"
    using v(1) by (simp add: unat_div_distrib unat_pred)
  then show u: "unat (inode_blk ?sb ino) = unat (inode_start ?sb) + (unat ino - 1) div 64"
    unfolding inode_blk_def using q lo(4,5) u32_less [of "total_blocks ?sb"]
    by (simp add: unat_word_ariths mod_less)
  show lt: "unat (inode_blk ?sb ino) < unat (data_start ?sb)" using u q lo by simp
  show "usable f s (inode_blk ?sb ino)" unfolding usable_def home_def using u lt lo by simp
  show "beyond f s (inode_blk ?sb ino)" using u lo by simp
qed

lemma inode_slot_disjoint:
  assumes "layout_ok (sb_of f s)" and "ino_valid (sb_of f s) i" and "ino_valid (sb_of f s) j" and "i \<noteq> j"
    and "inode_blk (sb_of f s) i = inode_blk (sb_of f s) j"
  shows "inode_off i + 64 \<le> inode_off j \<or> inode_off j + 64 \<le> inode_off i"
proof -
  have v: "1 \<le> i" "1 \<le> j" using assms(2,3) by (simp_all add: ino_valid_def)
  have "(unat i - 1) div 64 = (unat j - 1) div 64"
    using inode_blk_unat(1) [OF assms(1,2)] inode_blk_unat(1) [OF assms(1,3)] assms(5) by simp
  moreover have "unat i - 1 \<noteq> unat j - 1"
    using v assms(4) by (auto simp: word_unat_eq_iff word_le_nat_alt)
  ultimately have "(unat i - 1) mod 64 \<noteq> (unat j - 1) mod 64"
    by (metis div_mult_mod_eq)
  then show ?thesis using v by (auto simp: inode_off_def unat_mod_distrib unat_pred)
qed

lemma iget_ok:
  assumes ok: "store_ok f s" and l: "layout_ok (sb_of f s)" and ret: "iget f ino s = (r, s')"
  shows "store_ok f s'" and "view f s' = view f s" and "frm f s s'" and "fs_block s' f = fs_block s f"
    and "r = None \<or> r = Some (inode_at f s ino) \<and> mounted (fss s f) \<and> ino_valid (sb_of f s) ino"
    and "\<lbrakk>r = None; mounted (fss s f); ino_valid (sb_of f s) ino\<rbrakk> \<Longrightarrow> \<not> no_faults s f"
proof -
  have main: "store_ok f s' \<and> view f s' = view f s \<and> frm f s s' \<and> fs_block s' f = fs_block s f \<and>
    (r = None \<or> r = Some (inode_at f s ino) \<and> mounted (fss s f) \<and> ino_valid (sb_of f s) ino) \<and>
    (r = None \<and> mounted (fss s f) \<and> ino_valid (sb_of f s) ino \<longrightarrow> \<not> no_faults s f)"
  proof (cases "mounted (fss s f) \<and> ino_valid (sb_of f s) ino")
    case False
    then show ?thesis using ret ok by (auto simp: iget_def)
  next
    case True
    obtain x s1 where rd: "bread f (inode_blk (sb_of f s) ino) s = (x, s1)" by fastforce
    note e = bread_effect [OF ok inode_blk_unat(2) [OF l conjunct2 [OF True]] rd]
    have "s' = s1 \<and> r = map_option (\<lambda>buf. dec_inode (get_bytes (inode_off ino) 64 buf)) x"
      using ret True rd by (cases x) (auto simp: iget_def)
    then show ?thesis using e True by (cases x) (auto simp: inode_at_def no_faults_def)
  qed
  then show "store_ok f s'" "view f s' = view f s" "frm f s s'" "fs_block s' f = fs_block s f"
    "r = None \<or> r = Some (inode_at f s ino) \<and> mounted (fss s f) \<and> ino_valid (sb_of f s) ino" by blast+
  show "\<not> no_faults s f" if "r = None" "mounted (fss s f)" "ino_valid (sb_of f s) ino" using main that by blast
qed

lemma tx_iget:
  assumes tx: "in_tx f s" and l: "layout_ok (sb_of f s)" and ret: "iget f ino s = (r, s')"
  shows "tx_frame f s s'" and "view f s' = view f s" and "sb_of f s' = sb_of f s"
    and "r = None \<or> r = Some (inode_at f s ino) \<and> mounted (fss s f) \<and> ino_valid (sb_of f s) ino"
    and "\<lbrakk>r = None; mounted (fss s f); ino_valid (sb_of f s) ino\<rbrakk> \<Longrightarrow> \<not> no_faults s f"
    and "no_faults s' f = no_faults s f"
proof -
  have ok: "store_ok f s" using tx by (simp add: in_tx_def)
  note e = iget_ok [OF ok l ret]
  show "sb_of f s' = sb_of f s" by (rule frm_sb [OF e(3)])
  show "view f s' = view f s" "r = None \<or> r = Some (inode_at f s ino) \<and> mounted (fss s f) \<and> ino_valid (sb_of f s) ino"
    using e by blast+
  show "\<not> no_faults s f" if "r = None" "mounted (fss s f)" "ino_valid (sb_of f s) ino" using e(6) that by blast
  have "dev_frame (devs s (f_dev s f)) (devs s' (f_dev s f))" using e(3) by (simp add: frm_def)
  then have "fault (devs s' (f_dev s f)) = fault (devs s (f_dev s f))" by (rule dev_frame_fields(5))
  then show nf: "no_faults s' f = no_faults s f" using e(3) by (simp add: no_faults_def frm_def)
  show "tx_frame f s s'" using in_tx_frm [OF tx e(1,3)] e(3,4) nf by (simp add: tx_frame_def frm_def)
qed

lemma iput_ok:
  assumes tx: "in_tx f s" and l: "layout_ok (sb_of f s)" and v: "ino_valid (sb_of f s) ino"
    and d: "length (direct ip) = KFS_NDIRECT" and ret: "iput f ino ip s = (r, s')"
  shows "tx_frame f s s'" and "sb_of f s' = sb_of f s"
    and "\<And>c. c \<noteq> inode_blk (sb_of f s) ino \<Longrightarrow> view f s' c = view f s c"
    and "r \<Longrightarrow> inode_at f s' ino = ip"
    and "\<lbrakk>j \<noteq> ino; ino_valid (sb_of f s) j\<rbrakk> \<Longrightarrow> inode_at f s' j = inode_at f s j"
    and "\<not> r \<Longrightarrow> view f s' = view f s \<and> (j_failed (jtx s') \<or> \<not> no_faults s f)"
proof -
  let ?b = "inode_blk (sb_of f s) ino" and ?o = "inode_off ino"
  note u = inode_blk_unat [OF l v]
  have len: "length (view f s ?b) = KFS_BLOCK_SIZE" using tx u(2) by (simp add: in_tx_def length_view)
  have off: "?o + length (enc_inode ip) \<le> length (view f s ?b)" using inode_off_le [of ino] d len by simp
  obtain x s1 where rd: "bread f ?b s = (x, s1)" by fastforce
  note e = tx_bread [OF tx u(2) rd]
  have main: "tx_frame f s s' \<and> sb_of f s' = sb_of f s \<and>
      view f s' = (if r then (view f s)(?b := put_bytes ?o (enc_inode ip) (view f s ?b)) else view f s) \<and>
      (\<not> r \<longrightarrow> j_failed (jtx s') \<or> \<not> no_faults s f)"
  proof (cases x)
    case None
    then show ?thesis using ret rd e by (simp add: iput_def)
  next
    case (Some buf)
    then have buf: "buf = view f s ?b" using e(3) by simp
    then have st: "journal_stage f ?b (put_bytes ?o (enc_inode ip) (view f s ?b)) s1 = (r, s')"
      using ret rd Some by (simp add: iput_def)
    have u1: "usable f s1 ?b" using u(2) tx_frameD(5) [OF e(1)] by simp
    have pl: "length (put_bytes ?o (enc_inode ip) (view f s ?b)) = KFS_BLOCK_SIZE" using off len by simp
    note e2 = tx_stage [OF tx_frameD(1) [OF e(1)] u1 pl st]
    show ?thesis using e2 e(2,4) tx_frame_trans [OF e(1) e2(1)] by auto
  qed
  then show "tx_frame f s s'" and sb: "sb_of f s' = sb_of f s" by blast+
  show "view f s' c = view f s c" if "c \<noteq> ?b" for c using main that by simp
  show "view f s' = view f s \<and> (j_failed (jtx s') \<or> \<not> no_faults s f)" if "\<not> r" using main that by simp
  show "inode_at f s' ino = ip" if r
  proof -
    have "get_bytes ?o 64 (view f s' ?b) = enc_inode ip"
      using main that off d by (simp add: get_put_same)
    then show ?thesis using dec_enc_inode [OF d, of "[]"] by (simp add: inode_at_def sb)
  qed
  show "inode_at f s' j = inode_at f s j" if "j \<noteq> ino" "ino_valid (sb_of f s) j"
  proof (cases "r \<and> inode_blk (sb_of f s) j = ?b")
    case True
    then have dj: "?o + 64 \<le> inode_off j \<or> inode_off j + 64 \<le> ?o"
      using inode_slot_disjoint [OF l v that(2)] that(1) by auto
    have "get_bytes (inode_off j) 64 (put_bytes ?o (enc_inode ip) (view f s ?b)) = get_bytes (inode_off j) 64 (view f s ?b)"
      by (rule get_put_disjoint [OF off]) (use dj inode_off_le [of j] len d in auto)
    then show ?thesis using main True by (simp add: inode_at_def sb)
  next
    case False
    then show ?thesis using main by (auto simp: inode_at_def sb)
  qed
qed


section \<open>Room in the journal\<close>

text \<open>A transaction that has not overflowed and can take \<open>k\<close> more blocks.\<close>

definition room :: "kfs_state \<Rightarrow> nat \<Rightarrow> bool" where
  "room s k \<longleftrightarrow> \<not> j_failed (jtx s) \<and> length (j_entries (jtx s)) + k \<le> KFS_JOURNAL_ENTRIES"

lemma room_less: "room s k \<Longrightarrow> j \<le> k \<Longrightarrow> room s j" by (simp add: room_def)

lemma room_jtx: "jtx s' = jtx s \<Longrightarrow> room s' k = room s k" by (simp add: room_def)

lemma room_stage:
  assumes tx: "in_tx f s" and r: "room s (Suc k)" and ret: "journal_stage f b buf s = (ok, s')"
  shows "ok" and "room s' k"
proof -
  have act: "j_active (jtx s)" "j_fs (jtx s) = Some f" using tx by (simp_all add: in_tx_def)
  have es: "distinct (map fst (j_entries (jtx s)))" using tx by (simp add: in_tx_def store_ok_def)
  have "journal_stage f b buf s = (True, s\<lparr>jtx := (jtx s)\<lparr>j_entries := stage_entry b buf (j_entries (jtx s))\<rparr>\<rparr>)"
    using act r by (simp add: journal_stage_def room_def)
  then have s': "ok" "s' = s\<lparr>jtx := (jtx s)\<lparr>j_entries := stage_entry b buf (j_entries (jtx s))\<rparr>\<rparr>" using ret by simp_all
  have "length (stage_entry b buf (j_entries (jtx s))) \<le> Suc (length (j_entries (jtx s)))"
    using stage_entry_keys [OF es, of b buf] by auto
  then show "room s' k" using r s'(2) by (simp add: room_def)
  show ok by (rule s'(1))
qed

lemma bread_jtx: "store_ok f s \<Longrightarrow> usable f s b \<Longrightarrow> bread f b s = (r, s') \<Longrightarrow> jtx s' = jtx s"
  using bread_effect(3) by (simp add: frm_def)

lemma room_sb_sync:
  assumes "in_tx f s" and "layout_ok (sb_of f s)" and "room s (Suc k)" and "sb_sync f s = (ok, s')"
  shows "ok" and "room s' k"
proof -
  let ?b = "put_bytes 0 (enc_sb (sb_of f s)) (sb_block s)"
  let ?s = "s\<lparr>sb_block := ?b\<rparr>"
  have fs: "fs_block ?s f = fs_block s f" by (rule ext) (simp add: fs_block_def)
  have "geom_ok ?s f = geom_ok s f" "coh ?s f = coh s f" unfolding coh_x_def fs by (simp_all add: geom_ok_def)
  then have "in_tx f ?s" using assms(1) by (simp add: in_tx_def store_ok_def usable_def)
  moreover have "room ?s (Suc k)" using assms(3) by (simp add: room_def)
  moreover have "journal_stage f 0 ?b ?s = (ok, s')" using assms(4) by (simp add: sb_sync_def Let_def)
  ultimately show "ok" "room s' k" by (rule room_stage)+
qed

lemma room_set_sb: "room (set_sb f sb s) k = room s k" by (simp add: room_def set_sb_def upd_fs_def)

lemma room_balloc_loop:
  assumes "in_tx f s" and "layout_ok (sb_of f s)" and "\<forall>bb \<in> set bbs. bb < unat (bitmap_blocks (sb_of f s))"
    and "room s (k + 3)" and "balloc_loop f bbs s = (b, s')"
  shows "room s' k"
  using assms
proof (induction bbs arbitrary: s)
  case Nil
  then show ?case using room_less by simp
next
  case (Cons bb bbs)
  have bb: "bb < unat (bitmap_blocks (sb_of f s))" using Cons.prems(3) by simp
  let ?bm = "bitmap_blk f s bb"
  note bmu = bitmap_blk_unat [OF Cons.prems(2) bb]
  obtain r s1 where rd: "bread f ?bm s = (r, s1)" by fastforce
  note e = tx_bread [OF Cons.prems(1) bmu(2) rd]
  have "store_ok f s" using Cons.prems(1) by (simp add: in_tx_def)
  then have r1: "room s1 (k + 3)" using Cons.prems(4) room_jtx [OF bread_jtx [OF _ bmu(2) rd]] by simp
  have tx1: "in_tx f s1" by (rule tx_frameD(1) [OF e(1)])
  have l1: "layout_ok (sb_of f s1)" using Cons.prems(2) e(4) by simp
  show ?case
  proof (cases r)
    case None
    then show ?thesis using Cons.prems(5) rd r1 room_less by (simp add: bitmap_blk_def)
  next
    case (Some buf)
    then have buf: "buf = view f s ?bm" using e(3) by simp
    show ?thesis
    proof (cases "free_bit buf")
      case None
      then have "balloc_loop f bbs s1 = (b, s')" using Cons.prems(5) rd Some by (simp add: bitmap_blk_def)
      then show ?thesis using Cons.IH [OF tx1 l1] Cons.prems(3) r1 e(4) by simp
    next
      case fb: (Some n)
      let ?blk = "of_nat bb * of_nat BITS_PER_BLOCK + of_nat n :: u32"
      let ?buf' = "buf[n div 8 := buf ! (n div 8) OR push_bit (n mod 8) 1]"
      show ?thesis
      proof (cases "total_blocks (sb_of f s) \<le> ?blk")
        case True
        then show ?thesis using Cons.prems(5) rd Some fb e(4) r1 room_less by (simp add: bitmap_blk_def Let_def)
      next
        case False
        obtain r2 s2 where st1: "journal_stage f ?bm ?buf' s1 = (r2, s2)" by fastforce
        have "room s1 (Suc (k + 2))" using r1 by (rule room_less) simp
        note x2 = room_stage [OF tx1 this st1]
        have len: "length ?buf' = KFS_BLOCK_SIZE" using buf Cons.prems(1) bmu(2) by (simp add: in_tx_def length_view)
        have u1: "usable f s1 ?bm" using bmu(2) tx_frameD(5) [OF e(1)] by simp
        note e2 = tx_stage [OF tx1 u1 len st1]
        let ?sb' = "(sb_of f s2)\<lparr>free_blocks := free_blocks (sb_of f s2) - 1\<rparr>"
        have sl: "same_layout ?sb' (sb_of f s2)" by (simp add: same_layout_def)
        note e3 = tx_set_sb [OF tx_frameD(1) [OF e2(1)] sl]
        have l3: "layout_ok (sb_of f (set_sb f ?sb' s2))"
          using l1 layout_ok_same [OF sl] e3(3) e2(4) by simp
        obtain r3 s3 where st3: "sb_sync f (set_sb f ?sb' s2) = (r3, s3)" by fastforce
        have "room (set_sb f ?sb' s2) (Suc (k + 1))" using x2(2) by (simp add: room_set_sb)
        note x3 = room_sb_sync [OF tx_frameD(1) [OF e3(1)] l3 this st3]
        have tx3: "in_tx f s3" by (rule tx_frameD(1) [OF tx_sb_sync(1) [OF tx_frameD(1) [OF e3(1)] l3 st3]])
        obtain r4 s4 where st4: "journal_stage f ?blk (replicate KFS_BLOCK_SIZE 0) s3 = (r4, s4)" by fastforce
        have "room s3 (Suc k)" using x3(2) by simp
        note x4 = room_stage [OF tx3 this st4]
        have "s' = s4" using Cons.prems(5) rd Some fb e(4) False st1 x2(1) st3 st4 x4(1)
          by (simp add: bitmap_blk_def Let_def set_free_blocks_def)
        then show ?thesis using x4(2) by simp
      qed
    qed
  qed
qed

lemma room_balloc:
  assumes "in_tx f s" and "layout_ok (sb_of f s)" and "room s (k + 3)" and "balloc f s = (b, s')"
  shows "room s' k"
  using room_balloc_loop [OF assms(1,2) _ assms(3), of "[0 ..< unat (bitmap_blocks (sb_of f s))]"] assms(4)
  by (simp add: balloc_def)

lemma room_bfree:
  assumes tx: "in_tx f s" and l: "layout_ok (sb_of f s)"
    and b: "unat (data_start (sb_of f s)) \<le> unat b" "unat b < unat (total_blocks (sb_of f s))"
    and r: "room s (k + 2)"
  shows "room (bfree f b s) k"
proof -
  let ?bb = "unat b div BITS_PER_BLOCK"
  let ?bm = "bitmap_blk f s ?bb"
  have bb: "?bb < unat (bitmap_blocks (sb_of f s))" using b(2) layout_okD(7) [OF l] by (simp add: div_less_iff_less_mult)
  note bmu = bitmap_blk_unat [OF l bb]
  have ud: "unat (b div of_nat BITS_PER_BLOCK) = ?bb" by (simp add: unat_div_distrib)
  have "b div of_nat BITS_PER_BLOCK = of_nat ?bb" unfolding ud [symmetric] by simp
  then have bm: "bitmap_start (sb_of f s) + b div of_nat BITS_PER_BLOCK = ?bm" by (simp add: bitmap_blk_def)
  obtain x s1 where rd: "bread f ?bm s = (x, s1)" by fastforce
  note e = tx_bread [OF tx bmu(2) rd]
  have "store_ok f s" using tx by (simp add: in_tx_def)
  then have r1: "room s1 (k + 2)" using r room_jtx [OF bread_jtx [OF _ bmu(2) rd]] by simp
  have guard: "\<not> (b < data_start (sb_of f s) \<or> b \<ge> total_blocks (sb_of f s))"
    using b by (simp add: word_less_nat_alt word_le_nat_alt)
  show ?thesis
  proof (cases x)
    case None
    then have "bfree f b s = s1" using guard rd bm by (simp add: bfree_def Let_def)
    then show ?thesis using r1 room_less by simp
  next
    case (Some buf)
    let ?i = "unat ((b div 8) mod of_nat KFS_BLOCK_SIZE)" and ?j = "unat (b mod 8)"
    show ?thesis
    proof (cases "(buf ! ?i AND push_bit ?j 1) = 0")
      case True
      then have "bfree f b s = s1" using guard rd bm Some by (simp add: bfree_def Let_def)
      then show ?thesis using r1 room_less by simp
    next
      case False
      let ?buf' = "buf[?i := buf ! ?i AND NOT (push_bit ?j 1)]"
      obtain r2 s2 where st1: "journal_stage f ?bm ?buf' s1 = (r2, s2)" by fastforce
      have "room s1 (Suc (k + 1))" using r1 by simp
      note x2 = room_stage [OF tx_frameD(1) [OF e(1)] this st1]
      have len: "length ?buf' = KFS_BLOCK_SIZE" using Some e(3) tx bmu(2) by (simp add: in_tx_def length_view)
      have u1: "usable f s1 ?bm" using bmu(2) tx_frameD(5) [OF e(1)] by simp
      note e2 = tx_stage [OF tx_frameD(1) [OF e(1)] u1 len st1]
      let ?sb' = "(sb_of f s2)\<lparr>free_blocks := free_blocks (sb_of f s2) + 1\<rparr>"
      have sl: "same_layout ?sb' (sb_of f s2)" by (simp add: same_layout_def)
      note e3 = tx_set_sb [OF tx_frameD(1) [OF e2(1)] sl]
      have l3: "layout_ok (sb_of f (set_sb f ?sb' s2))"
        using l layout_ok_same [OF sl] e3(3) e2(4) e(4) by simp
      obtain r3 s3 where st3: "sb_sync f (set_sb f ?sb' s2) = (r3, s3)" by fastforce
      have "room (set_sb f ?sb' s2) (Suc k)" using x2(2) by (simp add: room_set_sb)
      note x3 = room_sb_sync [OF tx_frameD(1) [OF e3(1)] l3 this st3]
      have "bfree f b s = s3" using guard rd bm Some False st1 st3 e(4)
        by (simp add: bfree_def Let_def set_free_blocks_def)
      then show ?thesis using x3(2) by simp
    qed
  qed
qed

section \<open>Properties\<close>

text \<open>The 40-block file system with a bitmap that marks its 36 metadata blocks.\<close>

definition demo_media :: "nat \<Rightarrow> byte list" where
  "demo_media b = (if b = 1 then [255, 255, 255, 255, 15] @ replicate 4091 0 else replicate 4096 0)"

definition demo_fs :: kfs_state where
  "demo_fs = demo_kfs (demo_disk (\<lambda>_. None) demo_media) []"

lemma demo_fs_sb [simp]: "sb_of f demo_fs = demo_sb" by (simp add: demo_fs_def demo_kfs_def)

lemma demo_layout: "layout_ok demo_sb"
  by (simp add: layout_ok_def demo_sb_def)

lemma demo_fs_tx: "in_tx 0 demo_fs"
proof -
  have "geom_ok demo_fs 0" unfolding demo_fs_def by (rule demo_geom) (simp add: demo_media_def)
  then show ?thesis by (simp add: demo_fs_def in_tx_def store_ok_def coh_x_def demo_kfs_def)
qed

lemma demo_fs_view: "view 0 demo_fs b = demo_media (unat b)"
  using demo_block [of "\<lambda>_. None" demo_media "[]" 0] unfolding view_def demo_fs_def [symmetric]
  by (simp add: demo_fs_def journal_pending_def demo_kfs_def)

lemma demo_byte15: "bit (15::byte) k \<longleftrightarrow> k < 4"
proof -
  have "(15::byte) = mask 4" by (simp add: mask_eq_exp_minus_1)
  then have "bit (15::byte) k \<longleftrightarrow> k < LENGTH(8) \<and> k < 4" by (simp only: bit_mask_iff) simp
  then show ?thesis by auto
qed

lemma demo_used: "n < 40 \<Longrightarrow> used 0 demo_fs n \<longleftrightarrow> n < 36"
proof -
  assume n: "n < 40"
  have "unat (bitmap_blk 0 demo_fs 0) = 1" by (simp add: bitmap_blk_def demo_sb_def)
  then have u: "used 0 demo_fs n \<longleftrightarrow> bit (([255, 255, 255, 255, 15] @ replicate 4091 0 :: byte list) ! (n div 8)) (n mod 8)"
    using n by (simp add: used_def demo_fs_view demo_media_def)
  have c: "n div 8 = 0 \<or> n div 8 = 1 \<or> n div 8 = 2 \<or> n div 8 = 3 \<or> n div 8 = 4" using n by presburger
  have lt: "n div 8 < 4 \<longleftrightarrow> n < 32" "n div 8 = 4 \<longleftrightarrow> 32 \<le> n" using n by presburger+
  have "n mod 8 < 4 \<longleftrightarrow> n < 36" if "n div 8 = 4" using that n by presburger
  then show ?thesis using u c lt bit_byte_255 [of "n mod 8"] demo_byte15 [of "n mod 8"] by auto
qed

lemma demo_meta: "meta_used 0 demo_fs"
  unfolding meta_used_def using demo_used by (auto simp: demo_sb_def)

text \<open>
  C24. Inside a transaction on a laid-out file system whose metadata blocks are marked, on a working
  device and with room for three more blocks in the journal, \<^verbatim>\<open>balloc\<close> fails exactly when every block is
  marked, and then changes nothing. Otherwise, and whenever it returns a block at all, that is the lowest unmarked block,
  a data block; \<^verbatim>\<open>balloc\<close> marks exactly it, zeroes it, changes no other block outside the bitmap and the
  superblock, counts the free blocks down and writes that count to block 0. Without room or with a device error
  it may return 0 although a block is free, and if anything was staged by then the transaction is marked
  failed and cannot commit. It never touches the disk itself.
\<close>

theorem balloc_first_fit:
  assumes "in_tx f s" and "layout_ok (sb_of f s)" and "meta_used f s"
  shows "case balloc f s of (b, s') \<Rightarrow> in_tx f s' \<and> fs_block s' f = fs_block s f \<and>
    (room s 3 \<and> no_faults s f \<longrightarrow> \<not> j_failed (jtx s') \<and> (b = 0 \<longleftrightarrow> (\<forall>m < unat (total_blocks (sb_of f s)). used f s m))) \<and>
    (b = 0 \<and> \<not> j_failed (jtx s') \<longrightarrow> view f s' = view f s \<and>
       ((\<forall>m < unat (total_blocks (sb_of f s)). used f s m) \<or> \<not> no_faults s f)) \<and>
    (b \<noteq> 0 \<longrightarrow> balloc_post f s b s' \<and> (\<forall>m < unat b. used f s m))"
proof -
  obtain b s' where ret: "balloc f s = (b, s')" by fastforce
  note e = balloc_ok [OF assms ret]
  have room: "\<not> j_failed (jtx s')" if "room s 3"
    using room_balloc [OF assms(1,2) _ ret, of 0] that by (simp add: room_def)
  have full: "\<exists>m < unat (total_blocks (sb_of f s)). \<not> used f s m" if "b \<noteq> 0"
    using e(3) [OF that] unfolding balloc_post_def by blast
  have disk: "in_tx f s' \<and> fs_block s' f = fs_block s f" using e(1) tx_frameD(1) [OF e(1)] by (simp add: tx_frame_def)
  show ?thesis unfolding ret prod.case using disk room full e(2-4) by blast
qed

theorem balloc_first_fit_witness:
  "case balloc 0 demo_fs of (b, s') \<Rightarrow> b = 36 \<and> view 0 s' 36 = replicate 4096 0 \<and> \<not> j_failed (jtx s')"
proof -
  obtain b s' where ret: "balloc 0 demo_fs = (b, s')" by fastforce
  note law = balloc_first_fit [OF demo_fs_tx, unfolded demo_fs_sb, OF demo_layout demo_meta, unfolded ret prod.case]
  have nf: "no_faults demo_fs 0" by (simp add: no_faults_def demo_fs_def demo_kfs_def demo_disk_def)
  have rm: "room demo_fs 3" by (simp add: room_def demo_fs_def demo_kfs_def)
  have free: "\<not> used 0 demo_fs 36" "36 < unat (total_blocks demo_sb)" by (simp_all add: demo_used demo_sb_def)
  then have b: "b \<noteq> 0" "\<not> j_failed (jtx s')" using law rm nf by blast+
  then have p: "balloc_post 0 demo_fs b s'" "\<forall>m < unat b. used 0 demo_fs m" using law by blast+
  have "36 \<le> unat b" using p(1) by (simp add: balloc_post_def demo_sb_def)
  moreover have "\<not> 36 < unat b" using p(2) free(1) by blast
  ultimately have "unat b = unat (36 :: u32)" by simp
  then have "b = 36" by (simp only: word_unat_eq_iff)
  then show ?thesis using p(1) b(2) ret by (simp add: balloc_post_def)
qed

text \<open>
  C25. \<^verbatim>\<open>bfree\<close> undoes \<^verbatim>\<open>balloc\<close>: freeing the block just allocated restores every bit of the bitmap
  and the free-block counter, unless the journal is full or the device fails.
\<close>

theorem balloc_bfree_roundtrip:
  assumes "in_tx f s" and "layout_ok (sb_of f s)" and "meta_used f s" and ret: "balloc f s = (b, s1)"
    and "b \<noteq> 0" and "no_faults s1 f" and "\<not> j_failed (jtx (bfree f b s1))"
    and m: "m < unat (bitmap_blocks (sb_of f s)) * BITS_PER_BLOCK"
  shows "used f (bfree f b s1) m = used f s m \<and>
    free_blocks (sb_of f (bfree f b s1)) = free_blocks (sb_of f s)"
proof -
  note e = balloc_ok [OF assms(1-4)]
  have p: "balloc_post f s b s1" using e(3) assms(5) by simp
  note sl = tx_frameD(2) [OF e(1)] and fd = same_layout_fields [OF tx_frameD(2) [OF e(1)]]
  have l1: "layout_ok (sb_of f s1)" using assms(2) tx_frameD(4) [OF e(1)] by simp
  have b: "unat (data_start (sb_of f s1)) \<le> unat b" "unat b < unat (total_blocks (sb_of f s1))"
    using p fd by (simp_all add: balloc_post_def)
  have "unat b < unat (bitmap_blocks (sb_of f s)) * BITS_PER_BLOCK"
    using b(2) fd layout_okD(7) [OF assms(2)] by simp
  then have ub: "used f s1 (unat b)" using p by (simp add: balloc_post_def)
  have um: "used f s1 m \<longleftrightarrow> m = unat b \<or> used f s m" "\<not> used f s (unat b)"
    using p m by (simp_all add: balloc_post_def)
  note bf = bfree_ok [OF tx_frameD(1) [OF e(1)] l1 b]
  have "used f (bfree f b s1) m \<longleftrightarrow> m \<noteq> unat b \<and> used f s1 m"
    using bf(3) [of m] assms(6,7) m fd by simp
  moreover have "free_blocks (sb_of f s1) = free_blocks (sb_of f s) - 1" using p by (simp add: balloc_post_def)
  ultimately show ?thesis using um bf(4) [OF assms(6) ub] by auto
qed

theorem balloc_bfree_roundtrip_witness:
  "\<exists>s1. balloc 0 demo_fs = (36, s1) \<and> free_blocks (sb_of 0 s1) = 2 \<and>
     \<not> used 0 (bfree 0 36 s1) 36 \<and> free_blocks (sb_of 0 (bfree 0 36 s1)) = 3"
proof -
  obtain b s1 where ret: "balloc 0 demo_fs = (b, s1)" by fastforce
  have l: "layout_ok (sb_of 0 demo_fs)" by (simp add: demo_layout)
  have nf: "no_faults demo_fs 0" by (simp add: no_faults_def demo_fs_def demo_kfs_def demo_disk_def)
  note e = balloc_ok [OF demo_fs_tx l demo_meta ret]
  have "room demo_fs (6 + 3)" by (simp add: room_def demo_fs_def demo_kfs_def)
  then have rm: "room s1 6" by (rule room_balloc [OF demo_fs_tx l _ ret])
  have "\<not> used 0 demo_fs 36" by (simp add: demo_used)
  moreover have "(36::nat) < unat (total_blocks (sb_of 0 demo_fs))" by (simp add: demo_sb_def)
  ultimately have b0: "b \<noteq> 0" using e(2) nf rm by (auto simp: room_def)
  then have p: "balloc_post 0 demo_fs b s1" "\<forall>m < unat b. used 0 demo_fs m" using e(3,4) by simp_all
  then have "36 \<le> unat b" "unat b < 40" by (simp_all add: balloc_post_def demo_sb_def)
  moreover have "\<not> 36 < unat b" using p(2) \<open>\<not> used 0 demo_fs 36\<close> by blast
  ultimately have "unat b = 36" by linarith
  then have "unat b = unat (36::u32)" by simp
  then have b: "b = 36" by (simp only: word_unat_eq_iff)
  have nf1: "no_faults s1 0" using nf tx_frameD(7) [OF e(1)] by simp
  have l1: "layout_ok (sb_of 0 s1)" using l tx_frameD(4) [OF e(1)] by simp
  have sb1: "data_start (sb_of 0 s1) = 36" "total_blocks (sb_of 0 s1) = 40"
    using same_layout_fields [OF tx_frameD(2) [OF e(1)]] by (simp_all add: demo_sb_def)
  have "room s1 (0 + 2)" using rm by (rule room_less) simp
  then have r1: "room (bfree 0 36 s1) 0"
    by (intro room_bfree [OF tx_frameD(1) [OF e(1)] l1]) (simp_all add: sb1)
  have fr: "\<not> j_failed (jtx (bfree 0 b s1))" using r1 b by (simp add: room_def)
  have m: "36 < unat (bitmap_blocks (sb_of 0 demo_fs)) * BITS_PER_BLOCK" by (simp add: demo_sb_def)
  have "free_blocks (sb_of 0 s1) = 2" using p(1) by (simp add: balloc_post_def demo_sb_def)
  then show ?thesis
    using balloc_bfree_roundtrip [OF demo_fs_tx l demo_meta ret b0 nf1 fr m] ret b
      \<open>\<not> used 0 demo_fs 36\<close> by (simp add: demo_sb_def)
qed

text \<open>
  C26. The inode table is an array of records: after a successful \<^verbatim>\<open>iput\<close> an \<^verbatim>\<open>iget\<close> of the same
  inode returns exactly the record stored, unless the device fails, every other inode is unchanged,
  and so is every block other than the one the inode lives in.
\<close>

theorem iput_iget:
  assumes "in_tx f s" and "layout_ok (sb_of f s)" and "mounted (fss s f)" and "ino_valid (sb_of f s) ino"
    and "length (direct ip) = KFS_NDIRECT" and put: "iput f ino ip s = (True, s')"
  shows "(case iget f ino s' of (r, s'') \<Rightarrow> r = Some ip \<or> r = None \<and> \<not> no_faults s' f) \<and>
    (\<forall>j. j \<noteq> ino \<and> ino_valid (sb_of f s) j \<longrightarrow> inode_at f s' j = inode_at f s j) \<and>
    (\<forall>c. c \<noteq> inode_blk (sb_of f s) ino \<longrightarrow> view f s' c = view f s c)"
proof -
  note p = iput_ok [OF assms(1,2,4,5) put]
  have l': "layout_ok (sb_of f s')" and m': "mounted (fss s' f)" and v': "ino_valid (sb_of f s') ino"
    using assms(2,3,4) p(2) tx_frameD(3,4) [OF p(1)] by simp_all
  obtain r s'' where g: "iget f ino s' = (r, s'')" by fastforce
  note e = tx_iget [OF tx_frameD(1) [OF p(1)] l' g]
  show ?thesis using e(4,5) p(3-5) m' v' g by auto
qed

lemma demo_iput: "\<exists>s'. iput 0 2 zero_inode demo_fs = (True, s')"
  by (simp add: iput_def inode_blk_def bread_def journal_pending_def bcache_find_def first_from.simps
      journal_raw_read_def blockdev_read_def range_ok_def dev_read_def fs_lba_def Let_def
      demo_fs_def demo_kfs_def demo_disk_def demo_sb_def journal_stage_def cache_fill_def)

theorem iput_iget_witness:
  "\<exists>s'. iput 0 2 zero_inode demo_fs = (True, s') \<and> inode_at 0 s' 3 = inode_at 0 demo_fs 3 \<and>
     (case iget 0 2 s' of (r, s'') \<Rightarrow> r = Some zero_inode \<or> r = None \<and> \<not> no_faults s' 0)"
proof -
  obtain s' where put: "iput 0 2 zero_inode demo_fs = (True, s')" using demo_iput by blast
  have m: "mounted (fss demo_fs 0)" by (simp add: demo_fs_def demo_kfs_def)
  have v: "ino_valid demo_sb 2" "ino_valid demo_sb 3" by (simp_all add: ino_valid_def demo_sb_def)
  show ?thesis
    using iput_iget [OF demo_fs_tx _ m _ length_direct_zero put, unfolded demo_fs_sb, OF demo_layout v(1)] put v(2)
    by auto
qed

end
