(* ===== verification/Kfs_Dir.thy ===== *)
theory Kfs_Dir
  imports Kfs_Inode
begin

text \<open>
  Directories, path resolution and the name-changing entry points of KFS (\<^verbatim>\<open>kernel/kfs.c\<close>, from
  \<^verbatim>\<open>dir_lookup\<close> to \<^verbatim>\<open>kfs_readdir\<close>). A path is a C string without its terminator. A directory is a file of
  64-byte entries; the scans run over the indices of its whole entries. Inode numbers come back
  from the path walks as C \<^verbatim>\<open>int\<close>, so they are read as signed numbers there.
\<close>

section \<open>Directory entries\<close>

text \<open>\<^verbatim>\<open>strncmp(de.name, name, 60) == 0\<close>.\<close>

definition name_eq :: "byte list \<Rightarrow> cstr \<Rightarrow> bool" where
  "name_eq field name \<longleftrightarrow> take (Suc KFS_NAME_MAX) (c_string field) = take (Suc KFS_NAME_MAX) name"

text \<open>\<^verbatim>\<open>memset\<close> and \<^verbatim>\<open>strncpy(de.name, name, 59)\<close>.\<close>

definition pad_name :: "cstr \<Rightarrow> byte list" where
  "pad_name name = take KFS_NAME_MAX name @ replicate (Suc KFS_NAME_MAX - length (take KFS_NAME_MAX name)) 0"

definition dir_slots :: "kfs_inode \<Rightarrow> nat list" where
  "dir_slots ip = [0 ..< unat (i_size ip) div 64]"

fun lookup_scan :: "nat \<Rightarrow> u32 \<Rightarrow> cstr \<Rightarrow> nat list \<Rightarrow> kfs_state \<Rightarrow> u32 \<times> u32 \<times> kfs_state" where
  "lookup_scan f dir name [] s = (0, 0, s)"
| "lookup_scan f dir name (i # is) s = (case readi f dir (of_nat (64 * i)) 64 s of (r, bs, s1) \<Rightarrow>
     if r \<noteq> 64 then (0, 0, s1)
     else let de = dec_dirent bs in
       if d_ino de \<noteq> 0 \<and> name_eq (d_name de) name then (d_ino de, of_nat (64 * i), s1)
       else lookup_scan f dir name is s1)"

definition dir_lookup :: "nat \<Rightarrow> u32 \<Rightarrow> cstr \<Rightarrow> kfs_state \<Rightarrow> u32 \<times> u32 \<times> kfs_state" where
  "dir_lookup f dir name s = (case iget f dir s of (None, s1) \<Rightarrow> (0, 0, s1) | (Some ip, s1) \<Rightarrow>
     if i_type ip \<noteq> KFS_TYPE_DIR then (0, 0, s1)
     else lookup_scan f dir name (dir_slots ip) s1)"

fun slot_scan :: "nat \<Rightarrow> u32 \<Rightarrow> u32 \<Rightarrow> nat list \<Rightarrow> kfs_state \<Rightarrow> u32 option \<times> kfs_state" where
  "slot_scan f dir end [] s = (Some end, s)"
| "slot_scan f dir end (i # is) s = (case readi f dir (of_nat (64 * i)) 64 s of (r, bs, s1) \<Rightarrow>
     if r \<noteq> 64 then (None, s1)
     else if d_ino (dec_dirent bs) = 0 then (Some (of_nat (64 * i)), s1)
     else slot_scan f dir end is s1)"

definition dir_add :: "nat \<Rightarrow> u32 \<Rightarrow> cstr \<Rightarrow> u32 \<Rightarrow> u32 \<Rightarrow> kfs_state \<Rightarrow> bool \<times> kfs_state" where
  "dir_add f dir name ino mtime s = (case iget f dir s of (None, s1) \<Rightarrow> (False, s1) | (Some ip, s1) \<Rightarrow>
     if i_type ip \<noteq> KFS_TYPE_DIR then (False, s1)
     else case slot_scan f dir (i_size ip) (dir_slots ip) s1 of (None, s2) \<Rightarrow> (False, s2) | (Some slot, s2) \<Rightarrow>
       case writei f dir slot (enc_dirent \<lparr>d_ino = ino, d_name = pad_name name\<rparr>) mtime s2 of (r, s3) \<Rightarrow> (r = 64, s3))"

definition dir_remove :: "nat \<Rightarrow> u32 \<Rightarrow> cstr \<Rightarrow> u32 \<Rightarrow> kfs_state \<Rightarrow> bool \<times> kfs_state" where
  "dir_remove f dir name mtime s = (case dir_lookup f dir name s of (ino, slot, s1) \<Rightarrow>
     if ino = 0 then (False, s1)
     else case writei f dir slot (replicate 64 0) mtime s1 of (r, s2) \<Rightarrow> (r = 64, s2))"

definition is_dots :: "cstr \<Rightarrow> bool" where
  "is_dots name \<longleftrightarrow> name = [ch_dot] \<or> name = [ch_dot, ch_dot]"

fun empty_scan :: "nat \<Rightarrow> u32 \<Rightarrow> nat list \<Rightarrow> kfs_state \<Rightarrow> bool \<times> kfs_state" where
  "empty_scan f dir [] s = (True, s)"
| "empty_scan f dir (i # is) s = (case readi f dir (of_nat (64 * i)) 64 s of (r, bs, s1) \<Rightarrow>
     if r \<noteq> 64 then (False, s1)
     else let de = dec_dirent bs in
       if d_ino de \<noteq> 0 \<and> \<not> is_dots (c_string ((d_name de)[KFS_NAME_MAX := 0])) then (False, s1)
       else empty_scan f dir is s1)"

definition dir_is_empty :: "nat \<Rightarrow> u32 \<Rightarrow> kfs_state \<Rightarrow> bool \<times> kfs_state" where
  "dir_is_empty f dir s = (case iget f dir s of (None, s1) \<Rightarrow> (False, s1)
     | (Some ip, s1) \<Rightarrow> empty_scan f dir (dir_slots ip) s1)"

definition kfs_lookup_in :: "nat \<Rightarrow> u32 \<Rightarrow> cstr \<Rightarrow> kfs_state \<Rightarrow> int \<times> kfs_state" where
  "kfs_lookup_in f dir name s = (if \<not> mounted (fss s f) then (- 1, s)
     else case dir_lookup f dir name s of (ino, slot, s1) \<Rightarrow> (if ino = 0 then - 1 else sint ino, s1))"

section \<open>Paths\<close>

datatype path_step = P_end | P_long | P_comp cstr cstr

definition skip_slashes :: "cstr \<Rightarrow> cstr" where
  "skip_slashes p = dropWhile (\<lambda>c. c = ch_slash) p"

definition path_next :: "cstr \<Rightarrow> path_step" where
  "path_next path = (let p = skip_slashes path in
     if p = [] then P_end
     else let name = takeWhile (\<lambda>c. c \<noteq> ch_slash) p in
       if length name > KFS_NAME_MAX then P_long else P_comp name (drop (length name) p))"

lemma path_next_comp:
  assumes "path_next path = P_comp name rest"
  shows "length rest < length path" and "name \<noteq> []" and "length name \<le> KFS_NAME_MAX" and "ch_slash \<notin> set name"
proof -
  let ?p = "dropWhile (\<lambda>c. c = ch_slash) path"
  have p: "?p \<noteq> []" and n: "name = takeWhile (\<lambda>c. c \<noteq> ch_slash) ?p" and r: "rest = drop (length name) ?p"
    and l: "length name \<le> KFS_NAME_MAX"
    using assms by (auto simp: path_next_def skip_slashes_def Let_def split: if_splits)
  have "hd ?p \<noteq> ch_slash" using hd_dropWhile [OF p] .
  then show ne: "name \<noteq> []" using p n by (cases ?p) auto
  show "length name \<le> KFS_NAME_MAX" by (rule l)
  show "ch_slash \<notin> set name" using n set_takeWhileD by fastforce
  have "length rest < length ?p" using r ne p by (cases ?p) auto
  then show "length rest < length path" using length_dropWhile_le [of "\<lambda>c. c = ch_slash" path] by simp
qed

function lookup_walk :: "nat \<Rightarrow> u32 \<Rightarrow> cstr \<Rightarrow> kfs_state \<Rightarrow> int \<times> kfs_state" where
  "lookup_walk f cur p s = (case path_next p of
     P_end \<Rightarrow> (sint cur, s)
   | P_long \<Rightarrow> (- 1, s)
   | P_comp name rest \<Rightarrow> (case dir_lookup f cur name s of (nxt, slot, s1) \<Rightarrow>
       if nxt = 0 then (- 1, s1) else lookup_walk f nxt rest s1))"
  by pat_completeness auto
termination
  by (relation "measure (\<lambda>(f, cur, p, s). length p)") (auto simp: path_next_comp)

declare lookup_walk.simps [simp del]

definition lookup_path :: "nat \<Rightarrow> cstr \<Rightarrow> kfs_state \<Rightarrow> int \<times> kfs_state" where
  "lookup_path f path s = (if \<not> mounted (fss s f) \<or> take 1 path \<noteq> [ch_slash] then (- 1, s)
     else lookup_walk f (root_ino (sb_of f s)) path s)"

definition kfs_lookup :: "nat \<Rightarrow> cstr \<Rightarrow> kfs_state \<Rightarrow> int \<times> kfs_state" where
  "kfs_lookup f path s = lookup_path f path s"

text \<open>The loop of \<^verbatim>\<open>lookup_parent\<close>: \<open>cname\<close> has been split off, \<open>p\<close> follows it.\<close>

function parent_walk :: "nat \<Rightarrow> u32 \<Rightarrow> cstr \<Rightarrow> cstr \<Rightarrow> kfs_state \<Rightarrow> int \<times> cstr \<times> kfs_state" where
  "parent_walk f cur cname p s = (if skip_slashes p = [] then (sint cur, cname, s)
     else case dir_lookup f cur cname s of (nino, slot, s1) \<Rightarrow>
       if nino = 0 then (- 1, [], s1)
       else case iget f nino s1 of (None, s2) \<Rightarrow> (- 1, [], s2) | (Some ip, s2) \<Rightarrow>
         if i_type ip \<noteq> KFS_TYPE_DIR then (- 1, [], s2)
         else (case path_next p of P_comp name rest \<Rightarrow> parent_walk f nino name rest s2 | _ \<Rightarrow> (- 1, [], s2)))"
  by pat_completeness auto
termination
  by (relation "measure (\<lambda>(f, cur, cname, p, s). length p)") (auto simp: path_next_comp)

declare parent_walk.simps [simp del]

definition lookup_parent :: "nat \<Rightarrow> cstr \<Rightarrow> kfs_state \<Rightarrow> int \<times> cstr \<times> kfs_state" where
  "lookup_parent f path s = (if \<not> mounted (fss s f) \<or> take 1 path \<noteq> [ch_slash] then (- 1, [], s)
     else case path_next path of P_comp cname p \<Rightarrow> parent_walk f (root_ino (sb_of f s)) cname p s
       | _ \<Rightarrow> (- 1, [], s))"

section \<open>Changing names\<close>

definition create_locked :: "nat \<Rightarrow> cstr \<Rightarrow> u16 \<Rightarrow> u32 \<Rightarrow> u32 \<Rightarrow> u32 \<Rightarrow> kfs_state \<Rightarrow> int \<times> kfs_state" where
  "create_locked f path mode uid gid mtime s = (case lookup_parent f path s of (parent, name, s1) \<Rightarrow>
     if parent < 0 then (- 1, s1)
     else let dir = word_of_int parent in
     case dir_lookup f dir name s1 of (ex, slot, s2) \<Rightarrow>
     if ex \<noteq> 0 then (- 1, s2)
     else case ialloc f KFS_TYPE_FILE mode uid gid mtime s2 of (ino, s3) \<Rightarrow>
     if ino = 0 then (- 1, s3)
     else case dir_add f dir name ino mtime s3 of
       (False, s4) \<Rightarrow> (- 1, ifree f ino s4)
     | (True, s4) \<Rightarrow> (sint ino, s4))"

definition kfs_create :: "nat \<Rightarrow> cstr \<Rightarrow> u16 \<Rightarrow> u32 \<Rightarrow> u32 \<Rightarrow> u32 \<Rightarrow> kfs_state \<Rightarrow> int \<times> kfs_state" where
  "kfs_create f path mode uid gid mtime s = (if \<not> mounted (fss s f) then (- 1, journal_abort s)
     else in_journal f (create_locked f path mode uid gid mtime) s)"

definition mkdir_links :: "nat \<Rightarrow> u32 \<Rightarrow> cstr \<Rightarrow> u32 \<Rightarrow> u32 \<Rightarrow> kfs_state \<Rightarrow> bool \<times> kfs_state" where
  "mkdir_links f dir name ino mtime s = (case dir_add f ino [ch_dot] ino mtime s of
     (False, s1) \<Rightarrow> (False, s1)
   | (True, s1) \<Rightarrow> (case dir_add f ino [ch_dot, ch_dot] dir mtime s1 of
       (False, s2) \<Rightarrow> (False, s2)
     | (True, s2) \<Rightarrow> dir_add f dir name ino mtime s2))"

definition mkdir_locked :: "nat \<Rightarrow> cstr \<Rightarrow> u16 \<Rightarrow> u32 \<Rightarrow> u32 \<Rightarrow> u32 \<Rightarrow> kfs_state \<Rightarrow> int \<times> kfs_state" where
  "mkdir_locked f path mode uid gid mtime s = (case lookup_parent f path s of (parent, name, s1) \<Rightarrow>
     if parent < 0 then (- 1, s1)
     else let dir = word_of_int parent in
     case dir_lookup f dir name s1 of (ex, slot, s2) \<Rightarrow>
     if ex \<noteq> 0 then (- 1, s2)
     else case ialloc f KFS_TYPE_DIR mode uid gid mtime s2 of (ino, s3) \<Rightarrow>
     if ino = 0 then (- 1, s3)
     else case mkdir_links f dir name ino mtime s3 of
       (False, s4) \<Rightarrow> (- 1, ifree f ino (snd (truncate_locked f ino mtime s4)))
     | (True, s4) \<Rightarrow> (0, s4))"

definition kfs_mkdir :: "nat \<Rightarrow> cstr \<Rightarrow> u16 \<Rightarrow> u32 \<Rightarrow> u32 \<Rightarrow> u32 \<Rightarrow> kfs_state \<Rightarrow> int \<times> kfs_state" where
  "kfs_mkdir f path mode uid gid mtime s = (if \<not> mounted (fss s f) then (- 1, journal_abort s)
     else in_journal f (mkdir_locked f path mode uid gid mtime) s)"

definition unlink_locked :: "nat \<Rightarrow> cstr \<Rightarrow> u32 \<Rightarrow> kfs_state \<Rightarrow> int \<times> kfs_state" where
  "unlink_locked f path mtime s = (case lookup_parent f path s of (parent, name, s1) \<Rightarrow>
     if parent < 0 then (- 1, s1)
     else if is_dots name then (- 1, s1)
     else let dir = word_of_int parent in
     case dir_lookup f dir name s1 of (ino, slot, s2) \<Rightarrow>
     if ino = 0 then (- 1, s2)
     else case iget f ino s2 of (None, s3) \<Rightarrow> (- 1, s3) | (Some ip, s3) \<Rightarrow>
     case (if i_type ip = KFS_TYPE_DIR then dir_is_empty f ino s3 else (True, s3)) of
       (False, s4) \<Rightarrow> (- 1, s4)
     | (True, s4) \<Rightarrow> (case dir_remove f dir name mtime s4 of
         (False, s5) \<Rightarrow> (- 1, s5)
       | (True, s5) \<Rightarrow> (case truncate_locked f ino mtime s5 of (r, s6) \<Rightarrow>
           if r < 0 then (- 1, s6) else (0, ifree f ino s6))))"

definition kfs_unlink :: "nat \<Rightarrow> cstr \<Rightarrow> u32 \<Rightarrow> kfs_state \<Rightarrow> int \<times> kfs_state" where
  "kfs_unlink f path mtime s = (if \<not> mounted (fss s f) then (- 1, journal_abort s)
     else in_journal f (unlink_locked f path mtime) s)"

section \<open>Listing\<close>

fun readdir_scan :: "nat \<Rightarrow> u32 \<Rightarrow> int \<Rightarrow> int \<Rightarrow> nat list \<Rightarrow> kfs_state \<Rightarrow> kfs_dirent option \<times> kfs_state" where
  "readdir_scan f ino index seen [] s = (None, s)"
| "readdir_scan f ino index seen (i # is) s = (case readi f ino (of_nat (64 * i)) 64 s of (r, bs, s1) \<Rightarrow>
     if r \<noteq> 64 then (None, s1)
     else let de = dec_dirent bs; de = de\<lparr>d_name := (d_name de)[KFS_NAME_MAX := 0]\<rparr> in
       if d_ino de = 0 then readdir_scan f ino index seen is s1
       else if seen = index then (Some de, s1)
       else readdir_scan f ino index (seen + 1) is s1)"

definition readdir_locked :: "nat \<Rightarrow> u32 \<Rightarrow> int \<Rightarrow> kfs_state \<Rightarrow> kfs_dirent option \<times> kfs_state" where
  "readdir_locked f ino index s = (case iget f ino s of (None, s1) \<Rightarrow> (None, s1) | (Some ip, s1) \<Rightarrow>
     if i_type ip \<noteq> KFS_TYPE_DIR then (None, s1)
     else readdir_scan f ino index 0 (dir_slots ip) s1)"

definition kfs_readdir :: "nat \<Rightarrow> u32 \<Rightarrow> int \<Rightarrow> kfs_state \<Rightarrow> kfs_dirent option \<times> kfs_state" where
  "kfs_readdir f ino index s = (if \<not> mounted (fss s f) \<or> index < 0 then (None, s) else readdir_locked f ino index s)"

end
