(* ===== verification/Kfs_Tx.thy ===== *)
theory Kfs_Tx
  imports Kfs_Dir
begin

text \<open>
  What any body of a KFS transaction leaves alone, whatever its arguments and however far it gets.
  All operations above the journal act on the state through \<^verbatim>\<open>bread\<close>, \<^verbatim>\<open>journal_stage\<close> and updates of the free
  counter, so an invariant of these is an invariant of every entry point's body. Two invariants
  matter: an open transaction can be aborted without a trace, whatever the volume holds, and no call
  takes, releases or counts the slots of the instance table.
\<close>

section \<open>Invariants of the block interface\<close>

text \<open>The buffers the invariant is concerned with: whole blocks, or any.\<close>

locale tx_inv =
  fixes f :: nat and I :: "kfs_state \<Rightarrow> bool" and L :: "byte list \<Rightarrow> bool"
  assumes bread: "bread f b s = (r, s') \<Longrightarrow> I s \<Longrightarrow> I s'"
    and whole: "bread f b s = (Some buf, s') \<Longrightarrow> I s \<Longrightarrow> L buf"
    and stage: "journal_stage f b buf s = (ok, s') \<Longrightarrow> I s \<Longrightarrow> L buf \<Longrightarrow> I s'"
    and free: "I s \<Longrightarrow> I (set_free_blocks f g s)"
    and super: "I s \<Longrightarrow> L buf \<Longrightarrow> I (s\<lparr>sb_block := buf\<rparr>)"
    and super_whole: "I s \<Longrightarrow> L (sb_block s)"
    and block: "length buf = KFS_BLOCK_SIZE \<Longrightarrow> L buf"
    and put: "L buf \<Longrightarrow> off + length xs \<le> KFS_BLOCK_SIZE \<Longrightarrow> L (put_bytes off xs buf)"
    and upd: "L buf \<Longrightarrow> L (buf[i := x])"
begin

lemma stage_snd: "I s \<Longrightarrow> L buf \<Longrightarrow> I (snd (journal_stage f b buf s))"
  using stage by (metis prod.collapse)

lemma sb_sync: "I s \<Longrightarrow> I (snd (sb_sync f s))"
proof -
  assume i: "I s"
  have "L (put_bytes 0 (enc_sb (sb_of f s)) (sb_block s))" by (rule put [OF super_whole [OF i]]) simp
  then show ?thesis unfolding sb_sync_def Let_def using i by (intro stage_snd super)
qed

lemma balloc_loop: "balloc_loop f bbs s = (b, s') \<Longrightarrow> I s \<Longrightarrow> I s'"
proof (induction bbs arbitrary: s)
  case (Cons bb bbs)
  obtain x s1 where rd: "bread f (bitmap_start (sb_of f s) + of_nat bb) s = (x, s1)" by fastforce
  note s1 = bread [OF rd Cons.prems(2)]
  show ?case
  proof (cases x)
    case None
    then show ?thesis using Cons.prems(1) rd s1 by simp
  next
    case (Some buf)
    show ?thesis
    proof (cases "free_bit buf")
      case None
      then show ?thesis using Cons rd s1 Some by simp
    next
      case n: (Some n)
      let ?buf = "buf[n div 8 := buf ! (n div 8) OR push_bit (n mod 8) 1]"
      obtain r2 s2 where st: "journal_stage f (bitmap_start (sb_of f s1) + of_nat bb) ?buf s1 = (r2, s2)" by fastforce
      have len: "L ?buf" using whole [OF _ Cons.prems(2)] rd Some by (intro upd) simp
      note s2 = stage [OF st s1 len]
      let ?s3 = "snd (sb_sync f (set_free_blocks f (\<lambda>n. n - 1) s2))"
      have "I ?s3" by (intro sb_sync free s2)
      then have s4: "journal_stage f blk (replicate KFS_BLOCK_SIZE 0) ?s3 = (r, s'') \<Longrightarrow> I s''" for blk r s''
        using stage [OF _ _ block] by fastforce
      show ?thesis using Cons.prems(1) rd Some n st s1 s2
        by (auto simp: Let_def split: if_splits bool.splits prod.splits dest: s4)
    qed
  qed
qed simp

lemma balloc: "balloc f s = (b, s') \<Longrightarrow> I s \<Longrightarrow> I s'"
  unfolding balloc_def by (rule balloc_loop)

lemma bfree: "I s \<Longrightarrow> I (bfree f b s)"
  unfolding bfree_def Let_def by (auto split: prod.splits option.splits intro!: sb_sync free stage_snd upd dest: bread whole)

lemma iget_direct: "iget f ino s = (Some ip, s') \<Longrightarrow> length (direct ip) = KFS_NDIRECT"
  unfolding iget_def by (auto split: prod.splits option.splits if_splits)

lemma iget: "iget f ino s = (r, s') \<Longrightarrow> I s \<Longrightarrow> I s'"
  unfolding iget_def by (auto split: prod.splits option.splits if_splits intro: bread)

lemma stage_put:
  assumes rd: "bread f b s = (Some buf, s1)" and i: "I s"
    and st: "journal_stage f b' (put_bytes off xs buf) s1 = (r, s')" and off: "off + length xs \<le> KFS_BLOCK_SIZE"
  shows "I s'"
  by (rule stage [OF st bread [OF rd i] put [OF whole [OF rd i] off]])

lemma iput: "iput f ino ip s = (r, s') \<Longrightarrow> I s \<Longrightarrow> length (direct ip) = KFS_NDIRECT \<Longrightarrow> I s'"
proof -
  assume p: "iput f ino ip s = (r, s')" and i: "I s" and d: "length (direct ip) = KFS_NDIRECT"
  have "unat ((ino - 1) mod KFS_INODES_PER_BLOCK) < 64" by (simp add: unat_mod_distrib)
  then have off: "inode_off ino + length (enc_inode ip) \<le> KFS_BLOCK_SIZE" using d by (simp add: inode_off_def)
  show ?thesis using p i off unfolding iput_def
    by (auto split: prod.splits option.splits dest: bread elim: stage_put)
qed

lemma iput_snd: "I s \<Longrightarrow> length (direct ip) = KFS_NDIRECT \<Longrightarrow> I (snd (iput f ino ip s))"
  using iput by (metis prod.collapse)

lemma ialloc_loop: "ialloc_loop f new is s = (r, s') \<Longrightarrow> I s \<Longrightarrow> length (direct new) = KFS_NDIRECT \<Longrightarrow> I s'"
proof (induction "is" arbitrary: s)
  case (Cons i "is")
  then show ?case by (auto split: prod.splits option.splits if_splits bool.splits intro: iget iput dest!: Cons.IH)
qed simp

lemma ialloc: "ialloc f ty mode uid gid mtime s = (r, s') \<Longrightarrow> I s \<Longrightarrow> I s'"
  unfolding ialloc_def by (erule ialloc_loop) (simp_all add: fresh_inode_def)

lemma ifree: "I s \<Longrightarrow> I (ifree f ino s)"
  unfolding ifree_def by (simp add: iput_snd)

lemma bmap_direct:
  "bmap_direct f ino ip n alloc s = (b, ip', s') \<Longrightarrow> I s \<Longrightarrow> length (direct ip) = KFS_NDIRECT \<Longrightarrow>
   I s' \<and> length (direct ip') = KFS_NDIRECT"
  unfolding bmap_direct_def Let_def by (auto split: prod.splits if_splits intro!: iput_snd dest!: balloc)

lemma bmap_table:
  assumes "bmap_table f ip n alloc s = (b, ip', s')" and "I s" and n: "n < KFS_NINDIRECT"
  shows "I s' \<and> ip' = ip"
proof -
  have "L (wr32 (4 * n) b tab)" if "bread f (indirect ip) s = (Some tab, s1)" for b tab s1
    unfolding wr32_def using n by (intro put [OF whole [OF that assms(2)]]) simp
  then show ?thesis using assms(1,2) unfolding bmap_table_def Let_def
    by (auto split: prod.splits option.splits bool.splits if_splits dest!: balloc stage dest: bread)
qed

lemma bmap:
  "bmap f ino ip n alloc s = (b, ip', s') \<Longrightarrow> I s \<Longrightarrow> length (direct ip) = KFS_NDIRECT \<Longrightarrow>
   I s' \<and> length (direct ip') = KFS_NDIRECT"
  unfolding bmap_def Let_def
  by (auto split: prod.splits if_splits intro!: iput_snd dest!: bmap_direct bmap_table balloc)

lemma readi_loop:
  "readi_loop f ino ip pos left acc s = (r, bs, s') \<Longrightarrow> I s \<Longrightarrow> length (direct ip) = KFS_NDIRECT \<Longrightarrow> I s'"
proof (induction left arbitrary: pos acc s rule: less_induct)
  case (less left)
  obtain b ip' s1 where bm: "bmap f ino ip (pos div KFS_BLOCK_SIZE) False s = (b, ip', s1)" using prod_cases3 by blast
  obtain x s2 where rd: "bread f b s1 = (x, s2)" by fastforce
  have i1: "I s1" using bmap [OF bm less.prems(2,3)] by simp
  have i2: "I s2" by (rule bread [OF rd i1])
  have step: "left - chunk_at pos left < left" if "left \<noteq> 0" using that chunk_at_pos [of left pos] by simp
  show ?case using less.prems bm rd i1 i2 less.IH [OF step]
    by (auto simp: readi_loop.simps [of f ino ip pos] Let_def split: if_splits option.splits)
qed

lemma readi: "readi f ino off n s = (r, bs, s') \<Longrightarrow> I s \<Longrightarrow> I s'"
  unfolding readi_def Let_def by (auto split: prod.splits option.splits if_splits dest: iget iget_direct readi_loop)

lemma writei_block:
  assumes "writei_block f b boff xs s = (r, s')" and "I s" and "boff + length xs \<le> KFS_BLOCK_SIZE"
  shows "I s'"
proof (cases "length xs < KFS_BLOCK_SIZE")
  case True
  then show ?thesis using assms unfolding writei_block_def
    by (auto split: prod.splits option.splits dest: bread elim: stage_put)
next
  case False
  then have "L xs" using assms(3) by (intro block) simp
  then show ?thesis using assms(1,2) False stage by (simp add: writei_block_def)
qed

lemma writei_loop:
  "writei_loop f ino ip pos src s = (rest, ip', s') \<Longrightarrow> I s \<Longrightarrow> length (direct ip) = KFS_NDIRECT \<Longrightarrow>
   I s' \<and> length (direct ip') = KFS_NDIRECT"
proof (induction "length src" arbitrary: ip pos src s rule: less_induct)
  case less
  let ?k = "chunk_at pos (length src)"
  obtain b ip1 s1 where bm: "bmap f ino ip (pos div KFS_BLOCK_SIZE) True s = (b, ip1, s1)" using prod_cases3 by blast
  obtain x s2 where wr: "writei_block f b (pos mod KFS_BLOCK_SIZE) (take ?k src) s1 = (x, s2)" by fastforce
  have i1: "I s1" and d1: "length (direct ip1) = KFS_NDIRECT" using bmap [OF bm less.prems(2,3)] by simp_all
  have "pos mod KFS_BLOCK_SIZE + length (take ?k src) \<le> KFS_BLOCK_SIZE"
    using mod_less_divisor [of KFS_BLOCK_SIZE pos] by (simp add: chunk_at_def min_def) linarith
  then have i2: "I s2" by (rule writei_block [OF wr i1])
  have i3: "I (snd (iput f ino (ip1\<lparr>i_size := z\<rparr>) s2))" for z using d1 by (intro iput_snd [OF i2]) simp
  have step: "length (drop ?k src) < length src" if "src \<noteq> []" using that chunk_at_pos [of "length src" pos] by simp
  show ?case using less.prems bm wr i1 i2 i3 d1 less.hyps [OF step]
    by (auto simp: writei_loop.simps [of f ino ip pos] Let_def split: if_splits bool.splits)
qed

lemma writei:
  assumes "writei f ino off src mtime s = (r, s')" and i: "I s"
  shows "I s'"
proof -
  obtain x s1 where g: "iget f ino s = (x, s1)" by fastforce
  note i1 = iget [OF g i]
  show ?thesis
  proof (cases x)
    case None
    then show ?thesis using assms(1) g i1 by (simp add: writei_def)
  next
    case (Some ip)
    obtain rest ip1 s2 where lp: "writei_loop f ino ip (unat off) src s1 = (rest, ip1, s2)" using prod_cases3 by blast
    have d: "length (direct ip) = KFS_NDIRECT" using iget_direct g Some by blast
    have i2: "I s2" "length (direct ip1) = KFS_NDIRECT" using writei_loop [OF lp i1 d] by simp_all
    then have "I (snd (iput f ino (ip1\<lparr>i_mtime := mtime\<rparr>) s2))" by (intro iput_snd) simp_all
    then show ?thesis using assms(1) g Some lp i1 i2 by (auto simp: writei_def split: if_splits)
  qed
qed

lemma bfree_all: "I s \<Longrightarrow> I (bfree_all f bs s)"
  by (induction bs arbitrary: s) (auto intro: bfree)

lemma truncate_locked: "truncate_locked f ino mtime s = (r, s') \<Longrightarrow> I s \<Longrightarrow> I s'"
  unfolding truncate_locked_def Let_def
  by (auto split: prod.splits option.splits if_splits intro!: bfree bfree_all dest!: iget iput bread)

lemma truncate_snd: "I s \<Longrightarrow> I (snd (truncate_locked f ino mtime s))"
  using truncate_locked by (metis prod.collapse)

lemma lookup_scan: "lookup_scan f dir name is s = (r, slot, s') \<Longrightarrow> I s \<Longrightarrow> I s'"
proof (induction "is" arbitrary: s)
  case (Cons i "is")
  then show ?case by (auto simp: Let_def split: prod.splits if_splits dest!: readi Cons.IH)
qed simp

lemma dir_lookup: "dir_lookup f dir name s = (r, slot, s') \<Longrightarrow> I s \<Longrightarrow> I s'"
  unfolding dir_lookup_def by (auto split: prod.splits option.splits if_splits dest!: iget lookup_scan)

lemma slot_scan: "slot_scan f dir z is s = (r, s') \<Longrightarrow> I s \<Longrightarrow> I s'"
proof (induction "is" arbitrary: s)
  case (Cons i "is")
  then show ?case by (auto split: prod.splits if_splits dest!: readi Cons.IH)
qed simp

lemma dir_add: "dir_add f dir name ino mtime s = (r, s') \<Longrightarrow> I s \<Longrightarrow> I s'"
  unfolding dir_add_def by (auto split: prod.splits option.splits if_splits dest!: iget slot_scan writei)

lemma dir_remove: "dir_remove f dir name mtime s = (r, s') \<Longrightarrow> I s \<Longrightarrow> I s'"
  unfolding dir_remove_def by (auto split: prod.splits if_splits dest!: dir_lookup writei)

lemma empty_scan: "empty_scan f dir is s = (r, s') \<Longrightarrow> I s \<Longrightarrow> I s'"
proof (induction "is" arbitrary: s)
  case (Cons i "is")
  then show ?case by (auto simp: Let_def split: prod.splits if_splits dest!: readi Cons.IH)
qed simp

lemma dir_is_empty: "dir_is_empty f dir s = (r, s') \<Longrightarrow> I s \<Longrightarrow> I s'"
  unfolding dir_is_empty_def by (auto split: prod.splits option.splits dest!: iget empty_scan)

lemma parent_walk: "parent_walk f cur cname p s = (r, name, s') \<Longrightarrow> I s \<Longrightarrow> I s'"
proof (induction "length p" arbitrary: cur cname p s rule: less_induct)
  case less
  obtain nino slot s1 where dl: "dir_lookup f cur cname s = (nino, slot, s1)" using prod_cases3 by blast
  obtain x s2 where ig: "iget f nino s1 = (x, s2)" by fastforce
  have i1: "I s1" by (rule dir_lookup [OF dl less.prems(2)])
  have i2: "I s2" by (rule iget [OF ig i1])
  show ?case using less.prems dl ig i1 i2 less.hyps path_next_comp(1) [of p]
    by (auto simp: parent_walk.simps [of f cur] split: if_splits option.splits path_step.splits)
qed

lemma lookup_parent: "lookup_parent f path s = (r, name, s') \<Longrightarrow> I s \<Longrightarrow> I s'"
  unfolding lookup_parent_def by (auto split: if_splits path_step.splits intro: parent_walk)

lemma create_locked: "create_locked f path mode uid gid mtime s = (r, s') \<Longrightarrow> I s \<Longrightarrow> I s'"
  unfolding create_locked_def Let_def
  by (auto split: prod.splits if_splits bool.splits intro!: ifree dest!: lookup_parent dir_lookup ialloc dir_add)

lemma mkdir_links: "mkdir_links f dir name ino mtime s = (r, s') \<Longrightarrow> I s \<Longrightarrow> I s'"
  unfolding mkdir_links_def by (auto split: prod.splits bool.splits dest!: dir_add)

lemma mkdir_locked: "mkdir_locked f path mode uid gid mtime s = (r, s') \<Longrightarrow> I s \<Longrightarrow> I s'"
  unfolding mkdir_locked_def Let_def
  by (auto split: prod.splits if_splits bool.splits intro!: ifree truncate_snd
      dest!: lookup_parent dir_lookup ialloc mkdir_links)

lemma unlink_locked: "unlink_locked f path mtime s = (r, s') \<Longrightarrow> I s \<Longrightarrow> I s'"
  unfolding unlink_locked_def Let_def
  by (auto split: prod.splits if_splits bool.splits option.splits intro!: ifree
      dest!: lookup_parent dir_lookup iget dir_is_empty dir_remove truncate_locked)

end

section \<open>The mutating entry points\<close>

datatype kfs_call = C_write u32 u32 "byte list" | C_truncate u32 | C_chmod u32 u16 | C_chown u32 u32 u32
  | C_create cstr u16 u32 u32 | C_mkdir cstr u16 u32 u32 | C_unlink cstr

fun kfs_run :: "nat \<Rightarrow> kfs_call \<Rightarrow> u32 \<Rightarrow> kfs_state \<Rightarrow> int \<times> kfs_state" where
  "kfs_run f (C_write ino off src) mtime s = kfs_write f ino off src mtime s"
| "kfs_run f (C_truncate ino) mtime s = kfs_truncate f ino mtime s"
| "kfs_run f (C_chmod ino mode) mtime s = kfs_chmod f ino mode mtime s"
| "kfs_run f (C_chown ino uid gid) mtime s = kfs_chown f ino uid gid mtime s"
| "kfs_run f (C_create path mode uid gid) mtime s = kfs_create f path mode uid gid mtime s"
| "kfs_run f (C_mkdir path mode uid gid) mtime s = kfs_mkdir f path mode uid gid mtime s"
| "kfs_run f (C_unlink path) mtime s = kfs_unlink f path mtime s"

text \<open>The body each entry point runs between \<^verbatim>\<open>journal_begin\<close> and the decision to commit or abort.\<close>

fun kfs_body :: "nat \<Rightarrow> kfs_call \<Rightarrow> u32 \<Rightarrow> kfs_state \<Rightarrow> int \<times> kfs_state" where
  "kfs_body f (C_write ino off src) mtime = (\<lambda>s1. case iget f ino s1 of (None, s2) \<Rightarrow> (- 1, s2)
     | (Some ip, s2) \<Rightarrow> if i_type ip = KFS_TYPE_FILE then writei f ino off src mtime s2 else (- 1, s2))"
| "kfs_body f (C_truncate ino) mtime = truncate_locked f ino mtime"
| "kfs_body f (C_chmod ino mode) mtime = (\<lambda>s1. case iget f ino s1 of (None, s2) \<Rightarrow> (- 1, s2) | (Some ip, s2) \<Rightarrow>
     if i_type ip = KFS_TYPE_FREE then (- 1, s2)
     else case iput f ino (ip\<lparr>i_mode := mode AND KFS_MODE_MASK, i_mtime := mtime\<rparr>) s2 of
       (ok, s3) \<Rightarrow> (if ok then 0 else - 1, s3))"
| "kfs_body f (C_chown ino uid gid) mtime = (\<lambda>s1. case iget f ino s1 of (None, s2) \<Rightarrow> (- 1, s2) | (Some ip, s2) \<Rightarrow>
     if i_type ip = KFS_TYPE_FREE then (- 1, s2)
     else case iput f ino (ip\<lparr>i_uid := uid, i_gid := gid, i_mtime := mtime\<rparr>) s2 of
       (ok, s3) \<Rightarrow> (if ok then 0 else - 1, s3))"
| "kfs_body f (C_create path mode uid gid) mtime = create_locked f path mode uid gid mtime"
| "kfs_body f (C_mkdir path mode uid gid) mtime = mkdir_locked f path mode uid gid mtime"
| "kfs_body f (C_unlink path) mtime = unlink_locked f path mtime"

lemma kfs_run_body: "mounted (fss s f) \<Longrightarrow> kfs_run f c mtime s = in_journal f (kfs_body f c mtime) s"
  by (cases c) (simp_all add: kfs_write_def kfs_truncate_def kfs_chmod_def kfs_chown_def kfs_create_def
      kfs_mkdir_def kfs_unlink_def)

context tx_inv
begin

lemma kfs_body:
  assumes "kfs_body f c mtime s = (r, s')" and "I s"
  shows "I s'"
proof (cases c)
  case (C_write ino off src)
  then show ?thesis using assms by (auto split: prod.splits option.splits if_splits dest!: iget writei)
next
  case (C_chmod ino mode)
  then show ?thesis using assms
    by (auto split: prod.splits option.splits if_splits dest!: iput dest: iget iget_direct)
next
  case (C_chown ino uid gid)
  then show ?thesis using assms
    by (auto split: prod.splits option.splits if_splits dest!: iput dest: iget iget_direct)
qed (use assms in \<open>auto dest: truncate_locked create_locked mkdir_locked unlink_locked\<close>)

end

section \<open>A failed transaction stays failed\<close>

lemma raw_read_mem: "journal_raw_read f b s = (r, s') \<Longrightarrow> s' = s\<lparr>devs := devs s'\<rparr>"
  by (auto simp: journal_raw_read_def split: option.splits prod.splits)

lemma raw_write_mem: "journal_raw_write f b buf s = (r, s') \<Longrightarrow> s' = s\<lparr>devs := devs s'\<rparr>"
  by (auto simp: journal_raw_write_def split: option.splits prod.splits)

lemma jtx_devs: "s' = s\<lparr>devs := d\<rparr> \<Longrightarrow> jtx s' = jtx s" by simp

lemma bread_jtx_any: "bread f b s = (r, s') \<Longrightarrow> jtx s' = jtx s"
  by (auto simp: bread_def cache_fill_def split: option.splits prod.splits dest!: raw_read_mem jtx_devs)

lemma bwrite_jtx_any: "bwrite f b buf s = (r, s') \<Longrightarrow> jtx s' = jtx s"
  by (auto simp: bwrite_def cache_fill_def Let_def split: option.splits prod.splits bool.splits
      dest!: raw_write_mem jtx_devs)

text \<open>The flag alone is kept by everything, whatever is staged.\<close>

lemma stage_failed: "journal_stage f b buf s = (r, s') \<Longrightarrow> j_failed (jtx s) \<Longrightarrow> j_failed (jtx s')"
  by (auto simp: journal_stage_def split: if_splits dest: bwrite_jtx_any)

section \<open>An open transaction leaves no trace\<close>

definition abortable :: "nat \<Rightarrow> kfs_state \<Rightarrow> kfs_state \<Rightarrow> bool" where
  "abortable f s0 s \<longleftrightarrow> geom_ok s f \<and> coh s f \<and> length (sb_block s) = KFS_BLOCK_SIZE \<and>
     j_active (jtx s) \<and> j_fs (jtx s) = Some f \<and> length (j_entries (jtx s)) \<le> KFS_JOURNAL_ENTRIES \<and>
     distinct (map fst (j_entries (jtx s))) \<and> (\<forall>e \<in> set (j_entries (jtx s)). length (snd e) = KFS_BLOCK_SIZE) \<and>
     j_saved (jtx s) = j_saved (jtx s0) \<and> (j_failed (jtx s0) \<longrightarrow> j_failed (jtx s)) \<and>
     fs_block s f = fs_block s0 f \<and>
     (\<exists>n. fss s = (fss s0)(f := (fss s0 f)\<lparr>f_sb := (sb_of f s0)\<lparr>free_blocks := n\<rparr>\<rparr>))"

lemma raw_read_any:
  assumes g: "geom_ok s f" and ret: "journal_raw_read f b s = (r, s')"
  shows "disk_frame f s s'" and "geom_ok s' f" and "fs_block s' f = fs_block s f"
    and "r = Some d \<Longrightarrow> length d = KFS_BLOCK_SIZE"
    and "r = Some d \<Longrightarrow> home (sb_of f s) (unat b) \<Longrightarrow> d = fs_block s f (unat b)"
proof -
  let ?d = "f_dev s f"
  let ?bd = "devs s ?d"
  note gd = geom_okD [OF g]
  have sp: "spb (fss s f) \<noteq> 0" using gd(4) by auto
  obtain bd where s': "s' = s\<lparr>devs := (devs s)(?d := bd)\<rparr>" and br: "blockdev_read ?bd (fs_lba (fss s f) b) (spb (fss s f)) = (r, bd)"
    using ret gd(1) by (cases "f_bd (fss s f)") (auto simp: journal_raw_read_def split: prod.splits)
  have bd: "bd = ?bd \<or> bd = ?bd\<lparr>io := Suc (io ?bd)\<rparr>"
    using br by (auto simp: blockdev_read_def dev_read_def Let_def split: if_splits option.splits)
  have fr: "dev_frame ?bd bd" using bd by (auto simp: dev_frame_def)
  show df: "disk_frame f s s'" unfolding s' disk_frame_def using fr by simp
  show "geom_ok s' f" by (rule geom_ok_frame [OF df g])
  show "fs_block s' f = fs_block s f" using bd by (intro ext) (auto simp: s' fs_block_def Let_def)
  show "length d = KFS_BLOCK_SIZE" if "r = Some d"
  proof -
    have "d = concat (map (medium ?bd) [unat (fs_lba (fss s f) b) ..< unat (fs_lba (fss s f) b) + unat (spb (fss s f))])"
      using br that sp by (auto simp: blockdev_read_def dev_read_def Let_def split: if_splits option.splits)
    then show ?thesis using gd(4,6) by (simp add: length_concat_const [where n = "unat (block_size ?bd)"] mult.commute)
  qed
  show "d = fs_block s f (unat b)" if "r = Some d" "home (sb_of f s) (unat b)"
    using raw_read_effect(4) [OF g _ ret that(1)] that(2) by (simp add: home_def)
qed

lemma bread_any:
  assumes g: "geom_ok s f" and c: "coh s f" and ret: "bread f b s = (r, s')"
  shows "geom_ok s' f" and "coh s' f" and "frm f s s'" and "fs_block s' f = fs_block s f"
    and "\<lbrakk>r = Some d; \<forall>e \<in> set (j_entries (jtx s)). length (snd e) = KFS_BLOCK_SIZE\<rbrakk> \<Longrightarrow> length d = KFS_BLOCK_SIZE"
proof -
  have upd: "geom_ok (x\<lparr>bcache_hits := h\<rparr>) f = geom_ok x f" "coh (x\<lparr>bcache_hits := h\<rparr>) f = coh x f"
    "fs_block (x\<lparr>bcache_hits := h\<rparr>) f = fs_block x f" "frm f y (x\<lparr>bcache_hits := h\<rparr>) = frm f y x"
    "geom_ok (x\<lparr>bcache_misses := h\<rparr>) f = geom_ok x f" "coh (x\<lparr>bcache_misses := h\<rparr>) f = coh x f"
    "fs_block (x\<lparr>bcache_misses := h\<rparr>) f = fs_block x f" "frm f y (x\<lparr>bcache_misses := h\<rparr>) = frm f y x" for x y h
    by (auto simp: coh_x_def geom_ok_def fs_block_def frm_def fun_eq_iff Let_def)
  have "geom_ok s' f \<and> coh s' f \<and> frm f s s' \<and> fs_block s' f = fs_block s f \<and>
      ((\<forall>e \<in> set (j_entries (jtx s)). length (snd e) = KFS_BLOCK_SIZE) \<longrightarrow> (\<forall>d. r = Some d \<longrightarrow> length d = KFS_BLOCK_SIZE))"
  proof (cases "journal_pending f b s")
    case (Some d)
    then have "(b, d) \<in> set (j_entries (jtx s))" by (auto simp: journal_pending_def dest: map_of_SomeD split: if_splits)
    then show ?thesis using ret Some g c by (auto simp: bread_def)
  next
    case np: None
    show ?thesis
    proof (cases "bcache_find f b (bcache s)")
      case (Some i)
      let ?d = "c_data (bcache s ! i)"
      note fi = bcache_find_Some [OF Some]
      have len: "length ?d = KFS_BLOCK_SIZE" using c fi by (simp add: coh_x_def)
      have "coh (cache_fill i f b ?d s) f"
        using coh_fill [OF c _ _ len, of i b] fi coh_hit_alone [OF c Some] c by (auto simp: coh_x_def)
      moreover have s': "s' = (cache_fill i f b ?d s)\<lparr>bcache_hits := bcache_hits s + 1\<rparr>" "r = Some ?d"
        using ret np Some by (simp_all add: bread_def)
      ultimately show ?thesis using g len by (simp add: upd)
    next
      case miss: None
      obtain x s1 where rd: "journal_raw_read f b s = (x, s1)" by fastforce
      note re = raw_read_any [OF g rd]
      have bc: "bcache s1 = bcache s" using disk_frame_fields(3) [OF re(1)] by simp
      have c1: "coh s1 f" using coh_disk [OF c re(1), of b] re(3) coh_no_slot miss bc by simp
      show ?thesis
      proof (cases x)
        case None
        then have "s' = s1" "r = None" using ret np miss rd by (simp_all add: bread_def)
        then show ?thesis using re c1 frm_disk [OF re(1)] by simp
      next
        case (Some d)
        let ?v = "bcache_victim (bcache s1)"
        have s': "s' = (cache_fill ?v f b d s1)\<lparr>bcache_misses := bcache_misses s + 1\<rparr>" "r = Some d"
          using ret np miss rd Some by (simp_all add: bread_def)
        have "?v < length (bcache s1)" using c1 by (simp add: coh_x_def bcache_victim_less)
        moreover have "sb_of f s1 = sb_of f s" using disk_frame_fields(1) [OF re(1)] by simp
        ultimately have "coh (cache_fill ?v f b d s1) f"
          using coh_fill [OF c1, of ?v b d] re(3,4,5) Some bcache_find_None [OF miss] bc by simp
        then show ?thesis using s' re(2,3,4) Some frm_disk [OF re(1)] by (simp add: upd)
      qed
    qed
  qed
  then show "geom_ok s' f" and "coh s' f" and "frm f s s'" and "fs_block s' f = fs_block s f"
    and "\<lbrakk>r = Some d; \<forall>e \<in> set (j_entries (jtx s)). length (snd e) = KFS_BLOCK_SIZE\<rbrakk> \<Longrightarrow> length d = KFS_BLOCK_SIZE" by blast+
qed

lemma stage_entry_length:
  assumes "b \<in> fst ` set es \<or> length es < KFS_JOURNAL_ENTRIES" "length es \<le> KFS_JOURNAL_ENTRIES"
  shows "length (stage_entry b buf es) \<le> KFS_JOURNAL_ENTRIES"
proof (cases "first_from (\<lambda>i. fst (es ! i) = b) 0 (length es)")
  case None
  then have "\<forall>x < length es. fst (es ! x) \<noteq> b" by (simp add: first_from_None)
  then have "b \<notin> fst ` set es" by (metis (no_types) imageE in_set_conv_nth)
  then show ?thesis using assms None by (simp add: stage_entry_def)
qed (use assms in \<open>simp add: stage_entry_def\<close>)

lemma stage_entry_whole:
  assumes "length buf = KFS_BLOCK_SIZE" and "\<forall>e \<in> set es. length (snd e) = KFS_BLOCK_SIZE"
  shows "\<forall>e \<in> set (stage_entry b buf es). length (snd e) = KFS_BLOCK_SIZE"
  using assms set_update_subset_insert [of es _ "(b, buf)"]
  by (fastforce simp: stage_entry_def split: option.splits)

interpretation tx: tx_inv f "abortable f s0" "\<lambda>buf. length buf = KFS_BLOCK_SIZE" for f s0
proof
  fix b s r s' buf ok g off xs i and y :: byte
  show "abortable f s0 s'" if rd: "bread f b s = (r, s')" and a: "abortable f s0 s"
    using a bread_any [OF _ _ rd] unfolding abortable_def by (auto simp: frm_def)
  show "length buf = KFS_BLOCK_SIZE" if rd: "bread f b s = (Some buf, s')" and a: "abortable f s0 s"
    using a bread_any(5) [OF _ _ rd refl] unfolding abortable_def by blast
  show "abortable f s0 s'" if st: "journal_stage f b buf s = (ok, s')" and a: "abortable f s0 s"
    and len: "length buf = KFS_BLOCK_SIZE"
  proof -
    have eq: "fss s' = fss s" "bcache s' = bcache s" "devs s' = devs s" "sb_block s' = sb_block s"
      and j: "jtx s' = (jtx s)\<lparr>j_failed := True\<rparr> \<or> (b \<in> fst ` set (j_entries (jtx s)) \<or>
        length (j_entries (jtx s)) < KFS_JOURNAL_ENTRIES) \<and>
        jtx s' = (jtx s)\<lparr>j_entries := stage_entry b buf (j_entries (jtx s))\<rparr>"
      using st a by (auto simp: journal_stage_def abortable_def split: if_splits)
    have blk: "fs_block s' f = fs_block s f" by (rule ext) (simp add: fs_block_def eq)
    have "geom_ok s' f = geom_ok s f" "coh s' f = coh s f"
      unfolding coh_x_def blk eq by (simp_all add: geom_ok_def eq)
    moreover have "distinct (map fst (stage_entry b buf (j_entries (jtx s))))"
      using stage_entry_keys [of "j_entries (jtx s)" b buf] a by (simp add: abortable_def)
    moreover note stage_entry_length [of b "j_entries (jtx s)" buf] stage_entry_whole [OF len, of "j_entries (jtx s)" b]
    ultimately show ?thesis using a j unfolding abortable_def eq blk by (elim disjE) simp_all
  qed
  show "abortable f s0 (set_free_blocks f g s)" if "abortable f s0 s"
  proof -
    let ?s = "set_free_blocks f g s"
    have eq: "bcache ?s = bcache s" "devs ?s = devs s" "sb_block ?s = sb_block s" "jtx ?s = jtx s"
        "fss ?s = (fss s)(f := (fss s f)\<lparr>f_sb := (sb_of f s)\<lparr>free_blocks := g (free_blocks (sb_of f s))\<rparr>\<rparr>)"
      by (simp_all add: set_free_blocks_def set_sb_def upd_fs_def)
    have blk: "fs_block ?s f = fs_block s f" by (simp add: set_free_blocks_def)
    have "geom_ok ?s f = geom_ok s f" by (simp add: geom_ok_def eq Let_def)
    moreover have "coh ?s f = coh s f" unfolding coh_x_def blk eq(1) by (simp add: eq(5) home_def)
    ultimately show ?thesis using that unfolding abortable_def blk eq by auto
  qed
  show "abortable f s0 (s\<lparr>sb_block := buf\<rparr>)" if "abortable f s0 s" "length buf = KFS_BLOCK_SIZE"
  proof -
    let ?s = "s\<lparr>sb_block := buf\<rparr>"
    have blk: "fs_block ?s f = fs_block s f" by (rule ext) (simp add: fs_block_def)
    have "geom_ok ?s f = geom_ok s f" "coh ?s f = coh s f" unfolding coh_x_def blk by (simp_all add: geom_ok_def)
    then show ?thesis using that unfolding abortable_def blk by simp
  qed
  show "length (sb_block s) = KFS_BLOCK_SIZE" if "abortable f s0 s" using that by (simp add: abortable_def)
qed simp_all

lemma abortable_self:
  assumes "in_tx f s" shows "abortable f s s"
  using assms unfolding abortable_def in_tx_def store_ok_def
  by (auto intro!: exI [of _ "free_blocks (sb_of f s)"])

text \<open>A step inside a transaction that did not fail started from one that had not failed.\<close>

lemma still_open: "abortable f s s' \<Longrightarrow> \<not> j_failed (jtx s') \<Longrightarrow> \<not> j_failed (jtx s)"
  by (auto simp: abortable_def)

section \<open>Entry points that fail\<close>

lemma payloads_coh:
  assumes "geom_ok s f" and "coh s f" and "write_payloads f at es s = (r, s')"
    and "unat (journal_start (sb_of f s)) \<le> unat at"
    and "unat at + length es \<le> unat (journal_start (sb_of f s)) + 33"
    and "\<forall>e \<in> set es. length (snd e) = KFS_BLOCK_SIZE"
  shows "coh s' f"
  using assms
proof (induction es arbitrary: s at)
  case (Cons e es)
  obtain x s1 where w: "journal_raw_write f at (snd e) s = (x, s1)" by fastforce
  have len: "length (snd e) = KFS_BLOCK_SIZE" using Cons.prems(6) by simp
  have ub: "unat at < unat (total_blocks (sb_of f s))" using geom_okD(7) [OF Cons.prems(1)] Cons.prems(5) by simp
  note re = raw_write_effect [OF Cons.prems(1) ub len w]
  have c1: "coh s1 f" using Cons.prems by (intro coh_journal_write [OF _ _ len _ _ w]) auto
  have sb1: "sb_of f s1 = sb_of f s" using disk_frame_fields(1) [OF re(1)] by simp
  show ?case
  proof (cases x)
    case False
    then show ?thesis using Cons.prems(3) w c1 by simp
  next
    case True
    have "unat (at + 1) = unat at + 1" using unat_add_small [of at 1] ub u32_less [of "total_blocks (sb_of f s)"] by simp
    then show ?thesis using Cons.IH [OF re(2) c1] Cons.prems w True sb1 by simp
  qed
qed simp

lemma restore_ok:
  assumes "geom_ok s f" and "coh s f" and "length (sb_block s) = KFS_BLOCK_SIZE"
    and fs: "fss s = (fss s0)(f := (fss s0 f)\<lparr>f_sb := (sb_of f s0)\<lparr>free_blocks := n\<rparr>\<rparr>)"
  shows "store_ok f (journal_reset (set_sb f (sb_of f s0) s))" and "fss (journal_reset (set_sb f (sb_of f s0) s)) = fss s0"
proof -
  let ?r = "journal_reset s" and ?sb = "sb_of f s0"
  have eq: "fss ?r = fss s" "bcache ?r = bcache s" "devs ?r = devs s" "sb_block ?r = sb_block s" "\<not> j_active (jtx ?r)"
    by (simp_all add: journal_reset_def)
  have blk: "fs_block ?r f = fs_block s f" by simp
  have "geom_ok ?r f = geom_ok s f" "coh ?r f = coh s f" unfolding coh_x_def blk eq by (simp_all add: geom_ok_def eq)
  then have "store_ok f ?r" using assms(1-3) eq by (simp add: store_ok_def)
  moreover have "same_layout ?sb (sb_of f ?r)" by (simp add: same_layout_def eq fs)
  moreover have "journal_reset (set_sb f ?sb s) = set_sb f ?sb ?r"
    by (simp add: journal_reset_def set_sb_def upd_fs_def)
  ultimately show "store_ok f (journal_reset (set_sb f ?sb s))" by (simp add: set_sb_ok)
  show "fss (journal_reset (set_sb f (sb_of f s0) s)) = fss s0"
    by (rule ext) (simp add: journal_reset_def set_sb_def upd_fs_def fs)
qed

lemma reset_inactive: "\<not> j_active (jtx (journal_reset x))" by (simp add: journal_reset_def)

lemma commit_fails:
  assumes a: "abortable f s0 s" and sv: "j_saved (jtx s0) = sb_of f s0"
    and ret: "journal_commit f s = (False, s')" and m: "mounted (fss s' f)"
  shows "store_ok f s' \<and> fss s' = fss s0 \<and> \<not> j_active (jtx s') \<and> (\<forall>b. home (sb_of f s0) b \<longrightarrow> fs_block s' f b = fs_block s0 f b)"
proof -
  obtain n where fs: "fss s = (fss s0)(f := (fss s0 f)\<lparr>f_sb := (sb_of f s0)\<lparr>free_blocks := n\<rparr>\<rparr>)"
    using a by (auto simp: abortable_def)
  note A = a [unfolded abortable_def]
  let ?es = "j_entries (jtx s)" and ?at = "journal_start (sb_of f s) + 1"
  obtain s1 where cb: "commit_body f s = (False, s1)" using ret by (auto simp: journal_commit_def split: prod.splits)
  have m1: "mounted (fss s1 f)" using ret cb m
    by (auto simp: journal_commit_def journal_reset_def set_sb_def upd_fs_def split: if_splits)
  have s': "s' = journal_reset (set_sb f (j_saved (jtx s1)) s1)" using ret cb m1 by (simp add: journal_commit_def)
  have unm: "\<not> mounted (fss (fs_fence f x) f)" for x
    by (simp add: fs_fence_def bcache_invalidate_def upd_fs_def)
  obtain r2 s2 where wp: "write_payloads f ?at ?es s = (r2, s2)" by fastforce
  have "s1 = s \<or> (s1 = s2 \<and> \<not> r2)"
    using cb wp m1 unm by (auto simp: commit_body_def Let_def split: if_splits prod.splits bool.splits)
  then show ?thesis
  proof
    assume s1: "s1 = s"
    have "j_saved (jtx s1) = sb_of f s0" using A sv s1 by simp
    then show ?thesis using restore_ok [of s f s0 n] A fs s' s1 reset_inactive by simp
  next
    assume s1: "s1 = s2 \<and> \<not> r2"
    have g: "geom_ok s f" using A by simp
    have js: "unat (journal_start (sb_of f s)) + 33 \<le> unat (total_blocks (sb_of f s))" by (rule geom_okD(7) [OF g])
    have at: "unat ?at = unat (journal_start (sb_of f s)) + 1"
      using unat_add_small [of "journal_start (sb_of f s)" 1] js u32_less [of "total_blocks (sb_of f s)"] by simp
    have we: "frm f s s2 \<and> geom_ok s2 f \<and>
        (\<forall>b. b < unat ?at \<or> unat ?at + length ?es \<le> b \<longrightarrow> fs_block s2 f b = fs_block s f b)"
      using write_payloads_effect [OF g wp] at js A by simp
    have c2: "coh s2 f" using payloads_coh [OF g _ wp] at A by simp
    have f2: "fss s2 = fss s" "jtx s2 = jtx s" "sb_block s2 = sb_block s" using we by (simp_all add: frm_def)
    have js0: "journal_start (sb_of f s) = journal_start (sb_of f s0)" using fs by simp
    have "fs_block s2 f b = fs_block s0 f b" if "home (sb_of f s0) b" for b
    proof -
      have "b < unat ?at \<or> unat ?at + length ?es \<le> b" using that at A js0 by (auto simp: home_def)
      then show ?thesis using we A by auto
    qed
    moreover have "j_saved (jtx s2) = sb_of f s0" using A sv f2 by simp
    ultimately show ?thesis using restore_ok [of s2 f s0 n] we c2 A fs f2 s' s1 reset_inactive by simp
  qed
qed

text \<open>A transaction all of whose blocks lie outside the journal.\<close>

definition staged_home :: "nat \<Rightarrow> kfs_state \<Rightarrow> bool" where
  "staged_home f s \<longleftrightarrow> (\<forall>e \<in> set (j_entries (jtx s)). home (sb_of f s) (unat (fst e)))"

text \<open>The state in which a call decides whether to commit.\<close>

abbreviation call_end :: "nat \<Rightarrow> kfs_call \<Rightarrow> u32 \<Rightarrow> kfs_state \<Rightarrow> kfs_state" where
  "call_end f c mtime s \<equiv> snd (kfs_body f c mtime (snd (journal_begin f s)))"

lemma abortable_in_tx:
  assumes a: "abortable f s0 s" and sv: "j_saved (jtx s0) = sb_of f s0" and h: "staged_home f s"
  shows "in_tx f s"
proof -
  obtain n where fs: "fss s = (fss s0)(f := (fss s0 f)\<lparr>f_sb := (sb_of f s0)\<lparr>free_blocks := n\<rparr>\<rparr>)"
    using a by (auto simp: abortable_def)
  have "same_layout (j_saved (jtx s)) (sb_of f s)" using a sv fs by (simp add: abortable_def same_layout_def)
  then show ?thesis using a h unfolding abortable_def in_tx_def store_ok_def staged_home_def usable_def by blast
qed

text \<open>A commit that takes the instance offline.\<close>

lemma commit_fenced:
  assumes a: "abortable f s0 s" and sv: "j_saved (jtx s0) = sb_of f s0" and m: "mounted (fss s0 f)"
    and ret: "journal_commit f s = (ok, s')" and m': "\<not> mounted (fss s' f)" and h: "staged_home f s"
    and clean: "jh_clean (fs_block s0 f (unat (journal_start (sb_of f s0))))"
  shows "after_recovery f (sb_of f s0) s' (\<lambda>B. (\<forall>b. usable f s0 b \<longrightarrow> B (unat b) = fs_block s0 f (unat b)) \<or>
    (\<forall>b. usable f s0 b \<longrightarrow> B (unat b) = view f s b))"
proof -
  obtain n where fs: "fss s = (fss s0)(f := (fss s0 f)\<lparr>f_sb := (sb_of f s0)\<lparr>free_blocks := n\<rparr>\<rparr>)"
    using a by (auto simp: abortable_def)
  note A = a [unfolded abortable_def] and tx = abortable_in_tx [OF a sv h]
  let ?es = "j_entries (jtx s)" and ?sb = "sb_of f s" and ?old = "fs_block s0 f"
  have geo: "total_blocks ?sb = total_blocks (sb_of f s0)" "journal_start ?sb = journal_start (sb_of f s0)" using fs by simp_all
  note sg = same_geom [OF geo]
  have es: "?es \<noteq> []"
  proof
    assume "?es = []"
    then have "s' = journal_reset (if ok then s else set_sb f (j_saved (jtx s)) s)"
      using ret fs m by (auto simp: journal_commit_def commit_body_def Let_def split: if_splits)
    then show False using m m' fs by (simp add: journal_reset_def set_sb_def upd_fs_def split: if_splits)
  qed
  have t: "tx_ok ?sb ?es" using A h es unfolding tx_ok_def staged_home_def by blast
  have blk: "fs_block s f = ?old" using A by blast
  have st: "settled ?sb ?old (fs_block s f)" using clean unfolding blk settled_def geo by blast
  have g: "geom_ok s f" using A by blast
  from commit_effect [OF g st t ret]
  have ph: "settled (sb_of f s0) (install ?es ?old) (fs_block s' f) \<or> settled (sb_of f s0) ?old (fs_block s' f) \<or>
      committed (sb_of f s0) (j_sequence (jtx s)) ?es ?old (fs_block s' f)" unfolding sg by blast
  have new: "install ?es ?old (unat b) = view f s b" for b using install_view [OF tx, of b] unfolding blk .
  show ?thesis
  proof (rule after_recovery_mono [OF recovery_atomic [OF t [unfolded sg] ph]], elim disjE)
    fix B assume "\<forall>b. home (sb_of f s0) b \<longrightarrow> B b = install ?es ?old b"
    then have "\<forall>b. usable f s0 b \<longrightarrow> B (unat b) = view f s b" unfolding usable_def new [symmetric] by blast
    then show "(\<forall>b. usable f s0 b \<longrightarrow> B (unat b) = ?old (unat b)) \<or> (\<forall>b. usable f s0 b \<longrightarrow> B (unat b) = view f s b)" ..
  qed (auto simp: usable_def)
qed


definition demo_idle :: kfs_state where
  "demo_idle = journal_reset (demo_kfs (demo_disk (\<lambda>_. None) demo_zero) [])"

lemma demo_idle_simps [simp]:
  "\<not> j_active (jtx demo_idle)" "fss demo_idle f = \<lparr>f_bd = Some 0, start_lba = 0, spb = 1, f_sb = demo_sb,
    f_used = True, mounted = True, handles = 0\<rparr>"
  by (simp_all add: demo_idle_def demo_kfs_def journal_reset_def)


end
