(* ===== verification/Kfs_Data.thy ===== *)
theory Kfs_Data
  imports Kfs_Alloc Kfs_Tx
begin

text \<open>
  File data of KFS (\<^verbatim>\<open>bmap\<close>, \<^verbatim>\<open>readi\<close>, \<^verbatim>\<open>writei\<close> and the entry points over them in \<^verbatim>\<open>kernel/kfs.c\<close>). The
  block pointers of an inode are numbered: 0 to 9 are the direct ones, 10 to 1033 those of the
  indirect block and 1034 the indirect block itself. A file system is well formed when every pointer
  leads to a data block that the bitmap marks as used and no two pointers lead to the same block.
\<close>

section \<open>Pointers and bytes of a file\<close>

definition ptr_of :: "nat \<Rightarrow> kfs_state \<Rightarrow> kfs_inode \<Rightarrow> nat \<Rightarrow> u32" where
  "ptr_of f s ip k = (if k < KFS_NDIRECT then direct ip ! k
     else if k = KFS_NDIRECT + KFS_NINDIRECT then indirect ip
     else if indirect ip = 0 \<or> k > KFS_NDIRECT + KFS_NINDIRECT then 0
     else rd32 (4 * (k - KFS_NDIRECT)) (view f s (indirect ip)))"

abbreviation ptr :: "nat \<Rightarrow> kfs_state \<Rightarrow> u32 \<Rightarrow> nat \<Rightarrow> u32" where
  "ptr f s ino \<equiv> ptr_of f s (inode_at f s ino)"

abbreviation in_data :: "kfs_superblock \<Rightarrow> u32 \<Rightarrow> bool" where
  "in_data sb b \<equiv> unat (data_start sb) \<le> unat b \<and> unat b < unat (total_blocks sb)"

definition ptrs_ok :: "nat \<Rightarrow> kfs_state \<Rightarrow> bool" where
  "ptrs_ok f s \<longleftrightarrow> (\<forall>i k. ino_valid (sb_of f s) i \<longrightarrow> ptr f s i k \<noteq> 0 \<longrightarrow>
     in_data (sb_of f s) (ptr f s i k) \<and> used f s (unat (ptr f s i k)))"

definition ptrs_inj :: "nat \<Rightarrow> kfs_state \<Rightarrow> bool" where
  "ptrs_inj f s \<longleftrightarrow> (\<forall>i j k l. ino_valid (sb_of f s) i \<longrightarrow> ino_valid (sb_of f s) j \<longrightarrow>
     ptr f s i k = ptr f s j l \<longrightarrow> ptr f s i k \<noteq> 0 \<longrightarrow> i = j \<and> k = l)"

definition fs_wf :: "nat \<Rightarrow> kfs_state \<Rightarrow> bool" where
  "fs_wf f s \<longleftrightarrow> layout_ok (sb_of f s) \<and> meta_used f s \<and> ptrs_ok f s \<and> ptrs_inj f s"

text \<open>The byte at a position of a file; \<open>None\<close> where no block is mapped.\<close>

definition fbyte :: "nat \<Rightarrow> kfs_state \<Rightarrow> u32 \<Rightarrow> nat \<Rightarrow> byte option" where
  "fbyte f s ino p = (let n = p div KFS_BLOCK_SIZE; b = ptr f s ino n in
     if n < KFS_NDIRECT + KFS_NINDIRECT \<and> b \<noteq> 0 then Some (view f s b ! (p mod KFS_BLOCK_SIZE)) else None)"

lemma length_direct_at [simp]: "length (direct (inode_at f s i)) = KFS_NDIRECT"
  by (simp add: inode_at_def)

lemma fs_wfD:
  assumes "fs_wf f s"
  shows "layout_ok (sb_of f s)" and "meta_used f s"
    and "\<lbrakk>ino_valid (sb_of f s) i; ptr f s i k \<noteq> 0\<rbrakk> \<Longrightarrow> in_data (sb_of f s) (ptr f s i k)"
    and "\<lbrakk>ino_valid (sb_of f s) i; ptr f s i k \<noteq> 0\<rbrakk> \<Longrightarrow> used f s (unat (ptr f s i k))"
    and "\<lbrakk>ino_valid (sb_of f s) i; ino_valid (sb_of f s) j; ptr f s i k = ptr f s j l; ptr f s i k \<noteq> 0\<rbrakk> \<Longrightarrow>
      i = j \<and> k = l"
  using assms unfolding fs_wf_def ptrs_ok_def ptrs_inj_def by blast+

lemma ptr_indirect: "ptr_of f s ip (KFS_NDIRECT + KFS_NINDIRECT) = indirect ip" by (simp add: ptr_of_def)

lemma ptr_far: "k > KFS_NDIRECT + KFS_NINDIRECT \<Longrightarrow> ptr_of f s ip k = 0" by (simp add: ptr_of_def)

lemma ptr_cong:
  assumes "direct ip = direct ip'" and "indirect ip = indirect ip'"
    and "indirect ip \<noteq> 0 \<Longrightarrow> view f s (indirect ip) = view f s' (indirect ip)"
  shows "ptr_of f s ip = ptr_of f s' ip'"
  by (rule ext) (use assms in \<open>simp add: ptr_of_def\<close>)

lemma ino_valid_layout: "same_layout a b \<Longrightarrow> ino_valid a i = ino_valid b i"
  by (simp add: ino_valid_def same_layout_fields)

lemma in_data_layout: "same_layout a b \<Longrightarrow> in_data a x = in_data b x"
  by (simp add: same_layout_fields)

lemma usable_ptr:
  assumes "fs_wf f s" and "ino_valid (sb_of f s) i" and "ptr f s i k \<noteq> 0"
  shows "usable f s (ptr f s i k)"
  using fs_wfD(1,3) [OF assms(1)] assms(2,3) usable_data by blast

lemma inode_at_cong:
  assumes "same_layout (sb_of f s') (sb_of f s)"
    and "view f s' (inode_blk (sb_of f s) i) = view f s (inode_blk (sb_of f s) i)"
  shows "inode_at f s' i = inode_at f s i"
proof -
  have "inode_blk (sb_of f s') i = inode_blk (sb_of f s) i"
    using same_layout_fields [OF assms(1)] by (simp add: inode_blk_def)
  then show ?thesis using assms(2) by (simp add: inode_at_def)
qed

text \<open>Well-formedness survives when the pointers stay and bits are only set, or one pointer gets a fresh block.\<close>

lemma bits_in_range:
  assumes "layout_ok sb" and "in_data sb b"
  shows "unat b < unat (bitmap_blocks sb) * BITS_PER_BLOCK"
  using layout_okD(7) [OF assms(1)] assms(2) by simp

lemma meta_used_mono:
  assumes l: "layout_ok (sb_of f s)" and mu: "meta_used f s" and sl: "same_layout (sb_of f s') (sb_of f s)"
    and u: "\<And>m. m < unat (bitmap_blocks (sb_of f s)) * BITS_PER_BLOCK \<Longrightarrow> used f s m \<Longrightarrow> used f s' m"
  shows "meta_used f s'"
  unfolding meta_used_def
proof (intro allI impI)
  fix n assume "n < unat (data_start (sb_of f s'))"
  then have n: "n < unat (data_start (sb_of f s))" using same_layout_fields [OF sl] by simp
  then have "n < unat (bitmap_blocks (sb_of f s)) * BITS_PER_BLOCK" using layout_okD(5,7) [OF l] by linarith
  with n mu u show "used f s' n" by (simp add: meta_used_def)
qed

lemma fs_wf_keep:
  assumes wf: "fs_wf f s" and sl: "same_layout (sb_of f s') (sb_of f s)"
    and u: "\<And>m. m < unat (bitmap_blocks (sb_of f s)) * BITS_PER_BLOCK \<Longrightarrow> used f s m \<Longrightarrow> used f s' m"
    and p: "\<And>i. ino_valid (sb_of f s) i \<Longrightarrow> ptr f s' i = ptr f s i"
  shows "fs_wf f s'"
proof -
  note w = fs_wfD [OF wf] and v = ino_valid_layout [OF sl]
  have "ptrs_ok f s'"
    unfolding ptrs_ok_def v in_data_layout [OF sl] using p w(3,4) u bits_in_range [OF w(1)] by simp
  moreover have "ptrs_inj f s'" unfolding ptrs_inj_def v using p w(5) by simp
  ultimately show ?thesis
    using layout_ok_same [OF sl] w(1) meta_used_mono [OF w(1,2) sl u] by (simp add: fs_wf_def)
qed

lemma fs_wf_assign:
  assumes wf: "fs_wf f s" and sl: "same_layout (sb_of f s') (sb_of f s)"
    and u: "\<And>m. m < unat (bitmap_blocks (sb_of f s)) * BITS_PER_BLOCK \<Longrightarrow> used f s m \<Longrightarrow> used f s' m"
    and b: "in_data (sb_of f s) b" "\<not> used f s (unat b)" "used f s' (unat b)"
    and p: "\<And>i. ino_valid (sb_of f s) i \<Longrightarrow> ptr f s' i = (if i = ino then (ptr f s i)(k := b) else ptr f s i)"
  shows "fs_wf f s'"
proof -
  note w = fs_wfD [OF wf] and v = ino_valid_layout [OF sl]
  have fresh: "ptr f s i l \<noteq> b" if "ino_valid (sb_of f s) i" for i l
  proof
    assume e: "ptr f s i l = b"
    have "b \<noteq> 0" using b(1) layout_okD(4) [OF w(1)] layout_okD(3) [OF w(1)] by auto
    then show False using w(4) [OF that, of l] e b(2) by simp
  qed
  have "ptrs_ok f s'"
    unfolding ptrs_ok_def v in_data_layout [OF sl]
    using p w(3,4) u bits_in_range [OF w(1)] b(1,3) by (simp split: if_splits)
  moreover have "ptrs_inj f s'" unfolding ptrs_inj_def v
  proof (intro allI impI)
    fix i j l m
    assume i: "ino_valid (sb_of f s) i" and j: "ino_valid (sb_of f s) j"
      and e: "ptr f s' i l = ptr f s' j m" and nz: "ptr f s' i l \<noteq> 0"
    show "i = j \<and> l = m"
    proof (cases "i = ino \<and> l = k \<or> j = ino \<and> m = k")
      case True
      then show ?thesis using e p [OF i] p [OF j] fresh [OF i] fresh [OF j] by (metis fun_upd_apply)
    next
      case False
      then have "ptr f s' i l = ptr f s i l" "ptr f s' j m = ptr f s j m" using p [OF i] p [OF j] by auto
      then show ?thesis using w(5) [OF i j, of l m] e nz by metis
    qed
  qed
  ultimately show ?thesis
    using layout_ok_same [OF sl] w(1) meta_used_mono [OF w(1,2) sl u] by (simp add: fs_wf_def)
qed

section \<open>Effects on pointers\<close>

lemma data_beyond:
  assumes "layout_ok (sb_of f s)" and "in_data (sb_of f s) b" shows "beyond f s b" and "b \<noteq> 0"
  using layout_okD(3,4) [OF assms(1)] assms(2) by auto

lemma data_not_inode:
  assumes "layout_ok (sb_of f s)" and "in_data (sb_of f s) b" and "ino_valid (sb_of f s) i"
  shows "inode_blk (sb_of f s) i \<noteq> b"
  using inode_blk_unat(3) [OF assms(1,3)] assms(2) by auto

lemma used_beyond:
  assumes l: "layout_ok (sb_of f s)" and sl: "same_layout (sb_of f s') (sb_of f s)"
    and v: "\<And>c. \<not> beyond f s c \<Longrightarrow> view f s' c = view f s c"
    and n: "n < unat (bitmap_blocks (sb_of f s)) * BITS_PER_BLOCK"
  shows "used f s' n = used f s n"
proof (rule used_cong [OF l sl _ n])
  fix bb assume bb: "bb < unat (bitmap_blocks (sb_of f s))"
  show "view f s' (bitmap_blk f s bb) = view f s (bitmap_blk f s bb)"
    using bitmap_blk_unat [OF l bb] layout_okD(2) [OF l] bb by (intro v) linarith
qed

lemma ptr_keep:
  assumes wf: "fs_wf f s" and i: "ino_valid (sb_of f s) i" and ia: "inode_at f s' i = inode_at f s i"
    and v: "\<And>c. in_data (sb_of f s) c \<Longrightarrow> used f s (unat c) \<Longrightarrow> view f s' c = view f s c"
  shows "ptr f s' i = ptr f s i"
proof -
  have "view f s' (indirect (inode_at f s i)) = view f s (indirect (inode_at f s i))" if "indirect (inode_at f s i) \<noteq> 0"
    using fs_wfD(3,4) [OF wf i, of "KFS_NDIRECT + KFS_NINDIRECT"] that unfolding ptr_indirect by (intro v)
  then show ?thesis unfolding ia by (intro ptr_cong) simp_all
qed

lemma balloc_wf:
  assumes tx: "in_tx f s" and wf: "fs_wf f s" and ret: "balloc f s = (b, s')" and b: "b \<noteq> 0"
  shows "fs_wf f s'" and "in_data (sb_of f s) b" and "\<not> used f s (unat b)" and "used f s' (unat b)"
    and "view f s' b = replicate KFS_BLOCK_SIZE 0"
    and "\<And>i. ino_valid (sb_of f s) i \<Longrightarrow> inode_at f s' i = inode_at f s i"
    and "\<And>i. ino_valid (sb_of f s) i \<Longrightarrow> ptr f s' i = ptr f s i"
    and "\<And>c. in_data (sb_of f s) c \<Longrightarrow> c \<noteq> b \<Longrightarrow> view f s' c = view f s c"
    and "\<And>m. m < unat (bitmap_blocks (sb_of f s)) * BITS_PER_BLOCK \<Longrightarrow> used f s m \<Longrightarrow> used f s' m"
proof -
  note w = fs_wfD [OF wf]
  note e = balloc_ok [OF tx w(1,2) ret]
  have post: "balloc_post f s b s'" using e(3) b by simp
  then show d: "in_data (sb_of f s) b" and nu: "\<not> used f s (unat b)"
    and "view f s' b = replicate KFS_BLOCK_SIZE 0" by (simp_all add: balloc_post_def)
  have u: "used f s' m \<longleftrightarrow> m = unat b \<or> used f s m" if "m < unat (bitmap_blocks (sb_of f s)) * BITS_PER_BLOCK" for m
    using post that by (simp add: balloc_post_def)
  show "used f s' (unat b)" using u [OF bits_in_range [OF w(1) d]] by simp
  show um: "used f s' m" if "m < unat (bitmap_blocks (sb_of f s)) * BITS_PER_BLOCK" "used f s m" for m
    using u that by simp
  have v: "view f s' c = view f s c" if "beyond f s c" "c \<noteq> b" for c
    using post that by (simp add: balloc_post_def)
  show vd: "view f s' c = view f s c" if "in_data (sb_of f s) c" "c \<noteq> b" for c
    using that data_beyond [OF w(1)] by (intro v)
  have sl: "same_layout (sb_of f s') (sb_of f s)" by (rule tx_frameD(2) [OF e(1)])
  show ia: "inode_at f s' i = inode_at f s i" if i: "ino_valid (sb_of f s) i" for i
    by (intro inode_at_cong [OF sl] v inode_blk_unat(4) [OF w(1) i] data_not_inode [OF w(1) d i])
  show p: "ptr f s' i = ptr f s i" if i: "ino_valid (sb_of f s) i" for i
    using nu by (intro ptr_keep [OF wf i ia [OF i]] vd) auto
  show "fs_wf f s'" by (rule fs_wf_keep [OF wf sl um p])
qed

lemma iput_wf:
  assumes tx: "in_tx f s" and wf: "fs_wf f s" and i: "ino_valid (sb_of f s) ino"
    and d: "length (direct ip) = KFS_NDIRECT" and ret: "iput f ino ip s = (True, s')"
  shows "inode_at f s' ino = ip"
    and "\<And>j. ino_valid (sb_of f s) j \<Longrightarrow> j \<noteq> ino \<Longrightarrow> inode_at f s' j = inode_at f s j"
    and "\<And>j. ino_valid (sb_of f s) j \<Longrightarrow> j \<noteq> ino \<Longrightarrow> ptr f s' j = ptr f s j"
    and "\<And>c. in_data (sb_of f s) c \<Longrightarrow> view f s' c = view f s c"
    and "\<And>m. m < unat (bitmap_blocks (sb_of f s)) * BITS_PER_BLOCK \<Longrightarrow> used f s' m = used f s m"
proof -
  note w = fs_wfD [OF wf] and e = iput_ok [OF tx fs_wfD(1) [OF wf] i d ret]
  show "inode_at f s' ino = ip" using e(4) by simp
  show ia: "inode_at f s' j = inode_at f s j" if "ino_valid (sb_of f s) j" "j \<noteq> ino" for j using e(5) that by simp
  show v: "view f s' c = view f s c" if "in_data (sb_of f s) c" for c
    using data_not_inode [OF w(1) that i] by (intro e(3)) simp
  show "ptr f s' j = ptr f s j" if "ino_valid (sb_of f s) j" "j \<noteq> ino" for j
    using ia [OF that] v by (intro ptr_keep [OF wf that(1)])
  have sl: "same_layout (sb_of f s') (sb_of f s)" by (simp add: e(2) same_layout_refl)
  show "used f s' m = used f s m" if "m < unat (bitmap_blocks (sb_of f s)) * BITS_PER_BLOCK" for m
    using inode_blk_unat(4) [OF w(1) i] by (intro used_beyond [OF w(1) sl _ that] e(3)) auto
qed

lemma stage_wf:
  assumes tx: "in_tx f s" and wf: "fs_wf f s" and d: "in_data (sb_of f s) b" and len: "length buf = KFS_BLOCK_SIZE"
    and ret: "journal_stage f b buf s = (True, s')"
  shows "view f s' = (view f s)(b := buf)"
    and "\<And>i. ino_valid (sb_of f s) i \<Longrightarrow> inode_at f s' i = inode_at f s i"
    and "\<And>i. \<lbrakk>ino_valid (sb_of f s) i; indirect (inode_at f s i) \<noteq> b\<rbrakk> \<Longrightarrow> ptr f s' i = ptr f s i"
    and "\<And>m. m < unat (bitmap_blocks (sb_of f s)) * BITS_PER_BLOCK \<Longrightarrow> used f s' m = used f s m"
    and "sb_of f s' = sb_of f s"
proof -
  note w = fs_wfD [OF wf]
  note e = tx_stage [OF tx _ len ret]
  have us: "usable f s b" using usable_data [OF w(1)] d by simp
  show v: "view f s' = (view f s)(b := buf)" using e(2) [OF us] by simp
  show sb: "sb_of f s' = sb_of f s" by (rule e(4) [OF us])
  have sl: "same_layout (sb_of f s') (sb_of f s)" by (simp add: sb same_layout_refl)
  show ia: "inode_at f s' i = inode_at f s i" if "ino_valid (sb_of f s) i" for i
    using data_not_inode [OF w(1) d that] by (intro inode_at_cong [OF sl]) (simp add: v)
  show "ptr f s' i = ptr f s i" if "ino_valid (sb_of f s) i" "indirect (inode_at f s i) \<noteq> b" for i
    unfolding ia [OF that(1)] using that(2) by (intro ptr_cong) (simp_all add: v)
  show "used f s' m = used f s m" if "m < unat (bitmap_blocks (sb_of f s)) * BITS_PER_BLOCK" for m
    using data_beyond(1) [OF w(1) d] by (intro used_beyond [OF w(1) sl _ that]) (auto simp: v)
qed

section \<open>Block mapping\<close>

text \<open>A step that may give inode \<open>ino\<close> further blocks and leaves every other file and all file bytes alone.\<close>

definition grow :: "nat \<Rightarrow> u32 \<Rightarrow> kfs_state \<Rightarrow> kfs_state \<Rightarrow> bool" where
  "grow f ino s s' \<longleftrightarrow> fs_wf f s' \<and>
     (\<exists>d i. inode_at f s' ino = (inode_at f s ino)\<lparr>direct := d, indirect := i\<rparr>) \<and>
     (\<forall>j. ino_valid (sb_of f s) j \<and> j \<noteq> ino \<longrightarrow> inode_at f s' j = inode_at f s j \<and> ptr f s' j = ptr f s j) \<and>
     (\<forall>c. in_data (sb_of f s) c \<and> used f s (unat c) \<and> c \<noteq> indirect (inode_at f s' ino) \<longrightarrow> view f s' c = view f s c) \<and>
     (\<forall>m < unat (bitmap_blocks (sb_of f s)) * BITS_PER_BLOCK. used f s m \<longrightarrow> used f s' m) \<and>
     (indirect (inode_at f s ino) \<noteq> 0 \<longrightarrow> indirect (inode_at f s' ino) = indirect (inode_at f s ino))"

lemma growD:
  assumes "grow f ino s s'"
  shows "fs_wf f s'" and "\<exists>d i. inode_at f s' ino = (inode_at f s ino)\<lparr>direct := d, indirect := i\<rparr>"
    and "\<lbrakk>ino_valid (sb_of f s) j; j \<noteq> ino\<rbrakk> \<Longrightarrow> inode_at f s' j = inode_at f s j"
    and "\<lbrakk>ino_valid (sb_of f s) j; j \<noteq> ino\<rbrakk> \<Longrightarrow> ptr f s' j = ptr f s j"
    and "\<lbrakk>in_data (sb_of f s) c; used f s (unat c); c \<noteq> indirect (inode_at f s' ino)\<rbrakk> \<Longrightarrow> view f s' c = view f s c"
    and "\<lbrakk>m < unat (bitmap_blocks (sb_of f s)) * BITS_PER_BLOCK; used f s m\<rbrakk> \<Longrightarrow> used f s' m"
    and "indirect (inode_at f s ino) \<noteq> 0 \<Longrightarrow> indirect (inode_at f s' ino) = indirect (inode_at f s ino)"
  using assms unfolding grow_def by blast+

lemma inode_pointers_twice: "ip\<lparr>direct := d, indirect := i\<rparr>\<lparr>direct := d', indirect := i'\<rparr> = ip\<lparr>direct := d', indirect := i'\<rparr>"
  by simp

lemma grow_refl: "fs_wf f s \<Longrightarrow> grow f ino s s"
  unfolding grow_def by (auto intro!: exI [of _ "direct (inode_at f s ino)"] exI [of _ "indirect (inode_at f s ino)"])

lemma grow_trans:
  assumes g: "grow f ino s s1" and h: "grow f ino s1 s2" and sl: "same_layout (sb_of f s1) (sb_of f s)"
    and wf: "fs_wf f s"
  shows "grow f ino s s2"
  unfolding grow_def
proof (intro conjI allI impI)
  note v = ino_valid_layout [OF sl] and L = same_layout_fields [OF sl]
  show "fs_wf f s2" by (rule growD(1) [OF h])
  show "\<exists>d i. inode_at f s2 ino = (inode_at f s ino)\<lparr>direct := d, indirect := i\<rparr>"
    using growD(2) [OF g] growD(2) [OF h] inode_pointers_twice by metis
  show "inode_at f s2 j = inode_at f s j" "ptr f s2 j = ptr f s j" if "ino_valid (sb_of f s) j \<and> j \<noteq> ino" for j
    using growD(3,4) [OF g, of j] growD(3,4) [OF h, of j] that v by simp_all
  show "used f s2 m" if "m < unat (bitmap_blocks (sb_of f s)) * BITS_PER_BLOCK" "used f s m" for m
    using growD(6) [OF h] growD(6) [OF g] that L by simp
  show "indirect (inode_at f s2 ino) = indirect (inode_at f s ino)" if "indirect (inode_at f s ino) \<noteq> 0"
    using growD(7) [OF g that] growD(7) [OF h] that by simp
  fix c assume c: "in_data (sb_of f s) c \<and> used f s (unat c) \<and> c \<noteq> indirect (inode_at f s2 ino)"
  have nz: "c \<noteq> 0" using data_beyond(2) [OF fs_wfD(1) [OF wf]] c by blast
  have n1: "c \<noteq> indirect (inode_at f s1 ino)" using growD(7) [OF h] c nz by metis
  have u1: "used f s1 (unat c)" using growD(6) [OF g] bits_in_range [OF fs_wfD(1) [OF wf]] c by blast
  have "view f s2 c = view f s1 c" using c u1 L by (intro growD(5) [OF h]) simp_all
  also have "\<dots> = view f s c" using c n1 by (intro growD(5) [OF g]) simp_all
  finally show "view f s2 c = view f s c" .
qed

lemma alloc_put_frame:
  assumes tx: "in_tx f s" and wf: "fs_wf f s" and i: "ino_valid (sb_of f s) ino"
    and ba: "balloc f s = (b, s1)" and d: "length (direct ip) = KFS_NDIRECT"
  shows "tx_frame f s s1" and "tx_frame f s (snd (iput f ino ip s1))"
proof -
  show fr: "tx_frame f s s1" by (rule balloc_ok(1) [OF tx fs_wfD(1,2) [OF wf] ba])
  obtain r s2 where put: "iput f ino ip s1 = (r, s2)" by fastforce
  have l1: "layout_ok (sb_of f s1)" using tx_frameD(4) [OF fr] fs_wfD(1) [OF wf] by simp
  have i1: "ino_valid (sb_of f s1) ino" using ino_valid_layout [OF tx_frameD(2) [OF fr]] i by simp
  show "tx_frame f s (snd (iput f ino ip s1))"
    using tx_frame_trans [OF fr iput_ok(1) [OF tx_frameD(1) [OF fr] l1 i1 d put]] put by simp
qed

lemma alloc_put:
  assumes tx: "in_tx f s" and wf: "fs_wf f s" and i: "ino_valid (sb_of f s) ino" and nf: "no_faults s f"
    and ba: "balloc f s = (b, s1)" and b: "b \<noteq> 0" and d: "length (direct ip) = KFS_NDIRECT"
    and s2: "s2 = snd (iput f ino ip s1)" and nfl: "\<not> j_failed (jtx s2)"
  shows "inode_at f s2 ino = ip"
    and "\<And>j. ino_valid (sb_of f s) j \<Longrightarrow> j \<noteq> ino \<Longrightarrow> inode_at f s2 j = inode_at f s j"
    and "\<And>j. ino_valid (sb_of f s) j \<Longrightarrow> j \<noteq> ino \<Longrightarrow> ptr f s2 j = ptr f s j"
    and "\<And>c. in_data (sb_of f s) c \<Longrightarrow> c \<noteq> b \<Longrightarrow> view f s2 c = view f s c"
    and "view f s2 b = replicate KFS_BLOCK_SIZE 0"
    and "\<And>m. m < unat (bitmap_blocks (sb_of f s)) * BITS_PER_BLOCK \<Longrightarrow> used f s m \<Longrightarrow> used f s2 m"
    and "used f s2 (unat b)"
    and "\<And>m. m < unat (bitmap_blocks (sb_of f s)) * BITS_PER_BLOCK \<Longrightarrow> used f s2 m \<Longrightarrow> m = unat b \<or> used f s m"
proof -
  note bw = balloc_wf [OF tx wf ba b] and fr = alloc_put_frame [OF tx wf i ba d]
  note L = same_layout_fields [OF tx_frameD(2) [OF fr(1)]] and v = ino_valid_layout [OF tx_frameD(2) [OF fr(1)]]
  have tx1: "in_tx f s1" by (rule tx_frameD(1) [OF fr(1)])
  have i1: "ino_valid (sb_of f s1) ino" using i v by simp
  obtain r where put: "iput f ino ip s1 = (r, s2)" using s2 by (cases "iput f ino ip s1") simp
  have r: r using iput_ok(6) [OF tx1 fs_wfD(1) [OF bw(1)] i1 d put] nfl tx_frameD(7) [OF fr(1)] nf by auto
  have put': "iput f ino ip s1 = (True, s2)" using put r by simp
  note pw = iput_wf [OF tx1 bw(1) i1 d put']
  show "inode_at f s2 ino = ip" by (rule pw(1))
  show "inode_at f s2 j = inode_at f s j" if "ino_valid (sb_of f s) j" "j \<noteq> ino" for j
    using pw(2) [of j] bw(6) [of j] that v by simp
  show "ptr f s2 j = ptr f s j" if "ino_valid (sb_of f s) j" "j \<noteq> ino" for j
    using pw(3) [of j] bw(7) [of j] that v by simp
  show "view f s2 c = view f s c" if "in_data (sb_of f s) c" "c \<noteq> b" for c
    using pw(4) [of c] bw(8) [of c] that L by simp
  show "view f s2 b = replicate KFS_BLOCK_SIZE 0" using pw(4) [of b] bw(2,5) L by simp
  show "used f s2 m" if "m < unat (bitmap_blocks (sb_of f s)) * BITS_PER_BLOCK" "used f s m" for m
    using pw(5) [of m] bw(9) [of m] that L by simp
  show "used f s2 (unat b)" using pw(5) [of "unat b"] bits_in_range [OF fs_wfD(1) [OF wf] bw(2)] bw(4) L by simp
  show "m = unat b \<or> used f s m" if "m < unat (bitmap_blocks (sb_of f s)) * BITS_PER_BLOCK" "used f s2 m" for m
    using pw(5) [of m] balloc_ok(3) [OF tx fs_wfD(1,2) [OF wf] ba] b that L by (simp add: balloc_post_def)
qed

lemma view_same_layout:
  assumes "view f s' = view f s" and sl: "same_layout (sb_of f s') (sb_of f s)"
  shows "inode_at f s' = inode_at f s" and "ptr_of f s' = ptr_of f s" and "used f s' = used f s"
    and "fs_wf f s' = fs_wf f s" and "fbyte f s' = fbyte f s"
proof -
  note L = same_layout_fields [OF sl]
  show ia: "inode_at f s' = inode_at f s" by (rule ext) (rule inode_at_cong [OF sl], simp add: assms(1))
  show p: "ptr_of f s' = ptr_of f s" by (intro ext) (simp add: ptr_of_def assms)
  show u: "used f s' = used f s" by (rule ext) (simp add: used_def bitmap_blk_def assms(1) L)
  show "fs_wf f s' = fs_wf f s"
    by (simp add: fs_wf_def meta_used_def ptrs_ok_def ptrs_inj_def ia p u layout_ok_same [OF sl] ino_valid_layout [OF sl] L)
  show "fbyte f s' = fbyte f s" by (intro ext) (simp add: fbyte_def Let_def ia p assms(1))
qed

lemma view_same:
  assumes "view f s' = view f s" and "sb_of f s' = sb_of f s"
  shows "inode_at f s' = inode_at f s" and "ptr_of f s' = ptr_of f s" and "used f s' = used f s"
    and "fs_wf f s' = fs_wf f s" and "fbyte f s' = fbyte f s"
  using view_same_layout [OF assms(1)] assms(2) by (simp_all add: same_layout_refl)

text \<open>Outcome of mapping pointer \<open>n\<close> with allocation: \<open>b\<close> is zero only when the disk is full.\<close>

definition mapped :: "nat \<Rightarrow> u32 \<Rightarrow> nat \<Rightarrow> kfs_state \<Rightarrow> u32 \<Rightarrow> kfs_state \<Rightarrow> bool" where
  "mapped f ino n s b s' \<longleftrightarrow> grow f ino s s' \<and>
     (\<forall>k < KFS_NDIRECT + KFS_NINDIRECT. ptr f s' ino k = (if k = n \<and> b \<noteq> 0 then b else ptr f s ino k)) \<and>
     (ptr f s ino n \<noteq> 0 \<longrightarrow> b = ptr f s ino n) \<and>
     (ptr f s ino n = 0 \<and> b \<noteq> 0 \<longrightarrow> in_data (sb_of f s) b \<and> \<not> used f s (unat b) \<and> view f s' b = replicate KFS_BLOCK_SIZE 0) \<and>
     (b = 0 \<longrightarrow> (\<forall>m < unat (total_blocks (sb_of f s)). used f s' m))"

lemma mapped_present:
  assumes "view f s' = view f s" and "sb_of f s' = sb_of f s" and "fs_wf f s" and "ptr f s ino n \<noteq> 0"
  shows "mapped f ino n s (ptr f s ino n) s'"
proof -
  note v = view_same [OF assms(1,2)]
  have "grow f ino s s'" using grow_refl [OF assms(3), of ino] unfolding grow_def v assms(1,2) .
  then show ?thesis using assms(4) by (simp add: mapped_def v)
qed

lemma balloc_full:
  assumes "in_tx f s" and "fs_wf f s" and "no_faults s f" and "balloc f s = (0, s')" and "\<not> j_failed (jtx s')"
  shows "view f s' = view f s" and "\<forall>m < unat (total_blocks (sb_of f s)). used f s m"
  using balloc_ok(2) [OF assms(1) fs_wfD(1,2) [OF assms(2)] assms(4)] assms(3,5) by auto

lemma mapped_full:
  assumes tx: "in_tx f s" and wf: "fs_wf f s" and nf: "no_faults s f" and ba: "balloc f s = (0, s')"
    and nfl: "\<not> j_failed (jtx s')" and p: "ptr f s ino n = 0"
  shows "mapped f ino n s 0 s'"
proof -
  note b = balloc_full [OF tx wf nf ba nfl]
  have sl: "same_layout (sb_of f s') (sb_of f s)"
    by (rule tx_frameD(2) [OF balloc_ok(1) [OF tx fs_wfD(1,2) [OF wf] ba]])
  note v = view_same_layout [OF b(1) sl]
  have "grow f ino s s'" using grow_refl [OF wf, of ino] unfolding grow_def v b(1) .
  then show ?thesis using p b(2) by (simp add: mapped_def v)
qed

lemma bmap_direct_ok:
  assumes tx: "in_tx f s" and wf: "fs_wf f s" and i: "ino_valid (sb_of f s) ino" and nf: "no_faults s f"
    and n: "n < KFS_NDIRECT" and ret: "bmap_direct f ino (inode_at f s ino) n True s = (b, ip', s')"
  shows "tx_frame f s s'" and "\<not> j_failed (jtx s') \<Longrightarrow> mapped f ino n s b s' \<and> ip' = inode_at f s' ino \<and>
    (b = 0 \<longrightarrow> (\<forall>m < unat (total_blocks (sb_of f s)). used f s m))"
proof -
  let ?ip = "inode_at f s ino"
  let ?full = "b = 0 \<longrightarrow> (\<forall>m < unat (total_blocks (sb_of f s)). used f s m)"
  have pn: "ptr f s ino n = direct ?ip ! n" using n by (simp add: ptr_of_def)
  have "tx_frame f s s' \<and> (\<not> j_failed (jtx s') \<longrightarrow> mapped f ino n s b s' \<and> ip' = inode_at f s' ino \<and> ?full)"
  proof (cases "direct ?ip ! n = 0")
    case False
    then have r: "b = direct ?ip ! n" "ip' = ?ip" "s' = s" using ret by (auto simp: bmap_direct_def Let_def)
    show ?thesis unfolding r using mapped_present [OF refl refl wf, of ino n] False pn tx by (simp add: tx_frame_refl)
  next
    case z: True
    obtain nb s1 where ba: "balloc f s = (nb, s1)" by fastforce
    show ?thesis
    proof (cases "nb = 0")
      case True
      then have "b = 0" "ip' = ?ip" "s' = s1" using ret z ba by (auto simp: bmap_direct_def Let_def)
      moreover have sl: "tx_frame f s s1" by (rule balloc_ok(1) [OF tx fs_wfD(1,2) [OF wf] ba])
      moreover have "mapped f ino n s 0 s1 \<and> ?ip = inode_at f s1 ino \<and> (\<forall>m < unat (total_blocks (sb_of f s)). used f s m)"
        if "\<not> j_failed (jtx s1)"
      proof -
        have ba0: "balloc f s = (0, s1)" using ba True by simp
        show ?thesis using mapped_full [OF tx wf nf ba0 that] z pn balloc_full(2) [OF tx wf nf ba0 that]
          view_same_layout(1) [OF balloc_full(1) [OF tx wf nf ba0 that] tx_frameD(2) [OF sl]] by simp
      qed
      ultimately show ?thesis by simp
    next
      case nz: False
      let ?ip' = "?ip\<lparr>direct := (direct ?ip)[n := nb]\<rparr>"
      have r: "b = nb" "ip' = ?ip'" and s': "s' = snd (iput f ino ?ip' s1)"
        using ret z ba nz by (auto simp: bmap_direct_def Let_def)
      have d: "length (direct ?ip') = KFS_NDIRECT" by simp
      note bw = balloc_wf [OF tx wf ba nz]
      have fr: "tx_frame f s s'" using alloc_put_frame(2) [OF tx wf i ba d] s' by simp
      have "mapped f ino n s b s' \<and> ip' = inode_at f s' ino \<and> ?full" if nfl: "\<not> j_failed (jtx s')"
      proof -
        note ap = alloc_put [OF tx wf i nf ba nz d s' nfl]
        have vi: "view f s' (indirect ?ip) = view f s (indirect ?ip)" if "indirect ?ip \<noteq> 0"
          using fs_wfD(3,4) [OF wf i, of "KFS_NDIRECT + KFS_NINDIRECT"] that bw(3)
          unfolding ptr_indirect by (intro ap(4)) auto
        have p: "ptr f s' ino = (ptr f s ino)(n := nb)"
          unfolding ap(1) using n vi by (intro ext) (auto simp: ptr_of_def)
        have pp: "ptr f s' j = (if j = ino then (ptr f s j)(n := nb) else ptr f s j)" if "ino_valid (sb_of f s) j" for j
          using p ap(3) [OF that] by auto
        have "fs_wf f s'"
          by (rule fs_wf_assign [OF wf tx_frameD(2) [OF fr] ap(6) bw(2,3) ap(7) pp])
        moreover have "\<exists>d i. inode_at f s' ino = ?ip\<lparr>direct := d, indirect := i\<rparr>"
          unfolding ap(1) by (intro exI [of _ "(direct ?ip)[n := nb]"] exI [of _ "indirect ?ip"]) simp
        moreover have "view f s' c = view f s c" if "in_data (sb_of f s) c" "used f s (unat c)" for c
          using that bw(3) by (intro ap(4)) auto
        ultimately have "grow f ino s s'" using ap by (simp add: grow_def)
        then show ?thesis using p ap(1,5) bw(2,3) r nz pn z by (simp add: mapped_def)
      qed
      then show ?thesis using fr by blast
    qed
  qed
  then show "tx_frame f s s'" and "\<not> j_failed (jtx s') \<Longrightarrow> mapped f ino n s b s' \<and> ip' = inode_at f s' ino \<and> ?full" by blast+
qed

lemma stage_table:
  assumes tx: "in_tx f s" and wf: "fs_wf f s" and i: "ino_valid (sb_of f s) ino"
    and x: "x = indirect (inode_at f s ino)" "x \<noteq> 0" and n: "n < KFS_NINDIRECT"
    and ret: "journal_stage f x (wr32 (4 * n) b (view f s x)) s = (True, s')"
  shows "tx_frame f s s'" and "sb_of f s' = sb_of f s" and "\<And>c. c \<noteq> x \<Longrightarrow> view f s' c = view f s c"
    and "\<And>j. ino_valid (sb_of f s) j \<Longrightarrow> inode_at f s' j = inode_at f s j"
    and "\<And>j. ino_valid (sb_of f s) j \<Longrightarrow>
      ptr f s' j = (if j = ino then (ptr f s j)(KFS_NDIRECT + n := b) else ptr f s j)"
    and "\<And>m. m < unat (bitmap_blocks (sb_of f s)) * BITS_PER_BLOCK \<Longrightarrow> used f s' m = used f s m"
proof -
  have px: "ptr f s ino (KFS_NDIRECT + KFS_NINDIRECT) = x" unfolding ptr_indirect x(1) ..
  have d: "in_data (sb_of f s) x" using fs_wfD(3) [OF wf i, of "KFS_NDIRECT + KFS_NINDIRECT"] px x(2) by simp
  have us: "usable f s x" using usable_data [OF fs_wfD(1) [OF wf]] d by simp
  have lx: "length (view f s x) = KFS_BLOCK_SIZE" using tx us by (simp add: in_tx_def length_view)
  have len: "length (wr32 (4 * n) b (view f s x)) = KFS_BLOCK_SIZE" using n lx by simp
  note st = stage_wf [OF tx wf d len ret]
  show "tx_frame f s s'" by (rule tx_stage(1) [OF tx us len ret])
  show "sb_of f s' = sb_of f s" by (rule st(5))
  show "view f s' c = view f s c" if "c \<noteq> x" for c using that by (simp add: st(1))
  show ia: "inode_at f s' j = inode_at f s j" if "ino_valid (sb_of f s) j" for j by (rule st(2) [OF that])
  show "used f s' m = used f s m" if "m < unat (bitmap_blocks (sb_of f s)) * BITS_PER_BLOCK" for m by (rule st(4) [OF that])
  show "ptr f s' j = (if j = ino then (ptr f s j)(KFS_NDIRECT + n := b) else ptr f s j)" if j: "ino_valid (sb_of f s) j" for j
  proof (cases "j = ino")
    case False
    have "indirect (inode_at f s j) \<noteq> x"
    proof
      assume "indirect (inode_at f s j) = x"
      then have "ptr f s j (KFS_NDIRECT + KFS_NINDIRECT) = x" unfolding ptr_indirect .
      then show False using fs_wfD(5) [OF wf j i, of "KFS_NDIRECT + KFS_NINDIRECT" "KFS_NDIRECT + KFS_NINDIRECT"] px x(2) False
        by simp
    qed
    then show ?thesis using st(3) [OF j] False by simp
  next
    case True
    have rd: "rd32 (4 * m) (wr32 (4 * n) b (view f s x)) = (if m = n then b else rd32 (4 * m) (view f s x))"
      if "m < KFS_NINDIRECT" for m
    proof (cases "m = n")
      case True
      then show ?thesis using that lx by (simp add: rd32_wr32_same)
    next
      case False
      then have "4 * m + 4 \<le> 4 * n \<or> 4 * n + 4 \<le> 4 * m" by linarith
      then show ?thesis using that lx n False by (simp add: rd32_wr32_other)
    qed
    have "ptr_of f s' (inode_at f s ino) k = ((ptr f s ino)(KFS_NDIRECT + n := b)) k" for k
      using x n rd [of "k - KFS_NDIRECT"] by (auto simp: ptr_of_def st(1))
    then show ?thesis using True ia [OF i] by auto
  qed
qed

lemma mapped_after:
  assumes wf: "fs_wf f s" and g: "grow f ino s s1" and sl: "same_layout (sb_of f s1) (sb_of f s)"
    and p: "\<And>k. k < KFS_NDIRECT + KFS_NINDIRECT \<Longrightarrow> ptr f s1 ino k = ptr f s ino k"
    and n: "n < KFS_NDIRECT + KFS_NINDIRECT" and m: "mapped f ino n s1 b s2"
  shows "mapped f ino n s b s2"
proof -
  note L = same_layout_fields [OF sl]
  have g2: "grow f ino s1 s2" using m by (simp add: mapped_def)
  have "\<not> used f s (unat b)" if "ptr f s ino n = 0" "b \<noteq> 0"
  proof
    assume u: "used f s (unat b)"
    have nu: "\<not> used f s1 (unat b)" and d: "in_data (sb_of f s1) b" using m that p [OF n] by (simp_all add: mapped_def)
    show False using growD(6) [OF g] bits_in_range [OF fs_wfD(1) [OF wf], of b] u nu d L by simp
  qed
  then show ?thesis using m p n grow_trans [OF g g2 sl wf] L by (simp add: mapped_def)
qed

lemma bmap_table_ok:
  assumes tx: "in_tx f s" and wf: "fs_wf f s" and i: "ino_valid (sb_of f s) ino" and nf: "no_faults s f"
    and x: "indirect (inode_at f s ino) \<noteq> 0" and n: "n < KFS_NINDIRECT"
    and ret: "bmap_table f (inode_at f s ino) n True s = (b, ip', s')"
  shows "tx_frame f s s'" and "\<not> j_failed (jtx s') \<Longrightarrow> mapped f ino (KFS_NDIRECT + n) s b s' \<and> ip' = inode_at f s' ino \<and>
    (b = 0 \<longrightarrow> (\<forall>m < unat (total_blocks (sb_of f s)). used f s m))"
proof -
  let ?full = "b = 0 \<longrightarrow> (\<forall>m < unat (total_blocks (sb_of f s)). used f s m)"
  let ?ip = "inode_at f s ino" and ?x = "indirect (inode_at f s ino)" and ?k = "KFS_NDIRECT + n"
  note w = fs_wfD [OF wf]
  have px: "ptr f s ino (KFS_NDIRECT + KFS_NINDIRECT) = ?x" by (rule ptr_indirect)
  have us: "usable f s ?x" using usable_ptr [OF wf i, of "KFS_NDIRECT + KFS_NINDIRECT"] px x by simp
  obtain tab s1 where rd: "bread f ?x s = (tab, s1)" by fastforce
  note e = tx_bread [OF tx us rd]
  have tab: "tab = Some (view f s ?x)" using e(3,5) nf by auto
  note v1 = view_same [OF e(2,4)]
  have pk: "ptr f s ino ?k = rd32 (4 * n) (view f s ?x)" using x n by (simp add: ptr_of_def)
  have "tx_frame f s s' \<and> (\<not> j_failed (jtx s') \<longrightarrow> mapped f ino ?k s b s' \<and> ip' = inode_at f s' ino \<and> ?full)"
  proof (cases "rd32 (4 * n) (view f s ?x) = 0")
    case False
    then have r: "b = rd32 (4 * n) (view f s ?x)" "ip' = ?ip" "s' = s1" using ret rd tab by (auto simp: bmap_table_def Let_def)
    show ?thesis unfolding r using mapped_present [OF e(2,4) wf, of ino ?k] False pk e(1) v1(1) by simp
  next
    case z: True
    have tx1: "in_tx f s1" by (rule tx_frameD(1) [OF e(1)])
    have wf1: "fs_wf f s1" using wf v1(4) by simp
    have nf1: "no_faults s1 f" using nf e(6) by simp
    have i1: "ino_valid (sb_of f s1) ino" using i e(4) by simp
    have g1: "grow f ino s s1" using grow_refl [OF wf, of ino] unfolding grow_def v1 e(2,4) .
    have after: "mapped f ino ?k s b' s2" if "mapped f ino ?k s1 b' s2" for b' s2
      using n by (intro mapped_after [OF wf g1 _ _ _ that]) (simp_all add: e(4) v1 same_layout_refl)
    obtain nb s2 where ba: "balloc f s1 = (nb, s2)" by fastforce
    have fr2: "tx_frame f s s2"
      using tx_frame_trans [OF e(1) balloc_ok(1) [OF tx1 fs_wfD(1,2) [OF wf1] ba]] .
    show ?thesis
    proof (cases "nb = 0")
      case True
      then have r: "b = 0" "ip' = ?ip" "s' = s2" using ret rd tab z ba by (auto simp: bmap_table_def Let_def)
      have "mapped f ino ?k s 0 s2 \<and> ?ip = inode_at f s2 ino \<and> (\<forall>m < unat (total_blocks (sb_of f s)). used f s m)"
        if nfl: "\<not> j_failed (jtx s2)"
      proof -
        have ba0: "balloc f s1 = (0, s2)" using ba True by simp
        have "ptr f s1 ino ?k = 0" using pk z by (simp add: v1)
        from after [OF mapped_full [OF tx1 wf1 nf1 ba0 nfl this]] show ?thesis
          using view_same_layout(1) [OF balloc_full(1) [OF tx1 wf1 nf1 ba0 nfl]
            tx_frameD(2) [OF balloc_ok(1) [OF tx1 fs_wfD(1,2) [OF wf1] ba]]] v1(1)
            balloc_full(2) [OF tx1 wf1 nf1 ba0 nfl] e(4) by (simp add: v1(3))
      qed
      then show ?thesis unfolding r using fr2 by blast
    next
      case nz: False
      note bw = balloc_wf [OF tx1 wf1 ba nz]
      have tx2: "in_tx f s2" by (rule tx_frameD(1) [OF fr2])
      have i2: "ino_valid (sb_of f s2) ino" using ino_valid_layout [OF tx_frameD(2) [OF fr2]] i by simp
      have ip2: "inode_at f s2 ino = ?ip" using bw(6) [OF i1] v1(1) by simp
      have dx: "in_data (sb_of f s) ?x" "used f s (unat ?x)"
        using w(3,4) [OF i, of "KFS_NDIRECT + KFS_NINDIRECT"] px x by simp_all
      have xb: "?x \<noteq> nb" using bw(3) dx(2) by (auto simp: v1)
      have vx: "view f s2 ?x = view f s ?x" using bw(8) [of ?x] dx(1) xb e(2,4) by simp
      obtain r3 s3 where st: "journal_stage f ?x (wr32 (4 * n) nb (view f s ?x)) s2 = (r3, s3)" by fastforce
      have us2: "usable f s2 ?x" using us tx_frameD(5) [OF fr2] by simp
      have len: "length (wr32 (4 * n) nb (view f s ?x)) = KFS_BLOCK_SIZE"
        using n us tx by (simp add: in_tx_def length_view)
      note e3 = tx_stage [OF tx2 us2 len st]
      have r: "ip' = ?ip" "s' = s3" "b = (if r3 then nb else 0)"
        using ret rd tab z ba nz st by (auto simp: bmap_table_def Let_def split: bool.splits)
      have fr: "tx_frame f s s3" by (rule tx_frame_trans [OF fr2 e3(1)])
      have "mapped f ino ?k s nb s3 \<and> ?ip = inode_at f s3 ino \<and> r3" if nfl: "\<not> j_failed (jtx s3)"
      proof -
        have r3: r3 using e3(3) nfl by blast
        have st': "journal_stage f (indirect (inode_at f s2 ino)) (wr32 (4 * n) nb (view f s2 (indirect (inode_at f s2 ino)))) s2 = (True, s3)"
          using st r3 vx ip2 by simp
        note tt = stage_table [OF tx2 bw(1) i2 refl _ n st', unfolded ip2, OF x]
        note L = same_layout_fields [OF tx_frameD(2) [OF fr2]]
        have val: "ino_valid (sb_of f s2) j = ino_valid (sb_of f s) j" "ino_valid (sb_of f s1) j = ino_valid (sb_of f s) j" for j
          using ino_valid_layout [OF tx_frameD(2) [OF fr2]] e(4) by simp_all
        have pp: "ptr f s3 j = (if j = ino then (ptr f s j)(?k := nb) else ptr f s j)" if "ino_valid (sb_of f s) j" for j
          using tt(5) [of j] bw(7) [of j] that val by (cases "j = ino") (simp_all add: v1)
        have ia: "inode_at f s3 j = inode_at f s j" if "ino_valid (sb_of f s) j" for j
          using tt(4) [of j] bw(6) [of j] that val by (simp add: v1)
        have um: "used f s3 m" if "m < unat (bitmap_blocks (sb_of f s)) * BITS_PER_BLOCK" "used f s m" for m
          using tt(6) [of m] bw(9) [of m] that L e(4) by (simp add: v1)
        have db: "in_data (sb_of f s) nb" "\<not> used f s (unat nb)" using bw(2,3) e(4) by (simp_all add: v1)
        have ub: "used f s3 (unat nb)" using tt(6) [of "unat nb"] bw(4) bits_in_range [OF w(1) db(1)] L by simp
        have wf3: "fs_wf f s3" by (rule fs_wf_assign [OF wf tx_frameD(2) [OF fr] um db ub pp])
        have vv: "view f s3 c = view f s c" if "in_data (sb_of f s) c" "used f s (unat c)" "c \<noteq> ?x" for c
          using tt(3) [of c] bw(8) [of c] that db(2) e(2,4) by auto
        have "grow f ino s s3" unfolding grow_def
          using wf3 ia i pp vv um by (auto intro!: exI [of _ "direct ?ip"] exI [of _ ?x])
        moreover have "view f s3 nb = replicate KFS_BLOCK_SIZE 0" using tt(3) [of nb] xb bw(5) by simp
        ultimately show ?thesis using pp [OF i] db nz pk z ia [OF i] r3 by (simp add: mapped_def)
      qed
      then show ?thesis unfolding r using fr nz by auto
    qed
  qed
  then show "tx_frame f s s'" and "\<not> j_failed (jtx s') \<Longrightarrow> mapped f ino ?k s b s' \<and> ip' = inode_at f s' ino \<and> ?full" by blast+
qed

text \<open>At most one block is free.\<close>

definition one_left :: "nat \<Rightarrow> kfs_state \<Rightarrow> bool" where
  "one_left f s \<longleftrightarrow> (\<exists>x. \<forall>m < unat (total_blocks (sb_of f s)). m \<noteq> x \<longrightarrow> used f s m)"

lemma bmap_ok:
  assumes tx: "in_tx f s" and wf: "fs_wf f s" and i: "ino_valid (sb_of f s) ino" and nf: "no_faults s f"
    and n: "n < KFS_NDIRECT + KFS_NINDIRECT"
    and ret: "bmap f ino (inode_at f s ino) n True s = (b, ip', s')" and nfl: "\<not> j_failed (jtx s')"
  shows "tx_frame f s s'" and "mapped f ino n s b s'" and "ip' = inode_at f s' ino"
    and "b = 0 \<Longrightarrow> one_left f s"
proof -
  let ?ip = "inode_at f s ino"
  have "tx_frame f s s' \<and> mapped f ino n s b s' \<and> ip' = inode_at f s' ino \<and> (b = 0 \<longrightarrow> one_left f s)"
  proof (cases "n < KFS_NDIRECT")
    case True
    then have "bmap_direct f ino ?ip n True s = (b, ip', s')" using ret by (simp add: bmap_def)
    from bmap_direct_ok [OF tx wf i nf True this] nfl show ?thesis by (auto simp: one_left_def)
  next
    case ge: False
    let ?n = "n - KFS_NDIRECT"
    have n': "?n < KFS_NINDIRECT" "KFS_NDIRECT + ?n = n" using ge n by simp_all
    show ?thesis
    proof (cases "indirect ?ip = 0")
      case False
      then have "bmap_table f ?ip ?n True s = (b, ip', s')" using ret ge n' by (simp add: bmap_def Let_def)
      from bmap_table_ok [OF tx wf i nf False n'(1) this] nfl n'(2) show ?thesis by (auto simp: one_left_def)
    next
      case z: True
      have pn: "ptr f s ino n = 0" using ge n z by (simp add: ptr_of_def)
      obtain nb s1 where ba: "balloc f s = (nb, s1)" by fastforce
      show ?thesis
      proof (cases "nb = 0")
        case True
        then have r: "b = 0" "ip' = ?ip" "s' = s1" using ret ge n' z ba by (auto simp: bmap_def Let_def)
        have ba0: "balloc f s = (0, s1)" using ba True by simp
        have fr: "tx_frame f s s1" by (rule balloc_ok(1) [OF tx fs_wfD(1,2) [OF wf] ba])
        show ?thesis using r fr mapped_full [OF tx wf nf ba0 _ pn] nfl balloc_full(2) [OF tx wf nf ba0]
          view_same_layout(1) [OF balloc_full(1) [OF tx wf nf ba0] tx_frameD(2) [OF fr]] by (simp add: one_left_def)
      next
        case nz: False
        let ?ip' = "?ip\<lparr>indirect := nb\<rparr>"
        define s2 where "s2 = snd (iput f ino ?ip' s1)"
        have tb: "bmap_table f ?ip' ?n True s2 = (b, ip', s')" using ret ge n' z ba nz by (simp add: bmap_def Let_def s2_def)
        have d: "length (direct ?ip') = KFS_NDIRECT" by simp
        have fr: "tx_frame f s s2" using alloc_put_frame(2) [OF tx wf i ba d] by (simp add: s2_def)
        have tx2: "in_tx f s2" by (rule tx_frameD(1) [OF fr])
        have "abortable f s2 s'" using tx.bmap_table [OF tb abortable_self [OF tx2] n'(1)] by simp
        then have nfl2: "\<not> j_failed (jtx s2)" using nfl still_open by blast
        note ap = alloc_put [OF tx wf i nf ba nz d s2_def nfl2] and bw = balloc_wf [OF tx wf ba nz]
        have p: "ptr f s2 ino = (ptr f s ino)(KFS_NDIRECT + KFS_NINDIRECT := nb)"
          unfolding ap(1) using nz z ap(5) by (intro ext) (auto simp: ptr_of_def rd32_zeros)
        have pp: "ptr f s2 j = (if j = ino then (ptr f s j)(KFS_NDIRECT + KFS_NINDIRECT := nb) else ptr f s j)"
          if "ino_valid (sb_of f s) j" for j using p ap(3) [OF that] by auto
        have wf2: "fs_wf f s2" by (rule fs_wf_assign [OF wf tx_frameD(2) [OF fr] ap(6) bw(2,3) ap(7) pp])
        have vv: "view f s2 c = view f s c" if "in_data (sb_of f s) c" "used f s (unat c)" for c
          using that bw(3) by (intro ap(4)) auto
        have g: "grow f ino s s2" unfolding grow_def
          using wf2 ap vv z by (auto intro!: exI [of _ "direct ?ip"] exI [of _ nb])
        have i2: "ino_valid (sb_of f s2) ino" using ino_valid_layout [OF tx_frameD(2) [OF fr]] i by simp
        have x2: "indirect (inode_at f s2 ino) \<noteq> 0" using ap(1) nz by simp
        have nf2: "no_faults s2 f" using tx_frameD(7) [OF fr] nf by simp
        note tt = bmap_table_ok [OF tx2 wf2 i2 nf2 x2 n'(1), unfolded ap(1), OF tb]
        have m2: "mapped f ino n s2 b s'" "ip' = inode_at f s' ino" using tt(2) nfl n'(2) by simp_all
        have "mapped f ino n s b s'" using p by (intro mapped_after [OF wf g tx_frameD(2) [OF fr] _ n m2(1)]) simp
        moreover have "one_left f s" if "b = 0"
        proof -
          have "used f s m" if "m < unat (total_blocks (sb_of f s))" "m \<noteq> unat nb" for m
          proof -
            have m: "m < unat (bitmap_blocks (sb_of f s)) * BITS_PER_BLOCK" using that layout_okD(7) [OF fs_wfD(1) [OF wf]] by simp
            have "used f s2 m" using tt(2) nfl \<open>b = 0\<close> that same_layout_fields [OF tx_frameD(2) [OF fr]] by simp
            then show ?thesis using ap(8) [OF m] that by simp
          qed
          then show ?thesis unfolding one_left_def by blast
        qed
        ultimately show ?thesis using m2(2) tx_frame_trans [OF fr tt(1)] by simp
      qed
    qed
  qed
  then show "tx_frame f s s'" and "mapped f ino n s b s'" and "ip' = inode_at f s' ino"
    and "b = 0 \<Longrightarrow> one_left f s" by simp_all
qed

lemma abortable_refl: "abortable f s0 s \<Longrightarrow> abortable f s s"
  unfolding abortable_def by (auto intro!: exI [of _ "free_blocks (sb_of f s)"])

section \<open>Writing\<close>

text \<open>
  The effect of writing \<open>data\<close> at \<open>pos\<close> of file \<open>ino\<close>: these bytes are replaced, no other byte
  of any file changes, and a hole of the file can only turn into zeros.
\<close>

definition wrote :: "nat \<Rightarrow> u32 \<Rightarrow> nat \<Rightarrow> byte list \<Rightarrow> kfs_state \<Rightarrow> kfs_state \<Rightarrow> bool" where
  "wrote f ino pos data s s' \<longleftrightarrow> fs_wf f s' \<and>
     (\<forall>j. ino_valid (sb_of f s) j \<and> j \<noteq> ino \<longrightarrow> inode_at f s' j = inode_at f s j \<and> fbyte f s' j = fbyte f s j) \<and>
     (\<forall>p. if pos \<le> p \<and> p < pos + length data then fbyte f s' ino p = Some (data ! (p - pos))
        else fbyte f s' ino p = fbyte f s ino p \<or> fbyte f s ino p = None \<and> fbyte f s' ino p = Some 0) \<and>
     (\<exists>d i z. inode_at f s' ino = (inode_at f s ino)\<lparr>i_size := z, direct := d, indirect := i\<rparr>)"

lemma wroteD:
  assumes "wrote f ino pos data s s'"
  shows "fs_wf f s'" and "\<lbrakk>ino_valid (sb_of f s) j; j \<noteq> ino\<rbrakk> \<Longrightarrow> inode_at f s' j = inode_at f s j"
    and "\<lbrakk>ino_valid (sb_of f s) j; j \<noteq> ino\<rbrakk> \<Longrightarrow> fbyte f s' j = fbyte f s j"
    and "\<lbrakk>pos \<le> p; p < pos + length data\<rbrakk> \<Longrightarrow> fbyte f s' ino p = Some (data ! (p - pos))"
    and "\<not> (pos \<le> p \<and> p < pos + length data) \<Longrightarrow>
      fbyte f s' ino p = fbyte f s ino p \<or> fbyte f s ino p = None \<and> fbyte f s' ino p = Some 0"
    and "\<exists>d i z. inode_at f s' ino = (inode_at f s ino)\<lparr>i_size := z, direct := d, indirect := i\<rparr>"
  using assms unfolding wrote_def by (blast, blast, blast, metis (no_types), metis (no_types), blast)

lemma wrote_refl: "fs_wf f s \<Longrightarrow> wrote f ino pos [] s s"
proof -
  let ?ip = "inode_at f s ino"
  have "?ip = ?ip\<lparr>i_size := i_size ?ip, direct := direct ?ip, indirect := indirect ?ip\<rparr>" by simp
  then have ex: "\<exists>d i z. ?ip = ?ip\<lparr>i_size := z, direct := d, indirect := i\<rparr>" by blast
  assume "fs_wf f s"
  then show ?thesis unfolding wrote_def by (intro conjI ex) auto
qed

lemma wrote_trans:
  assumes a: "wrote f ino pos d1 s s1" and b: "wrote f ino (pos + length d1) d2 s1 s2"
    and sl: "same_layout (sb_of f s1) (sb_of f s)"
  shows "wrote f ino pos (d1 @ d2) s s2"
  unfolding wrote_def
proof (intro conjI allI impI)
  note v = ino_valid_layout [OF sl]
  show "fs_wf f s2" by (rule wroteD(1) [OF b])
  show "inode_at f s2 j = inode_at f s j" "fbyte f s2 j = fbyte f s j" if "ino_valid (sb_of f s) j \<and> j \<noteq> ino" for j
    using wroteD(2,3) [OF a, of j] wroteD(2,3) [OF b, of j] that v by simp_all
  obtain d i z where 1: "inode_at f s1 ino = (inode_at f s ino)\<lparr>i_size := z, direct := d, indirect := i\<rparr>"
    using wroteD(6) [OF a] by blast
  obtain d' i' z' where "inode_at f s2 ino = (inode_at f s1 ino)\<lparr>i_size := z', direct := d', indirect := i'\<rparr>"
    using wroteD(6) [OF b] by blast
  then have "inode_at f s2 ino = (inode_at f s ino)\<lparr>i_size := z', direct := d', indirect := i'\<rparr>" by (simp add: 1)
  then show "\<exists>d i z. inode_at f s2 ino = (inode_at f s ino)\<lparr>i_size := z, direct := d, indirect := i\<rparr>" by blast
  fix p
  show "if pos \<le> p \<and> p < pos + length (d1 @ d2) then fbyte f s2 ino p = Some ((d1 @ d2) ! (p - pos))
      else fbyte f s2 ino p = fbyte f s ino p \<or> fbyte f s ino p = None \<and> fbyte f s2 ino p = Some 0"
  proof (cases "pos + length d1 \<le> p \<and> p < pos + length d1 + length d2")
    case True
    then have "p - (pos + length d1) = p - pos - length d1" "\<not> p - pos < length d1" by linarith+
    then show ?thesis using True wroteD(4) [OF b, of p] by (simp add: nth_append)
  next
    case False
    note B = wroteD(5) [OF b False]
    show ?thesis
    proof (cases "pos \<le> p \<and> p < pos + length d1")
      case True
      then show ?thesis using B wroteD(4) [OF a, of p] by (auto simp: nth_append)
    next
      case f2: False
      then show ?thesis using B wroteD(5) [OF a f2] False by auto
    qed
  qed
qed

lemma fbyte_ptr:
  assumes "p div KFS_BLOCK_SIZE < KFS_NDIRECT + KFS_NINDIRECT"
  shows "fbyte f s ino p = (if ptr f s ino (p div KFS_BLOCK_SIZE) = 0 then None
    else Some (view f s (ptr f s ino (p div KFS_BLOCK_SIZE)) ! (p mod KFS_BLOCK_SIZE)))"
  using assms by (simp add: fbyte_def Let_def)

lemma fbyte_far: "\<not> p div KFS_BLOCK_SIZE < KFS_NDIRECT + KFS_NINDIRECT \<Longrightarrow> fbyte f s ino p = None"
  by (simp add: fbyte_def Let_def)

lemma fbyte_keep:
  assumes "ptr f s' i = ptr f s i"
    and "\<And>k. k < KFS_NDIRECT + KFS_NINDIRECT \<Longrightarrow> ptr f s i k \<noteq> 0 \<Longrightarrow> view f s' (ptr f s i k) = view f s (ptr f s i k)"
  shows "fbyte f s' i = fbyte f s i"
  by (rule ext) (use assms in \<open>simp add: fbyte_def Let_def\<close>)

lemma mapped_wrote:
  assumes wf: "fs_wf f s" and i: "ino_valid (sb_of f s) ino" and m: "mapped f ino n s b s'"
    and sl: "same_layout (sb_of f s') (sb_of f s)"
  shows "wrote f ino pos [] s s'"
proof -
  have g: "grow f ino s s'" using m by (simp add: mapped_def)
  have wf': "fs_wf f s'" by (rule growD(1) [OF g])
  have val: "ino_valid (sb_of f s') j = ino_valid (sb_of f s) j" for j by (rule ino_valid_layout [OF sl])
  have keep: "view f s' c = view f s c" if "c = ptr f s j k" "c = ptr f s' j k" "c \<noteq> 0" "ino_valid (sb_of f s) j"
      "k < KFS_NDIRECT + KFS_NINDIRECT" for c j k
  proof -
    have "c \<noteq> indirect (inode_at f s' ino)"
    proof
      assume "c = indirect (inode_at f s' ino)"
      then have e: "ptr f s' j k = indirect (inode_at f s' ino)" by (rule trans [OF that(2) [symmetric]])
      have "ptr f s' j k \<noteq> 0" using that(2,3) by metis
      with e fs_wfD(5) [OF wf', of j ino k "KFS_NDIRECT + KFS_NINDIRECT"] have "k = KFS_NDIRECT + KFS_NINDIRECT"
        unfolding ptr_indirect val using i that(4) by blast
      then show False using that(5) by simp
    qed
    then show ?thesis using fs_wfD(3,4) [OF wf that(4), of k] that by (intro growD(5) [OF g]) simp_all
  qed
  have own: "fbyte f s' ino p = fbyte f s ino p \<or> fbyte f s ino p = None \<and> fbyte f s' ino p = Some 0" for p
  proof (cases "p div KFS_BLOCK_SIZE < KFS_NDIRECT + KFS_NINDIRECT")
    case False
    then show ?thesis by (simp add: fbyte_far)
  next
    case True
    let ?k = "p div KFS_BLOCK_SIZE"
    have p': "ptr f s' ino ?k = (if ?k = n \<and> b \<noteq> 0 then b else ptr f s ino ?k)" using m True by (simp add: mapped_def)
    show ?thesis
    proof (cases "ptr f s ino ?k = 0")
      case z: True
      show ?thesis
      proof (cases "?k = n \<and> b \<noteq> 0")
        case t: True
        then have "view f s' b = replicate KFS_BLOCK_SIZE 0" using m z by (simp add: mapped_def)
        then show ?thesis using t z p' by (simp add: fbyte_ptr [OF True])
      qed (use z p' in \<open>simp add: fbyte_ptr [OF True]\<close>)
    next
      case nz: False
      have "ptr f s' ino ?k = ptr f s ino ?k" using p' m nz by (auto simp: mapped_def)
      then show ?thesis using keep [OF refl _ nz i True] nz by (simp add: fbyte_ptr [OF True])
    qed
  qed
  have other: "fbyte f s' j = fbyte f s j" if "ino_valid (sb_of f s) j" "j \<noteq> ino" for j
    using growD(4) [OF g that] keep [OF refl _ _ that(1)] by (intro fbyte_keep) simp_all
  obtain d x where "inode_at f s' ino = (inode_at f s ino)\<lparr>direct := d, indirect := x\<rparr>" using growD(2) [OF g] by blast
  then have "inode_at f s' ino = (inode_at f s ino)\<lparr>i_size := i_size (inode_at f s ino), direct := d, indirect := x\<rparr>"
    by simp
  then have ex: "\<exists>d i z. inode_at f s' ino = (inode_at f s ino)\<lparr>i_size := z, direct := d, indirect := i\<rparr>" by blast
  show ?thesis using wf' growD(3) [OF g] other own unfolding wrote_def by (intro conjI ex) auto
qed

lemma same_block:
  assumes "pos \<le> p" and "p < pos + n" and "pos mod KFS_BLOCK_SIZE + n \<le> KFS_BLOCK_SIZE"
  shows "p div KFS_BLOCK_SIZE = pos div KFS_BLOCK_SIZE"
proof -
  obtain q r where q: "pos = q * KFS_BLOCK_SIZE + r" "r < KFS_BLOCK_SIZE"
    using div_mult_mod_eq [of pos KFS_BLOCK_SIZE] mod_less_divisor [of KFS_BLOCK_SIZE pos] by (metis zero_less_numeral)
  obtain d where d: "p = pos + d" using assms(1) le_Suc_ex by blast
  have "r + d < KFS_BLOCK_SIZE" using assms(2,3) q d by simp
  then have "(q * KFS_BLOCK_SIZE + (r + d)) div KFS_BLOCK_SIZE = q" by (simp add: div_mult_self4)
  then show ?thesis using q d by (simp add: add.assoc)
qed

lemma writei_block_ok:
  assumes tx: "in_tx f s" and wf: "fs_wf f s" and i: "ino_valid (sb_of f s) ino" and nf: "no_faults s f"
    and k: "pos div KFS_BLOCK_SIZE < KFS_NDIRECT + KFS_NINDIRECT"
    and b: "b = ptr f s ino (pos div KFS_BLOCK_SIZE)" "b \<noteq> 0"
    and len: "pos mod KFS_BLOCK_SIZE + length xs \<le> KFS_BLOCK_SIZE"
    and ret: "writei_block f b (pos mod KFS_BLOCK_SIZE) xs s = (r, s')" and nfl: "\<not> j_failed (jtx s')"
  shows "r" and "tx_frame f s s'" and "wrote f ino pos xs s s'" and "inode_at f s' ino = inode_at f s ino"
    and "\<And>m. m < unat (bitmap_blocks (sb_of f s)) * BITS_PER_BLOCK \<Longrightarrow> used f s' m = used f s m"
proof -
  let ?k = "pos div KFS_BLOCK_SIZE" and ?o = "pos mod KFS_BLOCK_SIZE"
  let ?buf = "put_bytes ?o xs (view f s b)"
  note w = fs_wfD [OF wf]
  have d: "in_data (sb_of f s) b" "used f s (unat b)" using w(3,4) [OF i, of ?k] b by simp_all
  have us: "usable f s b" using usable_data [OF w(1)] d(1) by simp
  have lv: "length (view f s b) = KFS_BLOCK_SIZE" using tx us by (simp add: in_tx_def length_view)
  have lb: "length ?buf = KFS_BLOCK_SIZE" using lv len by simp
  obtain s1 where s1: "tx_frame f s s1" "view f s1 = view f s" "sb_of f s1 = sb_of f s"
    and st: "journal_stage f b ?buf s1 = (r, s')"
  proof (cases "length xs < KFS_BLOCK_SIZE")
    case True
    obtain x s1 where rd: "bread f b s = (x, s1)" by fastforce
    note e = tx_bread [OF tx us rd]
    have "x = Some (view f s b)" using e(3,5) nf by auto
    then show ?thesis using that [OF e(1,2,4)] ret True rd by (simp add: writei_block_def)
  next
    case False
    then have "?o = 0" "length xs = KFS_BLOCK_SIZE" using len by simp_all
    then have "?buf = xs" using lv by (simp add: put_bytes_def)
    then show ?thesis using that [OF tx_frame_refl [OF tx] refl refl] ret False \<open>?o = 0\<close> by (simp add: writei_block_def)
  qed
  have tx1: "in_tx f s1" by (rule tx_frameD(1) [OF s1(1)])
  have us1: "usable f s1 b" using us tx_frameD(5) [OF s1(1)] by simp
  note e = tx_stage [OF tx1 us1 lb st]
  show r: r using e(3) nfl by blast
  show fr: "tx_frame f s s'" by (rule tx_frame_trans [OF s1(1) e(1)])
  note v1 = view_same [OF s1(2,3)]
  have wf1: "fs_wf f s1" using wf v1(4) by simp
  have st': "journal_stage f b ?buf s1 = (True, s')" using st r by simp
  have d1: "in_data (sb_of f s1) b" using d(1) s1(3) by simp
  note sw = stage_wf [OF tx1 wf1 d1 lb st', unfolded v1 s1(2,3)]
  have notind: "indirect (inode_at f s j) \<noteq> b" if "ino_valid (sb_of f s) j" for j
  proof
    assume e: "indirect (inode_at f s j) = b"
    have "KFS_NDIRECT + KFS_NINDIRECT = ?k"
      using w(5) [OF that i, of "KFS_NDIRECT + KFS_NINDIRECT" ?k] e b unfolding ptr_indirect by blast
    then show False using k by simp
  qed
  show ia: "inode_at f s' ino = inode_at f s ino" by (rule sw(2) [OF i])
  have pp: "ptr f s' j = ptr f s j" if "ino_valid (sb_of f s) j" for j by (rule sw(3) [OF that notind [OF that]])
  show us': "used f s' m = used f s m" if "m < unat (bitmap_blocks (sb_of f s)) * BITS_PER_BLOCK" for m
    by (rule sw(4) [OF that])
  have sl: "same_layout (sb_of f s') (sb_of f s)" by (rule tx_frameD(2) [OF fr])
  have wf': "fs_wf f s'" using us' by (intro fs_wf_keep [OF wf sl _ pp]) simp_all
  have other: "fbyte f s' j = fbyte f s j" if j: "ino_valid (sb_of f s) j" "j \<noteq> ino" for j
  proof (rule fbyte_keep [OF pp [OF j(1)]])
    fix n assume "ptr f s j n \<noteq> 0"
    then have "ptr f s j n \<noteq> b" using w(5) [OF j(1) i, of n ?k] b j(2) by blast
    then show "view f s' (ptr f s j n) = view f s (ptr f s j n)" by (simp add: sw(1))
  qed
  have own: "fbyte f s' ino p = (if pos \<le> p \<and> p < pos + length xs then Some (xs ! (p - pos)) else fbyte f s ino p)" for p
  proof (cases "p div KFS_BLOCK_SIZE = ?k")
    case True
    have pm: "p = ?k * KFS_BLOCK_SIZE + p mod KFS_BLOCK_SIZE" "pos = ?k * KFS_BLOCK_SIZE + ?o"
      using True div_mult_mod_eq by metis+
    have lt: "p mod KFS_BLOCK_SIZE < KFS_BLOCK_SIZE" by simp
    have "?buf ! (p mod KFS_BLOCK_SIZE) = (if ?o \<le> p mod KFS_BLOCK_SIZE \<and> p mod KFS_BLOCK_SIZE < ?o + length xs
        then xs ! (p mod KFS_BLOCK_SIZE - ?o) else view f s b ! (p mod KFS_BLOCK_SIZE))"
      using len lv lt by (intro nth_put_bytes) simp_all
    moreover have "pos \<le> p \<longleftrightarrow> ?o \<le> p mod KFS_BLOCK_SIZE" "p < pos + length xs \<longleftrightarrow> p mod KFS_BLOCK_SIZE < ?o + length xs"
      "?o \<le> p mod KFS_BLOCK_SIZE \<Longrightarrow> p - pos = p mod KFS_BLOCK_SIZE - ?o"
      using pm by linarith+
    ultimately show ?thesis using True k b pp [OF i] by (simp add: fbyte_ptr sw(1))
  next
    case False
    have out: "\<not> (pos \<le> p \<and> p < pos + length xs)"
    proof
      assume a: "pos \<le> p \<and> p < pos + length xs"
      have "p div KFS_BLOCK_SIZE = ?k" using a len by (intro same_block [of pos p "length xs"]) simp_all
      then show False using False by simp
    qed
    have "ptr f s ino (p div KFS_BLOCK_SIZE) \<noteq> b" if "ptr f s ino (p div KFS_BLOCK_SIZE) \<noteq> 0"
      using w(5) [OF i i, of "p div KFS_BLOCK_SIZE" ?k] that b False by blast
    then have "fbyte f s' ino p = fbyte f s ino p" using pp [OF i] by (simp add: fbyte_def Let_def sw(1))
    then show ?thesis using out by auto
  qed
  have "inode_at f s' ino = (inode_at f s ino)\<lparr>i_size := i_size (inode_at f s ino),
      direct := direct (inode_at f s ino), indirect := indirect (inode_at f s ino)\<rparr>" using ia by simp
  then have ex: "\<exists>d i z. inode_at f s' ino = (inode_at f s ino)\<lparr>i_size := z, direct := d, indirect := i\<rparr>" by blast
  show "wrote f ino pos xs s s'" unfolding wrote_def using wf' sw(2) other own by (intro conjI ex) simp_all
qed

text \<open>Writing back an inode whose pointers have not changed.\<close>

lemma iput_meta:
  assumes tx: "in_tx f s" and wf: "fs_wf f s" and i: "ino_valid (sb_of f s) ino" and nf: "no_faults s f"
    and ip: "direct ip = direct (inode_at f s ino)" "indirect ip = indirect (inode_at f s ino)"
    and ret: "iput f ino ip s = (r, s')" and nfl: "\<not> j_failed (jtx s')"
  shows "r" and "tx_frame f s s'" and "fs_wf f s'" and "inode_at f s' ino = ip"
    and "\<And>j. \<lbrakk>ino_valid (sb_of f s) j; j \<noteq> ino\<rbrakk> \<Longrightarrow> inode_at f s' j = inode_at f s j"
    and "\<And>j. ino_valid (sb_of f s) j \<Longrightarrow> fbyte f s' j = fbyte f s j"
    and "\<And>m. m < unat (bitmap_blocks (sb_of f s)) * BITS_PER_BLOCK \<Longrightarrow> used f s' m = used f s m"
proof -
  have d: "length (direct ip) = KFS_NDIRECT" using ip by simp
  note e = iput_ok [OF tx fs_wfD(1) [OF wf] i d ret]
  show fr: "tx_frame f s s'" by (rule e(1))
  show r: r using e(6) nfl nf by blast
  have ret': "iput f ino ip s = (True, s')" using ret r by simp
  note w = iput_wf [OF tx wf i d ret']
  show "inode_at f s' ino = ip" by (rule w(1))
  show "inode_at f s' j = inode_at f s j" if "ino_valid (sb_of f s) j" "j \<noteq> ino" for j by (rule w(2) [OF that])
  show us: "used f s' m = used f s m" if "m < unat (bitmap_blocks (sb_of f s)) * BITS_PER_BLOCK" for m by (rule w(5) [OF that])
  have pi: "ptr f s' ino = ptr f s ino"
  proof -
    have "view f s' (indirect ip) = view f s (indirect ip)" if "indirect ip \<noteq> 0"
      using fs_wfD(3) [OF wf i, of "KFS_NDIRECT + KFS_NINDIRECT"] that ip(2) unfolding ptr_indirect by (intro w(4)) simp
    then show ?thesis unfolding w(1) using ip by (intro ptr_cong) simp_all
  qed
  have pp: "ptr f s' j = ptr f s j" if "ino_valid (sb_of f s) j" for j
    using pi w(3) [OF that] by (cases "j = ino") simp_all
  show "fs_wf f s'" using us by (intro fs_wf_keep [OF wf tx_frameD(2) [OF fr] _ pp]) simp_all
  show "fbyte f s' j = fbyte f s j" if j: "ino_valid (sb_of f s) j" for j
    using fs_wfD(3) [OF wf j] by (intro fbyte_keep [OF pp [OF j]] w(4)) simp
qed

lemma put_size:
  assumes tx: "in_tx f s" and wf: "fs_wf f s" and i: "ino_valid (sb_of f s) ino" and nf: "no_faults s f"
    and s': "s' = snd (iput f ino ((inode_at f s ino)\<lparr>i_size := z\<rparr>) s)" and nfl: "\<not> j_failed (jtx s')"
  shows "tx_frame f s s'" and "wrote f ino pos [] s s'" and "inode_at f s' ino = (inode_at f s ino)\<lparr>i_size := z\<rparr>"
proof -
  let ?ip = "(inode_at f s ino)\<lparr>i_size := z\<rparr>"
  obtain r where ret: "iput f ino ?ip s = (r, s')" using s' by (cases "iput f ino ?ip s") simp
  note m = iput_meta [OF tx wf i nf _ _ ret nfl, simplified]
  show "tx_frame f s s'" by (rule m(2))
  show ia: "inode_at f s' ino = ?ip" by (rule m(4))
  have "inode_at f s' ino = (inode_at f s ino)\<lparr>i_size := z, direct := direct (inode_at f s ino),
      indirect := indirect (inode_at f s ino)\<rparr>" using ia by simp
  then have ex: "\<exists>d i z. inode_at f s' ino = (inode_at f s ino)\<lparr>i_size := z, direct := d, indirect := i\<rparr>" by blast
  show "wrote f ino pos [] s s'" unfolding wrote_def using m i by (intro conjI ex) auto
qed

lemma writei_loop_ok:
  assumes "in_tx f s" and "fs_wf f s" and "ino_valid (sb_of f s) ino" and "no_faults s f"
    and "pos + length src \<le> unat KFS_MAX_FILE_SIZE"
    and "writei_loop f ino (inode_at f s ino) pos src s = (rest, ip', s')" and nfl: "\<not> j_failed (jtx s')"
  shows "tx_frame f s s' \<and> ip' = inode_at f s' ino \<and> (\<exists>xs. src = xs @ rest \<and> wrote f ino pos xs s s' \<and>
    (rest \<noteq> [] \<longrightarrow> fbyte f s ino (pos + length xs) = None \<and> (xs = [] \<longrightarrow> one_left f s)) \<and>
    unat (i_size ip') = (if xs = [] then unat (i_size (inode_at f s ino))
      else max (unat (i_size (inode_at f s ino))) (pos + length xs))) \<and>
    (rest \<noteq> [] \<longrightarrow> (\<forall>m < unat (total_blocks (sb_of f s)). used f s' m))"
  using assms(1-6)
proof (induction "length src" arbitrary: pos src s rule: less_induct)
  case less
  note tx = less.prems(1) and wf = less.prems(2) and i = less.prems(3) and nf = less.prems(4)
  let ?ip = "inode_at f s ino" and ?n = "pos div KFS_BLOCK_SIZE" and ?k = "chunk_at pos (length src)"
  show ?case
  proof (cases "src = []")
    case True
    then have "rest = []" "ip' = ?ip" "s' = s" using less.prems(6) by (auto simp: writei_loop.simps [of f ino])
    then show ?thesis using tx_frame_refl [OF tx] wrote_refl [OF wf] True by simp
  next
    case ne: False
    have k: "0 < ?k" "?k \<le> length src" using ne chunk_at_pos chunk_at_le by auto
    have "pos < (KFS_NDIRECT + KFS_NINDIRECT) * KFS_BLOCK_SIZE" using less.prems(5) k by simp
    then have n: "?n < KFS_NDIRECT + KFS_NINDIRECT" by (simp only: div_less_iff_less_mult zero_less_numeral)
    obtain b ip1 s1 where bm: "bmap f ino ?ip ?n True s = (b, ip1, s1)" using prod_cases3 by blast
    have a1: "abortable f s s1" "length (direct ip1) = KFS_NDIRECT"
      using tx.bmap [OF bm abortable_self [OF tx]] by simp_all
    show ?thesis
    proof (cases "b = 0")
      case True
      then have r: "rest = src" "ip' = ip1" "s' = s1" using less.prems(6) ne bm by (auto simp: writei_loop.simps [of f ino] Let_def)
      note m = bmap_ok [OF tx wf i nf n bm] nfl
      have mp: "tx_frame f s s1" "mapped f ino ?n s b s1" "ip1 = inode_at f s1 ino" using m r by simp_all
      have "i_size ip1 = i_size ?ip" using growD(2) [of f ino s s1] mp(2,3) by (auto simp: mapped_def)
      moreover have "wrote f ino pos [] s s1" by (rule mapped_wrote [OF wf i mp(2) tx_frameD(2) [OF mp(1)]])
      moreover have "fbyte f s ino pos = None" using mp(2) True n by (auto simp: fbyte_ptr mapped_def)
      moreover have "one_left f s" using bmap_ok(4) [OF tx wf i nf n bm] r nfl True by simp
      ultimately show ?thesis using r mp True by (auto simp: mapped_def intro!: exI [of _ "[]"])
    next
      case nz: False
      let ?xs = "take ?k src"
      obtain x s2 where wr: "writei_block f b (pos mod KFS_BLOCK_SIZE) ?xs s1 = (x, s2)" by fastforce
      have len: "pos mod KFS_BLOCK_SIZE + length ?xs \<le> KFS_BLOCK_SIZE"
        using mod_less_divisor [of KFS_BLOCK_SIZE pos] by (simp add: chunk_at_def min_def) linarith
      have a2: "abortable f s1 s2" by (rule tx.writei_block [OF wr abortable_refl [OF a1(1)] len])
      define big where "big = (pos + ?k > unat (i_size ip1))"
      define ip2 where "ip2 = (if big then ip1\<lparr>i_size := of_nat (pos + ?k)\<rparr> else ip1)"
      define s3 where "s3 = (if big then snd (iput f ino ip2 s2) else s2)"
      have d2: "length (direct ip2) = KFS_NDIRECT" using a1(2) by (simp add: ip2_def)
      have a3: "abortable f s2 s3" unfolding s3_def using tx.iput_snd [OF abortable_refl [OF a2] d2] abortable_refl [OF a2] by simp
      have step: "x \<Longrightarrow> writei_loop f ino ip2 (pos + ?k) (drop ?k src) s3 = (rest, ip', s')" "\<not> x \<Longrightarrow> s' = s2"
        using less.prems(6) ne bm nz wr by (auto simp: writei_loop.simps [of f ino ?ip] Let_def big_def ip2_def s3_def split: if_splits)
      have a4: "x \<Longrightarrow> abortable f s3 s'" using tx.writei_loop [OF step(1) abortable_refl [OF a3] d2] by simp
      have nfl2: "\<not> j_failed (jtx s2)"
        using step(2) a4 nfl still_open [OF a3] still_open [of f s3 s'] by (cases x) blast+
      have nfl1: "\<not> j_failed (jtx s1)" by (rule still_open [OF a2 nfl2])
      note mp = bmap_ok [OF tx wf i nf n bm nfl1]
      note L1 = tx_frameD [OF mp(1)]
      have g1: "grow f ino s s1" using mp(2) by (simp add: mapped_def)
      have i1: "ino_valid (sb_of f s1) ino" using ino_valid_layout [OF L1(2)] i by simp
      have nf1: "no_faults s1 f" using L1(7) nf by simp
      have pb: "b = ptr f s1 ino ?n" using mp(2) n nz by (simp add: mapped_def)
      note wb = writei_block_ok [OF L1(1) growD(1) [OF g1] i1 nf1 n pb nz len wr nfl2]
      note L2 = tx_frameD [OF wb(2)]
      have wf2: "fs_wf f s2" by (rule wroteD(1) [OF wb(3)])
      have i2: "ino_valid (sb_of f s2) ino" using ino_valid_layout [OF L2(2)] i1 by simp
      have nf2: "no_faults s2 f" using L2(7) nf1 by simp
      have nfl3: "\<not> j_failed (jtx s3)" using wb(1) a4 nfl still_open by blast
      have s3: "tx_frame f s2 s3 \<and> wrote f ino (pos + ?k) [] s2 s3 \<and> inode_at f s3 ino = ip2"
      proof (cases big)
        case True
        then have "s3 = snd (iput f ino ((inode_at f s2 ino)\<lparr>i_size := of_nat (pos + ?k)\<rparr>) s2)"
          by (simp add: s3_def ip2_def wb(4) mp(3))
        from put_size [OF L2(1) wf2 i2 nf2 this nfl3] True show ?thesis by (simp add: ip2_def wb(4) mp(3))
      next
        case False
        then show ?thesis using tx_frame_refl [OF L2(1)] wrote_refl [OF wf2] wb(4) mp(3) by (simp add: s3_def ip2_def)
      qed
      then have s3': "tx_frame f s2 s3" "wrote f ino (pos + ?k) [] s2 s3" "ip2 = inode_at f s3 ino" by simp_all
      have fr3: "tx_frame f s s3" using tx_frame_trans [OF tx_frame_trans [OF mp(1) wb(2)] s3'(1)] .
      note L3 = tx_frameD [OF fr3]
      have w3: "wrote f ino pos ?xs s s3"
        using wrote_trans [OF wrote_trans [OF mapped_wrote [OF wf i mp(2) L1(2)] _ L1(2), of pos ?xs s2]
            _ tx_frameD(2) [OF tx_frame_trans [OF mp(1) wb(2)]], of "[]" s3] wb(3) s3'(2) k by simp
      have ih: "tx_frame f s3 s' \<and> ip' = inode_at f s' ino \<and> (\<exists>xs. drop ?k src = xs @ rest \<and> wrote f ino (pos + ?k) xs s3 s' \<and>
          (rest \<noteq> [] \<longrightarrow> fbyte f s3 ino (pos + ?k + length xs) = None \<and> (xs = [] \<longrightarrow> one_left f s3)) \<and>
          unat (i_size ip') = (if xs = [] then unat (i_size (inode_at f s3 ino))
            else max (unat (i_size (inode_at f s3 ino))) (pos + ?k + length xs))) \<and>
          (rest \<noteq> [] \<longrightarrow> (\<forall>m < unat (total_blocks (sb_of f s3)). used f s' m))"
        using k less.prems(5) ino_valid_layout [OF L3(2)] i L3(7) nf step(1) [OF wb(1)] s3'(3)
        by (intro less.hyps [OF _ L3(1) wroteD(1) [OF w3]]) simp_all
      then obtain ys where ys: "drop ?k src = ys @ rest" "wrote f ino (pos + ?k) ys s3 s'"
          "rest \<noteq> [] \<Longrightarrow> fbyte f s3 ino (pos + ?k + length ys) = None"
          "unat (i_size ip') = (if ys = [] then unat (i_size (inode_at f s3 ino))
            else max (unat (i_size (inode_at f s3 ino))) (pos + ?k + length ys))" by blast
      have src: "src = (?xs @ ys) @ rest" using ys(1) append_take_drop_id [of ?k src] by simp
      have "wrote f ino pos (?xs @ ys) s s'" using wrote_trans [OF w3 _ L3(2), of ys s'] ys(2) k by simp
      moreover have "unat (i_size (inode_at f s3 ino)) = max (unat (i_size ?ip)) (pos + ?k)"
      proof -
        have "i_size ip1 = i_size ?ip" using growD(2) [OF g1] mp(3) by auto
        moreover have "unat (of_nat (pos + ?k) :: u32) = pos + ?k"
          using less.prems(5) k by (subst unat_of_nat) simp
        ultimately show ?thesis unfolding s3'(3) [symmetric] ip2_def big_def by (simp add: max_def)
      qed
      moreover have ne2: "?xs @ ys \<noteq> []" "length (?xs @ ys) = ?k + length ys" using k ne by auto
      moreover have "rest \<noteq> [] \<longrightarrow> fbyte f s ino (pos + length (?xs @ ys)) = None"
        using ys(3) wroteD(5) [OF w3, of "pos + ?k + length ys"] k unfolding ne2(2) by (auto simp: add.assoc)
      ultimately have "src = (?xs @ ys) @ rest \<and> wrote f ino pos (?xs @ ys) s s' \<and>
          (rest \<noteq> [] \<longrightarrow> fbyte f s ino (pos + length (?xs @ ys)) = None \<and> (?xs @ ys = [] \<longrightarrow> one_left f s)) \<and>
          unat (i_size ip') = (if ?xs @ ys = [] then unat (i_size ?ip) else max (unat (i_size ?ip)) (pos + length (?xs @ ys)))"
        using src ys(4) unfolding ne2(2) by (simp add: ne2(1) max_def del: append_is_Nil_conv)
      then have ex: "\<exists>xs. src = xs @ rest \<and> wrote f ino pos xs s s' \<and>
          (rest \<noteq> [] \<longrightarrow> fbyte f s ino (pos + length xs) = None \<and> (xs = [] \<longrightarrow> one_left f s)) \<and>
          unat (i_size ip') = (if xs = [] then unat (i_size ?ip) else max (unat (i_size ?ip)) (pos + length xs))" by blast
      have "total_blocks (sb_of f s3) = total_blocks (sb_of f s)" using same_layout_fields [OF L3(2)] by simp
      then show ?thesis using ih tx_frame_trans [OF fr3] by (intro conjI ex) simp_all
    qed
  qed
qed

end
