(* ===== verification/Kfs_File.thy ===== *)
theory Kfs_File
  imports Kfs_Data
begin

text \<open>
  Whole reads and writes of files through the entry points of \<^verbatim>\<open>kernel/kfs.c\<close>: \<^verbatim>\<open>readi\<close> returns the bytes of
  the file, \<^verbatim>\<open>kfs_write\<close> makes its bytes durable in one transaction, and a write of up to two blocks
  always fits the journal, so that only a full disk can cut it short.
\<close>

section \<open>Room in the journal\<close>

definition jroom :: "nat \<Rightarrow> kfs_state \<Rightarrow> nat \<Rightarrow> bool" where
  "jroom f s k \<longleftrightarrow> j_active (jtx s) \<and> j_fs (jtx s) = Some f \<and> \<not> j_failed (jtx s) \<and>
     length (j_entries (jtx s)) + k \<le> KFS_JOURNAL_ENTRIES"

lemma jroom_less: "jroom f s k \<Longrightarrow> j \<le> k \<Longrightarrow> jroom f s j" by (simp add: jroom_def)

lemma jroom_jtx: "jtx s' = jtx s \<Longrightarrow> jroom f s' k = jroom f s k" by (simp add: jroom_def)

lemma jroom_bread: "bread f b s = (r, s') \<Longrightarrow> jroom f s' k = jroom f s k"
  by (rule jroom_jtx [OF bread_jtx_any])

lemma jroom_iget: "iget f ino s = (r, s') \<Longrightarrow> jroom f s' k = jroom f s k"
  by (auto simp: iget_def jroom_bread split: if_splits prod.splits option.splits)

lemma jroom_stage:
  assumes "journal_stage f b buf s = (ok, s')" and "jroom f s (Suc k)"
  shows "ok \<and> jroom f s' k"
proof -
  have "length (stage_entry b buf es) \<le> Suc (length es)" for es by (simp add: stage_entry_def split: option.splits)
  then show ?thesis using assms le_trans [of "length (stage_entry b buf (j_entries (jtx s))) + k" "Suc (length (j_entries (jtx s))) + k"]
    by (auto simp: journal_stage_def jroom_def split: if_splits)
qed

lemma jroom_stage_snd: "jroom f s (Suc k) \<Longrightarrow> jroom f (snd (journal_stage f b buf s)) k"
  using jroom_stage by (metis prod.collapse)

lemma jroom_free: "jroom f (set_free_blocks f g s) k = jroom f s k"
  by (rule jroom_jtx) (simp add: set_free_blocks_def set_sb_def upd_fs_def)

lemma jroom_sb_sync: "jroom f s (Suc k) \<Longrightarrow> jroom f (snd (sb_sync f s)) k"
  unfolding sb_sync_def Let_def by (rule jroom_stage_snd) (simp add: jroom_def)

lemma jroom_balloc_loop:
  "balloc_loop f bbs s = (b, s') \<Longrightarrow> jroom f s (k + 3) \<Longrightarrow> jroom f s' k"
proof (induction bbs arbitrary: s)
  case (Cons bb bbs)
  obtain x s1 where rd: "bread f (bitmap_start (sb_of f s) + of_nat bb) s = (x, s1)" by fastforce
  have s1: "jroom f s1 (k + 3)" using jroom_bread [OF rd] Cons.prems(2) by simp
  show ?case
  proof (cases x)
    case None
    then show ?thesis using Cons.prems(1) rd s1 jroom_less [of f s1 "k + 3" k] by simp
  next
    case (Some buf)
    show ?thesis
    proof (cases "free_bit buf")
      case None
      then show ?thesis using Cons rd s1 Some by simp
    next
      case n: (Some n)
      let ?buf = "buf[n div 8 := buf ! (n div 8) OR push_bit (n mod 8) 1]"
      obtain r2 s2 where st: "journal_stage f (bitmap_start (sb_of f s1) + of_nat bb) ?buf s1 = (r2, s2)" by fastforce
      have s2: "r2 \<and> jroom f s2 (k + 2)" using jroom_stage [OF st, of "k + 2"] s1 by (simp add: eval_nat_numeral)
      let ?s3 = "snd (sb_sync f (set_free_blocks f (\<lambda>n. n - 1) s2))"
      have s3: "jroom f ?s3 (k + 1)" using s2 by (intro jroom_sb_sync) (simp add: jroom_free eval_nat_numeral)
      then have s4: "journal_stage f blk d ?s3 = (r, s'') \<Longrightarrow> r \<and> jroom f s'' k" for blk d r s''
        using jroom_stage by fastforce
      show ?thesis using Cons.prems(1) rd Some n st s2 jroom_less [OF s1, of k]
        by (auto simp: Let_def split: if_splits bool.splits prod.splits dest: s4)
    qed
  qed
qed (simp add: jroom_def)

lemma jroom_balloc: "balloc f s = (b, s') \<Longrightarrow> jroom f s (k + 3) \<Longrightarrow> jroom f s' k"
  unfolding balloc_def by (rule jroom_balloc_loop)

lemma jroom_iput: "iput f ino ip s = (r, s') \<Longrightarrow> jroom f s (Suc k) \<Longrightarrow> jroom f s' k"
proof -
  assume p: "iput f ino ip s = (r, s')" and j: "jroom f s (Suc k)"
  obtain x s1 where rd: "bread f (inode_blk (sb_of f s) ino) s = (x, s1)" by fastforce
  have s1: "jroom f s1 (Suc k)" using jroom_bread [OF rd] j by simp
  show ?thesis using p rd jroom_less [OF s1, of k]
    by (auto simp: iput_def split: option.splits dest!: jroom_stage [OF _ s1])
qed

lemma jroom_iput_snd: "jroom f s (Suc k) \<Longrightarrow> jroom f (snd (iput f ino ip s)) k"
  using jroom_iput by (metis prod.collapse)

lemma jroom_bmap_table: 
  assumes "bmap_table f ip n alloc s = (b, ip', s')" and "jroom f s (k + 4)"
  shows "jroom f s' k"
proof -
  obtain x s1 where rd: "bread f (indirect ip) s = (x, s1)" by fastforce
  have s1: "jroom f s1 (k + 4)" using jroom_bread [OF rd] assms(2) by simp
  obtain nb s2 where ba: "balloc f s1 = (nb, s2)" by fastforce
  have s2: "jroom f s2 (Suc k)" using jroom_balloc [OF ba, of "Suc k"] s1 by (simp add: eval_nat_numeral)
  show ?thesis using assms(1) rd ba jroom_less [OF s1, of k] jroom_less [OF s2, of k]
    by (auto simp: bmap_table_def Let_def split: option.splits if_splits prod.splits bool.splits dest!: jroom_stage [OF _ s2])
qed

lemma jroom_bmap:
  assumes "bmap f ino ip n alloc s = (b, ip', s')" and r: "jroom f s (k + 8)"
  shows "jroom f s' k"
proof -
  obtain nb s1 where ba: "balloc f s = (nb, s1)" by fastforce
  have s1: "jroom f s1 (k + 5)" using jroom_balloc [OF ba, of "k + 5"] r by (simp add: eval_nat_numeral)
  have s2: "jroom f (snd (iput f ino x s1)) (k + 4)" for x by (rule jroom_iput_snd) (use s1 in \<open>simp add: eval_nat_numeral\<close>)
  have "bmap_table f x m a (snd (iput f ino y s1)) = (b, ip', s') \<Longrightarrow> jroom f s' k" for x m a y
    by (rule jroom_bmap_table [OF _ s2])
  moreover have "bmap_table f x m a s = (b, ip', s') \<Longrightarrow> jroom f s' k" for x m a
    by (erule jroom_bmap_table) (use jroom_less [OF r, of "k + 4"] in simp)
  ultimately show ?thesis using assms(1) ba jroom_less [OF r, of k] jroom_less [OF s1, of k] jroom_less [OF s2, of k]
    by (auto simp: bmap_def bmap_direct_def Let_def split: if_splits prod.splits)
qed

lemma jroom_writei_block: "writei_block f b boff xs s = (r, s') \<Longrightarrow> jroom f s (Suc k) \<Longrightarrow> jroom f s' k"
proof -
  assume p: "writei_block f b boff xs s = (r, s')" and j: "jroom f s (Suc k)"
  obtain x s1 where rd: "bread f b s = (x, s1)" by fastforce
  have s1: "jroom f s1 (Suc k)" using jroom_bread [OF rd] j by simp
  show ?thesis using p rd jroom_less [OF s1, of k]
    by (auto simp: writei_block_def split: option.splits if_splits dest!: jroom_stage [OF _ s1] jroom_stage [OF _ j])
qed

lemma next_block: "(pos + (KFS_BLOCK_SIZE - pos mod KFS_BLOCK_SIZE)) mod KFS_BLOCK_SIZE = 0"
proof -
  obtain q r where q: "pos = q * KFS_BLOCK_SIZE + r" "r < KFS_BLOCK_SIZE"
    using div_mult_mod_eq [of pos KFS_BLOCK_SIZE] mod_less_divisor [of KFS_BLOCK_SIZE pos] by (metis zero_less_numeral)
  then have "pos + (KFS_BLOCK_SIZE - pos mod KFS_BLOCK_SIZE) = (q + 1) * KFS_BLOCK_SIZE" by simp
  then show ?thesis by (simp only: mod_mult_self2_is_0)
qed

text \<open>A chunk needs ten entries at most: the bitmap, superblock and content of up to two new blocks, the
  inode before and after, the indirect block and the data block.\<close>

lemma jroom_writei_loop:
  "writei_loop f ino ip pos src s = (rest, ip', s') \<Longrightarrow>
   src = [] \<or> pos mod KFS_BLOCK_SIZE + length src \<le> c * KFS_BLOCK_SIZE \<Longrightarrow> jroom f s (k + 10 * c) \<Longrightarrow> jroom f s' k"
proof (induction c arbitrary: ip pos src s)
  case 0
  then have "src = []" by auto
  then show ?case using 0 by (simp add: writei_loop.simps [of f ino])
next
  case (Suc c)
  let ?k = "chunk_at pos (length src)"
  obtain b ip1 s1 where bm: "bmap f ino ip (pos div KFS_BLOCK_SIZE) True s = (b, ip1, s1)" using prod_cases3 by blast
  have r1: "jroom f s1 (k + 10 * c + 2)" using jroom_bmap [OF bm, of "k + 10 * c + 2"] Suc.prems(3) by (simp add: algebra_simps)
  obtain x s2 where wr: "writei_block f b (pos mod KFS_BLOCK_SIZE) (take ?k src) s1 = (x, s2)" by fastforce
  have r2: "jroom f s2 (k + 10 * c + 1)" using jroom_writei_block [OF wr, of "k + 10 * c + 1"] r1 by simp
  have r3: "jroom f (snd (iput f ino y s2)) (k + 10 * c)" for y by (rule jroom_iput_snd) (use r2 in simp)
  have r2': "jroom f s2 (k + 10 * c)" using jroom_less [OF r2] by simp
  have left: "drop ?k src = [] \<or> (pos + ?k) mod KFS_BLOCK_SIZE + length (drop ?k src) \<le> c * KFS_BLOCK_SIZE"
  proof (cases "KFS_BLOCK_SIZE - pos mod KFS_BLOCK_SIZE < length src")
    case True
    have k: "?k = KFS_BLOCK_SIZE - pos mod KFS_BLOCK_SIZE" using True by (simp add: chunk_at_def)
    have "(pos + ?k) mod KFS_BLOCK_SIZE = 0" unfolding k by (rule next_block)
    then show ?thesis using Suc.prems(2) k mod_less_divisor [of KFS_BLOCK_SIZE pos] True by (auto simp: algebra_simps)
  next
    case False
    then show ?thesis by (simp add: chunk_at_def)
  qed
  have "writei_loop f ino y (pos + ?k) (drop ?k src) s3 = (rest, ip', s') \<Longrightarrow> jroom f s3 (k + 10 * c) \<Longrightarrow> jroom f s' k" for y s3
    by (rule Suc.IH [OF _ left])
  then show ?case using Suc.prems(1) bm wr r3 r2' jroom_less [OF r1, of k] jroom_less [OF r2, of k] jroom_less [OF Suc.prems(3), of k]
    by (auto simp: writei_loop.simps [of f ino ip] Let_def split: if_splits bool.splits)
qed

lemma jroom_writei:
  assumes "writei f ino off src mtime s = (r, s')" and "unat off mod KFS_BLOCK_SIZE + length src \<le> c * KFS_BLOCK_SIZE"
    and r: "jroom f s (k + 10 * c + 1)"
  shows "jroom f s' k"
proof -
  obtain x s1 where g: "iget f ino s = (x, s1)" by fastforce
  have r1: "jroom f s1 (k + 10 * c + 1)" using jroom_iget [OF g] r by simp
  show ?thesis
  proof (cases x)
    case None
    then show ?thesis using assms(1) g jroom_less [OF r1, of k] by (simp add: writei_def)
  next
    case (Some ip)
    obtain rest ip1 s2 where lp: "writei_loop f ino ip (unat off) src s1 = (rest, ip1, s2)" using prod_cases3 by blast
    have r2: "jroom f s2 (k + 1)" using jroom_writei_loop [OF lp _, of c "k + 1"] assms(2) r1 by simp
    have "jroom f (snd (iput f ino y s2)) k" for y by (rule jroom_iput_snd) (use r2 in simp)
    then show ?thesis using assms(1) g Some lp jroom_less [OF r1, of k] jroom_less [OF r2, of k]
      by (auto simp: writei_def split: if_splits)
  qed
qed

section \<open>Reading\<close>

lemma same_block_mod:
  assumes "pos mod KFS_BLOCK_SIZE + j < KFS_BLOCK_SIZE"
  shows "(pos + j) mod KFS_BLOCK_SIZE = pos mod KFS_BLOCK_SIZE + j"
  using assms mod_add_left_eq [of pos KFS_BLOCK_SIZE j] by simp

text \<open>What reads keep: the view, and everything but the cache and the counters.\<close>

definition looked :: "nat \<Rightarrow> kfs_state \<Rightarrow> kfs_state \<Rightarrow> bool" where
  "looked f s s' \<longleftrightarrow> store_ok f s' \<and> view f s' = view f s \<and> frm f s s' \<and> fs_block s' f = fs_block s f"

lemma looked_refl: "store_ok f s \<Longrightarrow> looked f s s" by (simp add: looked_def)

lemma looked_trans: "looked f a b \<Longrightarrow> looked f b c \<Longrightarrow> looked f a c"
  unfolding looked_def using frm_trans by auto

lemma lookedD:
  assumes "looked f s s'"
  shows "store_ok f s'" and "view f s' = view f s" and "fss s' = fss s" and "jtx s' = jtx s"
    and "no_faults s' f = no_faults s f" and "sb_of f s' = sb_of f s" and "fs_block s' f = fs_block s f"
proof -
  have fr: "frm f s s'" using assms by (simp add: looked_def)
  then have "fault (devs s' d) = fault (devs s d)" for d using dev_frame_fields(5) by (auto simp: frm_def)
  then show "no_faults s' f = no_faults s f" using fr by (simp add: no_faults_def frm_def)
qed (use assms in \<open>simp_all add: looked_def frm_def\<close>)

lemma looked_same:
  assumes "looked f s s'"
  shows "inode_at f s' = inode_at f s" and "ptr_of f s' = ptr_of f s" and "fs_wf f s' = fs_wf f s"
    and "fbyte f s' = fbyte f s" and "usable f s' = usable f s"
  using view_same [OF lookedD(2,6) [OF assms]] lookedD(6) [OF assms] by (simp_all add: usable_def fun_eq_iff)

lemma looked_bread:
  assumes "store_ok f s" and "usable f s b" and "bread f b s = (r, s')"
  shows "looked f s s'" and "r = None \<or> r = Some (view f s b)" and "r = None \<Longrightarrow> \<not> no_faults s f"
  using bread_effect [OF assms] by (simp_all add: looked_def no_faults_def)

lemma looked_iget:
  assumes "store_ok f s" and "layout_ok (sb_of f s)" and "iget f ino s = (r, s')"
  shows "looked f s s'" and "r = None \<or> r = Some (inode_at f s ino) \<and> mounted (fss s f) \<and> ino_valid (sb_of f s) ino"
    and "\<lbrakk>r = None; mounted (fss s f); ino_valid (sb_of f s) ino\<rbrakk> \<Longrightarrow> \<not> no_faults s f"
  using iget_ok [OF assms] by (simp_all add: looked_def)

lemma bmap_read:
  assumes ok: "store_ok f s" and wf: "fs_wf f s" and i: "ino_valid (sb_of f s) ino"
    and ret: "bmap f ino (inode_at f s ino) n False s = (b, ip', s')"
  shows "looked f s s'" and "b \<noteq> 0 \<Longrightarrow> n < KFS_NDIRECT + KFS_NINDIRECT \<and> b = ptr f s ino n"
    and "\<lbrakk>b = 0; no_faults s f\<rbrakk> \<Longrightarrow> n \<ge> KFS_NDIRECT + KFS_NINDIRECT \<or> ptr f s ino n = 0"
proof -
  let ?ip = "inode_at f s ino"
  have "looked f s s' \<and> (b \<noteq> 0 \<longrightarrow> n < KFS_NDIRECT + KFS_NINDIRECT \<and> b = ptr f s ino n) \<and>
    (b = 0 \<and> no_faults s f \<longrightarrow> n \<ge> KFS_NDIRECT + KFS_NINDIRECT \<or> ptr f s ino n = 0)"
  proof (cases "n < KFS_NDIRECT")
    case True
    then have "b = direct ?ip ! n" "s' = s" using ret by (auto simp: bmap_def bmap_direct_def Let_def)
    then show ?thesis using True looked_refl [OF ok] by (simp add: ptr_of_def)
  next
    case ge: False
    show ?thesis
    proof (cases "n < KFS_NDIRECT + KFS_NINDIRECT \<and> indirect ?ip \<noteq> 0")
      case False
      then have "b = 0" "s' = s" using ret ge by (auto simp: bmap_def Let_def split: if_splits)
      then show ?thesis using False ge looked_refl [OF ok] by (auto simp: ptr_of_def)
    next
      case True
      have us: "usable f s (indirect ?ip)"
        using usable_ptr [OF wf i, of "KFS_NDIRECT + KFS_NINDIRECT"] True unfolding ptr_indirect by simp
      obtain x s1 where rd: "bread f (indirect ?ip) s = (x, s1)" by fastforce
      note l = looked_bread [OF ok us rd]
      have "\<not> KFS_NINDIRECT \<le> n - KFS_NDIRECT" using True ge by arith
      then have "bmap_table f ?ip (n - KFS_NDIRECT) False s = (b, ip', s')" using ret ge True by (simp add: bmap_def Let_def)
      then have "s' = s1" "b = (case x of None \<Rightarrow> 0 | Some tab \<Rightarrow> rd32 (4 * (n - KFS_NDIRECT)) tab)"
        using rd by (auto simp: bmap_table_def Let_def split: option.splits)
      then show ?thesis using l True ge by (auto simp: ptr_of_def split: option.splits)
    qed
  qed
  then show "looked f s s'" and "b \<noteq> 0 \<Longrightarrow> n < KFS_NDIRECT + KFS_NINDIRECT \<and> b = ptr f s ino n"
    and "\<lbrakk>b = 0; no_faults s f\<rbrakk> \<Longrightarrow> n \<ge> KFS_NDIRECT + KFS_NINDIRECT \<or> ptr f s ino n = 0" by blast+
qed

text \<open>Bytes that a file has from a position on, as far as they were wanted and could be read.\<close>

definition bytes_from :: "nat \<Rightarrow> kfs_state \<Rightarrow> u32 \<Rightarrow> nat \<Rightarrow> nat \<Rightarrow> byte list \<Rightarrow> bool" where
  "bytes_from f s ino pos want xs \<longleftrightarrow> length xs \<le> want \<and> (\<forall>i < length xs. fbyte f s ino (pos + i) = Some (xs ! i)) \<and>
     (length xs < want \<longrightarrow> no_faults s f \<longrightarrow> fbyte f s ino (pos + length xs) = None)"

lemma bytes_from_append:
  assumes "\<forall>i < length xs. fbyte f s ino (pos + i) = Some (xs ! i)" and "length xs = k" and "k \<le> want"
    and "bytes_from f s ino (pos + k) (want - k) ys"
  shows "bytes_from f s ino pos want (xs @ ys)"
  unfolding bytes_from_def
proof (intro conjI allI impI)
  have ys: "length ys \<le> want - k" "length ys < want - k \<Longrightarrow> no_faults s f \<Longrightarrow> fbyte f s ino (pos + k + length ys) = None"
    using assms(4) by (simp_all add: bytes_from_def)
  then show "length (xs @ ys) \<le> want" using assms(2,3) by simp
  show "fbyte f s ino (pos + length (xs @ ys)) = None" if "length (xs @ ys) < want" "no_faults s f"
    using assms(2) that ys(2) by (simp add: add.assoc)
  fix i assume i: "i < length (xs @ ys)"
  show "fbyte f s ino (pos + i) = Some ((xs @ ys) ! i)"
  proof (cases "i < k")
    case True
    then show ?thesis using assms by (simp add: nth_append)
  next
    case False
    then have "i - k < length ys" using i assms(2) by simp
    then have "fbyte f s ino (pos + k + (i - k)) = Some (ys ! (i - k))" using assms(4) unfolding bytes_from_def by blast
    then show ?thesis using False assms(2) by (simp add: nth_append)
  qed
qed

lemma bytes_from_looked: "looked f s s' \<Longrightarrow> bytes_from f s' ino pos want xs = bytes_from f s ino pos want xs"
  using looked_same(4) lookedD(5) by (simp add: bytes_from_def)

lemma readi_loop_ok:
  assumes "store_ok f s" and "fs_wf f s" and "ino_valid (sb_of f s) ino"
    and "readi_loop f ino (inode_at f s ino) pos left acc s = (r, bs, s')"
  shows "looked f s s' \<and> (\<exists>xs. bs = acc @ xs \<and> bytes_from f s ino pos left xs) \<and>
    r = (if left \<noteq> 0 \<and> bs = [] then - 1 else int (length bs))"
  using assms
proof (induction left arbitrary: pos acc s rule: less_induct)
  case (less left)
  note ok = less.prems(1) and wf = less.prems(2) and i = less.prems(3)
  let ?ip = "inode_at f s ino" and ?n = "pos div KFS_BLOCK_SIZE" and ?o = "pos mod KFS_BLOCK_SIZE"
  let ?k = "chunk_at pos left"
  show ?case
  proof (cases "left = 0")
    case True
    then have "r = int (length acc)" "bs = acc" "s' = s" using less.prems(4) by (auto simp: readi_loop.simps [of f ino])
    then show ?thesis using True looked_refl [OF ok] by (simp add: bytes_from_def)
  next
    case pos: False
    obtain b ip1 s1 where bm: "bmap f ino ?ip ?n False s = (b, ip1, s1)" using prod_cases3 by blast
    note m = bmap_read [OF ok wf i bm]
    have hole: "fbyte f s ino pos = None" if "b = 0" "no_faults s f"
      using m(3) [OF that] by (auto simp: fbyte_def Let_def)
    have stop: ?thesis if "s' = s2" "bs = acc" "r = (if acc = [] then - 1 else int (length acc))" "looked f s s2"
      "no_faults s f \<Longrightarrow> fbyte f s ino pos = None" for s2
      using that pos by (auto simp: bytes_from_def intro!: exI [of _ "[]"])
    show ?thesis
    proof (cases "b = 0")
      case True
      then show ?thesis using less.prems(4) pos bm m(1) hole
        by (intro stop [of s1]) (auto simp: readi_loop.simps [of f ino] Let_def)
    next
      case nz: False
      have n: "?n < KFS_NDIRECT + KFS_NINDIRECT" "b = ptr f s ino ?n" using m(2) nz by simp_all
      have us: "usable f s1 b" using usable_ptr [OF wf i, of ?n] n nz looked_same(5) [OF m(1)] by simp
      obtain x s2 where rd: "bread f b s1 = (x, s2)" by fastforce
      note l = looked_bread [OF lookedD(1) [OF m(1)] us rd]
      have l2: "looked f s s2" by (rule looked_trans [OF m(1) l(1)])
      show ?thesis
      proof (cases x)
        case None
        then have "\<not> no_faults s f" using l(3) lookedD(5) [OF m(1)] by simp
        then show ?thesis using less.prems(4) pos bm nz rd None l2
          by (intro stop [of s2]) (auto simp: readi_loop.simps [of f ino] Let_def)
      next
        case (Some buf)
        have buf: "buf = view f s b" using l(2) Some lookedD(2) [OF m(1)] by simp
        have lb: "length buf = KFS_BLOCK_SIZE" using buf ok usable_ptr [OF wf i, of ?n] n nz by (simp add: length_view)
        let ?xs = "get_bytes ?o ?k buf"
        have fit: "?o + ?k \<le> KFS_BLOCK_SIZE"
          using mod_less_divisor [of KFS_BLOCK_SIZE pos] by (simp add: chunk_at_def min_def) linarith
        have k: "0 < ?k" "?k \<le> left" using pos chunk_at_pos chunk_at_le by auto
        have xs: "length ?xs = ?k" using fit lb by simp
        have got: "\<forall>j < length ?xs. fbyte f s ino (pos + j) = Some (?xs ! j)"
        proof (intro allI impI)
          fix j assume j: "j < length ?xs"
          have sb: "(pos + j) div KFS_BLOCK_SIZE = ?n" using fit j xs by (intro same_block [of pos "pos + j" ?k]) simp_all
          have "(pos + j) mod KFS_BLOCK_SIZE = ?o + j" using fit j xs by (intro same_block_mod) simp
          then show "fbyte f s ino (pos + j) = Some (?xs ! j)"
            using n nz buf j xs fit lb by (simp add: fbyte_def Let_def sb nth_get_bytes)
        qed
        have rec: "readi_loop f ino (inode_at f s2 ino) (pos + ?k) (left - ?k) (acc @ ?xs) s2 = (r, bs, s')"
          using less.prems(4) pos bm nz rd Some looked_same(1) [OF l2] by (simp add: readi_loop.simps [of f ino ?ip] Let_def)
        have "looked f s2 s' \<and> (\<exists>ys. bs = (acc @ ?xs) @ ys \<and> bytes_from f s2 ino (pos + ?k) (left - ?k) ys) \<and>
            r = (if left - ?k \<noteq> 0 \<and> bs = [] then - 1 else int (length bs))"
          using k by (intro less.IH [OF _ lookedD(1) [OF l2] _ _ rec]) (simp_all add: looked_same [OF l2] lookedD(6) [OF l2] wf i)
        then obtain ys where ys: "looked f s2 s'" "bs = acc @ ?xs @ ys" "bytes_from f s ino (pos + ?k) (left - ?k) ys"
            "r = (if left - ?k \<noteq> 0 \<and> bs = [] then - 1 else int (length bs))"
          by (auto simp: bytes_from_looked [OF l2])
        have "bs \<noteq> []" using ys(2) xs k by auto
        then show ?thesis using ys looked_trans [OF l2] bytes_from_append [OF got xs k(2) ys(3)] by auto
      qed
    qed
  qed
qed

text \<open>How much of a request a file can serve.\<close>

definition want :: "kfs_inode \<Rightarrow> u32 \<Rightarrow> u32 \<Rightarrow> nat" where
  "want ip off n = min (unat n) (unat (i_size ip) - unat off)"

lemma readi_ok:
  assumes ok: "store_ok f s" and wf: "fs_wf f s" and i: "ino_valid (sb_of f s) ino" and m: "mounted (fss s f)"
    and nf: "no_faults s f" and ty: "i_type (inode_at f s ino) \<noteq> KFS_TYPE_FREE" and ret: "readi f ino off n s = (r, bs, s')"
  shows "looked f s s'" and "bytes_from f s ino (unat off) (want (inode_at f s ino) off n) bs"
    and "r = (if want (inode_at f s ino) off n \<noteq> 0 \<and> bs = [] then - 1 else int (length bs))"
proof -
  let ?ip = "inode_at f s ino"
  obtain x s1 where g: "iget f ino s = (x, s1)" by fastforce
  note e = looked_iget [OF ok fs_wfD(1) [OF wf] g]
  have x: "x = Some ?ip" using e(2,3) m i nf by auto
  have "looked f s s' \<and> bytes_from f s ino (unat off) (want ?ip off n) bs \<and>
      r = (if want ?ip off n \<noteq> 0 \<and> bs = [] then - 1 else int (length bs))"
  proof (cases "off \<ge> i_size ?ip")
    case True
    then have "want ?ip off n = 0" by (simp add: want_def word_le_nat_alt)
    moreover have "r = 0" "bs = []" "s' = s1" using ret g x ty True by (auto simp: readi_def)
    ultimately show ?thesis using e(1) by (simp add: bytes_from_def)
  next
    case False
    let ?n = "if n > i_size ?ip - off then i_size ?ip - off else n"
    have "unat (i_size ?ip - off) = unat (i_size ?ip) - unat off" using False by (simp add: unat_sub)
    then have w: "unat ?n = want ?ip off n" by (auto simp: want_def word_less_nat_alt)
    have "readi_loop f ino (inode_at f s1 ino) (unat off) (unat ?n) [] s1 = (r, bs, s')"
      using ret g x ty False looked_same(1) [OF e(1)] by (simp add: readi_def Let_def)
    from readi_loop_ok [OF lookedD(1) [OF e(1)] _ _ this] show ?thesis
      using wf i looked_trans [OF e(1)] w by (simp add: looked_same [OF e(1)] lookedD(6) [OF e(1)] bytes_from_looked [OF e(1)])
  qed
  then show "looked f s s'" and "bytes_from f s ino (unat off) (want ?ip off n) bs"
    and "r = (if want ?ip off n \<noteq> 0 \<and> bs = [] then - 1 else int (length bs))" by simp_all
qed

section \<open>Writing through the journal\<close>

definition saved :: "nat \<Rightarrow> u32 \<Rightarrow> nat \<Rightarrow> byte list \<Rightarrow> u32 \<Rightarrow> kfs_state \<Rightarrow> kfs_state \<Rightarrow> bool" where
  "saved f ino pos xs mtime s s' \<longleftrightarrow> fs_wf f s' \<and>
     (\<forall>j. ino_valid (sb_of f s) j \<and> j \<noteq> ino \<longrightarrow> inode_at f s' j = inode_at f s j \<and> fbyte f s' j = fbyte f s j) \<and>
     (\<forall>p. if pos \<le> p \<and> p < pos + length xs then fbyte f s' ino p = Some (xs ! (p - pos))
        else fbyte f s' ino p = fbyte f s ino p \<or> fbyte f s ino p = None \<and> fbyte f s' ino p = Some 0) \<and>
     (\<exists>d i. inode_at f s' ino = (inode_at f s ino)\<lparr>i_size := of_nat (max (unat (i_size (inode_at f s ino))) (pos + length xs)),
        i_mtime := mtime, direct := d, indirect := i\<rparr>)"

definition disk_full :: "nat \<Rightarrow> kfs_state \<Rightarrow> bool" where
  "disk_full f s \<longleftrightarrow> (\<forall>m < unat (total_blocks (sb_of f s)). used f s m)"

lemma tx_looked:
  assumes tx: "in_tx f s" and l: "looked f s s'" shows "tx_frame f s s'"
  using in_tx_frm [OF tx lookedD(1) [OF l]] l lookedD [OF l]
  by (simp add: tx_frame_def looked_def same_layout_refl)

lemma writei_ok:
  assumes tx: "in_tx f s" and wf: "fs_wf f s" and i: "ino_valid (sb_of f s) ino" and nf: "no_faults s f"
    and m: "mounted (fss s f)" and ty: "i_type (inode_at f s ino) \<noteq> KFS_TYPE_FREE"
    and src: "src \<noteq> []" "unat off + length src \<le> unat KFS_MAX_FILE_SIZE"
    and ret: "writei f ino off src mtime s = (r, s')" and nfl: "\<not> j_failed (jtx s')"
  shows "tx_frame f s s'" and "\<exists>xs rest. src = xs @ rest \<and> (if xs = [] then r = - 1 \<and> fs_wf f s' \<and> one_left f s else r = int (length xs) \<and> saved f ino (unat off) xs mtime s s') \<and>
    (rest \<noteq> [] \<longrightarrow> disk_full f s' \<and> fbyte f s ino (unat off + length xs) = None)"
proof -
  let ?ip = "inode_at f s ino"
  obtain x s1 where g: "iget f ino s = (x, s1)" by fastforce
  have ok: "store_ok f s" using tx by (simp add: in_tx_def)
  note e = looked_iget [OF ok fs_wfD(1) [OF wf] g]
  have x: "x = Some ?ip" using e(2,3) m i nf by auto
  note f1 = tx_looked [OF tx e(1)]
  have tx1: "in_tx f s1" by (rule tx_frameD(1) [OF f1])
  note same = looked_same [OF e(1)]
  have wf1: "fs_wf f s1" and i1: "ino_valid (sb_of f s1) ino" and nf1: "no_faults s1 f"
    using wf i nf same lookedD(5,6) [OF e(1)] by simp_all
  have lsrc: "unat (of_nat (length src) :: u32) = length src" using src(2) by (subst unat_of_nat) simp
  have "off \<le> KFS_MAX_FILE_SIZE" using src(2) by (simp add: word_le_nat_alt)
  then have small: "\<not> (off > KFS_MAX_FILE_SIZE \<or> of_nat (length src) > KFS_MAX_FILE_SIZE - off)"
    using src(2) lsrc by (simp add: word_less_nat_alt unat_sub not_less)
  obtain rest ip1 s2 where lp: "writei_loop f ino ?ip (unat off) src s1 = (rest, ip1, s2)" using prod_cases3 by blast
  define s3 where "s3 = snd (iput f ino (ip1\<lparr>i_mtime := mtime\<rparr>) s2)"
  have d: "length (direct ?ip) = KFS_NDIRECT" by simp
  have a2: "abortable f s1 s2" "length (direct ip1) = KFS_NDIRECT" using tx.writei_loop [OF lp abortable_self [OF tx1] d] by simp_all
  have a3: "abortable f s2 s3" unfolding s3_def using a2 by (intro tx.iput_snd abortable_refl [OF a2(1)]) simp
  have res: "r = (if length rest < length src then int (length src - length rest) else - 1)"
      "s' = (if length rest < length src then s3 else s2)"
    using ret g x ty src(1) small lp by (auto simp: writei_def s3_def)
  have nfl2: "\<not> j_failed (jtx s2)" using res(2) nfl still_open [OF a3] by (auto split: if_splits)
  have lp1: "writei_loop f ino (inode_at f s1 ino) (unat off) src s1 = (rest, ip1, s2)" using lp same by simp
  from writei_loop_ok [OF tx1 wf1 i1 nf1 src(2) lp1 nfl2] obtain xs where
    lo: "tx_frame f s1 s2" "ip1 = inode_at f s2 ino" "src = xs @ rest" "wrote f ino (unat off) xs s1 s2"
      "rest \<noteq> [] \<Longrightarrow> fbyte f s ino (unat off + length xs) = None \<and> (xs = [] \<longrightarrow> one_left f s1)"
      "unat (i_size ip1) = (if xs = [] then unat (i_size ?ip) else max (unat (i_size ?ip)) (unat off + length xs))"
      "rest \<noteq> [] \<Longrightarrow> \<forall>m < unat (total_blocks (sb_of f s)). used f s2 m"
    unfolding same lookedD(6) [OF e(1)] by blast
  have fr2: "tx_frame f s s2" by (rule tx_frame_trans [OF f1 lo(1)])
  note L2 = tx_frameD [OF fr2]
  have wf2: "fs_wf f s2" by (rule wroteD(1) [OF lo(4)])
  have len: "length rest < length src \<longleftrightarrow> xs \<noteq> []" using lo(3) by auto
  have "tx_frame f s s' \<and> (\<exists>xs rest. src = xs @ rest \<and> (if xs = [] then r = - 1 \<and> fs_wf f s' \<and> one_left f s else r = int (length xs) \<and> saved f ino (unat off) xs mtime s s') \<and>
    (rest \<noteq> [] \<longrightarrow> disk_full f s' \<and> fbyte f s ino (unat off + length xs) = None))"
  proof (cases "xs = []")
    case True
    then have "r = - 1" "s' = s2" using res len by simp_all
    moreover have "disk_full f s2" if "rest \<noteq> []" using lo(7) that same_layout_fields [OF L2(2)] by (simp add: disk_full_def)
    moreover have "one_left f s" using lo(3,5) True src(1) view_same(3) [OF lookedD(2,6) [OF e(1)]] lookedD(6) [OF e(1)]
      by (simp add: one_left_def)
    ultimately show ?thesis using True lo(3,5) fr2 wf2 by (intro conjI exI [of _ "[]"] exI [of _ rest]) auto
  next
    case False
    then have r: "r = int (length xs)" "s' = s3" using res len lo(3) by simp_all
    obtain q where put: "iput f ino (ip1\<lparr>i_mtime := mtime\<rparr>) s2 = (q, s3)"
      unfolding s3_def by (cases "iput f ino (ip1\<lparr>i_mtime := mtime\<rparr>) s2") simp
    have i2: "ino_valid (sb_of f s2) ino" using ino_valid_layout [OF L2(2)] i by simp
    have nf2: "no_faults s2 f" using L2(7) nf by simp
    have nfl3: "\<not> j_failed (jtx s3)" using nfl r by simp
    note mt = iput_meta [OF L2(1) wf2 i2 nf2 _ _ put nfl3, unfolded lo(2), simplified]
    have val: "ino_valid (sb_of f s2) j = ino_valid (sb_of f s) j" for j by (rule ino_valid_layout [OF L2(2)])
    have full: "disk_full f s3" if "rest \<noteq> []" unfolding disk_full_def
    proof (intro allI impI)
      fix n assume n: "n < unat (total_blocks (sb_of f s3))"
      have n2: "n < unat (total_blocks (sb_of f s2))" using n same_layout_fields [OF tx_frameD(2) [OF mt(2)]] by simp
      then have "n < unat (bitmap_blocks (sb_of f s2)) * BITS_PER_BLOCK" using layout_okD(7) [OF fs_wfD(1) [OF wf2]] by simp
      then show "used f s3 n" using mt(7) lo(7) that n2 same_layout_fields [OF L2(2)] by simp
    qed
    obtain d k z where wi: "inode_at f s2 ino = ?ip\<lparr>i_size := z, direct := d, indirect := k\<rparr>"
      using wroteD(6) [OF lo(4)] by (auto simp: same)
    have "unat z = max (unat (i_size ?ip)) (unat off + length xs)" using lo(2,6) wi False by simp
    then have z: "z = of_nat (max (unat (i_size ?ip)) (unat off + length xs))" by (metis of_nat_unat ucast_id)
    have "inode_at f s3 ino = ?ip\<lparr>i_size := z, i_mtime := mtime, direct := d, indirect := k\<rparr>" using mt(4) wi by simp
    then have ex: "\<exists>d i. inode_at f s3 ino = ?ip\<lparr>i_size := of_nat (max (unat (i_size ?ip)) (unat off + length xs)),
        i_mtime := mtime, direct := d, indirect := i\<rparr>" unfolding z by blast
    have "saved f ino (unat off) xs mtime s s3" unfolding saved_def
    proof (intro conjI ex allI impI)
      show "fs_wf f s3" by (rule mt(3))
      show "inode_at f s3 j = inode_at f s j" "fbyte f s3 j = fbyte f s j" if "ino_valid (sb_of f s) j \<and> j \<noteq> ino" for j
        using that mt(5,6) [of j] wroteD(2,3) [OF lo(4), of j] val lookedD(6) [OF e(1)] by (simp_all add: same)
      show "if unat off \<le> p \<and> p < unat off + length xs then fbyte f s3 ino p = Some (xs ! (p - unat off))
          else fbyte f s3 ino p = fbyte f s ino p \<or> fbyte f s ino p = None \<and> fbyte f s3 ino p = Some 0" for p
        using wroteD(4,5) [OF lo(4), of p] mt(6) [OF i2] by (auto simp: same)
    qed
    then show ?thesis using r False lo(3,5) full tx_frame_trans [OF fr2 mt(2)]
      by (intro conjI exI [of _ xs] exI [of _ rest]) auto
  qed
  then show "tx_frame f s s'" and "\<exists>xs rest. src = xs @ rest \<and> (if xs = [] then r = - 1 \<and> fs_wf f s' \<and> one_left f s else r = int (length xs) \<and> saved f ino (unat off) xs mtime s s') \<and>
    (rest \<noteq> [] \<longrightarrow> disk_full f s' \<and> fbyte f s ino (unat off + length xs) = None)" by blast+
qed

text \<open>The contents of a file system are those of its blocks outside the journal.\<close>

lemma home_view_same:
  assumes wf: "fs_wf f s" and sb: "sb_of f s' = sb_of f s" and v: "\<And>b. usable f s b \<Longrightarrow> view f s' b = view f s b"
  shows "fs_wf f s'" and "ino_valid (sb_of f s) i \<Longrightarrow> inode_at f s' i = inode_at f s i"
    and "ino_valid (sb_of f s) i \<Longrightarrow> fbyte f s' i = fbyte f s i"
    and "m < unat (bitmap_blocks (sb_of f s)) * BITS_PER_BLOCK \<Longrightarrow> used f s' m = used f s m"
proof -
  note w = fs_wfD [OF wf]
  have sl: "same_layout (sb_of f s') (sb_of f s)" by (simp add: sb same_layout_refl)
  have ia: "inode_at f s' i = inode_at f s i" if "ino_valid (sb_of f s) i" for i
    by (intro inode_at_cong [OF sl] v inode_blk_unat(2) [OF w(1) that])
  have us: "used f s' m = used f s m" if "m < unat (bitmap_blocks (sb_of f s)) * BITS_PER_BLOCK" for m
    by (intro used_cong [OF w(1) sl _ that] v bitmap_blk_unat(2) [OF w(1)])
  have pp: "ptr f s' i = ptr f s i" if "ino_valid (sb_of f s) i" for i
    using usable_data [OF w(1)] by (intro ptr_keep [OF wf that ia [OF that]] v) blast
  show "fs_wf f s'" using us by (intro fs_wf_keep [OF wf sl _ pp]) simp_all
  show "ino_valid (sb_of f s) i \<Longrightarrow> inode_at f s' i = inode_at f s i" by (rule ia)
  show "fbyte f s' i = fbyte f s i" if "ino_valid (sb_of f s) i"
    using usable_ptr [OF wf that] by (intro fbyte_keep [OF pp [OF that]] v) blast
  show "m < unat (bitmap_blocks (sb_of f s)) * BITS_PER_BLOCK \<Longrightarrow> used f s' m = used f s m" by (rule us)
qed

lemma payloads_no_fault:
  assumes "geom_ok s f" and "no_faults s f" and "unat at + length es \<le> unat (total_blocks (sb_of f s))"
    and "\<forall>e \<in> set es. length (snd e) = KFS_BLOCK_SIZE"
  shows "\<exists>s'. write_payloads f at es s = (True, s')"
  using assms
proof (induction es arbitrary: s at)
  case (Cons e es)
  have b: "unat at < unat (total_blocks (sb_of f s))" "length (snd e) = KFS_BLOCK_SIZE" using Cons.prems(3,4) by simp_all
  obtain s1 where w: "journal_raw_write f at (snd e) s = (True, s1)"
    using raw_io_no_fault(2) [OF Cons.prems(1) b(1) Cons.prems(2)] by blast
  note re = raw_write_effect [OF Cons.prems(1) b w]
  have fr: "frm f s s1" by (rule frm_disk [OF re(1)])
  have "unat (at + 1) = unat at + 1" using unat_add_small [of at 1] b(1) u32_less [of "total_blocks (sb_of f s)"] by simp
  then show ?case using w Cons.IH [OF re(2) no_faults_frm [OF fr Cons.prems(2)], of "at + 1"] Cons.prems(3,4) frm_sb [OF fr] by simp
qed simp

lemma commit_succeeds:
  assumes tx: "in_tx f s" and nf: "no_faults s f" and nfl: "\<not> j_failed (jtx s)"
  shows "\<exists>s'. journal_commit f s = (True, s')"
proof -
  let ?es = "j_entries (jtx s)" and ?js = "journal_start (sb_of f s)"
  have g: "geom_ok s f" and act: "j_active (jtx s)" "j_fs (jtx s) = Some f" using tx by (simp_all add: in_tx_def store_ok_def)
  have es: "length ?es \<le> KFS_JOURNAL_ENTRIES" "\<forall>e \<in> set ?es. usable f s (fst e) \<and> length (snd e) = KFS_BLOCK_SIZE"
    using tx by (simp_all add: in_tx_def store_ok_def)
  have js: "unat ?js + 33 \<le> unat (total_blocks (sb_of f s))" by (rule geom_okD(7) [OF g])
  have at: "unat (?js + 1) = unat ?js + 1"
    using unat_add_small [of ?js 1] js u32_less [of "total_blocks (sb_of f s)"] by simp
  have "\<exists>s'. commit_body f s = (True, s')"
  proof (cases "?es = []")
    case True
    then show ?thesis using act nfl by (simp add: commit_body_def Let_def)
  next
    case False
    obtain s1 where wp: "write_payloads f (?js + 1) ?es s = (True, s1)"
      using payloads_no_fault [OF g nf, of "?js + 1" ?es] at js es by auto
    have e1: "frm f s s1" "geom_ok s1 f" using write_payloads_effect [OF g wp] at js es by simp_all
    have nf1: "no_faults s1 f" by (rule no_faults_frm [OF e1(1) nf])
    have jb: "unat ?js < unat (total_blocks (sb_of f s1))" using js frm_sb [OF e1(1)] by simp
    obtain s2 where hw: "journal_raw_write f ?js (header_block (j_sequence (jtx s)) ?es) s1 = (True, s2)"
      using raw_io_no_fault(2) [OF e1(2) jb nf1] by blast
    have hl: "length (header_block (j_sequence (jtx s)) ?es) = KFS_BLOCK_SIZE" using es(1) by (simp add: length_header_block)
    note e2 = raw_write_effect [OF e1(2) jb hl hw]
    have f2: "frm f s s2" by (rule frm_trans [OF e1(1) frm_disk [OF e2(1)]])
    have nf2: "no_faults s2 f" by (rule no_faults_frm [OF f2 nf])
    obtain s3 where wh: "write_home f ?es s2 = (True, s3)"
      using write_home_no_fault [OF e2(2) nf2, of ?es] es(2) frm_sb [OF f2] by (auto simp: usable_def home_def)
    have e3: "frm f s2 s3" "geom_ok s3 f"
      using write_home_effect [OF e2(2) wh] es(2) frm_sb [OF f2] by (simp_all add: usable_def home_def)
    have f3: "frm f s s3" by (rule frm_trans [OF f2 e3(1)])
    have jb3: "unat (journal_start (sb_of f s3)) < unat (total_blocks (sb_of f s3))" using js frm_sb [OF f3] by simp
    obtain s4 where "journal_clear f s3 = (True, s4)"
      using raw_io_no_fault(2) [OF e3(2) jb3 no_faults_frm [OF f3 nf]] by (auto simp: journal_clear_def)
    then show ?thesis using act nfl False wp hw wh by (simp add: commit_body_def Let_def)
  qed
  then show ?thesis by (auto simp: journal_commit_def)
qed

section \<open>Between calls\<close>

definition kfs_idle :: "nat \<Rightarrow> kfs_state \<Rightarrow> bool" where
  "kfs_idle f s \<longleftrightarrow> store_ok f s \<and> \<not> j_active (jtx s) \<and> fs_wf f s \<and> mounted (fss s f) \<and>
     jh_clean (fs_block s f (unat (journal_start (sb_of f s))))"

lemma idle_begin:
  assumes id: "kfs_idle f s" and jb: "journal_begin f s = (True, s1)"
  shows "in_tx f s1" and "view f s1 = view f s" and "fss s1 = fss s" and "no_faults s1 f = no_faults s f"
    and "jroom f s1 KFS_JOURNAL_ENTRIES" and "jh_clean (fs_block s1 f (unat (journal_start (sb_of f s1))))"
    and "j_saved (jtx s1) = sb_of f s1" and "fs_block s1 f = fs_block s f"
proof -
  note e = journal_begin_ok [OF _ jb]
  have ok: "store_ok f s" and na: "\<not> j_active (jtx s)" using id by (simp_all add: kfs_idle_def)
  show "in_tx f s1" by (rule e(1) [OF ok])
  show "view f s1 = view f s" by (rule ext) (simp add: e(2) [OF ok] view_def [of f s] journal_pending_def na)
  show "fss s1 = fss s" by (rule e(3) [OF ok])
  have s1: "devs s1 = devs s" "jtx s1 = \<lparr>j_fs = Some f, j_active = True, j_failed = False,
      j_sequence = next_sequence (j_sequence (jtx s)), j_entries = [], j_saved = sb_of f s\<rparr>"
    using jb na by (auto simp: journal_begin_def)
  show "no_faults s1 f = no_faults s f" using s1 e(3) [OF ok] by (simp add: no_faults_def)
  show "jroom f s1 KFS_JOURNAL_ENTRIES" by (simp add: jroom_def s1)
  show "fs_block s1 f = fs_block s f" by (rule e(4) [OF ok])
  then show "jh_clean (fs_block s1 f (unat (journal_start (sb_of f s1))))" using id e(3) [OF ok] by (simp add: kfs_idle_def)
  show "j_saved (jtx s1) = sb_of f s1" using e(3,6) [OF ok] by simp
qed

lemma idle_abort:
  assumes id: "kfs_idle f s" and jb: "journal_begin f s = (True, s1)" and a: "abortable f s1 s2"
  shows "kfs_idle f (journal_abort s2)" and "\<And>b. view f (journal_abort s2) b = view f s b" and "fss (journal_abort s2) = fss s"
proof -
  note e = idle_begin [OF id jb]
  let ?s = "journal_abort s2"
  obtain n where fs: "fss s2 = (fss s1)(f := (fss s1 f)\<lparr>f_sb := (sb_of f s1)\<lparr>free_blocks := n\<rparr>\<rparr>)"
    using a by (auto simp: abortable_def)
  have s': "?s = journal_reset (set_sb f (sb_of f s1) s2)" using a e(7) by (simp add: journal_abort_def abortable_def)
  note r = restore_ok [OF _ _ _ fs]
  have ok: "store_ok f ?s" and f': "fss ?s = fss s1" using r a s' by (simp_all add: abortable_def)
  have na: "\<not> j_active (jtx ?s)" using s' reset_inactive by simp
  have blk: "fs_block ?s f = fs_block s f" using a e(8) s' by (simp add: abortable_def)
  show f2: "fss ?s = fss s" using f' e(3) by simp
  have ia: "\<not> j_active (jtx s)" using id by (simp add: kfs_idle_def)
  show v: "view f ?s b = view f s b" for b by (simp add: view_def journal_pending_def na ia blk)
  have "view f ?s = view f s" by (rule ext) (rule v)
  then have "fs_wf f ?s = fs_wf f s" using view_same(4) [of f ?s s] f2 by simp
  then show "kfs_idle f ?s" using ok na id f2 blk by (simp add: kfs_idle_def)
qed

lemma idle_commit:
  assumes tx: "in_tx f s2" and wf: "fs_wf f s2" and m: "mounted (fss s2 f)"
    and cl: "jh_clean (fs_block s2 f (unat (journal_start (sb_of f s2))))" and cm: "journal_commit f s2 = (True, s')"
  shows "kfs_idle f s'" and "fss s' = fss s2" and "no_faults s' f = no_faults s2 f"
    and "\<And>b. usable f s2 b \<Longrightarrow> view f s' b = view f s2 b"
proof -
  note c = commit_ok [OF tx cl cm]
  show v: "view f s' b = view f s2 b" if "usable f s2 b" for b using c(6) [OF that] c(7) by simp
  show "fss s' = fss s2" by (rule c(2))
  show "no_faults s' f = no_faults s2 f" by (rule c(4))
  have sb: "sb_of f s' = sb_of f s2" using c(2) by simp
  have "fs_wf f s'" by (rule home_view_same(1) [OF wf sb v])
  then show "kfs_idle f s'" using c(1,2,3,5) m by (simp add: kfs_idle_def)
qed

lemma kfs_write_ok:
  assumes id: "kfs_idle f s" and nf: "no_faults s f" and i: "ino_valid (sb_of f s) ino"
    and ty: "i_type (inode_at f s ino) = KFS_TYPE_FILE" and src: "src \<noteq> []" "unat off + length src \<le> unat KFS_MAX_FILE_SIZE"
    and len: "length src \<le> 2 * KFS_BLOCK_SIZE" and ret: "kfs_write f ino off src mtime s = (r, s')"
  shows "kfs_idle f s' \<and> no_faults s' f \<and> same_layout (sb_of f s') (sb_of f s) \<and> (\<exists>xs rest. src = xs @ rest \<and>
    (if xs = [] then r = - 1 \<and> one_left f s \<and> fss s' = fss s \<and> (\<forall>b. view f s' b = view f s b)
     else r = int (length xs) \<and> saved f ino (unat off) xs mtime s s' \<and> (rest \<noteq> [] \<longrightarrow> disk_full f s')) \<and>
    (rest \<noteq> [] \<longrightarrow> fbyte f s ino (unat off + length xs) = None))"
proof -
  have m: "mounted (fss s f)" and na: "\<not> j_active (jtx s)" using id by (simp_all add: kfs_idle_def)
  obtain s1 where jb: "journal_begin f s = (True, s1)" using na by (simp add: journal_begin_def)
  note e = idle_begin [OF id jb]
  have sb1: "sb_of f s1 = sb_of f s" using e(3) by simp
  note v1 = view_same [OF e(2) sb1]
  have wf1: "fs_wf f s1" using id v1(4) by (simp add: kfs_idle_def)
  obtain x s2 where g: "iget f ino s1 = (x, s2)" by fastforce
  have ok1: "store_ok f s1" using e(1) by (simp add: in_tx_def)
  note l = looked_iget [OF ok1 fs_wfD(1) [OF wf1] g]
  note same = looked_same [OF l(1)]
  have nf1: "no_faults s1 f" using e(4) nf by simp
  have x: "x = Some (inode_at f s ino)" using l(2,3) m i nf1 e(3) sb1 by (auto simp: v1)
  have f2: "tx_frame f s1 s2" by (rule tx_looked [OF e(1) l(1)])
  obtain q s3 where wr: "writei f ino off src mtime s2 = (q, s3)" by fastforce
  have body: "kfs_write f ino off src mtime s = (if q \<ge> 0 then (case journal_commit f s3 of (ok, s4) \<Rightarrow> (if ok then q else - 1, s4))
      else (q, journal_abort s3))"
    using m jb g x ty wr by (simp add: kfs_write_def in_journal_def)
  have a3: "abortable f s1 s3" by (rule tx.writei [OF wr tx.iget [OF g abortable_self [OF e(1)]]])
  have j2: "jroom f s2 32" using jroom_iget [OF g] e(5) by simp
  have "unat off mod KFS_BLOCK_SIZE + length src \<le> 3 * KFS_BLOCK_SIZE"
    using len mod_less_divisor [of KFS_BLOCK_SIZE "unat off"] by linarith
  then have j3: "jroom f s3 1" by (rule jroom_writei [OF wr]) (use j2 in simp)
  then have nfl: "\<not> j_failed (jtx s3)" by (simp add: jroom_def)
  have wf2: "fs_wf f s2" and i2: "ino_valid (sb_of f s2) ino" and nf2: "no_faults s2 f" and m2: "mounted (fss s2 f)"
    and ty2: "i_type (inode_at f s2 ino) \<noteq> KFS_TYPE_FREE"
    using wf1 i nf1 m ty same lookedD(3,5,6) [OF l(1)] e(3) sb1 by (simp_all add: v1)
  note w = writei_ok [OF tx_frameD(1) [OF f2] wf2 i2 nf2 m2 ty2 src wr nfl]
  have fr3: "tx_frame f s1 s3" by (rule tx_frame_trans [OF f2 w(1)])
  have fb: "fbyte f s2 = fbyte f s" "inode_at f s2 = inode_at f s" "sb_of f s2 = sb_of f s"
    using same v1 lookedD(6) [OF l(1)] sb1 by simp_all
  from w(2) obtain xs rest where xr: "src = xs @ rest"
      "if xs = [] then q = - 1 \<and> fs_wf f s3 \<and> one_left f s2 else q = int (length xs) \<and> saved f ino (unat off) xs mtime s2 s3"
      "rest \<noteq> [] \<Longrightarrow> disk_full f s3 \<and> fbyte f s ino (unat off + length xs) = None" unfolding fb by blast
  show ?thesis
  proof (cases "xs = []")
    case True
    then have r: "r = - 1" "s' = journal_abort s3" using ret body xr(2) by simp_all
    note ab = idle_abort [OF id jb a3]
    have "no_faults (journal_abort s3) f"
      using tx_frameD(7) [OF fr3] nf1 a3
      by (simp add: no_faults_def journal_abort_def abortable_def journal_reset_def set_sb_def upd_fs_def)
    moreover have "one_left f s"
      using xr(2) True fb(3) view_same(3) [OF lookedD(2,6) [OF l(1)]] by (simp add: one_left_def v1(3))
    ultimately show ?thesis unfolding r using True xr(1,3) ab
      by (intro conjI exI [of _ "[]"] exI [of _ rest]) (simp_all add: same_layout_refl)
  next
    case False
    have q: "q = int (length xs)" "q \<ge> 0" and sv: "saved f ino (unat off) xs mtime s2 s3" using xr(2) False by simp_all
    have tx3: "in_tx f s3" by (rule tx_frameD(1) [OF fr3])
    have nf3: "no_faults s3 f" using tx_frameD(7) [OF fr3] nf1 by simp
    have sl: "same_layout (sb_of f s3) (sb_of f s)" using tx_frameD(2) [OF fr3] sb1 by simp
    note L = same_layout_fields [OF sl]
    have wf3: "fs_wf f s3" using sv by (simp add: saved_def)
    have m3: "mounted (fss s3 f)" using fr3 m e(3) by (simp add: tx_frame_def)
    have cl: "jh_clean (fs_block s3 f (unat (journal_start (sb_of f s3))))"
      using fr3 e(6) sb1 L by (simp add: tx_frame_def)
    obtain s4 where cm: "journal_commit f s3 = (True, s4)" using commit_succeeds [OF tx3 nf3 nfl] by blast
    have r: "r = int (length xs)" "s' = s4" using ret body q cm by simp_all
    note c = idle_commit [OF tx3 wf3 m3 cl cm]
    have sb4: "sb_of f s4 = sb_of f s3" using c(2) by simp
    note hv = home_view_same [OF wf3 sb4 c(4)]
    have val: "ino_valid (sb_of f s3) j = ino_valid (sb_of f s) j" for j by (rule ino_valid_layout [OF sl])
    have sv': "saved f ino (unat off) xs mtime s s3" using sv unfolding saved_def fb .
    have ino4: "inode_at f s4 ino = inode_at f s3 ino" "fbyte f s4 ino = fbyte f s3 ino" using hv(2,3) val i by simp_all
    have "saved f ino (unat off) xs mtime s s4"
      using sv' hv(1,2,3) val unfolding saved_def ino4 by simp
    moreover have "disk_full f s4" if "rest \<noteq> []"
      using xr(3) [OF that] hv(4) layout_okD(7) [OF fs_wfD(1) [OF wf3]] sb4 unfolding disk_full_def by simp
    ultimately show ?thesis unfolding r using False xr(1,3) c(1,3) nf3 sl sb4
      by (intro conjI exI [of _ xs] exI [of _ rest]) simp_all
  qed
qed

section \<open>A volume with an empty file\<close>

definition demo_root :: kfs_inode where
  "demo_root = zero_inode\<lparr>i_type := KFS_TYPE_DIR, i_mode := KFS_DEFAULT_DIR_MODE\<rparr>"

definition demo_file :: kfs_inode where
  "demo_file = zero_inode\<lparr>i_type := KFS_TYPE_FILE, i_mode := KFS_DEFAULT_FILE_MODE\<rparr>"

definition demo_blocks :: "nat \<Rightarrow> byte list" where
  "demo_blocks b = (if b = 35 then enc_inode demo_root @ enc_inode demo_file @ replicate 3968 0 else demo_media b)"

definition demo_vol :: kfs_state where
  "demo_vol = journal_reset (demo_kfs (demo_disk (\<lambda>_. None) demo_blocks) [])"

lemma length_demo_blocks: "length (demo_blocks b) = 4096"
  by (simp add: demo_blocks_def demo_media_def demo_root_def demo_file_def)

lemma demo_vol_simps [simp]:
  "\<not> j_active (jtx demo_vol)" "sb_of f demo_vol = demo_sb" "mounted (fss demo_vol f)" "no_faults demo_vol f"
  "fs_block demo_vol f = demo_blocks"
  by (simp_all add: demo_vol_def demo_kfs_def journal_reset_def no_faults_def demo_disk_def demo_block [unfolded demo_kfs_def demo_disk_def])
    (simp add: fs_block_def fun_eq_iff Let_def)

lemma demo_vol_view: "view 0 demo_vol b = demo_blocks (unat b)"
  by (simp add: view_def journal_pending_def)

lemma demo_vol_ok: "store_ok 0 demo_vol"
  unfolding demo_vol_def using demo_geom [of demo_blocks "\<lambda>_. None" "[]" 0] length_demo_blocks
  by (intro journal_reset_ok) (simp add: store_ok_def coh_x_def demo_kfs_def)

lemma demo_vol_inode:
  "inode_at 0 demo_vol i = (let k = unat ((i - 1) mod KFS_INODES_PER_BLOCK) in
     if ino_valid demo_sb i then if k = 0 then demo_root else if k = 1 then demo_file else zero_inode
     else inode_at 0 demo_vol i)"
proof (cases "ino_valid demo_sb i")
  case True
  let ?k = "unat ((i - 1) mod KFS_INODES_PER_BLOCK)"
  have k: "?k < 64" by (simp add: unat_mod_distrib)
  have "unat (inode_blk (sb_of 0 demo_vol) i) = 35 + (unat i - 1) div 64"
    using inode_blk_unat(1) [where f = 0 and s = demo_vol and ino = i] True demo_layout by (simp add: demo_sb_def)
  moreover have "unat i \<le> 64" using True by (simp add: ino_valid_def demo_sb_def word_le_nat_alt)
  then have "(unat i - 1) div 64 = 0" by simp
  ultimately have v: "view 0 demo_vol (inode_blk (sb_of 0 demo_vol) i) = demo_blocks 35" by (simp add: demo_vol_view)
  have "dec_inode (get_bytes (64 * ?k) 64 (demo_blocks 35)) = (if ?k = 0 then demo_root else if ?k = 1 then demo_file else zero_inode)"
  proof -
    let ?a = "enc_inode demo_root" and ?b = "enc_inode demo_file"
    have la: "length ?a = 64" "length ?b = 64" by (simp_all add: demo_root_def demo_file_def)
    have da: "dec_inode ?a = demo_root" "dec_inode ?b = demo_file"
      using dec_enc_inode [of demo_root "[]"] dec_enc_inode [of demo_file "[]"] by (simp_all add: demo_root_def demo_file_def)
    consider "?k = 0" | "?k = 1" | "2 \<le> ?k" by linarith
    then show ?thesis
    proof cases
      case 1
      then show ?thesis using la da by (simp add: demo_blocks_def get_bytes_append_left get_bytes_all)
    next
      case 2
      then show ?thesis using la da by (simp add: demo_blocks_def get_bytes_append_left get_bytes_append_right get_bytes_all)
    next
      case 3
      then have "get_bytes (64 * ?k) 64 (demo_blocks 35) = replicate 64 0"
        using la k by (simp add: demo_blocks_def get_bytes_append_right get_bytes_replicate)
      then show ?thesis using 3 dec_inode_zeros [of 64] by simp
    qed
  qed
  moreover have "inode_at 0 demo_vol i = dec_inode (get_bytes (64 * ?k) 64 (demo_blocks 35))"
    unfolding inode_at_def v by (simp add: inode_off_def mult.commute)
  ultimately show ?thesis using True by (simp add: Let_def)
qed simp

lemma demo_vol_used: "n < 40 \<Longrightarrow> used 0 demo_vol n \<longleftrightarrow> n < 36"
  using demo_used [of n] by (simp add: used_def demo_vol_view demo_fs_view bitmap_blk_def demo_sb_def demo_blocks_def)

lemma demo_vol_wf: "fs_wf 0 demo_vol"
proof -
  have p: "ptr 0 demo_vol i k = 0" if "ino_valid demo_sb i" for i k
    using that by (subst demo_vol_inode) (auto simp: ptr_of_def demo_root_def demo_file_def zero_inode_def Let_def)
  have "meta_used 0 demo_vol" using demo_vol_used by (simp add: meta_used_def demo_sb_def)
  moreover have "ptrs_ok 0 demo_vol" using p by (simp add: ptrs_ok_def)
  moreover have "ptrs_inj 0 demo_vol" using p by (simp add: ptrs_inj_def)
  ultimately show ?thesis using demo_layout by (simp add: fs_wf_def)
qed

lemma demo_vol_idle: "kfs_idle 0 demo_vol"
  using demo_vol_ok demo_vol_wf jh_clean_zero by (simp add: kfs_idle_def demo_sb_def demo_blocks_def demo_media_def)

lemma demo_vol_file: "ino_valid (sb_of 0 demo_vol) 2" "inode_at 0 demo_vol 2 = demo_file"
proof -
  show v: "ino_valid (sb_of 0 demo_vol) 2" by (simp add: ino_valid_def demo_sb_def)
  show "inode_at 0 demo_vol 2 = demo_file" using v by (subst demo_vol_inode) simp
qed

lemma demo_vol_room: "\<not> one_left 0 demo_vol"
proof
  assume "one_left 0 demo_vol"
  then obtain x where x: "\<forall>m < 40. m \<noteq> x \<longrightarrow> used 0 demo_vol m" by (auto simp: one_left_def demo_sb_def)
  have "used 0 demo_vol 38 \<or> used 0 demo_vol 39" using x by (cases "x = 38") simp_all
  then show False using demo_vol_used by simp
qed

section \<open>Properties\<close>

text \<open>
  C5. A write of up to two blocks to a regular file, within the size limit and on a device that does not
  fail, always completes its transaction: it writes a prefix of the request, reports its length and
  leaves the file system well formed, idle and with a clean journal. Exactly the written bytes and
  the size and time of that file change, on the device and in every later read. It is cut short only
  at a position that had no block, when the disk is full, and it writes nothing only if at most one
  block was free, in which case it reports failure and changes nothing.
\<close>

theorem kfs_write_durable:
  assumes "kfs_idle f s" and "no_faults s f" and "ino_valid (sb_of f s) ino"
    and "i_type (inode_at f s ino) = KFS_TYPE_FILE" and "src \<noteq> []"
    and "unat off + length src \<le> unat KFS_MAX_FILE_SIZE" and "length src \<le> 2 * KFS_BLOCK_SIZE"
  shows "case kfs_write f ino off src mtime s of (r, s') \<Rightarrow> kfs_idle f s' \<and> (\<exists>xs rest. src = xs @ rest \<and>
    (if xs = [] then r = - 1 \<and> one_left f s \<and> fss s' = fss s \<and> (\<forall>b. view f s' b = view f s b)
     else r = int (length xs) \<and> saved f ino (unat off) xs mtime s s' \<and> (rest \<noteq> [] \<longrightarrow> disk_full f s')) \<and>
    (rest \<noteq> [] \<longrightarrow> fbyte f s ino (unat off + length xs) = None))"
proof -
  obtain r s' where ret: "kfs_write f ino off src mtime s = (r, s')" by fastforce
  show ?thesis using kfs_write_ok [OF assms ret] unfolding ret prod.case by blast
qed

theorem kfs_write_durable_witness:
  "case kfs_write 0 2 0 [104, 105] 7 demo_vol of (r, s') \<Rightarrow> kfs_idle 0 s' \<and> 0 < r \<and> fbyte 0 s' 2 0 = Some 104"
proof -
  obtain r s' where ret: "kfs_write 0 2 0 [104, 105] 7 demo_vol = (r, s')" by fastforce
  have "i_type (inode_at 0 demo_vol 2) = KFS_TYPE_FILE" using demo_vol_file(2) by (simp add: demo_file_def)
  from kfs_write_durable [OF demo_vol_idle _ demo_vol_file(1) this, of "[104, 105]" 0 7]
  obtain xs rest where x: "kfs_idle 0 s'" "[104, 105] = xs @ rest" "xs \<noteq> []" "r = int (length xs)" "saved 0 2 0 xs 7 demo_vol s'"
    using demo_vol_room unfolding ret by (auto split: if_splits)
  have "hd xs = 104" using x(2,3) by (cases xs) auto
  moreover have "fbyte 0 s' 2 0 = Some (xs ! 0)" using x(3,5) unfolding saved_def by (metis (no_types) add_0 diff_zero le0 length_greater_0_conv)
  ultimately show ?thesis using x ret by (simp add: hd_conv_nth)
qed

text \<open>
  Reading back what a write reported as written returns exactly those bytes, whatever else the
  request contained, and leaves the file system idle.
\<close>

lemma kfs_write_read:
  assumes "kfs_idle f s" and "no_faults s f" and "ino_valid (sb_of f s) ino"
    and "i_type (inode_at f s ino) = KFS_TYPE_FILE" and "src \<noteq> []"
    and "unat off + length src \<le> unat KFS_MAX_FILE_SIZE" and "length src \<le> 2 * KFS_BLOCK_SIZE"
    and wr: "kfs_write f ino off src mtime s = (r, s')" and r: "0 < r" and rd: "kfs_read f ino off (of_int r) s' = (n, bs, s'')"
  shows "n = r \<and> bs = take (nat r) src \<and> kfs_idle f s''"
proof -
  from kfs_write_ok [OF assms(1-7) wr] r obtain xs rest where
    w: "kfs_idle f s'" "no_faults s' f" "same_layout (sb_of f s') (sb_of f s)" "src = xs @ rest" "xs \<noteq> []"
      "r = int (length xs)" "saved f ino (unat off) xs mtime s s'" by (auto split: if_splits)
  have i: "ino_valid (sb_of f s') ino" using ino_valid_layout [OF w(3)] assms(3) by simp
  have ok: "store_ok f s'" and wf: "fs_wf f s'" and m: "mounted (fss s' f)" using w(1) by (simp_all add: kfs_idle_def)
  let ?z = "max (unat (i_size (inode_at f s ino))) (unat off + length xs)"
  have len: "unat off + length xs \<le> unat KFS_MAX_FILE_SIZE" using assms(6) w(4) by simp
  have ip: "i_type (inode_at f s' ino) = KFS_TYPE_FILE" "i_size (inode_at f s' ino) = of_nat ?z"
    using w(7) assms(4) by (auto simp: saved_def)
  have z: "unat (of_nat ?z :: u32) = ?z" using len u32_less [of "i_size (inode_at f s ino)"] by (subst unat_of_nat) simp
  have rw: "unat (of_int r :: u32) = length xs" using w(6) len by (simp add: unat_of_nat)
  have want: "want (inode_at f s' ino) off (of_int r) = length xs" using ip(2) z rw by (simp add: want_def)
  have ty: "i_type (inode_at f s' ino) \<noteq> KFS_TYPE_FREE" using ip(1) by simp
  have "readi f ino off (of_int r) s' = (n, bs, s'')" using rd m by (simp add: kfs_read_def)
  note ri = readi_ok [OF ok wf i m w(2) ty this, unfolded want]
  have at: "fbyte f s' ino (unat off + k) = Some (xs ! k)" if "k < length xs" for k
    using w(7) that unfolding saved_def by (metis (no_types) add_diff_cancel_left' le_add1 nat_add_left_cancel_less)
  have lb: "length bs = length xs"
  proof (rule ccontr)
    assume "length bs \<noteq> length xs"
    then have "length bs < length xs" using ri(2) by (simp add: bytes_from_def)
    then show False using at [of "length bs"] ri(2) w(2) by (simp add: bytes_from_def)
  qed
  then have "bs = xs" using ri(2) at by (intro nth_equalityI) (simp_all add: bytes_from_def)
  moreover have "kfs_idle f s''"
    using w(1) lookedD [OF ri(1)] looked_same(3) [OF ri(1)] by (simp add: kfs_idle_def)
  ultimately show ?thesis using ri(3) w(4,5,6) by simp
qed

end
