(* ===== verification/Kfs_Names.thy ===== *)
theory Kfs_Names
  imports Kfs_File
begin

text \<open>
  Directories as name maps: what \<^verbatim>\<open>dir_lookup\<close>, \<^verbatim>\<open>dir_add\<close> and \<^verbatim>\<open>dir_remove\<close> of \<^verbatim>\<open>kernel/kfs.c\<close> mean for the names
  of a directory, and what creating a file does to the directory it is created in.
\<close>

section \<open>The entries of a directory\<close>

definition dbytes :: "nat \<Rightarrow> kfs_state \<Rightarrow> u32 \<Rightarrow> nat \<Rightarrow> byte list" where
  "dbytes f s dir i = map (\<lambda>k. the (fbyte f s dir (64 * i + k))) [0 ..< 64]"

abbreviation dent :: "nat \<Rightarrow> kfs_state \<Rightarrow> u32 \<Rightarrow> nat \<Rightarrow> kfs_dirent" where
  "dent f s dir i \<equiv> dec_dirent (dbytes f s dir i)"

abbreviation dcount :: "nat \<Rightarrow> kfs_state \<Rightarrow> u32 \<Rightarrow> nat" where
  "dcount f s dir \<equiv> unat (i_size (inode_at f s dir)) div 64"

text \<open>A directory has whole entries, all of them stored.\<close>

definition dir_ok :: "nat \<Rightarrow> kfs_state \<Rightarrow> u32 \<Rightarrow> bool" where
  "dir_ok f s dir \<longleftrightarrow> ino_valid (sb_of f s) dir \<and> i_type (inode_at f s dir) = KFS_TYPE_DIR \<and>
     unat (i_size (inode_at f s dir)) mod 64 = 0 \<and> unat (i_size (inode_at f s dir)) \<le> unat KFS_MAX_FILE_SIZE \<and>
     (\<forall>p < unat (i_size (inode_at f s dir)). fbyte f s dir p \<noteq> None)"

definition hit :: "nat \<Rightarrow> kfs_state \<Rightarrow> u32 \<Rightarrow> cstr \<Rightarrow> nat \<Rightarrow> bool" where
  "hit f s dir name i \<longleftrightarrow> d_ino (dent f s dir i) \<noteq> 0 \<and> name_eq (d_name (dent f s dir i)) name"

text \<open>The name map: a name stands for the inode of its first entry.\<close>

definition dir_map :: "nat \<Rightarrow> kfs_state \<Rightarrow> u32 \<Rightarrow> cstr \<Rightarrow> u32 option" where
  "dir_map f s dir name = map_option (\<lambda>i. d_ino (dent f s dir i)) (first_from (hit f s dir name) 0 (dcount f s dir))"

lemma dir_okD:
  assumes "dir_ok f s dir"
  shows "ino_valid (sb_of f s) dir" and "i_type (inode_at f s dir) = KFS_TYPE_DIR"
    and "unat (i_size (inode_at f s dir)) = 64 * dcount f s dir" and "64 * dcount f s dir \<le> 4235264"
    and "p < unat (i_size (inode_at f s dir)) \<Longrightarrow> fbyte f s dir p \<noteq> None"
  using assms by (auto simp: dir_ok_def)

lemma length_dbytes [simp]: "length (dbytes f s dir i) = 64" by (simp add: dbytes_def)

lemma looked_dents:
  assumes "looked f s s'"
  shows "dbytes f s' dir = dbytes f s dir" and "dcount f s' dir = dcount f s dir" and "dir_ok f s' dir = dir_ok f s dir"
    and "hit f s' dir name = hit f s dir name" and "dir_map f s' dir name = dir_map f s dir name"
proof -
  note l = looked_same [OF assms] lookedD(6) [OF assms]
  show d: "dbytes f s' dir = dbytes f s dir" by (intro ext) (simp add: dbytes_def l)
  show "dcount f s' dir = dcount f s dir" "dir_ok f s' dir = dir_ok f s dir" by (simp_all add: dir_ok_def l)
  show h: "hit f s' dir name = hit f s dir name" by (intro ext) (simp add: hit_def d)
  show "dir_map f s' dir name = dir_map f s dir name" by (simp add: dir_map_def d h l)
qed

section \<open>Reading entries\<close>

text \<open>A state in which directories can be read without fail.\<close>

definition readable :: "nat \<Rightarrow> kfs_state \<Rightarrow> bool" where
  "readable f s \<longleftrightarrow> store_ok f s \<and> fs_wf f s \<and> mounted (fss s f) \<and> no_faults s f"

lemma readable_looked: "looked f s s' \<Longrightarrow> readable f s \<Longrightarrow> readable f s'"
  using lookedD [of f s s'] looked_same(3) [of f s s'] by (simp add: readable_def)

lemma readi_dent:
  assumes rd: "readable f s" and d: "dir_ok f s dir" and i: "i < dcount f s dir"
    and ret: "readi f dir (of_nat (64 * i)) 64 s = (r, bs, s')"
  shows "looked f s s'" and "r = 64" and "bs = dbytes f s dir i"
proof -
  note R = rd [unfolded readable_def]
  have off: "unat (of_nat (64 * i) :: u32) = 64 * i" using i dir_okD(4) [OF d] by (subst unat_of_nat) simp
  have ty: "i_type (inode_at f s dir) \<noteq> KFS_TYPE_FREE" using dir_okD(2) [OF d] by simp
  have "64 * i + 64 \<le> unat (i_size (inode_at f s dir))" using i dir_okD(3) [OF d] by simp
  then have w: "want (inode_at f s dir) (of_nat (64 * i)) 64 = 64" using off by (simp add: want_def)
  note ri = readi_ok [OF _ _ dir_okD(1) [OF d] _ _ ty ret, unfolded w off]
  show "looked f s s'" using ri(1) R by simp
  have b: "bytes_from f s dir (64 * i) 64 bs" using ri(2) R by simp
  have lb: "length bs = 64"
  proof (rule ccontr)
    assume "length bs \<noteq> 64"
    then have "length bs < 64" using b by (simp add: bytes_from_def)
    then have "fbyte f s dir (64 * i + length bs) = None" using b R by (simp add: bytes_from_def)
    moreover have "64 * i + length bs < unat (i_size (inode_at f s dir))" using \<open>length bs < 64\<close> i dir_okD(3) [OF d] by simp
    ultimately show False using dir_okD(5) [OF d] by blast
  qed
  then show "r = 64" using ri(3) R by auto
  show "bs = dbytes f s dir i" using b lb by (intro nth_equalityI) (simp_all add: bytes_from_def dbytes_def)
qed

lemma lookup_scan_ok:
  assumes "readable f s" and "dir_ok f s dir" and "k \<le> dcount f s dir"
    and "lookup_scan f dir name [k ..< dcount f s dir] s = (ino, slot, s')"
  shows "looked f s s' \<and> (case first_from (hit f s dir name) k (dcount f s dir) of None \<Rightarrow> ino = 0
    | Some i \<Rightarrow> ino = d_ino (dent f s dir i) \<and> slot = of_nat (64 * i))"
  using assms
proof (induction "dcount f s dir - k" arbitrary: k s)
  case 0
  then show ?case by (simp add: looked_refl readable_def first_from.simps)
next
  case (Suc n)
  have k: "k < dcount f s dir" using Suc.hyps(2) by simp
  obtain r bs s1 where rd: "readi f dir (of_nat (64 * k)) 64 s = (r, bs, s1)" using prod_cases3 by blast
  note e = readi_dent [OF Suc.prems(1,2) k rd]
  note same = looked_dents [OF e(1)]
  show ?case
  proof (cases "hit f s dir name k")
    case True
    then have "ino = d_ino (dent f s dir k)" "slot = of_nat (64 * k)" "s' = s1"
      using Suc.prems(4) rd e(2,3) k by (auto simp: upt_Cons hit_def Let_def)
    then show ?thesis using True k e(1) by (simp add: first_from.simps [of _ k])
  next
    case False
    then have "lookup_scan f dir name [Suc k ..< dcount f s1 dir] s1 = (ino, slot, s')"
      using Suc.prems(4) rd e(2,3) k by (auto simp: upt_Cons hit_def Let_def same)
    with Suc.hyps(2) Suc.prems(2) k have "looked f s1 s' \<and> (case first_from (hit f s1 dir name) (Suc k) (dcount f s1 dir) of
        None \<Rightarrow> ino = 0 | Some i \<Rightarrow> ino = d_ino (dent f s1 dir i) \<and> slot = of_nat (64 * i))"
      by (intro Suc.hyps(1) [OF _ readable_looked [OF e(1) Suc.prems(1)]]) (simp_all add: same)
    then show ?thesis using False k looked_trans [OF e(1)] unfolding same by (simp add: first_from.simps [of _ k])
  qed
qed

lemma dir_lookup_ok:
  assumes rd: "readable f s" and d: "dir_ok f s dir" and ret: "dir_lookup f dir name s = (ino, slot, s')"
  shows "looked f s s'" and "dir_map f s dir name = (if ino = 0 then None else Some ino)"
    and "ino \<noteq> 0 \<Longrightarrow> \<exists>i < dcount f s dir. slot = of_nat (64 * i) \<and> hit f s dir name i \<and> d_ino (dent f s dir i) = ino"
proof -
  note R = rd [unfolded readable_def]
  obtain x s1 where g: "iget f dir s = (x, s1)" by fastforce
  have ok: "store_ok f s" and wf: "fs_wf f s" using R by simp_all
  note e = looked_iget [OF ok fs_wfD(1) [OF wf] g]
  have x: "x = Some (inode_at f s dir)" using e(2,3) R dir_okD(1) [OF d] by auto
  note same = looked_dents [OF e(1)]
  have sc: "lookup_scan f dir name [0 ..< dcount f s1 dir] s1 = (ino, slot, s')"
    using ret g x dir_okD(2) [OF d] same(2) by (simp add: dir_lookup_def dir_slots_def)
  have d1: "dir_ok f s1 dir" using d same by simp
  note l = lookup_scan_ok [OF readable_looked [OF e(1) rd] d1 _ sc, unfolded same]
  show "looked f s s'" using l looked_trans [OF e(1)] by simp
  have c: "case first_from (hit f s dir name) 0 (dcount f s dir) of None \<Rightarrow> ino = 0
      | Some i \<Rightarrow> ino = d_ino (dent f s dir i) \<and> slot = of_nat (64 * i)" using l by simp
  have nz: "d_ino (dent f s dir i) \<noteq> 0" if "first_from (hit f s dir name) 0 (dcount f s dir) = Some i" for i
    using that by (simp add: first_from_Some hit_def)
  show "dir_map f s dir name = (if ino = 0 then None else Some ino)"
    using c nz by (auto simp: dir_map_def split: option.splits)
  show "\<exists>i < dcount f s dir. slot = of_nat (64 * i) \<and> hit f s dir name i \<and> d_ino (dent f s dir i) = ino" if "ino \<noteq> 0"
    using c that by (auto simp: first_from_Some split: option.splits)
qed

lemma slot_scan_ok:
  assumes "readable f s" and "dir_ok f s dir" and "k \<le> dcount f s dir"
    and "slot_scan f dir z [k ..< dcount f s dir] s = (r, s')"
  shows "looked f s s' \<and> r = Some (case first_from (\<lambda>i. d_ino (dent f s dir i) = 0) k (dcount f s dir) of
    None \<Rightarrow> z | Some i \<Rightarrow> of_nat (64 * i))"
  using assms
proof (induction "dcount f s dir - k" arbitrary: k s)
  case 0
  then show ?case by (simp add: looked_refl readable_def first_from.simps)
next
  case (Suc n)
  have k: "k < dcount f s dir" using Suc.hyps(2) by simp
  obtain q bs s1 where rd: "readi f dir (of_nat (64 * k)) 64 s = (q, bs, s1)" using prod_cases3 by blast
  note e = readi_dent [OF Suc.prems(1,2) k rd]
  note same = looked_dents [OF e(1)]
  show ?case
  proof (cases "d_ino (dent f s dir k) = 0")
    case True
    then have "r = Some (of_nat (64 * k))" "s' = s1"
      using Suc.prems(4) rd e(2,3) k by (auto simp: upt_Cons)
    then show ?thesis using True k e(1) by (simp add: first_from.simps [of _ k])
  next
    case False
    then have "slot_scan f dir z [Suc k ..< dcount f s1 dir] s1 = (r, s')"
      using Suc.prems(4) rd e(2,3) k by (auto simp: upt_Cons same)
    with Suc.hyps(2) Suc.prems(2) k have "looked f s1 s' \<and> r = Some (case first_from (\<lambda>i. d_ino (dent f s1 dir i) = 0)
        (Suc k) (dcount f s1 dir) of None \<Rightarrow> z | Some i \<Rightarrow> of_nat (64 * i))"
      by (intro Suc.hyps(1) [OF _ readable_looked [OF e(1) Suc.prems(1)]]) (simp_all add: same)
    then show ?thesis using False k looked_trans [OF e(1)] unfolding same by (simp add: first_from.simps [of _ k])
  qed
qed

section \<open>Changing an entry\<close>

text \<open>Writing one whole entry, in place or at the end.\<close>

lemma dbytes_saved:
  assumes sv: "saved f dir (64 * i) xs mtime s s'" and d: "dir_ok f s dir" and i: "i \<le> dcount f s dir"
    and xs: "length xs = 64" and fit: "64 * i + 64 \<le> 4235264" and sl: "same_layout (sb_of f s') (sb_of f s)"
  shows "dir_ok f s' dir" and "dcount f s' dir = max (dcount f s dir) (Suc i)"
    and "dbytes f s' dir j = (if j = i then xs else if j < dcount f s dir then dbytes f s dir j else dbytes f s' dir j)"
proof -
  let ?z = "max (unat (i_size (inode_at f s dir))) (64 * i + 64)"
  obtain n where sz: "unat (i_size (inode_at f s dir)) = 64 * n" using dir_okD(3) [OF d] by blast
  then have n: "dcount f s dir = n" by simp
  have ip: "i_type (inode_at f s' dir) = KFS_TYPE_DIR" "i_size (inode_at f s' dir) = of_nat ?z"
    using sv dir_okD(2) [OF d] xs by (auto simp: saved_def)
  have z: "unat (i_size (inode_at f s' dir)) = ?z"
    unfolding ip(2) using fit dir_okD(4) [OF d] sz n by (subst unat_of_nat) simp
  have z64: "?z = 64 * max n (Suc i)" unfolding sz by (simp add: max_def)
  show dc: "dcount f s' dir = max (dcount f s dir) (Suc i)" unfolding z z64 n by simp
  have fb: "if 64 * i \<le> p \<and> p < 64 * i + 64 then fbyte f s' dir p = Some (xs ! (p - 64 * i))
      else fbyte f s' dir p = fbyte f s dir p \<or> fbyte f s dir p = None \<and> fbyte f s' dir p = Some 0" for p
    using sv unfolding saved_def xs by blast
  have "fbyte f s' dir p \<noteq> None" if "p < ?z" for p
  proof (cases "64 * i \<le> p \<and> p < 64 * i + 64")
    case True
    then show ?thesis using fb [of p] by simp
  next
    case False
    then have "p < unat (i_size (inode_at f s dir))" using that i sz n by auto
    then show ?thesis using fb [of p] False dir_okD(5) [OF d] by auto
  qed
  then show "dir_ok f s' dir" unfolding dir_ok_def z
    using ip(1) ino_valid_layout [OF sl] dir_okD(1,4) [OF d] fit z64 sz n by simp
  show "dbytes f s' dir j = (if j = i then xs else if j < dcount f s dir then dbytes f s dir j else dbytes f s' dir j)"
  proof -
    consider "j = i" | "j \<noteq> i" "j < dcount f s dir" | "j \<noteq> i" "\<not> j < dcount f s dir" by blast
    then show ?thesis
    proof cases
      case 1
      have "fbyte f s' dir (64 * i + k) = Some (xs ! k)" if "k < 64" for k using fb [of "64 * i + k"] that by simp
      then have "dbytes f s' dir i = xs" using xs by (intro nth_equalityI) (simp_all add: dbytes_def)
      then show ?thesis using 1 by simp
    next
      case 2
      have "fbyte f s' dir (64 * j + k) = fbyte f s dir (64 * j + k)" if "k < 64" for k
      proof -
        have out: "\<not> (64 * i \<le> 64 * j + k \<and> 64 * j + k < 64 * i + 64)" using 2(1) that by linarith
        have "64 * j + k < unat (i_size (inode_at f s dir))" using 2(2) that sz n by linarith
        then show ?thesis using fb [of "64 * j + k"] out dir_okD(5) [OF d] by auto
      qed
      then have "dbytes f s' dir j = dbytes f s dir j" by (simp add: dbytes_def)
      then show ?thesis using 2 by simp
    qed simp
  qed
qed

definition good_name :: "cstr \<Rightarrow> bool" where
  "good_name name \<longleftrightarrow> length name \<le> KFS_NAME_MAX \<and> 0 \<notin> set name"

definition dir_distinct :: "nat \<Rightarrow> kfs_state \<Rightarrow> u32 \<Rightarrow> bool" where
  "dir_distinct f s dir \<longleftrightarrow> (\<forall>name i j. i < dcount f s dir \<and> j < dcount f s dir \<and>
     hit f s dir name i \<and> hit f s dir name j \<longrightarrow> i = j)"

lemma name_eq_short: "length name \<le> KFS_NAME_MAX \<Longrightarrow> take (Suc KFS_NAME_MAX) name = take (Suc KFS_NAME_MAX) m \<longleftrightarrow> m = name"
  by (cases "length m \<le> KFS_NAME_MAX") (auto dest: arg_cong [of _ _ length])

lemma name_eq_pad:
  assumes "good_name name"
  shows "name_eq (pad_name name) m \<longleftrightarrow> m = name"
proof -
  have "c_string (pad_name name) = name" using assms
    unfolding c_string_def pad_name_def good_name_def by (subst takeWhile_append2) (auto simp: takeWhile_eq_filter)
  then show ?thesis using name_eq_short [of name m] assms unfolding name_eq_def good_name_def by metis
qed

lemma length_pad_name [simp]: "length (pad_name name) = 60"
  by (simp add: pad_name_def)

text \<open>Replacing entry \<open>i\<close>, which no name found, by one that only \<open>name\<close> finds.\<close>

lemma dir_map_replace:
  assumes n: "n = dcount f s dir" "dcount f s' dir = max n (Suc i)" and i: "i \<le> n"
    and keep: "\<And>j. j < n \<Longrightarrow> j \<noteq> i \<Longrightarrow> dbytes f s' dir j = dbytes f s dir j"
    and free: "i < n \<Longrightarrow> \<not> hit f s dir m i"
  shows "\<not> hit f s' dir m i \<Longrightarrow> dir_map f s' dir m = dir_map f s dir m"
    and "\<lbrakk>hit f s' dir m i; dir_map f s dir m = None\<rbrakk> \<Longrightarrow> dir_map f s' dir m = Some (d_ino (dent f s' dir i))"
proof -
  let ?P = "hit f s dir m" and ?Q = "hit f s' dir m"
  have same: "?Q j = ?P j" if "j < n" "j \<noteq> i" for j using keep [OF that] by (simp add: hit_def)
  show "dir_map f s' dir m = dir_map f s dir m" if no: "\<not> ?Q i"
  proof (cases "first_from ?P 0 n")
    case None
    then have "\<not> ?P j" if "j < n" for j using that by (simp add: first_from_None)
    then have "\<not> ?Q j" if "j < max n (Suc i)" for j using that no i same [of j] by (cases "j = i") auto
    then have "first_from ?Q 0 (max n (Suc i)) = None" by (simp add: first_from_None)
    then show ?thesis using None n by (simp add: dir_map_def)
  next
    case (Some k)
    then have k: "k < n" "?P k" "\<And>y. y < k \<Longrightarrow> \<not> ?P y" by (simp_all add: first_from_Some)
    have ki: "k \<noteq> i" using k(1,2) free by blast
    have "\<not> ?Q y" if "y < k" for y using that k(1,3) same [of y] no by (cases "y = i") auto
    then have "first_from ?Q 0 (max n (Suc i)) = Some k" using k ki same by (simp add: first_from_Some)
    then show ?thesis using Some n keep [OF k(1) ki] by (simp add: dir_map_def)
  qed
  show "dir_map f s' dir m = Some (d_ino (dent f s' dir i))" if "?Q i" "dir_map f s dir m = None"
  proof -
    have "\<not> ?P j" if "j < n" for j using \<open>dir_map f s dir m = None\<close> that n by (simp add: dir_map_def first_from_None)
    then have "\<not> ?Q y" if "y < i" for y using that i same [of y] by auto
    then have "first_from ?Q 0 (max n (Suc i)) = Some i" using \<open>?Q i\<close> by (simp add: first_from_Some)
    then show ?thesis using n by (simp add: dir_map_def)
  qed
qed

lemma writei_fits:
  assumes "writei f ino off src mtime s = (r, s')" and "r = int (length src)" and "src \<noteq> []" and "length src < 2 ^ 32"
  shows "unat off + length src \<le> unat KFS_MAX_FILE_SIZE"
proof -
  have l: "unat (of_nat (length src) :: u32) = length src" using assms(4) by (subst unat_of_nat) simp
  have "\<not> (off > KFS_MAX_FILE_SIZE \<or> of_nat (length src) > KFS_MAX_FILE_SIZE - off)"
    using assms(1-3) by (auto simp: writei_def split: prod.splits option.splits if_splits)
  then have "off \<le> KFS_MAX_FILE_SIZE" "of_nat (length src) \<le> KFS_MAX_FILE_SIZE - off" by (simp_all only: de_Morgan_disj not_less)
  then show ?thesis using l by (simp add: word_le_nat_alt unat_sub)
qed

text \<open>A state inside a transaction on a device that does not fail.\<close>

definition working :: "nat \<Rightarrow> kfs_state \<Rightarrow> bool" where
  "working f s \<longleftrightarrow> in_tx f s \<and> fs_wf f s \<and> mounted (fss s f) \<and> no_faults s f"

lemma workingD:
  assumes "working f s"
  shows "in_tx f s" and "fs_wf f s" and "mounted (fss s f)" and "no_faults s f" and "readable f s"
  using assms by (simp_all add: working_def readable_def in_tx_def)

lemma working_frame: "working f s \<Longrightarrow> tx_frame f s s' \<Longrightarrow> fs_wf f s' \<Longrightarrow> working f s'"
  by (simp add: working_def tx_frame_def)

lemma working_looked: "working f s \<Longrightarrow> looked f s s' \<Longrightarrow> working f s' \<and> tx_frame f s s'"
  using working_frame tx_looked workingD(1,2) looked_same(3) by metis

lemma dirent_write:
  assumes w: "working f s" and d: "dir_ok f s dir" and i: "i \<le> dcount f s dir" and xs: "length xs = 64"
    and ret: "writei f dir (of_nat (64 * i)) xs mtime s = (64, s')" and nfl: "\<not> j_failed (jtx s')"
  shows "tx_frame f s s'" and "saved f dir (64 * i) xs mtime s s'" and "64 * i + 64 \<le> 4235264"
proof -
  have ne: "xs \<noteq> []" using xs by auto
  have off: "unat (of_nat (64 * i) :: u32) = 64 * i" using i dir_okD(4) [OF d] by (subst unat_of_nat) simp
  have fit: "unat (of_nat (64 * i) :: u32) + length xs \<le> unat KFS_MAX_FILE_SIZE"
    by (rule writei_fits [OF ret]) (use xs ne in simp_all)
  then show "64 * i + 64 \<le> 4235264" using off xs by simp
  have ty: "i_type (inode_at f s dir) \<noteq> KFS_TYPE_FREE" using dir_okD(2) [OF d] by simp
  note o = writei_ok [OF workingD(1,2) [OF w] dir_okD(1) [OF d] workingD(4,3) [OF w] ty ne fit ret nfl]
  show "tx_frame f s s'" by (rule o(1))
  from o(2) obtain ys rest where "xs = ys @ rest"
    "if ys = [] then (64::int) = - 1 \<and> fs_wf f s' \<and> one_left f s else 64 = int (length ys) \<and> saved f dir (64 * i) ys mtime s s'"
    unfolding off by blast
  then have "xs = ys" "saved f dir (64 * i) ys mtime s s'" using xs by (auto split: if_splits)
  then show "saved f dir (64 * i) xs mtime s s'" by simp
qed

text \<open>What a change of one directory leaves of the rest of the file system.\<close>

definition only_dir :: "nat \<Rightarrow> u32 \<Rightarrow> kfs_state \<Rightarrow> kfs_state \<Rightarrow> bool" where
  "only_dir f dir s s' \<longleftrightarrow> (\<forall>j. ino_valid (sb_of f s) j \<and> j \<noteq> dir \<longrightarrow> inode_at f s' j = inode_at f s j \<and> fbyte f s' j = fbyte f s j)"

lemma dir_add_steps:
  assumes w: "working f s" and d: "dir_ok f s dir" and ret: "dir_add f dir name ino mtime s = (ok, s')"
  obtains i s2 r where "looked f s s2" and "i \<le> dcount f s dir" and "i < dcount f s dir \<Longrightarrow> d_ino (dent f s dir i) = 0"
    and "writei f dir (of_nat (64 * i)) (enc_dirent \<lparr>d_ino = ino, d_name = pad_name name\<rparr>) mtime s2 = (r, s')"
    and "ok \<longleftrightarrow> r = 64"
proof -
  let ?de = "enc_dirent \<lparr>d_ino = ino, d_name = pad_name name\<rparr>"
  obtain x s1 where ig: "iget f dir s = (x, s1)" by fastforce
  have st: "store_ok f s" and wf: "fs_wf f s" using workingD(1,2) [OF w] by (simp_all add: in_tx_def)
  note e = looked_iget [OF st fs_wfD(1) [OF wf] ig]
  have x: "x = Some (inode_at f s dir)" using e(2,3) workingD(3,4) [OF w] dir_okD(1) [OF d] by auto
  note same1 = looked_dents [OF e(1)]
  obtain q s2 where sc: "slot_scan f dir (i_size (inode_at f s dir)) [0 ..< dcount f s1 dir] s1 = (q, s2)" by fastforce
  have d1: "dir_ok f s1 dir" using d same1 by simp
  note so = slot_scan_ok [OF readable_looked [OF e(1) workingD(5) [OF w]] d1 le0 sc, unfolded same1]
  define i where "i = (case first_from (\<lambda>i. d_ino (dent f s dir i) = 0) 0 (dcount f s dir) of None \<Rightarrow> dcount f s dir | Some i \<Rightarrow> i)"
  have iN: "i \<le> dcount f s dir" and free: "i < dcount f s dir \<Longrightarrow> d_ino (dent f s dir i) = 0"
    unfolding i_def using first_from_Some [of "\<lambda>i. d_ino (dent f s dir i) = 0" 0 "dcount f s dir"]
    by (simp_all split: option.splits)
  have "i_size (inode_at f s dir) = of_nat (64 * dcount f s dir)"
    using dir_okD(3) [OF d] by (metis of_nat_unat ucast_id)
  then have q: "q = Some (of_nat (64 * i))" using so [THEN conjunct2] unfolding i_def by (simp split: option.splits)
  obtain r s3 where wr: "writei f dir (of_nat (64 * i)) ?de mtime s2 = (r, s3)" by fastforce
  have "ok \<longleftrightarrow> r = 64" "s' = s3"
    using ret ig x dir_okD(2) [OF d] sc q wr same1(2) by (auto simp: dir_add_def dir_slots_def)
  then show ?thesis using that [OF looked_trans [OF e(1) so [THEN conjunct1]] iN free] wr by blast
qed

lemma dir_add_ok:
  assumes w: "working f s" and d: "dir_ok f s dir" and g: "good_name name" and ino: "ino \<noteq> 0"
    and ret: "dir_add f dir name ino mtime s = (True, s')" and nfl: "\<not> j_failed (jtx s')"
  shows "tx_frame f s s'" and "working f s'" and "dir_ok f s' dir" and "only_dir f dir s s'"
    and "m \<noteq> name \<Longrightarrow> dir_map f s' dir m = dir_map f s dir m"
    and "dir_map f s dir name = None \<Longrightarrow> dir_map f s' dir name = Some ino"
    and "\<lbrakk>dir_distinct f s dir; dir_map f s dir name = None\<rbrakk> \<Longrightarrow> dir_distinct f s' dir"
proof -
  let ?de = "enc_dirent \<lparr>d_ino = ino, d_name = pad_name name\<rparr>"
  obtain i s2 r where l2: "looked f s s2" and iN: "i \<le> dcount f s dir" and free: "i < dcount f s dir \<Longrightarrow> d_ino (dent f s dir i) = 0"
    and wr: "writei f dir (of_nat (64 * i)) ?de mtime s2 = (r, s')" and r: "True \<longleftrightarrow> r = 64"
    using dir_add_steps [OF w d ret] by blast
  note same2 = looked_dents [OF l2]
  have w2: "working f s2" and fr2: "tx_frame f s s2" using working_looked [OF w l2] by simp_all
  have d2: "dir_ok f s2 dir" using d same2 by simp
  have lde: "length ?de = 64" by simp
  have i2: "i \<le> dcount f s2 dir" using iN same2(2) by simp
  have wr': "writei f dir (of_nat (64 * i)) ?de mtime s2 = (64, s')" using wr r by simp
  note dw = dirent_write [OF w2 d2 i2 lde wr' nfl]
  note db = dbytes_saved [OF dw(2) d2 i2 lde dw(3) tx_frameD(2) [OF dw(1)], unfolded same2]
  show fr: "tx_frame f s s'" by (rule tx_frame_trans [OF fr2 dw(1)])
  show "working f s'" using working_frame [OF w2 dw(1)] dw(2) by (simp add: saved_def)
  show "dir_ok f s' dir" by (rule db(1))
  show "only_dir f dir s s'" using dw(2) lookedD(6) [OF l2] looked_same [OF l2] by (simp add: saved_def only_dir_def)
  have keep: "dbytes f s' dir j = dbytes f s dir j" if "j < dcount f s dir" "j \<noteq> i" for j using db(3) [of j] that by simp
  have new: "dent f s' dir i = \<lparr>d_ino = ino, d_name = pad_name name\<rparr>"
    using db(3) [of i] by simp
  have hi: "hit f s' dir m i \<longleftrightarrow> m = name" for m
    using new ino name_eq_pad [OF g] by (simp add: hit_def)
  have nohit: "i < dcount f s dir \<Longrightarrow> \<not> hit f s dir m i" for m using free by (simp add: hit_def)
  note dm = dir_map_replace [OF refl db(2) iN keep nohit]
  show "dir_map f s' dir m = dir_map f s dir m" if "m \<noteq> name" for m using dm(1) hi that by simp
  show "dir_map f s' dir name = Some ino" if "dir_map f s dir name = None" using dm(2) hi that new by simp
  show "dir_distinct f s' dir" if dd: "dir_distinct f s dir" and nn: "dir_map f s dir name = None"
    unfolding dir_distinct_def
  proof (intro allI impI)
    fix m a b assume h: "a < dcount f s' dir \<and> b < dcount f s' dir \<and> hit f s' dir m a \<and> hit f s' dir m b"
    have old: "hit f s dir m c" if "hit f s' dir m c" "c < dcount f s' dir" "c \<noteq> i" for c
      using that keep [of c] db(2) iN by (auto simp: hit_def)
    have lt: "c < dcount f s dir" if "c < dcount f s' dir" "c \<noteq> i" for c using that db(2) iN by auto
    have none: "\<not> hit f s dir name c" if "c < dcount f s dir" for c using nn that by (simp add: dir_map_def first_from_None)
    show "a = b"
    proof (cases "m = name")
      case True
      have "a = i" using old [of a] lt [of a] none [of a] h True by blast
      moreover have "b = i" using old [of b] lt [of b] none [of b] h True by blast
      ultimately show ?thesis by simp
    next
      case False
      then have "a \<noteq> i" "b \<noteq> i" using hi h by blast+
      then show ?thesis using old lt h dd unfolding dir_distinct_def by blast
    qed
  qed
qed

lemma dir_remove_ok:
  assumes w: "working f s" and d: "dir_ok f s dir" and g: "good_name name" and dd: "dir_distinct f s dir"
    and ret: "dir_remove f dir name mtime s = (True, s')" and nfl: "\<not> j_failed (jtx s')"
  shows "tx_frame f s s'" and "working f s'" and "dir_ok f s' dir" and "only_dir f dir s s'"
    and "dir_map f s dir name \<noteq> None" and "dir_map f s' dir name = None"
    and "m \<noteq> name \<Longrightarrow> dir_map f s' dir m = dir_map f s dir m" and "dir_distinct f s' dir"
proof -
  obtain ino slot s1 where lk: "dir_lookup f dir name s = (ino, slot, s1)" using prod_cases3 by blast
  have ne: "ino \<noteq> 0" using ret lk by (auto simp: dir_remove_def)
  note l = dir_lookup_ok [OF workingD(5) [OF w] d lk]
  obtain i where i: "i < dcount f s dir" "slot = of_nat (64 * i)" "hit f s dir name i" using l(3) ne by blast
  note same = looked_dents [OF l(1)]
  have w1: "working f s1" and fr1: "tx_frame f s s1" using working_looked [OF w l(1)] by simp_all
  have d1: "dir_ok f s1 dir" and i1: "i \<le> dcount f s1 dir" using d same i(1) by simp_all
  have lz: "length (replicate 64 (0 :: byte)) = 64" by simp
  have wr: "writei f dir (of_nat (64 * i)) (replicate 64 0) mtime s1 = (64, s')"
    using ret lk ne i(2) by (auto simp: dir_remove_def split: prod.splits)
  note dw = dirent_write [OF w1 d1 i1 lz wr nfl]
  note db = dbytes_saved [OF dw(2) d1 i1 lz dw(3) tx_frameD(2) [OF dw(1)], unfolded same]
  show "tx_frame f s s'" by (rule tx_frame_trans [OF fr1 dw(1)])
  show "working f s'" using working_frame [OF w1 dw(1)] dw(2) by (simp add: saved_def)
  show "dir_ok f s' dir" by (rule db(1))
  show "only_dir f dir s s'" using dw(2) lookedD(6) [OF l(1)] looked_same [OF l(1)] by (simp add: saved_def only_dir_def)
  have n: "dcount f s' dir = dcount f s dir" using db(2) i(1) by simp
  have "d_ino (dec_dirent (replicate 64 0)) = 0" by (simp add: dec_dirent_def rd32_def get_bytes_def un_le32_def)
  then have "d_ino (dent f s' dir i) = 0" using db(3) [of i] by simp
  then have no: "\<not> hit f s' dir m i" for m by (simp add: hit_def)
  have same': "hit f s' dir m j = hit f s dir m j" if "j < dcount f s dir" "j \<noteq> i" for m j using db(3) [of j] that by (simp add: hit_def)
  show "dir_map f s dir name \<noteq> None" using l(2) ne by simp
  have "\<not> hit f s' dir name j" if "j < dcount f s dir" for j
    using that no same' [of j name] dd i unfolding dir_distinct_def by (cases "j = i") blast+
  then show "dir_map f s' dir name = None" using n by (simp add: dir_map_def first_from_None)
  show "dir_distinct f s' dir" unfolding dir_distinct_def n
    using no same' dd unfolding dir_distinct_def by blast
  show "dir_map f s' dir m = dir_map f s dir m" if m: "m \<noteq> name"
  proof (rule dir_map_replace(1) [OF refl _ _ _ _ no])
    show "dcount f s' dir = max (dcount f s dir) (Suc i)" by (rule db(2))
    show "i \<le> dcount f s dir" using i(1) by simp
    show "dbytes f s' dir j = dbytes f s dir j" if "j < dcount f s dir" "j \<noteq> i" for j using db(3) [of j] that by simp
    show "\<not> hit f s dir m i" using i(3) m g name_eq_short unfolding hit_def name_eq_def good_name_def by metis
  qed
qed

end
