(* ===== verification/Kfs_Tree.thy ===== *)
theory Kfs_Tree
  imports Kfs_Names
begin

text \<open>
  The tree of names of a volume and path resolution: \<^verbatim>\<open>kfs_lookup\<close> and \<^verbatim>\<open>kfs_create\<close> of \<^verbatim>\<open>kernel/kfs.c\<close> against an
  abstract tree that gives every directory its name map.
\<close>

section \<open>The components of a path\<close>

primrec split_slash :: "cstr \<Rightarrow> cstr list" where
  "split_slash [] = [[]]"
| "split_slash (c # cs) = (if c = ch_slash then [] # split_slash cs
     else (c # hd (split_slash cs)) # tl (split_slash cs))"

definition components :: "cstr \<Rightarrow> cstr list" where
  "components p = filter (\<lambda>n. n \<noteq> []) (split_slash p)"

lemma split_slash_ne [simp]: "split_slash p \<noteq> []" by (cases p) auto

lemma split_slash_name:
  "\<lbrakk>ch_slash \<notin> set n; rest = [] \<or> hd rest = ch_slash\<rbrakk> \<Longrightarrow>
     split_slash (n @ rest) = n # (if rest = [] then [] else split_slash (tl rest))"
  by (induction n) (cases rest; auto)+

lemma components_skip: "components (skip_slashes p) = components p"
  unfolding skip_slashes_def by (induction p) (auto simp: components_def)

lemma components_name:
  assumes "ch_slash \<notin> set n" and "n \<noteq> []" and "rest = [] \<or> hd rest = ch_slash"
  shows "components (n @ rest) = n # components rest"
proof -
  have "components rest = (if rest = [] then [] else components (tl rest))"
    using assms(3) by (cases rest) (auto simp: components_def)
  then show ?thesis using split_slash_name [OF assms(1,3)] assms(2) by (simp add: components_def)
qed

lemma components_step:
  assumes "skip_slashes p \<noteq> []"
  shows "components p = takeWhile (\<lambda>c. c \<noteq> ch_slash) (skip_slashes p) #
     components (drop (length (takeWhile (\<lambda>c. c \<noteq> ch_slash) (skip_slashes p))) (skip_slashes p))"
proof -
  let ?p = "skip_slashes p"
  let ?n = "takeWhile (\<lambda>c. c \<noteq> ch_slash) ?p" and ?r = "dropWhile (\<lambda>c. c \<noteq> ch_slash) ?p"
  have r: "drop (length ?n) ?p = ?r" by (metis append_eq_conv_conj takeWhile_dropWhile_id)
  have "hd ?p \<noteq> ch_slash" using assms hd_dropWhile [of "\<lambda>c. c = ch_slash" p] by (simp add: skip_slashes_def)
  then have n: "?n \<noteq> []" using assms by (cases ?p) auto
  have s: "ch_slash \<notin> set ?n" using set_takeWhileD by fastforce
  have "?r = [] \<or> hd ?r = ch_slash" using hd_dropWhile [of "\<lambda>c. c \<noteq> ch_slash" ?p] by blast
  from components_name [OF s n this] show ?thesis using r components_skip [of p] by simp
qed

lemma path_next_components:
  shows "path_next p = P_end \<longleftrightarrow> components p = []"
    and "path_next p = P_long \<longleftrightarrow> (\<exists>n ns. components p = n # ns \<and> length n > KFS_NAME_MAX)"
    and "path_next p = P_comp n rest \<Longrightarrow> components p = n # components rest"
proof -
  have e: "components p = []" if "skip_slashes p = []"
    using components_skip [of p] that by (simp add: components_def)
  show "path_next p = P_end \<longleftrightarrow> components p = []"
    using e components_step [of p] by (cases "skip_slashes p = []") (simp_all add: path_next_def Let_def)
  show "path_next p = P_long \<longleftrightarrow> (\<exists>n ns. components p = n # ns \<and> length n > KFS_NAME_MAX)"
    using e components_step [of p] by (cases "skip_slashes p = []") (simp_all add: path_next_def Let_def)
  show "path_next p = P_comp n rest \<Longrightarrow> components p = n # components rest"
    using e components_step [of p] by (cases "skip_slashes p = []") (auto simp: path_next_def Let_def split: if_splits)
qed

lemma components_byte: "n \<in> set (components p) \<Longrightarrow> set n \<subseteq> set p"
proof -
  have "n \<in> set (split_slash p) \<Longrightarrow> set n \<subseteq> set p" for n
  proof (induction p arbitrary: n)
    case (Cons c cs)
    then show ?case by (cases "split_slash cs") (auto split: if_splits; blast)+
  qed simp
  then show "n \<in> set (components p) \<Longrightarrow> set n \<subseteq> set p" by (simp add: components_def)
qed

section \<open>The tree of names\<close>

definition is_dir :: "nat \<Rightarrow> kfs_state \<Rightarrow> u32 \<Rightarrow> bool" where
  "is_dir f s i \<longleftrightarrow> ino_valid (sb_of f s) i \<and> i_type (inode_at f s i) = KFS_TYPE_DIR"

definition tree :: "nat \<Rightarrow> kfs_state \<Rightarrow> u32 \<Rightarrow> cstr \<Rightarrow> u32 option" where
  "tree f s dir = (if is_dir f s dir then dir_map f s dir else Map.empty)"

fun tree_walk :: "(u32 \<Rightarrow> cstr \<Rightarrow> u32 option) \<Rightarrow> u32 \<Rightarrow> cstr list \<Rightarrow> u32 option" where
  "tree_walk T cur [] = Some cur"
| "tree_walk T cur (n # ns) = (if length n > KFS_NAME_MAX then None
     else case T cur n of None \<Rightarrow> None | Some i \<Rightarrow> tree_walk T i ns)"

definition tree_ok :: "nat \<Rightarrow> kfs_state \<Rightarrow> bool" where
  "tree_ok f s \<longleftrightarrow> is_dir f s (root_ino (sb_of f s)) \<and> inode_count (sb_of f s) < 0x80000000 \<and>
     (\<forall>d. is_dir f s d \<longrightarrow> dir_ok f s d \<and> dir_distinct f s d) \<and>
     (\<forall>d n i. tree f s d n = Some i \<longrightarrow> ino_valid (sb_of f s) i \<and> i_type (inode_at f s i) \<noteq> KFS_TYPE_FREE)"

lemma tree_okD:
  assumes "tree_ok f s"
  shows "is_dir f s (root_ino (sb_of f s))" and "inode_count (sb_of f s) < 0x80000000"
    and "is_dir f s d \<Longrightarrow> dir_ok f s d" and "is_dir f s d \<Longrightarrow> dir_distinct f s d"
    and "tree f s d n = Some i \<Longrightarrow> ino_valid (sb_of f s) i"
    and "tree f s d n = Some i \<Longrightarrow> i_type (inode_at f s i) \<noteq> KFS_TYPE_FREE"
  using assms by (auto simp: tree_ok_def)

lemma looked_tree:
  assumes "looked f s s'"
  shows "is_dir f s' = is_dir f s" and "tree f s' = tree f s" and "tree_ok f s' = tree_ok f s"
    and "dir_map f s' = dir_map f s"
proof -
  note d = looked_dents [OF assms] and l = lookedD [OF assms] and sm = looked_same [OF assms]
  show i: "is_dir f s' = is_dir f s" by (simp add: fun_eq_iff is_dir_def l(6) sm(1))
  have h: "hit f s' = hit f s" by (simp add: fun_eq_iff hit_def d)
  then show m: "dir_map f s' = dir_map f s" by (simp add: fun_eq_iff dir_map_def d)
  then show t: "tree f s' = tree f s" by (simp add: fun_eq_iff tree_def i)
  have "dir_distinct f s' d = dir_distinct f s d" for d by (simp add: dir_distinct_def h d)
  then show "tree_ok f s' = tree_ok f s" by (simp add: tree_ok_def i t l(6) sm(1) d)
qed

lemma dir_lookup_tree:
  assumes rd: "readable f s" and t: "tree_ok f s" and v: "ino_valid (sb_of f s) dir"
    and ret: "dir_lookup f dir name s = (ino, slot, s')"
  shows "looked f s s'" and "tree f s dir name = (if ino = 0 then None else Some ino)"
proof -
  have "looked f s s' \<and> tree f s dir name = (if ino = 0 then None else Some ino)"
  proof (cases "is_dir f s dir")
    case True
    then show ?thesis using dir_lookup_ok [OF rd tree_okD(3) [OF t True] ret] by (simp add: tree_def)
  next
    case False
    obtain x s1 where g: "iget f dir s = (x, s1)" by fastforce
    note e = looked_iget [OF _ fs_wfD(1) g]
    have x: "looked f s s1" "x = Some (inode_at f s dir)" using e rd v by (auto simp: readable_def)
    then show ?thesis using ret g False v by (auto simp: dir_lookup_def tree_def is_dir_def)
  qed
  then show "looked f s s'" and "tree f s dir name = (if ino = 0 then None else Some ino)" by simp_all
qed

lemma lookup_walk_ok:
  assumes "readable f s" and "tree_ok f s" and "ino_valid (sb_of f s) cur" and "lookup_walk f cur p s = (r, s')"
  shows "looked f s s' \<and> r = (case tree_walk (tree f s) cur (components p) of None \<Rightarrow> - 1 | Some i \<Rightarrow> sint i)"
  using assms
proof (induction f cur p s arbitrary: r s' rule: lookup_walk.induct)
  case (1 f cur p s)
  note pn = path_next_components [of p]
  have lr: "looked f s s" using "1.prems"(1) by (simp add: looked_refl readable_def)
  show ?case
  proof (cases "path_next p")
    case P_end
    then show ?thesis using "1.prems"(4) pn(1) lr by (auto simp: lookup_walk.simps [of f cur p s])
  next
    case P_long
    then obtain n ns where "components p = n # ns" "length n > KFS_NAME_MAX" using pn(2) by blast
    then show ?thesis using "1.prems"(4) P_long lr by (auto simp: lookup_walk.simps [of f cur p s])
  next
    case (P_comp name rest)
    have c: "components p = name # components rest" by (rule pn(3) [OF P_comp])
    have n: "\<not> length name > KFS_NAME_MAX" using path_next_comp(3) [OF P_comp] by simp
    obtain nxt slot s1 where dl: "dir_lookup f cur name s = (nxt, slot, s1)" using prod_cases3 by blast
    note e = dir_lookup_tree [OF "1.prems"(1-3) dl]
    show ?thesis
    proof (cases "nxt = 0")
      case True
      then show ?thesis using "1.prems"(4) P_comp dl e c n by (auto simp: lookup_walk.simps [of f cur p s])
    next
      case False
      have v: "ino_valid (sb_of f s1) nxt" using tree_okD(5) [OF "1.prems"(2)] e False lookedD(6) [OF e(1)] by simp
      have "lookup_walk f nxt rest s1 = (r, s')"
        using "1.prems"(4) P_comp dl False by (simp add: lookup_walk.simps [of f cur p s])
      from "1.IH" [OF P_comp dl [symmetric] refl False readable_looked [OF e(1) "1.prems"(1)] _ v this]
      have "looked f s1 s' \<and> r = (case tree_walk (tree f s) nxt (components rest) of None \<Rightarrow> - 1 | Some i \<Rightarrow> sint i)"
        using looked_tree [OF e(1)] "1.prems"(2) by simp
      then show ?thesis using looked_trans [OF e(1)] c n e(2) False by simp
    qed
  qed
qed

lemma parent_walk_ok:
  assumes "readable f s" and "tree_ok f s" and "is_dir f s cur" and "length cname \<le> KFS_NAME_MAX"
    and "parent_walk f cur cname p s = (r, name, s')"
  shows "looked f s s' \<and> (r = - 1 \<or> (\<exists>pre dir. cname # components p = pre @ [name] \<and>
    tree_walk (tree f s) cur pre = Some dir \<and> is_dir f s dir \<and> r = sint dir \<and> length name \<le> KFS_NAME_MAX))"
  using assms
proof (induction f cur cname p s arbitrary: r name s' rule: parent_walk.induct)
  case (1 f cur cname p s)
  note pw = "1.prems"(5) [unfolded parent_walk.simps [of f cur cname p s]]
  show ?case
  proof (cases "skip_slashes p = []")
    case True
    have "components p = []" using components_skip [of p] True by (simp add: components_def)
    moreover have "r = sint cur" "name = cname" "s' = s" using pw True by simp_all
    ultimately show ?thesis using "1.prems"(1,3,4) by (auto simp: looked_refl readable_def)
  next
    case False
    obtain nino slot s1 where dl: "dir_lookup f cur cname s = (nino, slot, s1)" using prod_cases3 by blast
    have "ino_valid (sb_of f s) cur" using "1.prems"(3) by (simp add: is_dir_def)
    note e = dir_lookup_tree [OF "1.prems"(1,2) this dl]
    show ?thesis
    proof (cases "nino = 0")
      case True
      then show ?thesis using pw False dl e(1) by simp
    next
      case nz: False
      obtain x s2 where g: "iget f nino s1 = (x, s2)" by fastforce
      have rd1: "readable f s1" by (rule readable_looked [OF e(1) "1.prems"(1)])
      then have "store_ok f s1" "fs_wf f s1" by (simp_all add: readable_def)
      note l = looked_iget [OF this(1) fs_wfD(1) [OF this(2)] g]
      have l2: "looked f s s2" by (rule looked_trans [OF e(1) l(1)])
      show ?thesis
      proof (cases "\<exists>ip nm rest. x = Some ip \<and> i_type ip = KFS_TYPE_DIR \<and> path_next p = P_comp nm rest")
        case False
        then have "r = - 1" "s' = s2" using pw \<open>skip_slashes p \<noteq> []\<close> dl nz g
          by (auto split: option.splits if_splits path_step.splits)
        then show ?thesis using l2 by simp
      next
        case True
        then obtain ip nm rest where x: "x = Some ip" "i_type ip = KFS_TYPE_DIR" and pn: "path_next p = P_comp nm rest" by blast
        have walk: "parent_walk f nino nm rest s2 = (r, name, s')" using pw \<open>skip_slashes p \<noteq> []\<close> dl nz g x pn by simp
        have d: "is_dir f s nino" using l(2) x looked_same(1) [OF e(1)] lookedD(6) [OF e(1)] by (auto simp: is_dir_def)
        note t2 = looked_tree [OF l2]
        have ih: "looked f s2 s' \<and> (r = - 1 \<or> (\<exists>pre dir. nm # components rest = pre @ [name] \<and>
            tree_walk (tree f s2) nino pre = Some dir \<and> is_dir f s2 dir \<and> r = sint dir \<and> length name \<le> KFS_NAME_MAX))"
          by (rule "1.IH" [OF \<open>skip_slashes p \<noteq> []\<close> dl [symmetric] refl nz g [symmetric] x(1) _ pn
            readable_looked [OF l2 "1.prems"(1)] _ _ path_next_comp(3) [OF pn] walk])
            (use x(2) t2 d "1.prems"(2) in simp_all)
        have cp: "components p = nm # components rest" by (rule path_next_components(3) [OF pn])
        have step: "tree_walk (tree f s) cur (cname # pre) = tree_walk (tree f s) nino pre" for pre
          using e(2) nz "1.prems"(4) by simp
        show ?thesis using ih looked_trans [OF l2] unfolding t2 cp step [symmetric] by (metis append_Cons)
      qed
    qed
  qed
qed

lemma lookup_parent_ok:
  assumes rd: "readable f s" and t: "tree_ok f s" and ret: "lookup_parent f path s = (r, name, s')"
  shows "looked f s s'" and "r \<noteq> - 1 \<Longrightarrow> \<exists>pre dir. components path = pre @ [name] \<and> length name \<le> KFS_NAME_MAX \<and>
    tree_walk (tree f s) (root_ino (sb_of f s)) pre = Some dir \<and> is_dir f s dir \<and> r = sint dir"
proof -
  have "looked f s s' \<and> (r = - 1 \<or> (\<exists>pre dir. components path = pre @ [name] \<and>
    tree_walk (tree f s) (root_ino (sb_of f s)) pre = Some dir \<and> is_dir f s dir \<and> r = sint dir \<and> length name \<le> KFS_NAME_MAX))"
  proof (cases "\<exists>n p. mounted (fss s f) \<and> take 1 path = [ch_slash] \<and> path_next path = P_comp n p")
    case True
    then obtain n p where c: "mounted (fss s f)" "take 1 path = [ch_slash]" and pn: "path_next path = P_comp n p" by blast
    have w: "parent_walk f (root_ino (sb_of f s)) n p s = (r, name, s')" using ret c pn by (simp add: lookup_parent_def)
    show ?thesis unfolding path_next_components(3) [OF pn]
      by (rule parent_walk_ok [OF rd t tree_okD(1) [OF t] path_next_comp(3) [OF pn] w])
  next
    case False
    then have "r = - 1" "s' = s" using ret by (auto simp: lookup_parent_def split: if_splits path_step.splits)
    then show ?thesis using rd by (simp add: looked_refl readable_def)
  qed
  then show "looked f s s'" and "r \<noteq> - 1 \<Longrightarrow> \<exists>pre dir. components path = pre @ [name] \<and> length name \<le> KFS_NAME_MAX \<and>
    tree_walk (tree f s) (root_ino (sb_of f s)) pre = Some dir \<and> is_dir f s dir \<and> r = sint dir" by blast+
qed

section \<open>Allocating an inode\<close>

lemma fs_wf_clear:
  assumes wf: "fs_wf f s" and sl: "same_layout (sb_of f s') (sb_of f s)"
    and u: "\<And>m. m < unat (bitmap_blocks (sb_of f s)) * BITS_PER_BLOCK \<Longrightarrow> used f s m \<Longrightarrow> used f s' m"
    and p: "\<And>i. ino_valid (sb_of f s) i \<Longrightarrow> i \<noteq> ino \<Longrightarrow> ptr f s' i = ptr f s i" and z: "\<And>k. ptr f s' ino k = 0"
  shows "fs_wf f s'"
proof -
  note w = fs_wfD [OF wf] and v = ino_valid_layout [OF sl]
  have "ptrs_ok f s'"
    unfolding ptrs_ok_def v in_data_layout [OF sl] using p z w(3,4) u bits_in_range [OF w(1)] by metis
  moreover have "ptrs_inj f s'" unfolding ptrs_inj_def v using p z w(5) by metis
  ultimately show ?thesis
    using layout_ok_same [OF sl] w(1) meta_used_mono [OF w(1,2) sl u] by (simp add: fs_wf_def)
qed

text \<open>An inode that was free now holds \<open>new\<close>; the other inodes and their data are as before.\<close>

definition took :: "nat \<Rightarrow> u32 \<Rightarrow> kfs_inode \<Rightarrow> kfs_state \<Rightarrow> kfs_state \<Rightarrow> bool" where
  "took f ino new s s' \<longleftrightarrow> ino_valid (sb_of f s) ino \<and> i_type (inode_at f s ino) = KFS_TYPE_FREE \<and>
     inode_at f s' ino = new \<and> only_dir f ino s s' \<and>
     (\<forall>m < unat (bitmap_blocks (sb_of f s)) * BITS_PER_BLOCK. used f s' m = used f s m)"

lemma ialloc_loop_ok:
  assumes "working f s" and "\<forall>i \<in> set is. i \<ge> 1 \<and> i \<le> unat (inode_count (sb_of f s))"
    and "ialloc_loop f (fresh_inode ty mode uid gid mtime) is s = (ino, s')" and "\<not> j_failed (jtx s')"
  shows "tx_frame f s s' \<and> working f s' \<and> (ino \<noteq> 0 \<longrightarrow> took f ino (fresh_inode ty mode uid gid mtime) s s') \<and>
    (ino = 0 \<longrightarrow> (\<forall>i \<in> set is. i_type (inode_at f s (of_nat i)) \<noteq> KFS_TYPE_FREE))"
  using assms
proof (induction "is" arbitrary: s)
  case Nil
  then show ?case by (simp add: tx_frame_refl workingD(1))
next
  case (Cons i "is")
  let ?i = "of_nat i :: u32" and ?new = "fresh_inode ty mode uid gid mtime"
  have ui: "unat ?i = i" using Cons.prems(2) u32_less [of "inode_count (sb_of f s)"] by (subst unat_of_nat) simp
  have v: "ino_valid (sb_of f s) ?i" using Cons.prems(2) ui by (simp add: ino_valid_def word_le_nat_alt)
  note W = workingD [OF Cons.prems(1)]
  have ok: "store_ok f s" using W(1) by (simp add: in_tx_def)
  obtain x s1 where g: "iget f ?i s = (x, s1)" by fastforce
  note e = looked_iget [OF ok fs_wfD(1) [OF W(2)] g]
  have x: "x = Some (inode_at f s ?i)" using e(2,3) W(3,4) v by auto
  have w1: "working f s1" and fr1: "tx_frame f s s1" using working_looked [OF Cons.prems(1) e(1)] by simp_all
  note W1 = workingD [OF w1] and sm = looked_same [OF e(1)] and sb = lookedD(6) [OF e(1)]
    and us = view_same(3) [OF lookedD(2,6) [OF e(1)]]
  show ?case
  proof (cases "i_type (inode_at f s ?i) = KFS_TYPE_FREE")
    case False
    have "ialloc_loop f ?new is s1 = (ino, s')" using Cons.prems(3) g x False by simp
    from Cons.IH [OF w1 _ this Cons.prems(4)] Cons.prems(2) sb
    have "tx_frame f s1 s' \<and> working f s' \<and> (ino \<noteq> 0 \<longrightarrow> took f ino ?new s1 s') \<and>
        (ino = 0 \<longrightarrow> (\<forall>i \<in> set is. i_type (inode_at f s1 (of_nat i)) \<noteq> KFS_TYPE_FREE))" by simp
    then show ?thesis using tx_frame_trans [OF fr1] False by (auto simp: took_def only_dir_def sm us sb)
  next
    case True
    obtain q s2 where pt: "iput f ?i ?new s1 = (q, s2)" by fastforce
    have d: "length (direct ?new) = KFS_NDIRECT" by (simp add: fresh_inode_def zero_inode_def)
    have v1: "ino_valid (sb_of f s1) ?i" using v sb by simp
    note o = iput_ok [OF W1(1) fs_wfD(1) [OF W1(2)] v1 d pt]
    have s': "s' = s2" using Cons.prems(3) g x True pt by (auto split: bool.splits)
    have q: q using o(6) Cons.prems(4) W1(4) s' by blast
    have ino: "ino = ?i" using Cons.prems(3) g x True pt q by simp
    note u = iput_wf [OF W1(1,2) v1 d pt [unfolded eqTrueI [OF q]]]
    have pz: "ptr f s2 ?i k = 0" for k
      using u(1) by (simp add: ptr_of_def fresh_inode_def zero_inode_def)
    have wf2: "fs_wf f s2"
      by (rule fs_wf_clear [OF W1(2) tx_frameD(2) [OF o(1)] _ u(3) pz]) (simp_all add: u(5))
    have "working f s2" by (rule working_frame [OF w1 o(1) wf2])
    moreover have "fbyte f s2 j = fbyte f s1 j" if "ino_valid (sb_of f s1) j" "j \<noteq> ?i" for j
      using u(3) [OF that] u(4) fs_wfD(3) [OF W1(2)] that unfolding fun_eq_iff fbyte_def Let_def by auto
    moreover have "?i \<noteq> 0" using v by (auto simp: ino_valid_def word_le_nat_alt)
    ultimately show ?thesis
      using tx_frame_trans [OF fr1 o(1)] s' ino True v u(1,2,5) by (auto simp: took_def only_dir_def sm us sb)
  qed
qed

lemma ialloc_ok:
  assumes w: "working f s" and ret: "ialloc f ty mode uid gid mtime s = (ino, s')" and nfl: "\<not> j_failed (jtx s')"
  shows "tx_frame f s s'" and "working f s'" and "ino \<noteq> 0 \<Longrightarrow> took f ino (fresh_inode ty mode uid gid mtime) s s'"
    and "\<lbrakk>ino = 0; ino_valid (sb_of f s) i\<rbrakk> \<Longrightarrow> i_type (inode_at f s i) \<noteq> KFS_TYPE_FREE"
proof -
  have r: "\<forall>i \<in> set [1 ..< Suc (unat (inode_count (sb_of f s)))]. i \<ge> 1 \<and> i \<le> unat (inode_count (sb_of f s))" by auto
  note o = ialloc_loop_ok [OF w r ret [unfolded ialloc_def] nfl]
  show "tx_frame f s s'" and "working f s'" and "ino \<noteq> 0 \<Longrightarrow> took f ino (fresh_inode ty mode uid gid mtime) s s'"
    using o by simp_all
  show "i_type (inode_at f s i) \<noteq> KFS_TYPE_FREE" if "ino = 0" "ino_valid (sb_of f s) i"
  proof -
    have "unat i \<in> set [1 ..< Suc (unat (inode_count (sb_of f s)))]"
      using that(2) by (auto simp: ino_valid_def word_le_nat_alt)
    then have "i_type (inode_at f s (of_nat (unat i))) \<noteq> KFS_TYPE_FREE" using o that(1) by blast
    then show ?thesis by simp
  qed
qed

section \<open>Creating a file\<close>

lemma only_dir_same:
  assumes o: "only_dir f i s s'" and sl: "same_layout (sb_of f s') (sb_of f s)" and d: "ino_valid (sb_of f s) d" "d \<noteq> i"
  shows "is_dir f s' d = is_dir f s d" and "dir_map f s' d = dir_map f s d"
    and "dir_ok f s' d = dir_ok f s d" and "dir_distinct f s' d = dir_distinct f s d"
proof -
  have e: "inode_at f s' d = inode_at f s d" "fbyte f s' d = fbyte f s d" using o d by (simp_all add: only_dir_def)
  note v = ino_valid_layout [OF sl]
  have b: "dbytes f s' d = dbytes f s d" by (simp add: fun_eq_iff dbytes_def e)
  then have h: "hit f s' d = hit f s d" by (simp add: fun_eq_iff hit_def)
  show "is_dir f s' d = is_dir f s d" by (simp add: is_dir_def e v)
  show "dir_map f s' d = dir_map f s d" by (simp add: fun_eq_iff dir_map_def b h e)
  show "dir_ok f s' d = dir_ok f s d" by (simp add: dir_ok_def e v)
  show "dir_distinct f s' d = dir_distinct f s d" by (simp add: dir_distinct_def h e)
qed

lemma took_tree:
  assumes k: "took f ino new s s'" and sl: "same_layout (sb_of f s') (sb_of f s)" and n: "i_type new = KFS_TYPE_FILE"
    and t: "tree_ok f s"
  shows "is_dir f s' = is_dir f s" and "tree f s' = tree f s" and "tree_ok f s'"
proof -
  have o: "only_dir f ino s s'" and i: "i_type (inode_at f s ino) = KFS_TYPE_FREE" "inode_at f s' ino = new"
    using k by (simp_all add: took_def)
  note sm = only_dir_same [OF o sl] and v = ino_valid_layout [OF sl]
  have ni: "\<not> is_dir f s ino" "\<not> is_dir f s' ino" using i n by (simp_all add: is_dir_def)
  show d: "is_dir f s' = is_dir f s"
    using sm(1) ni by (simp add: fun_eq_iff) (metis is_dir_def v)
  show tr: "tree f s' = tree f s"
  proof (rule ext)
    fix x show "tree f s' x = tree f s x"
      using sm(2) [of x] ni d by (cases "is_dir f s x") (auto simp: tree_def, auto simp: is_dir_def)
  qed
  have e: "i_type (inode_at f s' x) \<noteq> KFS_TYPE_FREE" if "ino_valid (sb_of f s) x" "i_type (inode_at f s x) \<noteq> KFS_TYPE_FREE" for x
    using that o i n by (cases "x = ino") (auto simp: only_dir_def)
  have c: "dir_ok f s' x \<and> dir_distinct f s' x" if "is_dir f s x" for x
    using sm(3,4) [of x] that ni(1) tree_okD(3,4) [OF t that] by (auto simp: is_dir_def)
  note L = same_layout_fields [OF sl]
  show "tree_ok f s'" unfolding tree_ok_def d tr v using t c e L by (simp add: tree_ok_def)
qed

lemma dir_add_tree:
  assumes t: "tree_ok f s" and d: "is_dir f s dir" and sl: "same_layout (sb_of f s') (sb_of f s)" and o: "only_dir f dir s s'"
    and ok: "dir_ok f s' dir" "dir_distinct f s' dir"
    and m: "\<And>m. m \<noteq> name \<Longrightarrow> dir_map f s' dir m = dir_map f s dir m" "dir_map f s' dir name = Some ino"
    and i: "ino_valid (sb_of f s) ino" "i_type (inode_at f s ino) \<noteq> KFS_TYPE_FREE"
  shows "tree f s' = (tree f s)(dir := (tree f s dir)(name \<mapsto> ino))" and "tree_ok f s'"
proof -
  note sm = only_dir_same [OF o sl] and v = ino_valid_layout [OF sl] and L = same_layout_fields [OF sl]
  have vd: "ino_valid (sb_of f s) dir" using d by (simp add: is_dir_def)
  have d': "is_dir f s' dir" using ok(1) by (simp add: is_dir_def dir_ok_def)
  have ds: "is_dir f s' x = is_dir f s x" for x
    using sm(1) [of x] d d' by (cases "x = dir") (auto simp: is_dir_def v)
  show tr: "tree f s' = (tree f s)(dir := (tree f s dir)(name \<mapsto> ino))"
  proof (rule ext)
    fix x show "tree f s' x = ((tree f s)(dir := (tree f s dir)(name \<mapsto> ino))) x"
    proof (cases "x = dir")
      case True
      then show ?thesis using m d d' by (auto simp: tree_def fun_eq_iff)
    next
      case False
      then show ?thesis using sm(2) [of x] ds [of x] by (cases "is_dir f s x") (auto simp: tree_def, auto simp: is_dir_def)
    qed
  qed
  have e: "i_type (inode_at f s' x) \<noteq> KFS_TYPE_FREE" if "ino_valid (sb_of f s) x" "i_type (inode_at f s x) \<noteq> KFS_TYPE_FREE" for x
    using that o d' by (cases "x = dir") (auto simp: only_dir_def is_dir_def)
  have c: "dir_ok f s' x \<and> dir_distinct f s' x" if "is_dir f s x" for x
    using sm(3,4) [of x] that ok tree_okD(3,4) [OF t that] by (cases "x = dir") (auto simp: is_dir_def)
  have entry: "ino_valid (sb_of f s) j \<and> i_type (inode_at f s' j) \<noteq> KFS_TYPE_FREE" if "tree f s' x n = Some j" for x n j
  proof -
    have "j = ino \<or> tree f s x n = Some j" using that unfolding tr by (auto split: if_splits)
    then show ?thesis using i tree_okD(5,6) [OF t] e by blast
  qed
  show "tree_ok f s'" unfolding tree_ok_def ds v using t c entry L by (simp add: tree_ok_def)
qed

definition created :: "nat \<Rightarrow> u32 \<Rightarrow> cstr \<Rightarrow> u32 \<Rightarrow> kfs_inode \<Rightarrow> kfs_state \<Rightarrow> kfs_state \<Rightarrow> bool" where
  "created f dir name ino new s s' \<longleftrightarrow> is_dir f s dir \<and> tree f s dir name = None \<and>
     ino_valid (sb_of f s) ino \<and> i_type (inode_at f s ino) = KFS_TYPE_FREE \<and> inode_at f s' ino = new \<and>
     tree f s' = (tree f s)(dir := (tree f s dir)(name \<mapsto> ino)) \<and>
     (\<forall>j. ino_valid (sb_of f s) j \<and> j \<noteq> dir \<and> j \<noteq> ino \<longrightarrow> inode_at f s' j = inode_at f s j \<and> fbyte f s' j = fbyte f s j)"

lemma sint_ino: "tree_ok f s \<Longrightarrow> ino_valid (sb_of f s) i \<Longrightarrow> sint i = int (unat i) \<and> i \<noteq> 0"
  using sint_small [of i] unfolding tree_ok_def ino_valid_def by (auto simp: word_le_nat_alt word_less_nat_alt)

lemma create_locked_ok:
  assumes w: "working f s" and t: "tree_ok f s" and z: "0 \<notin> set path"
    and ret: "create_locked f path mode uid gid mtime s = (r, s')" and r: "r \<ge> 0" and nfl: "\<not> j_failed (jtx s')"
  shows "tx_frame f s s' \<and> working f s' \<and> tree_ok f s' \<and> (\<exists>pre name dir ino. components path = pre @ [name] \<and>
    length name \<le> KFS_NAME_MAX \<and> tree_walk (tree f s) (root_ino (sb_of f s)) pre = Some dir \<and> r = sint ino \<and>
    created f dir name ino (fresh_inode KFS_TYPE_FILE mode uid gid mtime) s s')"
proof -
  let ?new = "fresh_inode KFS_TYPE_FILE mode uid gid mtime"
  obtain pr name s1 where lp: "lookup_parent f path s = (pr, name, s1)" using prod_cases3 by blast
  note L = lookup_parent_ok [OF workingD(5) [OF w] t lp]
  have pr: "\<not> pr < 0" using ret lp r by (auto simp: create_locked_def)
  obtain pre dir where p: "components path = pre @ [name]" "length name \<le> KFS_NAME_MAX"
      "tree_walk (tree f s) (root_ino (sb_of f s)) pre = Some dir" "is_dir f s dir" "pr = sint dir" using L(2) pr by auto
  have dir: "word_of_int pr = dir" using p(5) by simp
  obtain ex slot s2 where dl: "dir_lookup f dir name s1 = (ex, slot, s2)" using prod_cases3 by blast
  have ex: "ex = 0" using ret lp pr dir dl r by (auto simp: create_locked_def split: if_splits)
  note T1 = looked_tree [OF L(1)] and w1 = working_looked [OF w L(1), THEN conjunct1]
  have v1: "ino_valid (sb_of f s1) dir" using p(4) lookedD(6) [OF L(1)] by (simp add: is_dir_def)
  note D = dir_lookup_tree [OF workingD(5) [OF w1] T1(3) [THEN iffD2, OF t] v1 dl]
  have l2: "looked f s s2" by (rule looked_trans [OF L(1) D(1)])
  have w2: "working f s2" and fr2: "tx_frame f s s2" using working_looked [OF w l2] by simp_all
  note T2 = looked_tree [OF l2]
  have none: "tree f s dir name = None" using D(2) ex T1(2) by simp
  obtain ino s3 where ia: "ialloc f KFS_TYPE_FILE mode uid gid mtime s2 = (ino, s3)" by fastforce
  have ino: "ino \<noteq> 0" using ret lp pr dir dl ex ia r by (auto simp: create_locked_def)
  obtain ok s4 where da: "dir_add f dir name ino mtime s3 = (ok, s4)" by fastforce
  have ok: ok and s': "s' = s4" "r = sint ino" using ret lp pr dir dl ex ia ino da r by (auto simp: create_locked_def split: bool.splits)
  have "abortable f s2 s3" by (rule tx.ialloc [OF ia abortable_self [OF workingD(1) [OF w2]]])
  then have nf3: "\<not> j_failed (jtx s3)"
    using still_open [OF tx.dir_add [OF da abortable_refl]] nfl s'(1) by simp
  note I = ialloc_ok [OF w2 ia nf3]
  have tk: "took f ino ?new s2 s3" by (rule I(3) [OF ino])
  have fl: "i_type ?new = KFS_TYPE_FILE" by (simp add: fresh_inode_def)
  have t2: "tree_ok f s2" and d2: "is_dir f s2 dir" using T2 t p(4) by simp_all
  note T3 = took_tree [OF tk tx_frameD(2) [OF I(1)] fl t2]
  have d3: "is_dir f s3 dir" using T3(1) d2 by simp
  have g: "good_name name" using p(1,2) z components_byte [of name path] by (auto simp: good_name_def)
  have "tree f s3 dir name = None" using none T2(2) T3(2) by simp
  then have nm3: "dir_map f s3 dir name = None" using d3 by (simp add: tree_def)
  note A = dir_add_ok [OF I(2) tree_okD(3) [OF T3(3) d3] g ino da [unfolded eqTrueI [OF ok]] nfl [unfolded s'(1)]]
  have vi: "ino_valid (sb_of f s) ino" "i_type (inode_at f s ino) = KFS_TYPE_FREE"
    using tk lookedD(6) [OF l2] looked_same(1) [OF l2] by (simp_all add: took_def)
  have v3: "ino_valid (sb_of f s3) j = ino_valid (sb_of f s) j" for j
    using ino_valid_layout [OF tx_frameD(2) [OF I(1)]] lookedD(6) [OF l2] by simp
  have i3: "inode_at f s3 ino = ?new" using tk by (simp add: took_def)
  have ti: "i_type (inode_at f s3 ino) \<noteq> KFS_TYPE_FREE" using i3 fl by simp
  have vi3: "ino_valid (sb_of f s3) ino" using vi v3 by simp
  note T4 = dir_add_tree [OF T3(3) d3 tx_frameD(2) [OF A(1)] A(4) A(3) A(7) [OF tree_okD(4) [OF T3(3) d3] nm3] A(5) A(6) [OF nm3]
      vi3 ti]
  have nd: "ino \<noteq> dir" using vi(2) p(4) by (auto simp: is_dir_def)
  have "created f dir name ino ?new s s4" unfolding created_def
  proof (intro conjI allI impI)
    show "inode_at f s4 ino = ?new" using A(4) vi nd v3 i3 by (simp add: only_dir_def)
    show "tree f s4 = (tree f s)(dir := (tree f s dir)(name \<mapsto> ino))" using T4(1) T3(2) T2(2) by simp
    fix j assume j: "ino_valid (sb_of f s) j \<and> j \<noteq> dir \<and> j \<noteq> ino"
    have a: "inode_at f s4 j = inode_at f s3 j" "fbyte f s4 j = fbyte f s3 j" using A(4) j v3 by (simp_all add: only_dir_def)
    have b: "inode_at f s3 j = inode_at f s2 j" "fbyte f s3 j = fbyte f s2 j"
      using tk j lookedD(6) [OF l2] by (simp_all add: took_def only_dir_def)
    show "inode_at f s4 j = inode_at f s j" "fbyte f s4 j = fbyte f s j" using a b looked_same [OF l2] by simp_all
  qed (use p none vi in simp_all)
  moreover have "tx_frame f s s4" by (rule tx_frame_trans [OF fr2 tx_frame_trans [OF I(1) A(1)]])
  ultimately show ?thesis using A(2) T4(2) p s' by blast
qed

lemma call_commits:
  assumes id: "kfs_idle f s" and nf: "no_faults s f" and ret: "in_journal f body s = (r, s')" and r: "r \<ge> 0"
    and ab: "\<And>s1 q s2. \<lbrakk>body s1 = (q, s2); abortable f s1 s1\<rbrakk> \<Longrightarrow> abortable f s1 s2"
    and eff: "\<And>s1 s2. \<lbrakk>working f s1; view f s1 = view f s; sb_of f s1 = sb_of f s; body s1 = (r, s2); \<not> j_failed (jtx s2)\<rbrakk> \<Longrightarrow> tx_frame f s1 s2 \<and> fs_wf f s2"
  shows "\<exists>s1 s2. working f s1 \<and> view f s1 = view f s \<and> sb_of f s1 = sb_of f s \<and> body s1 = (r, s2) \<and> \<not> j_failed (jtx s2) \<and>
    fs_wf f s2 \<and> tx_frame f s1 s2 \<and> kfs_idle f s' \<and> sb_of f s' = sb_of f s2 \<and> no_faults s' f \<and>
    (\<forall>b. usable f s2 b \<longrightarrow> view f s' b = view f s2 b)"
proof -
  have m: "mounted (fss s f)" and na: "\<not> j_active (jtx s)" using id by (simp_all add: kfs_idle_def)
  obtain s1 where jb: "journal_begin f s = (True, s1)" using na by (simp add: journal_begin_def)
  note e = idle_begin [OF id jb]
  obtain q s2 where bd: "body s1 = (q, s2)" by fastforce
  obtain ok s3 where cm: "journal_commit f s2 = (ok, s3)" by fastforce
  have q: "q = r" "ok" "s' = s3" using ret jb bd cm r by (auto simp: in_journal_def split: if_splits)
  have sb1: "sb_of f s1 = sb_of f s" using e(3) by simp
  have w1: "working f s1" using e(1,3,4) nf m view_same(4) [OF e(2) sb1] id by (simp add: working_def kfs_idle_def)
  have a: "abortable f s1 s2" by (rule ab [OF bd abortable_self [OF e(1)]])
  have nfl: "\<not> j_failed (jtx s2)"
    using cm q(2) by (auto simp: journal_commit_def commit_body_def split: if_splits prod.splits)
  have fr: "tx_frame f s1 s2" and wf2: "fs_wf f s2" using eff [OF w1 e(2) sb1 _ nfl] bd q(1) by simp_all
  have tx2: "in_tx f s2" by (rule tx_frameD(1) [OF fr])
  have m2: "mounted (fss s2 f)" using fr m e(3) by (simp add: tx_frame_def)
  have cl: "jh_clean (fs_block s2 f (unat (journal_start (sb_of f s2))))"
    using fr e(6) same_layout_fields [OF tx_frameD(2) [OF fr]] by (simp add: tx_frame_def)
  note c = idle_commit [OF tx2 wf2 m2 cl cm [unfolded eqTrueI [OF q(2)]]]
  have "no_faults s3 f" using c(3) tx_frameD(7) [OF fr] e(4) nf by simp
  then show ?thesis using w1 e(2) sb1 bd q nfl fr wf2 c by (intro exI [of _ s1] exI [of _ s2]) simp
qed

lemma tree_home:
  assumes wf: "fs_wf f s" and t: "tree_ok f s" and sb: "sb_of f s' = sb_of f s"
    and v: "\<And>b. usable f s b \<Longrightarrow> view f s' b = view f s b"
  shows "tree f s' = tree f s" and "tree_ok f s'" and "is_dir f s' = is_dir f s"
proof -
  note h = home_view_same [OF wf sb v]
  have sl: "same_layout (sb_of f s') (sb_of f s)" by (simp add: sb same_layout_refl)
  have "only_dir f 0 s s'" using h by (simp add: only_dir_def)
  note sm = only_dir_same [OF this sl]
  have z: "d \<noteq> 0" if "ino_valid (sb_of f s) d" for d using that by (auto simp: ino_valid_def)
  show d: "is_dir f s' = is_dir f s" using sm(1) z by (simp add: fun_eq_iff) (metis is_dir_def sb)
  have dm: "dir_map f s' x = dir_map f s x" "dir_ok f s' x = dir_ok f s x" "dir_distinct f s' x = dir_distinct f s x"
    if "is_dir f s x" for x using sm(2-4) [of x] z that by (auto simp: is_dir_def)
  show tr: "tree f s' = tree f s" using dm(1) by (auto simp: tree_def d)
  show "tree_ok f s'" unfolding tree_ok_def d tr sb using t dm(2,3) h(2) by (simp add: tree_ok_def)
qed

lemma view_tree:
  assumes "view f s' = view f s" and "sb_of f s' = sb_of f s"
  shows "tree f s' = tree f s" and "tree_ok f s' = tree_ok f s" and "is_dir f s' = is_dir f s"
proof -
  note v = view_same [OF assms]
  have b: "dbytes f s' = dbytes f s" by (simp add: fun_eq_iff dbytes_def v)
  then have h: "hit f s' = hit f s" by (simp add: fun_eq_iff hit_def)
  show d: "is_dir f s' = is_dir f s" by (simp add: fun_eq_iff is_dir_def v assms(2))
  show t: "tree f s' = tree f s" by (simp add: fun_eq_iff tree_def d dir_map_def b h v)
  show "tree_ok f s' = tree_ok f s" by (simp add: tree_ok_def d t assms(2) v dir_ok_def dir_distinct_def h)
qed

lemma kfs_create_ok:
  assumes id: "kfs_idle f s" and nf: "no_faults s f" and t: "tree_ok f s" and z: "0 \<notin> set path"
    and ret: "kfs_create f path mode uid gid mtime s = (r, s')" and r: "r \<ge> 0"
  shows "kfs_idle f s' \<and> no_faults s' f \<and> tree_ok f s' \<and> same_layout (sb_of f s') (sb_of f s) \<and>
    (\<exists>pre name dir ino. components path = pre @ [name] \<and> length name \<le> KFS_NAME_MAX \<and>
      tree_walk (tree f s) (root_ino (sb_of f s)) pre = Some dir \<and> r = sint ino \<and>
      created f dir name ino (fresh_inode KFS_TYPE_FILE mode uid gid mtime) s s')"
proof -
  have "mounted (fss s f)" using id by (simp add: kfs_idle_def)
  then have run: "in_journal f (create_locked f path mode uid gid mtime) s = (r, s')" using ret by (simp add: kfs_create_def)
  let ?P = "\<lambda>s1 s2 s'. \<exists>pre name dir ino. components path = pre @ [name] \<and> length name \<le> KFS_NAME_MAX \<and>
      tree_walk (tree f s1) (root_ino (sb_of f s1)) pre = Some dir \<and> r = sint ino \<and>
      created f dir name ino (fresh_inode KFS_TYPE_FILE mode uid gid mtime) s1 s2"
  have eff: "tx_frame f s1 s2 \<and> working f s2 \<and> tree_ok f s2 \<and> ?P s1 s2 s2"
    if "working f s1" "view f s1 = view f s" "sb_of f s1 = sb_of f s"
      "create_locked f path mode uid gid mtime s1 = (r, s2)" "\<not> j_failed (jtx s2)" for s1 s2
    using create_locked_ok [OF that(1) _ z that(4) r that(5)] view_tree(2) [OF that(2,3)] t by blast
  obtain s1 s2 where c: "working f s1" "view f s1 = view f s" "sb_of f s1 = sb_of f s"
    "create_locked f path mode uid gid mtime s1 = (r, s2)" "\<not> j_failed (jtx s2)" "fs_wf f s2" "tx_frame f s1 s2"
    "kfs_idle f s'" "sb_of f s' = sb_of f s2" "no_faults s' f" "\<And>b. usable f s2 b \<Longrightarrow> view f s' b = view f s2 b"
  proof -
    have "\<exists>s1 s2. working f s1 \<and> view f s1 = view f s \<and> sb_of f s1 = sb_of f s \<and>
      create_locked f path mode uid gid mtime s1 = (r, s2) \<and> \<not> j_failed (jtx s2) \<and>
      fs_wf f s2 \<and> tx_frame f s1 s2 \<and> kfs_idle f s' \<and> sb_of f s' = sb_of f s2 \<and> no_faults s' f \<and>
      (\<forall>b. usable f s2 b \<longrightarrow> view f s' b = view f s2 b)"
      by (rule call_commits [OF id nf run r]) (erule (1) tx.create_locked, use eff workingD(2) in blast)
    then show ?thesis using that by blast
  qed
  note E = eff [OF c(1-5)] and V = view_same [OF c(2,3)] view_tree [OF c(2,3)]
  note H = tree_home [OF c(6) _ c(9,11)] and hv = home_view_same [OF c(6,9,11)]
  have sl: "same_layout (sb_of f s2) (sb_of f s)" using tx_frameD(2) [OF c(7)] c(3) by simp
  have v: "ino_valid (sb_of f s2) j = ino_valid (sb_of f s) j" for j by (rule ino_valid_layout [OF sl])
  have "created f dir name ino new s s'" if "created f dir name ino new s1 s2" for dir name ino new
    using that H(1) E hv(2,3) unfolding created_def V c(3) v by auto
  then show ?thesis using c(3,8,9,10) H(2) E sl unfolding V by metis
qed

section \<open>When creating succeeds\<close>

lemma writei_one_block:
  assumes "writei f ino off src mtime s = (r, s')" and "src \<noteq> []" and "unat off mod KFS_BLOCK_SIZE + length src \<le> KFS_BLOCK_SIZE"
  shows "r = - 1 \<or> r = int (length src)"
proof -
  have "rest = src \<or> rest = []" if "writei_loop f ino ip (unat off) src s1 = (rest, ip1, s2)" for ip s1 rest ip1 s2
  proof -
    have "chunk_at (unat off) (length src) = length src" using assms(3) by (simp add: chunk_at_def)
    then show ?thesis using that assms(2)
      by (auto simp: writei_loop.simps [of _ _ _ "unat off" src] writei_loop.simps [of _ _ _ _ "[]"] Let_def
          split: prod.splits if_splits bool.splits)
  qed
  then show ?thesis using assms(1,2)
    by (auto simp: writei_def split: prod.splits option.splits if_splits) fastforce+
qed

lemma jroom_looked: "looked f s s' \<Longrightarrow> jroom f s' k = jroom f s k"
  by (rule jroom_jtx [OF lookedD(4)])

lemma jroom_ialloc:
  assumes "ialloc f ty mode uid gid mtime s = (ino, s')" and "jroom f s (Suc k)" shows "jroom f s' k"
proof -
  have "ialloc_loop f new is s = (ino, s') \<Longrightarrow> jroom f s (Suc k) \<Longrightarrow> jroom f s' k" for new "is" s
  proof (induction "is" arbitrary: s)
    case Nil
    then show ?case using jroom_less by fastforce
  next
    case (Cons i "is")
    obtain x s1 where g: "iget f (of_nat i) s = (x, s1)" by fastforce
    have j1: "jroom f s1 (Suc k)" using jroom_iget [OF g] Cons.prems(2) by simp
    then have j0: "jroom f s1 k" using jroom_less by fastforce
    obtain q s2 where pt: "iput f (of_nat i) new s1 = (q, s2)" by fastforce
    note j2 = jroom_iput [OF pt j1]
    show ?case using Cons.prems(1) g j0 j2 Cons.IH [OF _ j1] pt by (auto split: option.splits if_splits bool.splits)
  qed
  then show ?thesis using assms unfolding ialloc_def by blast
qed

lemma dir_add_live:
  assumes w: "working f s" and d: "dir_ok f s dir" and ol: "\<not> one_left f s" and fit: "64 * dcount f s dir + 64 \<le> 4235264"
    and j: "jroom f s (k + 11)" and ret: "dir_add f dir name ino mtime s = (ok, s')"
  shows "ok \<and> jroom f s' k"
proof -
  let ?de = "enc_dirent \<lparr>d_ino = ino, d_name = pad_name name\<rparr>"
  obtain i s2 r where l2: "looked f s s2" and i: "i \<le> dcount f s dir"
    and wr: "writei f dir (of_nat (64 * i)) ?de mtime s2 = (r, s')" and okr: "ok \<longleftrightarrow> r = 64"
    using dir_add_steps [OF w d ret] by blast
  have off: "unat (of_nat (64 * i) :: u32) = 64 * i" using i fit by (subst unat_of_nat) simp
  have blk: "64 * i mod KFS_BLOCK_SIZE + length ?de \<le> 1 * KFS_BLOCK_SIZE"
  proof -
    have "64 * i mod 4096 = 64 * (i mod 64)" using mult_mod_right [of 64 i 64] by simp
    moreover have "i mod 64 < 64" by simp
    ultimately show ?thesis by simp
  qed
  have "jroom f s2 (k + 10 * 1 + 1)" using j jroom_looked [OF l2] by (simp add: add.commute)
  then have j3: "jroom f s' k" by (rule jroom_writei [OF wr, unfolded off, OF blk])
  then have nfl: "\<not> j_failed (jtx s')" by (simp add: jroom_def)
  have w2: "working f s2" using working_looked [OF w l2] by simp
  have d2: "dir_ok f s2 dir" using d looked_dents [OF l2] by simp
  have ne: "?de \<noteq> []" by (simp add: enc_dirent_def le32_def)
  have f2: "unat (of_nat (64 * i) :: u32) + length ?de \<le> unat KFS_MAX_FILE_SIZE" using off i fit by simp
  have ty: "i_type (inode_at f s2 dir) \<noteq> KFS_TYPE_FREE" using dir_okD(2) [OF d2] by simp
  note o = writei_ok [OF workingD(1,2) [OF w2] dir_okD(1) [OF d2] workingD(4,3) [OF w2] ty ne f2 wr nfl]
  have "\<not> one_left f s2" using ol view_same(3) [OF lookedD(2,6) [OF l2]] lookedD(6) [OF l2] by (simp add: one_left_def)
  then have "r \<noteq> - 1" using o(2) by (auto split: if_splits)
  then show ?thesis using writei_one_block [OF wr ne] blk off okr j3 by simp
qed

lemma parent_walk_live:
  assumes "readable f s" and "tree_ok f s" and "is_dir f s cur" and "length cname \<le> KFS_NAME_MAX"
    and "cname # components p = pre @ [name]" and "length name \<le> KFS_NAME_MAX"
    and "tree_walk (tree f s) cur pre = Some dir" and "is_dir f s dir"
  shows "fst (parent_walk f cur cname p s) = sint dir"
  using assms
proof (induction f cur cname p s arbitrary: pre rule: parent_walk.induct)
  case (1 f cur cname p s)
  note pw = parent_walk.simps [of f cur cname p s]
  show ?case
  proof (cases "skip_slashes p = []")
    case True
    have "components p = []" using components_skip [of p] True by (simp add: components_def)
    then show ?thesis using True "1.prems"(5,7) pw by simp
  next
    case False
    then obtain n ns where cp: "components p = n # ns" using components_step by blast
    then obtain pre' where pre: "pre = cname # pre'" "n # ns = pre' @ [name]" using "1.prems"(5) by (cases pre) auto
    obtain nino where ni: "tree f s cur cname = Some nino" "tree_walk (tree f s) nino pre' = Some dir"
      using "1.prems"(7) pre(1) by (auto split: if_splits option.splits)
    have vc: "ino_valid (sb_of f s) cur" using "1.prems"(3) by (simp add: is_dir_def)
    obtain m slot s1 where dl: "dir_lookup f cur cname s = (m, slot, s1)" using prod_cases3 by blast
    note e = dir_lookup_tree [OF "1.prems"(1,2) vc dl]
    have m: "m = nino" "nino \<noteq> 0" using e(2) ni(1) by (auto split: if_splits)
    have nd: "is_dir f s nino"
    proof (cases pre')
      case Nil
      then show ?thesis using ni(2) "1.prems"(8) by simp
    next
      case (Cons a as)
      then have "tree f s nino a \<noteq> None" using ni(2) by (auto split: if_splits option.splits)
      then show ?thesis by (auto simp: tree_def split: if_splits)
    qed
    have n59: "length n \<le> KFS_NAME_MAX" using pre(2) ni(2) "1.prems"(6) by (cases pre') (auto split: if_splits)
    obtain x s2 where g: "iget f nino s1 = (x, s2)" by fastforce
    have rd1: "readable f s1" by (rule readable_looked [OF e(1) "1.prems"(1)])
    then have st: "store_ok f s1" "fs_wf f s1" by (simp_all add: readable_def)
    note l = looked_iget [OF st(1) fs_wfD(1) [OF st(2)] g]
    have l2: "looked f s s2" by (rule looked_trans [OF e(1) l(1)])
    have x: "x = Some (inode_at f s nino)"
      using l(2,3) nd rd1 looked_same(1) [OF e(1)] lookedD(6) [OF e(1)] by (auto simp: is_dir_def readable_def)
    have xd: "i_type (inode_at f s nino) = KFS_TYPE_DIR" using nd by (simp add: is_dir_def)
    obtain rest where pn: "path_next p = P_comp n rest" "ns = components rest"
      using path_next_components [of p] cp n59 by (cases "path_next p") auto
    note t2 = looked_tree [OF l2]
    have "fst (parent_walk f nino n rest s2) = sint dir"
      by (rule "1.IH" [OF False dl [unfolded m(1), symmetric] refl m(2) g [symmetric] x _ pn(1), where pre = pre'])
        (use xd pn(2) pre(2) n59 t2 nd ni(2) "1.prems"(1,2,6,8) readable_looked [OF l2] in simp_all)
    then show ?thesis using pw False dl m g x xd pn(1) by simp
  qed
qed

text \<open>What the tree and the volume must offer for a name to be created.\<close>

definition can_create :: "nat \<Rightarrow> kfs_state \<Rightarrow> cstr \<Rightarrow> cstr list \<Rightarrow> cstr \<Rightarrow> u32 \<Rightarrow> bool" where
  "can_create f s path pre name dir \<longleftrightarrow> 0 \<notin> set path \<and> take 1 path = [ch_slash] \<and> components path = pre @ [name] \<and>
     length name \<le> KFS_NAME_MAX \<and> tree_walk (tree f s) (root_ino (sb_of f s)) pre = Some dir \<and> is_dir f s dir \<and>
     tree f s dir name = None \<and> unat (i_size (inode_at f s dir)) + 64 \<le> unat KFS_MAX_FILE_SIZE \<and> \<not> one_left f s \<and>
     (\<exists>i. ino_valid (sb_of f s) i \<and> i_type (inode_at f s i) = KFS_TYPE_FREE)"

lemma lookup_parent_live:
  assumes rd: "readable f s" and t: "tree_ok f s" and c: "can_create f s path pre name dir"
  shows "\<exists>s1. lookup_parent f path s = (sint dir, name, s1)"
proof -
  note C = c [unfolded can_create_def]
  have m: "mounted (fss s f)" using rd by (simp add: readable_def)
  obtain n p where pn: "path_next path = P_comp n p"
    using path_next_components(1,2) [of path] C by (cases "path_next path"; cases pre) (auto split: if_splits)
  have w: "lookup_parent f path s = parent_walk f (root_ino (sb_of f s)) n p s" using m C pn by (simp add: lookup_parent_def)
  obtain r nm s1 where lp: "lookup_parent f path s = (r, nm, s1)" using prod_cases3 by blast
  have r: "r = sint dir"
    using parent_walk_live [OF rd t tree_okD(1) [OF t] path_next_comp(3) [OF pn], of p pre name dir]
      path_next_components(3) [OF pn] C by (simp add: lp [unfolded w])
  have "sint dir = int (unat dir)" using sint_ino [OF t] C by (simp add: is_dir_def)
  then have "r \<noteq> - 1" using r by linarith
  then have "nm = name" using lookup_parent_ok(2) [OF rd t lp] C by auto
  then show ?thesis using lp r by simp
qed

lemma create_locked_live:
  assumes w: "working f s" and t: "tree_ok f s" and c: "can_create f s path pre name dir" and j: "jroom f s 12"
    and ret: "create_locked f path mode uid gid mtime s = (r, s')"
  shows "r \<ge> 0" and "\<not> j_failed (jtx s')"
proof -
  note C = c [unfolded can_create_def]
  have d: "is_dir f s dir" and v: "ino_valid (sb_of f s) dir" using C by (simp_all add: is_dir_def)
  obtain s1 where lp: "lookup_parent f path s = (sint dir, name, s1)" using lookup_parent_live [OF workingD(5) [OF w] t c] by blast
  note L = lookup_parent_ok(1) [OF workingD(5) [OF w] t lp]
  have pos: "\<not> sint dir < 0" using sint_ino [OF t v] by simp
  obtain ex slot s2 where dl: "dir_lookup f dir name s1 = (ex, slot, s2)" using prod_cases3 by blast
  note T1 = looked_tree [OF L] and w1 = working_looked [OF w L, THEN conjunct1]
  have v1: "ino_valid (sb_of f s1) dir" using v lookedD(6) [OF L] by simp
  note D = dir_lookup_tree [OF workingD(5) [OF w1] T1(3) [THEN iffD2, OF t] v1 dl]
  have ex: "ex = 0" using D(2) C T1(2) by (auto split: if_splits)
  have l2: "looked f s s2" by (rule looked_trans [OF L D(1)])
  have w2: "working f s2" using working_looked [OF w l2] by simp
  note T2 = looked_tree [OF l2]
  obtain ino s3 where ia: "ialloc f KFS_TYPE_FILE mode uid gid mtime s2 = (ino, s3)" by fastforce
  have j3: "jroom f s3 11" using jroom_ialloc [OF ia, of 11] j jroom_looked [OF l2] by simp
  then have nf3: "\<not> j_failed (jtx s3)" by (simp add: jroom_def)
  note I = ialloc_ok [OF w2 ia nf3]
  obtain i where i: "ino_valid (sb_of f s) i" "i_type (inode_at f s i) = KFS_TYPE_FREE" using C by blast
  have ino: "ino \<noteq> 0"
  proof
    assume "ino = 0"
    from I(4) [OF this] i show False using lookedD(6) [OF l2] looked_same(1) [OF l2] by fastforce
  qed
  note tk = I(3) [OF ino]
  note T3 = took_tree [OF tk tx_frameD(2) [OF I(1)] _ T2(3) [THEN iffD2, OF t]]
  have fl: "i_type (fresh_inode KFS_TYPE_FILE mode uid gid mtime) = KFS_TYPE_FILE" by (simp add: fresh_inode_def)
  have d3: "dir_ok f s3 dir" using tree_okD(3) [OF T3(3)] T3(1) T2(1) d fl by simp
  have "i_type (inode_at f s2 ino) = KFS_TYPE_FREE" using tk by (simp add: took_def)
  then have nd: "ino \<noteq> dir" using d looked_same(1) [OF l2] by (auto simp: is_dir_def)
  have sz: "inode_at f s3 dir = inode_at f s dir"
    using tk nd v lookedD(6) [OF l2] looked_same(1) [OF l2] by (simp add: took_def only_dir_def)
  have tot: "unat (total_blocks (sb_of f s)) \<le> unat (bitmap_blocks (sb_of f s)) * BITS_PER_BLOCK"
    using layout_okD(7) [OF fs_wfD(1) [OF workingD(2) [OF w]]] by simp
  have "one_left f s3 \<Longrightarrow> one_left f s"
    using tk lookedD(6) [OF l2] view_same(3) [OF lookedD(2,6) [OF l2]] same_layout_fields [OF tx_frameD(2) [OF I(1)]] tot
    unfolding took_def one_left_def by (metis order_less_le_trans)
  then have ol: "\<not> one_left f s3" using C by blast
  obtain ok s4 where da: "dir_add f dir name ino mtime s3 = (ok, s4)" by fastforce
  have fit: "64 * dcount f s3 dir + 64 \<le> 4235264" using dir_okD(3) [OF d3] sz C by simp
  have A: "ok \<and> jroom f s4 0" by (rule dir_add_live [OF I(2) d3 ol fit _ da]) (use j3 in simp)
  have rs: "r = sint ino" "s' = s4" using ret lp pos dl ex ia ino da A by (simp_all add: create_locked_def)
  have "ino_valid (sb_of f s) ino" using tk lookedD(6) [OF l2] by (simp add: took_def)
  then show "r \<ge> 0" using rs sint_ino [OF t] by simp
  show "\<not> j_failed (jtx s')" using A rs by (simp add: jroom_def)
qed

lemma one_left_view: "view f s' = view f s \<Longrightarrow> sb_of f s' = sb_of f s \<Longrightarrow> one_left f s' = one_left f s"
  using view_same(3) [of f s' s] by (simp add: one_left_def)

lemma kfs_create_live:
  assumes id: "kfs_idle f s" and nf: "no_faults s f" and t: "tree_ok f s" and c: "can_create f s path pre name dir"
    and ret: "kfs_create f path mode uid gid mtime s = (r, s')"
  shows "r \<ge> 0"
proof -
  have m: "mounted (fss s f)" and na: "\<not> j_active (jtx s)" using id by (simp_all add: kfs_idle_def)
  obtain s1 where jb: "journal_begin f s = (True, s1)" using na by (simp add: journal_begin_def)
  note e = idle_begin [OF id jb]
  have sb1: "sb_of f s1 = sb_of f s" using e(3) by simp
  note V = view_same [OF e(2) sb1] view_tree [OF e(2) sb1]
  have w1: "working f s1" using e(1,3,4) nf m V(4) id by (simp add: working_def kfs_idle_def)
  have c1: "can_create f s1 path pre name dir"
    using c one_left_view [OF e(2) sb1] unfolding can_create_def V sb1 by blast
  obtain q s2 where bd: "create_locked f path mode uid gid mtime s1 = (q, s2)" by fastforce
  have t1: "tree_ok f s1" using t V by simp
  have j: "jroom f s1 12" by (rule jroom_less [OF e(5)]) simp
  note l = create_locked_live [OF w1 t1 c1 j bd]
  have "0 \<notin> set path" using c by (simp add: can_create_def)
  then have fr: "tx_frame f s1 s2" using create_locked_ok [OF w1 t1 _ bd l] by blast
  obtain s3 where "journal_commit f s2 = (True, s3)"
    using commit_succeeds [OF tx_frameD(1) [OF fr] _ l(2)] tx_frameD(7) [OF fr] e(4) nf by auto
  then show ?thesis using ret m jb bd l(1) by (simp add: kfs_create_def in_journal_def)
qed

section \<open>Properties of paths and names\<close>

lemma tree_walk_mono:
  assumes "\<And>d n i. T d n = Some i \<Longrightarrow> T' d n = Some i" and "tree_walk T cur ns = Some i"
  shows "tree_walk T' cur ns = Some i"
  using assms(2) by (induction ns arbitrary: cur) (auto split: if_splits option.splits dest: assms(1))

lemma tree_walk_append: "tree_walk T cur (ns @ ms) = (case tree_walk T cur ns of None \<Rightarrow> None | Some d \<Rightarrow> tree_walk T d ms)"
  by (induction ns arbitrary: cur) (auto split: option.splits)

lemma demo_inodes: "ino_valid demo_sb i \<Longrightarrow> inode_at 0 demo_vol i = (if i = 1 then demo_root else if i = 2 then demo_file else zero_inode)"
proof -
  assume v: "ino_valid demo_sb i"
  then have i: "1 \<le> unat i" "unat i \<le> 64" by (simp_all add: ino_valid_def demo_sb_def word_le_nat_alt)
  then have "unat (i - 1) = unat i - 1" by (simp add: unat_sub word_le_nat_alt)
  then have "unat ((i - 1) mod KFS_INODES_PER_BLOCK) = unat i - 1" using i by (simp add: unat_mod_distrib)
  moreover have "unat i - 1 = 0 \<longleftrightarrow> i = 1" "unat i - 1 = 1 \<longleftrightarrow> i = 2"
    using i by (auto simp: word_unat_eq_iff)
  ultimately show ?thesis using v by (subst demo_vol_inode) simp
qed

lemma demo_tree: "is_dir 0 demo_vol i \<longleftrightarrow> i = 1" "tree 0 demo_vol = (\<lambda>_ _. None)" "tree_ok 0 demo_vol"
proof -
  have one: "ino_valid demo_sb 1" by (simp add: ino_valid_def demo_sb_def)
  have root: "inode_at 0 demo_vol 1 = demo_root" using demo_inodes [OF one] by simp
  have sz: "i_size demo_root = 0" "i_type demo_root = KFS_TYPE_DIR" by (simp_all add: demo_root_def zero_inode_def)
  show d: "is_dir 0 demo_vol i \<longleftrightarrow> i = 1" for i
    using demo_inodes [of i] one root sz by (auto simp: is_dir_def demo_file_def zero_inode_def split: if_splits)
  have "dir_map 0 demo_vol 1 n = None" for n by (simp add: dir_map_def root sz first_from.simps)
  then show t: "tree 0 demo_vol = (\<lambda>_ _. None)" by (simp add: fun_eq_iff tree_def d)
  have "dir_ok 0 demo_vol 1" "dir_distinct 0 demo_vol 1"
    using one by (simp_all add: dir_ok_def dir_distinct_def root sz)
  then show "tree_ok 0 demo_vol" by (simp add: tree_ok_def d t) (simp add: demo_sb_def)
qed

lemma demo_can_create: "can_create 0 demo_vol [ch_slash, 97] [] [97] 1"
proof -
  have v: "ino_valid demo_sb 3" by (simp add: ino_valid_def demo_sb_def)
  then have "i_type (inode_at 0 demo_vol 3) = KFS_TYPE_FREE" using demo_inodes [OF v] by (simp add: zero_inode_def)
  moreover have "ino_valid demo_sb 1" by (simp add: ino_valid_def demo_sb_def)
  then have "i_size (inode_at 0 demo_vol 1) = 0" using demo_inodes by (simp add: demo_root_def zero_inode_def)
  ultimately show ?thesis
    using v demo_vol_room demo_tree by (auto simp: can_create_def components_def demo_sb_def)
qed

text \<open>
  C14. Path lookup implements walking the tree of names: on a sound volume, \<^verbatim>\<open>kfs_lookup\<close> of an absolute
  path returns the inode reached from the root along the path's components, whatever slashes
  separate them, and -1 if a component is missing or longer than 59 bytes; it changes nothing that
  later calls can see.
\<close>

theorem kfs_lookup_walks:
  assumes "kfs_idle f s" and "no_faults s f" and "tree_ok f s"
  shows "case kfs_lookup f (ch_slash # path) s of (r, s') \<Rightarrow> kfs_idle f s' \<and> tree f s' = tree f s \<and>
    r = (case tree_walk (tree f s) (root_ino (sb_of f s)) (components path) of None \<Rightarrow> - 1 | Some i \<Rightarrow> int (unat i))"
proof -
  obtain r s' where ret: "kfs_lookup f (ch_slash # path) s = (r, s')" by fastforce
  have rd: "readable f s" using assms by (simp add: readable_def kfs_idle_def)
  have v: "ino_valid (sb_of f s) (root_ino (sb_of f s))" using tree_okD(1) [OF assms(3)] by (simp add: is_dir_def)
  have "lookup_walk f (root_ino (sb_of f s)) (ch_slash # path) s = (r, s')"
    using ret rd by (simp add: kfs_lookup_def lookup_path_def readable_def)
  note l = lookup_walk_ok [OF rd assms(3) v this]
  have c: "components (ch_slash # path) = components path" by (simp add: components_def)
  have "kfs_idle f s'" using assms(1) l lookedD [of f s s'] looked_same(3) [of f s s'] by (simp add: kfs_idle_def)
  moreover have "sint i = int (unat i)" if "tree_walk (tree f s) (root_ino (sb_of f s)) ns = Some i" for i ns
  proof -
    have "ino_valid (sb_of f s) cur \<Longrightarrow> tree_walk (tree f s) cur ns = Some i \<Longrightarrow> ino_valid (sb_of f s) i" for cur
      by (induction ns arbitrary: cur) (auto split: if_splits option.splits dest: tree_okD(5) [OF assms(3)])
    then show ?thesis using that v sint_ino [OF assms(3)] by blast
  qed
  ultimately show ?thesis using l looked_tree(2) [of f s s'] unfolding ret c by (auto split: option.splits)
qed

theorem kfs_lookup_walks_witness:
  "fst (kfs_lookup 0 [ch_slash, ch_slash] demo_vol) = 1 \<and> fst (kfs_lookup 0 [ch_slash, 97] demo_vol) = - 1"
  using kfs_lookup_walks [OF demo_vol_idle _ demo_tree(3), of "[ch_slash]"]
    kfs_lookup_walks [OF demo_vol_idle _ demo_tree(3), of "[97]"]
  by (auto simp: components_def demo_tree demo_sb_def split: prod.splits)

text \<open>
  C12. Creating a file succeeds whenever it can, and does exactly that: if the directory part of the
  path resolves to a directory that has room, the name is new and at most 59 bytes long, an inode is
  free and the disk is not full, then \<^verbatim>\<open>kfs_create\<close> returns a formerly free inode that is now an empty
  file with the requested mode and owner; the tree of names gains that one entry, every other inode
  and its contents are as before, and all of it is committed to the medium.
\<close>

theorem kfs_create_adds_name:
  assumes "kfs_idle f s" and "no_faults s f" and "tree_ok f s" and c: "can_create f s path pre name dir"
  shows "case kfs_create f path mode uid gid mtime s of (r, s') \<Rightarrow> kfs_idle f s' \<and> tree_ok f s' \<and>
    (\<exists>ino. r = int (unat ino) \<and> created f dir name ino (fresh_inode KFS_TYPE_FILE mode uid gid mtime) s s')"
proof -
  obtain r s' where ret: "kfs_create f path mode uid gid mtime s = (r, s')" by fastforce
  have z: "0 \<notin> set path" using c by (simp add: can_create_def)
  from kfs_create_ok [OF assms(1-3) z ret kfs_create_live [OF assms ret]] obtain pre' name' dir' ino
    where o: "kfs_idle f s'" "tree_ok f s'" "components path = pre' @ [name']"
      "tree_walk (tree f s) (root_ino (sb_of f s)) pre' = Some dir'" "r = sint ino"
      "created f dir' name' ino (fresh_inode KFS_TYPE_FILE mode uid gid mtime) s s'" by blast
  have "pre' = pre" "name' = name" using o(3) c by (simp_all add: can_create_def)
  moreover have "dir' = dir" using calculation o(4) c by (simp add: can_create_def)
  moreover have "sint ino = int (unat ino)" using sint_ino [OF assms(3)] o(6) by (simp add: created_def)
  ultimately show ?thesis using o unfolding ret by auto
qed

theorem kfs_create_adds_name_witness:
  "case kfs_create 0 [ch_slash, 97] 420 7 8 9 demo_vol of (r, s') \<Rightarrow>
     kfs_idle 0 s' \<and> tree 0 s' 1 [97] = Some (of_int r) \<and> i_uid (inode_at 0 s' (of_int r)) = 7"
  using kfs_create_adds_name [OF demo_vol_idle _ demo_tree(3) demo_can_create, of 420 7 8 9]
  by (auto simp: created_def fresh_inode_def split: prod.splits)

text \<open>
  C30. A name can be looked up once it has been created: whenever \<^verbatim>\<open>kfs_create\<close> reports an inode for an
  absolute path, \<^verbatim>\<open>kfs_lookup\<close> of that path then returns the same inode, and every path that resolved
  before still resolves to the inode it did.
\<close>

theorem kfs_create_lookup:
  assumes "kfs_idle f s" and "no_faults s f" and t: "tree_ok f s" and "0 \<notin> set path"
    and ret: "kfs_create f path mode uid gid mtime s = (r, s')" and "r \<ge> 0"
  shows "fst (kfs_lookup f path s') = r \<and> (\<forall>p i. fst (kfs_lookup f p s) = i \<and> i \<ge> 0 \<longrightarrow> fst (kfs_lookup f p s') = i)"
proof -
  from kfs_create_ok [OF assms] obtain pre name dir ino
    where o: "kfs_idle f s'" "no_faults s' f" "tree_ok f s'" "same_layout (sb_of f s') (sb_of f s)" "components path = pre @ [name]"
      "length name \<le> KFS_NAME_MAX" "tree_walk (tree f s) (root_ino (sb_of f s)) pre = Some dir" "r = sint ino"
      "created f dir name ino (fresh_inode KFS_TYPE_FILE mode uid gid mtime) s s'" by blast
  have T: "tree f s' = (tree f s)(dir := (tree f s dir)(name \<mapsto> ino))" "tree f s dir name = None"
    using o(9) by (simp_all add: created_def)
  have root: "root_ino (sb_of f s') = root_ino (sb_of f s)" using same_layout_fields [OF o(4)] by simp
  have mono: "tree f s' d n = Some i" if "tree f s d n = Some i" for d n i using that T by auto
  have look: "fst (kfs_lookup f p x) = (if take 1 p = [ch_slash] then
      (case tree_walk (tree f x) (root_ino (sb_of f x)) (components p) of None \<Rightarrow> - 1 | Some i \<Rightarrow> sint i) else - 1)"
    if "kfs_idle f x" "no_faults x f" "tree_ok f x" for p x
  proof -
    have rd: "readable f x" using that by (simp add: readable_def kfs_idle_def)
    have v: "ino_valid (sb_of f x) (root_ino (sb_of f x))" using tree_okD(1) [OF that(3)] by (simp add: is_dir_def)
    obtain q y where w: "lookup_walk f (root_ino (sb_of f x)) p x = (q, y)" by fastforce
    show ?thesis using lookup_walk_ok [OF rd that(3) v w] w rd
      by (simp add: kfs_lookup_def lookup_path_def readable_def)
  qed
  have sl: "take 1 path = [ch_slash]"
  proof (rule ccontr)
    assume "take 1 path \<noteq> [ch_slash]"
    then have e: "create_locked f path mode uid gid mtime x = (- 1, x)" for x by (simp add: create_locked_def lookup_parent_def)
    have "r = - 1" using ret by (auto simp: kfs_create_def in_journal_def e split: if_splits prod.splits bool.splits)
    then show False using \<open>r \<ge> 0\<close> by simp
  qed
  have "tree_walk (tree f s') (root_ino (sb_of f s')) (components path) = Some ino"
    using tree_walk_mono [of "tree f s" "tree f s'", OF mono o(7)] o(5,6) T(1) root by (simp add: tree_walk_append)
  then have "fst (kfs_lookup f path s') = r" using look [OF o(1-3), of path] sl o(8) by simp
  moreover have "fst (kfs_lookup f p s') = i" if li: "fst (kfs_lookup f p s) = i" "i \<ge> 0" for p i
  proof -
    obtain j where j: "take 1 p = [ch_slash]" "tree_walk (tree f s) (root_ino (sb_of f s)) (components p) = Some j" "i = sint j"
      using li look [OF assms(1-3), of p] by (auto split: if_splits option.splits)
    from tree_walk_mono [of "tree f s" "tree f s'", OF mono j(2)] show ?thesis using look [OF o(1-3), of p] j root by simp
  qed
  ultimately show ?thesis by blast
qed

theorem kfs_create_lookup_witness:
  "case kfs_create 0 [ch_slash, 97] 420 7 8 9 demo_vol of (r, s') \<Rightarrow> 0 \<le> r \<and> fst (kfs_lookup 0 [ch_slash, 97] s') = r"
proof -
  obtain r s' where ret: "kfs_create 0 [ch_slash, 97] 420 7 8 9 demo_vol = (r, s')" by fastforce
  have "r \<ge> 0" by (rule kfs_create_live [OF demo_vol_idle _ demo_tree(3) demo_can_create ret]) simp
  then show ?thesis using kfs_create_lookup [OF demo_vol_idle _ demo_tree(3) _ ret] ret by simp
qed

end
