(* ===== verification/Vfs_Types.thy ===== *)
theory Vfs_Types
  imports Kestrel_Prelude
begin

text \<open>
  What the file system layers share: the open-file record (\<^verbatim>\<open>struct file\<close> of \<^verbatim>\<open>kernel/include/vfs.h\<close>),
  the \<^verbatim>\<open>open()\<close> flags, and the access-control policy of \<^verbatim>\<open>kernel/vfs.c\<close>.
\<close>

section \<open>Open files\<close>

abbreviation O_WRONLY :: u32 where "O_WRONLY \<equiv> 0x001"
abbreviation O_RDWR :: u32 where "O_RDWR \<equiv> 0x002"
abbreviation O_CREAT :: u32 where "O_CREAT \<equiv> 0x040"
abbreviation O_TRUNC :: u32 where "O_TRUNC \<equiv> 0x200"
abbreviation O_APPEND :: u32 where "O_APPEND \<equiv> 0x400"

abbreviation VFS_R :: u32 where "VFS_R \<equiv> 4"
abbreviation VFS_W :: u32 where "VFS_W \<equiv> 2"
abbreviation VFS_X :: u32 where "VFS_X \<equiv> 1"

datatype file_type = FILE_KFS | FILE_PIPE

text \<open>
  Pointers are the addresses of the objects they point to: \<open>f_ops\<close> an operations table, \<open>f_mnt\<close> a
  mount slot, \<open>f_pipe\<close> a pipe and \<open>f_fs\<close> the file system instance that \<^verbatim>\<open>struct kfs_file\<close> adds.
\<close>

record ofile =
  f_ops :: "nat option"
  f_mnt :: "nat option"
  f_type :: file_type
  f_inum :: u32
  f_pos :: u32
  f_flags :: u32
  f_refs :: int
  f_pipe :: "nat option"
  f_writable :: bool
  f_fs :: nat

definition zero_file :: ofile where
  "zero_file = \<lparr>f_ops = None, f_mnt = None, f_type = FILE_KFS, f_inum = 0, f_pos = 0, f_flags = 0, f_refs = 0,
     f_pipe = None, f_writable = False, f_fs = 0\<rparr>"

section \<open>Access control\<close>

record cred =
  c_uid :: u32
  c_gid :: u32

text \<open>The current task, if the scheduler runs yet.\<close>

definition vfs_uid :: "cred option \<Rightarrow> u32" where
  "vfs_uid cur = (case cur of Some c \<Rightarrow> c_uid c | None \<Rightarrow> 0)"

definition vfs_gid :: "cred option \<Rightarrow> u32" where
  "vfs_gid cur = (case cur of Some c \<Rightarrow> c_gid c | None \<Rightarrow> 0)"

definition vfs_perm_ok :: "cred option \<Rightarrow> u32 \<Rightarrow> u32 \<Rightarrow> u32 \<Rightarrow> u32 \<Rightarrow> bool" where
  "vfs_perm_ok cur mode uid gid want = (
     if vfs_uid cur = 0 then True
     else let bits = (if vfs_uid cur = uid then drop_bit 6 mode AND 7
                      else if vfs_gid cur = gid then drop_bit 3 mode AND 7
                      else mode AND 7)
          in bits AND want = want)"

definition vfs_flags_allow_read :: "u32 \<Rightarrow> bool" where
  "vfs_flags_allow_read flags = (let acc = flags AND (0 OR O_WRONLY OR O_RDWR) in acc = 0 \<or> acc = O_RDWR)"

definition vfs_flags_allow_write :: "u32 \<Rightarrow> bool" where
  "vfs_flags_allow_write flags = (let acc = flags AND (0 OR O_WRONLY OR O_RDWR) in acc = O_WRONLY \<or> acc = O_RDWR)"

end
