(* ===== verification/Mount.thy ===== *)
theory Mount
  imports Blockdev Vfs_Types
begin

text \<open>
  The file system registry and the mount table (\<^verbatim>\<open>kernel/mount.c\<close>, \<^verbatim>\<open>kernel/include/mount.h\<close>).  Pointers are
  addresses: of type descriptors, of operation tables, of block devices and of file system instances; a
  mount is named by its slot.  A mount callback runs with the table lock dropped, so what other tasks do
  to the table meanwhile is an argument.
\<close>

section \<open>Types\<close>

abbreviation (input) FS_TYPE_NAME_MAX :: nat where "FS_TYPE_NAME_MAX \<equiv> 16"
abbreviation (input) MOUNT_PATH_MAX :: nat where "MOUNT_PATH_MAX \<equiv> 64"
abbreviation (input) MOUNT_MAX :: nat where "MOUNT_MAX \<equiv> 8"
abbreviation (input) FS_TYPE_MAX :: nat where "FS_TYPE_MAX \<equiv> 8"
abbreviation (input) SLASH :: byte where "SLASH \<equiv> 47"

text \<open>
  A file system implementation over a state \<open>'w\<close>: the name array, the callbacks and the address of the
  operations.  \<^verbatim>\<open>mount\<close> returns whether it succeeded and the instance it stored.
\<close>

record 'w fs_type =
  t_name :: "byte list"
  t_mount :: "(nat option \<Rightarrow> 'w \<Rightarrow> (bool \<times> nat option) \<times> 'w) option"
  t_unmount :: "(nat \<Rightarrow> 'w \<Rightarrow> 'w) option"
  t_ops :: "nat option"

record mount =
  m_path :: cstr
  m_type :: "nat option"
  m_bd :: "nat option"
  m_priv :: "nat option"
  m_used :: bool

definition zero_mount :: mount where
  "zero_mount = \<lparr>m_path = [], m_type = None, m_bd = None, m_priv = None, m_used = False\<rparr>"

record mtab =
  types :: "nat option list"
  mounts :: "mount list"

section \<open>The registry\<close>

text \<open>
  The table walk of \<^verbatim>\<open>fs_register\<close>: \<open>None\<close> when the name is taken, otherwise the first free slot, or \<open>- 1\<close>.
\<close>

fun type_scan :: "(nat \<Rightarrow> 'w fs_type) \<Rightarrow> cstr \<Rightarrow> nat option list \<Rightarrow> int \<Rightarrow> int \<Rightarrow> int option" where
  "type_scan tat nm [] i slot = Some slot"
| "type_scan tat nm (None # t) i slot = type_scan tat nm t (i + 1) (if slot < 0 then i else slot)"
| "type_scan tat nm (Some d # t) i slot =
     (if c_string (t_name (tat d)) = nm then None else type_scan tat nm t (i + 1) slot)"

definition fs_register :: "(nat \<Rightarrow> 'w fs_type) \<Rightarrow> nat option \<Rightarrow> mtab \<Rightarrow> int \<times> mtab" where
  "fs_register tat p mt = (case p of None \<Rightarrow> (- 1, mt) | Some d \<Rightarrow>
     let t = tat d in
     if t_ops t = None \<or> t_mount t = None \<or> t_name t ! 0 = 0 then (- 1, mt)
     else if t_name t ! (FS_TYPE_NAME_MAX - 1) \<noteq> 0 then (- 1, mt)
     else (case type_scan tat (c_string (t_name t)) (types mt) 0 (- 1) of
         None \<Rightarrow> (- 1, mt)
       | Some slot \<Rightarrow> if slot < 0 then (- 1, mt) else (0, mt\<lparr>types := (types mt)[nat slot := Some d]\<rparr>)))"

definition fs_unregister :: "nat option \<Rightarrow> mtab \<Rightarrow> mtab" where
  "fs_unregister p mt = (case p of None \<Rightarrow> mt | Some d \<Rightarrow> mt\<lparr>types := clear_first d (types mt)\<rparr>)"

fun find_type :: "(nat \<Rightarrow> 'w fs_type) \<Rightarrow> cstr \<Rightarrow> nat option list \<Rightarrow> nat option" where
  "find_type tat nm [] = None"
| "find_type tat nm (None # t) = find_type tat nm t"
| "find_type tat nm (Some d # t) = (if c_string (t_name (tat d)) = nm then Some d else find_type tat nm t)"

definition fs_find :: "(nat \<Rightarrow> 'w fs_type) \<Rightarrow> cstr option \<Rightarrow> mtab \<Rightarrow> nat option" where
  "fs_find tat nm mt = (case nm of None \<Rightarrow> None | Some n \<Rightarrow> if n = [] then None else find_type tat n (types mt))"

definition fs_list :: "int \<Rightarrow> mtab \<Rightarrow> nat option" where
  "fs_list index mt = (if index < 0 then None else list_from index 0 (types mt))"

section \<open>Paths\<close>

function trim_slashes :: "cstr \<Rightarrow> cstr" where
  "trim_slashes p = (if length p > 1 \<and> last p = SLASH then trim_slashes (butlast p) else p)"
  by pat_completeness auto
termination by (relation "measure length") auto

declare trim_slashes.simps [simp del]

fun double_slash :: "cstr \<Rightarrow> bool" where
  "double_slash (a # b # p) \<longleftrightarrow> a = SLASH \<and> b = SLASH \<or> double_slash (b # p)"
| "double_slash _ \<longleftrightarrow> False"

definition canon_path :: "cstr option \<Rightarrow> cstr option" where
  "canon_path path = (case path of None \<Rightarrow> None | Some p \<Rightarrow>
     if p = [] \<or> hd p \<noteq> SLASH then None
     else let q = trim_slashes p in
     if length q \<ge> MOUNT_PATH_MAX then None else if double_slash q then None else Some q)"

definition covers :: "cstr \<Rightarrow> cstr \<Rightarrow> nat option" where
  "covers mp path = (
     if length mp = 1 then Some 1
     else if take (length mp) path = mp \<and> (length path = length mp \<or> path ! length mp = SLASH) then Some (length mp)
     else None)"

section \<open>Resolution\<close>

definition usable :: "mount \<Rightarrow> bool" where
  "usable m \<longleftrightarrow> m_used m \<and> m_priv m \<noteq> None"

text \<open>The loop of \<^verbatim>\<open>mount_resolve\<close>: the best slot so far, with the length of its path.\<close>

fun resolve_scan :: "cstr \<Rightarrow> mount list \<Rightarrow> nat \<Rightarrow> (nat \<times> nat) option \<Rightarrow> (nat \<times> nat) option" where
  "resolve_scan path [] i best = best"
| "resolve_scan path (m # ms) i best = resolve_scan path ms (i + 1) (
     if \<not> usable m then best
     else case covers (m_path m) path of None \<Rightarrow> best
       | Some mplen \<Rightarrow> (case best of None \<Rightarrow> Some (i, mplen) | Some (j, bestlen) \<Rightarrow> if mplen > bestlen then Some (i, mplen) else best))"

definition mount_resolve :: "mtab \<Rightarrow> cstr option \<Rightarrow> (nat \<times> cstr) option" where
  "mount_resolve mt path = (case path of None \<Rightarrow> None | Some p \<Rightarrow>
     if p = [] \<or> hd p \<noteq> SLASH then None
     else case resolve_scan p (mounts mt) 0 None of None \<Rightarrow> None
       | Some (i, bestlen) \<Rightarrow> let rel = (if bestlen = 1 then p else drop bestlen p) in Some (i, if rel = [] then [SLASH] else rel))"

fun mount_from :: "int \<Rightarrow> int \<Rightarrow> mount list \<Rightarrow> nat \<Rightarrow> nat option" where
  "mount_from index seen [] i = None"
| "mount_from index seen (m # ms) i = (
     if \<not> usable m then mount_from index seen ms (i + 1)
     else if seen = index then Some i else mount_from index (seen + 1) ms (i + 1))"

definition mount_list :: "int \<Rightarrow> mtab \<Rightarrow> nat option" where
  "mount_list index mt = (if index < 0 then None else mount_from index 0 (mounts mt) 0)"

section \<open>Mounting and unmounting\<close>

definition path_taken :: "cstr \<Rightarrow> mount list \<Rightarrow> bool" where
  "path_taken mp ms \<longleftrightarrow> (\<exists>m \<in> set ms. m_used m \<and> m_path m = mp)"

fun free_slot :: "mount list \<Rightarrow> nat \<Rightarrow> nat option" where
  "free_slot [] i = None"
| "free_slot (m # ms) i = (if \<not> m_used m then Some i else free_slot ms (i + 1))"

text \<open>The first locked section of \<^verbatim>\<open>mount_add\<close>: reserve a slot, with no instance yet.\<close>

definition mount_reserve :: "cstr \<Rightarrow> nat \<Rightarrow> nat option \<Rightarrow> mtab \<Rightarrow> (nat \<times> mtab) option" where
  "mount_reserve mp type bd mt = (
     if path_taken mp (mounts mt) then None
     else case free_slot (mounts mt) 0 of None \<Rightarrow> None
       | Some i \<Rightarrow> Some (i, mt\<lparr>mounts := (mounts mt)[i := zero_mount\<lparr>m_path := mp, m_type := Some type, m_bd := bd, m_priv := None, m_used := True\<rparr>]\<rparr>))"

text \<open>The last one: publish the instance, or clear the slot again.\<close>

definition mount_finish :: "nat \<Rightarrow> bool \<Rightarrow> nat option \<Rightarrow> mtab \<Rightarrow> int \<times> mtab" where
  "mount_finish i ok priv mt = (
     if \<not> ok \<or> priv = None then (- 1, mt\<lparr>mounts := (mounts mt)[i := zero_mount]\<rparr>)
     else (0, mt\<lparr>mounts := (mounts mt)[i := (mounts mt ! i)\<lparr>m_priv := priv\<rparr>]\<rparr>))"

definition find_dev :: "(nat \<Rightarrow> blockdev) \<Rightarrow> devtab \<Rightarrow> cstr option \<Rightarrow> nat option option" where
  "find_dev devs dt devname = (case devname of None \<Rightarrow> Some None
     | Some n \<Rightarrow> if n = [] then Some None else (case blockdev_find devs (Some n) dt of None \<Rightarrow> None | Some d \<Rightarrow> Some (Some d)))"

definition mount_add :: "(nat \<Rightarrow> 'w fs_type) \<Rightarrow> (nat \<Rightarrow> blockdev) \<Rightarrow> devtab \<Rightarrow> (mtab \<Rightarrow> mtab) \<Rightarrow>
    cstr option \<Rightarrow> cstr option \<Rightarrow> cstr option \<Rightarrow> mtab \<Rightarrow> 'w \<Rightarrow> int \<times> mtab \<times> 'w" where
  "mount_add tat devs dt others path fstype devname mt w = (
     case canon_path path of None \<Rightarrow> (- 1, mt, w) | Some mp \<Rightarrow>
     case fs_find tat fstype mt of None \<Rightarrow> (- 1, mt, w) | Some type \<Rightarrow>
     case find_dev devs dt devname of None \<Rightarrow> (- 1, mt, w) | Some bd \<Rightarrow>
     case mount_reserve mp type bd mt of None \<Rightarrow> (- 1, mt, w) | Some (i, mt) \<Rightarrow>
     let ((ok, priv), w) = the (t_mount (tat type)) bd w; (r, mt) = mount_finish i ok priv (others mt)
     in (r, mt, w))"

text \<open>The locked section of \<^verbatim>\<open>mount_remove\<close>: detach the slot; the result is its type and its instance.\<close>

fun find_mount :: "cstr \<Rightarrow> mount list \<Rightarrow> nat \<Rightarrow> nat option" where
  "find_mount mp [] i = None"
| "find_mount mp (m # ms) i = (if m_used m \<and> m_path m = mp then Some i else find_mount mp ms (i + 1))"

definition mount_detach :: "cstr \<Rightarrow> mtab \<Rightarrow> (nat \<times> nat \<times> mtab) option" where
  "mount_detach mp mt = (
     if mp = [SLASH] then None
     else case find_mount mp (mounts mt) 0 of None \<Rightarrow> None
       | Some i \<Rightarrow> (case m_priv (mounts mt ! i) of None \<Rightarrow> None
           | Some priv \<Rightarrow> Some (the (m_type (mounts mt ! i)), priv, mt\<lparr>mounts := (mounts mt)[i := zero_mount]\<rparr>)))"

definition mount_remove :: "(nat \<Rightarrow> 'w fs_type) \<Rightarrow> cstr option \<Rightarrow> mtab \<Rightarrow> 'w \<Rightarrow> int \<times> mtab \<times> 'w" where
  "mount_remove tat path mt w = (
     case canon_path path of None \<Rightarrow> (- 1, mt, w) | Some mp \<Rightarrow>
     case mount_detach mp mt of None \<Rightarrow> (- 1, mt, w) | Some (type, priv, mt) \<Rightarrow>
     (0, mt, case t_unmount (tat type) of None \<Rightarrow> w | Some un \<Rightarrow> un priv w))"


section \<open>Canonical mount points\<close>

definition canonical :: "cstr \<Rightarrow> bool" where
  "canonical q \<longleftrightarrow> q \<noteq> [] \<and> hd q = SLASH \<and> length q < MOUNT_PATH_MAX \<and> (length q = 1 \<or> last q \<noteq> SLASH) \<and> \<not> double_slash q"

lemma trim_slashes_hd: "p \<noteq> [] \<Longrightarrow> trim_slashes p \<noteq> [] \<and> hd (trim_slashes p) = hd p \<and> (length (trim_slashes p) = 1 \<or> last (trim_slashes p) \<noteq> SLASH)"
proof (induction p rule: trim_slashes.induct)
  case (1 p)
  show ?case
  proof (cases "length p > 1 \<and> last p = SLASH")
    case True
    then have "butlast p \<noteq> []" "hd (butlast p) = hd p" by (cases p; cases "tl p"; simp)+
    then show ?thesis using 1(1) [OF True] True by (simp add: trim_slashes.simps [of p])
  next
    case False
    then have "length p = 1 \<or> last p \<noteq> SLASH" using 1(2) by (cases p) (auto simp: Suc_lessI)
    then show ?thesis using False 1(2) by (subst (1 2 3 4) trim_slashes.simps) auto
  qed
qed

lemma canon_path_canonical: "canon_path path = Some q \<Longrightarrow> canonical q"
proof -
  assume c: "canon_path path = Some q"
  then obtain p where p: "path = Some p" "p \<noteq> []" by (auto simp: canon_path_def split: option.splits if_splits)
  then show ?thesis using c trim_slashes_hd [OF p(2)] by (auto simp: canon_path_def canonical_def Let_def split: if_splits)
qed

lemma canonical_root: "canonical q \<Longrightarrow> length q = 1 \<longleftrightarrow> q = [SLASH]"
  by (cases q) (auto simp: canonical_def)

text \<open>A path lies at or below a mount point.\<close>

definition below :: "cstr \<Rightarrow> cstr \<Rightarrow> bool" where
  "below mp p \<longleftrightarrow> mp = [SLASH] \<or> p = mp \<or> (\<exists>r. p = mp @ SLASH # r)"

lemma below_take: "below mp p \<Longrightarrow> length mp \<noteq> 1 \<Longrightarrow> take (length mp) p = mp"
  by (auto simp: below_def)

lemma covers_below:
  assumes "canonical mp"
  shows "covers mp p = (if below mp p then Some (length mp) else None)"
proof (cases "mp = [SLASH]")
  case True
  then show ?thesis by (simp add: covers_def below_def)
next
  case False
  then have l: "length mp \<noteq> 1" using canonical_root [OF assms] by simp
  have "take (length mp) p = mp \<and> (length p = length mp \<or> p ! length mp = SLASH) \<longleftrightarrow> p = mp \<or> (\<exists>r. p = mp @ SLASH # r)"
  proof
    assume a: "take (length mp) p = mp \<and> (length p = length mp \<or> p ! length mp = SLASH)"
    then have e: "p = mp @ drop (length mp) p" by (metis append_take_drop_id)
    show "p = mp \<or> (\<exists>r. p = mp @ SLASH # r)"
    proof (cases "drop (length mp) p")
      case Nil
      then show ?thesis using e by simp
    next
      case (Cons x r)
      then have "p ! length mp = x" "length p \<noteq> length mp" using e by (metis nth_append_length, auto)
      then show ?thesis using a e Cons by auto
    qed
  qed auto
  then show ?thesis using l False by (simp add: covers_def below_def)
qed

section \<open>Longest prefix\<close>

lemma resolve_scan_law:
  "case resolve_scan p ms i best of
     None \<Rightarrow> best = None \<and> (\<forall>m \<in> set ms. usable m \<longrightarrow> covers (m_path m) p = None)
   | Some (k, l) \<Rightarrow> (best = Some (k, l) \<or> (\<exists>j < length ms. k = i + j \<and> usable (ms ! j) \<and> covers (m_path (ms ! j)) p = Some l)) \<and>
       (\<forall>m \<in> set ms. \<forall>l'. usable m \<and> covers (m_path m) p = Some l' \<longrightarrow> l' \<le> l) \<and> (\<forall>k' l'. best = Some (k', l') \<longrightarrow> l' \<le> l)"
proof (induction p ms i best rule: resolve_scan.induct)
  case (1 path i best)
  then show ?case by (auto split: option.splits)
next
  case (2 path m ms i best)
  define b where "b = (if \<not> usable m then best
     else case covers (m_path m) path of None \<Rightarrow> best
       | Some mplen \<Rightarrow> (case best of None \<Rightarrow> Some (i, mplen) | Some (j, bestlen) \<Rightarrow> if mplen > bestlen then Some (i, mplen) else best))"
  have step: "resolve_scan path (m # ms) i best = resolve_scan path ms (i + 1) b" by (simp add: b_def)
  note IH = 2 [folded b_def]
  have shift: "(\<exists>j < length (m # ms). k = i + j \<and> P ((m # ms) ! j)) \<longleftrightarrow> k = i \<and> P m \<or> (\<exists>j < length ms. k = i + 1 + j \<and> P (ms ! j))" for k P
    by (auto simp: less_Suc_eq_0_disj)
  show ?case
  proof (cases "resolve_scan path ms (i + 1) b")
    case None
    then have "b = None" "\<forall>m \<in> set ms. usable m \<longrightarrow> covers (m_path m) path = None" using IH by simp_all
    then show ?thesis unfolding step None by (auto simp: b_def split: if_splits option.splits)
  next
    case (Some r)
    obtain k l where r: "r = (k, l)" by (cases r)
    have I: "b = Some (k, l) \<or> (\<exists>j < length ms. k = i + 1 + j \<and> usable (ms ! j) \<and> covers (m_path (ms ! j)) path = Some l)"
      "\<forall>m \<in> set ms. \<forall>l'. usable m \<and> covers (m_path m) path = Some l' \<longrightarrow> l' \<le> l" "\<forall>k' l'. b = Some (k', l') \<longrightarrow> l' \<le> l"
      using IH unfolding Some r by auto
    have "best = Some (k, l) \<or> (\<exists>j < length (m # ms). k = i + j \<and> usable ((m # ms) ! j) \<and> covers (m_path ((m # ms) ! j)) path = Some l)"
      using I(1) unfolding shift [of k "\<lambda>m. usable m \<and> covers (m_path m) path = Some l"] by (auto simp: b_def split: if_splits option.splits)
    moreover have "l' \<le> l" if "usable m" "covers (m_path m) path = Some l'" for l'
      using I(3) that by (auto simp: b_def split: if_splits option.splits prod.splits)
    moreover have "l' \<le> l" if "best = Some (k', l')" for k' l'
      using I(3) that by (fastforce simp: b_def split: if_splits option.splits)
    ultimately show ?thesis unfolding step Some r using I(2) by auto
  qed
qed


section \<open>The mount table\<close>

definition mt_ok :: "mtab \<Rightarrow> bool" where
  "mt_ok mt \<longleftrightarrow> (\<forall>m \<in> set (mounts mt). m_used m \<longrightarrow> canonical (m_path m)) \<and>
     (\<forall>i j. i < length (mounts mt) \<and> j < length (mounts mt) \<and> i \<noteq> j \<and> m_used (mounts mt ! i) \<and> m_used (mounts mt ! j) \<longrightarrow>
        m_path (mounts mt ! i) \<noteq> m_path (mounts mt ! j))"

lemma zero_mount_unused [simp]: "\<not> m_used zero_mount" "m_priv zero_mount = None"
  by (simp_all add: zero_mount_def)

lemma mt_ok_update:
  assumes ok: "mt_ok mt" and m: "m_used m \<longrightarrow> canonical (m_path m) \<and> (\<forall>j < length (mounts mt). j \<noteq> i \<and> m_used (mounts mt ! j) \<longrightarrow> m_path (mounts mt ! j) \<noteq> m_path m)"
  shows "mt_ok (mt\<lparr>mounts := (mounts mt)[i := m]\<rparr>)"
proof -
  have 1: "\<forall>x \<in> set (mounts mt). m_used x \<longrightarrow> canonical (m_path x)" and 2: "\<forall>a b. a < length (mounts mt) \<and> b < length (mounts mt) \<and> a \<noteq> b \<and>
      m_used (mounts mt ! a) \<and> m_used (mounts mt ! b) \<longrightarrow> m_path (mounts mt ! a) \<noteq> m_path (mounts mt ! b)"
    using ok unfolding mt_ok_def by blast+
  have "canonical (m_path x)" if "x \<in> set ((mounts mt)[i := m])" "m_used x" for x
    using set_update_subset_insert [of "mounts mt" i m] that 1 m by blast
  moreover have "m_path ((mounts mt)[i := m] ! a) \<noteq> m_path ((mounts mt)[i := m] ! b)"
    if "a < length (mounts mt)" "b < length (mounts mt)" "a \<noteq> b" "m_used ((mounts mt)[i := m] ! a)" "m_used ((mounts mt)[i := m] ! b)" for a b
    using that 2 m by (cases "a = i"; cases "b = i") (auto simp: nth_list_update)
  ultimately show ?thesis unfolding mt_ok_def by simp
qed

lemma free_slot_Some: "free_slot ms i = Some k \<Longrightarrow> i \<le> k \<and> k < i + length ms \<and> \<not> m_used (ms ! (k - i))"
  by (induction ms i rule: free_slot.induct) (auto split: if_splits simp: nth_Cons')

lemma find_mount_Some: "find_mount mp ms i = Some k \<Longrightarrow> i \<le> k \<and> k < i + length ms \<and> m_used (ms ! (k - i)) \<and> m_path (ms ! (k - i)) = mp"
  by (induction mp ms i rule: find_mount.induct) (auto split: if_splits simp: nth_Cons')

text \<open>
  C11. Path resolution is longest prefix.  Whatever is mounted, \<^verbatim>\<open>mount_resolve\<close> on an absolute path fails
  only if no usable mount lies above the path.  Otherwise it returns the one usable slot with the
  longest mount point above it, and a relative path that is absolute inside that file system: mount
  point and relative path make up the original path again, with the mount point itself as \<^verbatim>\<open>/\<close>.
\<close>

theorem mount_resolve_longest:
  assumes ok: "mt_ok mt" and p: "p \<noteq> []" "hd p = SLASH"
  shows "case mount_resolve mt (Some p) of
      None \<Rightarrow> \<forall>m \<in> set (mounts mt). usable m \<longrightarrow> \<not> below (m_path m) p
    | Some (i, rel) \<Rightarrow> i < length (mounts mt) \<and> usable (mounts mt ! i) \<and> below (m_path (mounts mt ! i)) p \<and>
        (\<forall>j < length (mounts mt). j \<noteq> i \<and> usable (mounts mt ! j) \<and> below (m_path (mounts mt ! j)) p \<longrightarrow>
           length (m_path (mounts mt ! j)) < length (m_path (mounts mt ! i))) \<and>
        hd rel = SLASH \<and>
        (if m_path (mounts mt ! i) = [SLASH] then rel = p
         else p = m_path (mounts mt ! i) @ rel \<or> p = m_path (mounts mt ! i) \<and> rel = [SLASH])"
proof -
  have can: "canonical (m_path m)" if "m \<in> set (mounts mt)" "usable m" for m using ok that unfolding mt_ok_def usable_def by blast
  note L = resolve_scan_law [where p = p and ms = "mounts mt" and i = 0 and best = None]
  show ?thesis
  proof (cases "resolve_scan p (mounts mt) 0 None")
    case None
    then have n: "\<forall>m \<in> set (mounts mt). usable m \<longrightarrow> covers (m_path m) p = None" using L by simp
    have "\<not> below (m_path m) p" if "m \<in> set (mounts mt)" "usable m" for m
      using n that covers_below [OF can [OF that], of p] by (auto split: if_splits)
    then show ?thesis using None p by (simp add: mount_resolve_def)
  next
    case (Some r)
    obtain i l where r: "r = (i, l)" by (cases r)
    have i: "i < length (mounts mt)" "usable (mounts mt ! i)" "covers (m_path (mounts mt ! i)) p = Some l"
      and mx: "\<forall>m \<in> set (mounts mt). \<forall>l'. usable m \<and> covers (m_path m) p = Some l' \<longrightarrow> l' \<le> l" using L unfolding Some r by auto
    let ?mp = "m_path (mounts mt ! i)"
    have b: "below ?mp p" "l = length ?mp" using i(3) covers_below [OF can [OF nth_mem [OF i(1)] i(2)], of p] by (auto split: if_splits)
    have lt: "length (m_path (mounts mt ! j)) < length ?mp"
      if j: "j < length (mounts mt)" "j \<noteq> i" "usable (mounts mt ! j)" "below (m_path (mounts mt ! j)) p" for j
    proof -
      let ?mj = "m_path (mounts mt ! j)"
      have cj: "canonical ?mj" by (rule can [OF nth_mem [OF j(1)] j(3)])
      have "length ?mj \<le> l" using mx nth_mem [OF j(1)] j(3,4) covers_below [OF cj, of p] by auto
      moreover have "length ?mj \<noteq> length ?mp"
      proof
        assume e: "length ?mj = length ?mp"
        have ci: "canonical ?mp" by (rule can [OF nth_mem [OF i(1)] i(2)])
        have "?mj = ?mp"
        proof (cases "length ?mp = 1")
          case True
          then show ?thesis using canonical_root [OF ci] canonical_root [OF cj] e by simp
        next
          case False
          then have "length ?mj \<noteq> 1" by (simp only: e) simp
          then have "?mj = take (length ?mj) p" by (rule below_take [OF j(4), symmetric])
          also have "\<dots> = take (length ?mp) p" by (simp only: e)
          also have "\<dots> = ?mp" by (rule below_take [OF b(1) False])
          finally show ?thesis .
        qed
        moreover have "m_used (mounts mt ! i)" "m_used (mounts mt ! j)" using i(2) j(3) by (simp_all add: usable_def)
        ultimately show False using ok i(1) j(1,2) unfolding mt_ok_def by blast
      qed
      ultimately show ?thesis using b(2) by simp
    qed
    define rel where "rel = (if l = 1 then p else drop l p)"
    have res: "mount_resolve mt (Some p) = Some (i, if rel = [] then [SLASH] else rel)"
      using Some p unfolding r mount_resolve_def by (simp add: rel_def Let_def)
    have one: "l = 1 \<longleftrightarrow> ?mp = [SLASH]" unfolding b(2) by (rule canonical_root [OF can [OF nth_mem [OF i(1)] i(2)]])
    have "hd (if rel = [] then [SLASH] else rel) = SLASH \<and> (if ?mp = [SLASH] then (if rel = [] then [SLASH] else rel) = p
         else p = ?mp @ (if rel = [] then [SLASH] else rel) \<or> p = ?mp \<and> (if rel = [] then [SLASH] else rel) = [SLASH])"
    proof (cases "?mp = [SLASH]")
      case True
      then show ?thesis using p one by (simp add: rel_def)
    next
      case False
      then have "rel = drop (length ?mp) p" using one b(2) by (simp add: rel_def)
      then show ?thesis using False b(1) by (auto simp: below_def)
    qed
    then show ?thesis unfolding res using i b lt by simp
  qed
qed

text \<open>A table with the root and \<^verbatim>\<open>/dev\<close> mounted.\<close>

definition demo_mounts :: mtab where
  "demo_mounts = \<lparr>types = [], mounts = [\<lparr>m_path = [47], m_type = Some 0, m_bd = Some 0, m_priv = Some 1, m_used = True\<rparr>,
     \<lparr>m_path = [47, 100, 101, 118], m_type = Some 1, m_bd = None, m_priv = Some 2, m_used = True\<rparr>]\<rparr>"

theorem mount_resolve_longest_witness:
  "mount_resolve demo_mounts (Some [47, 100, 101, 118, 47, 120]) = Some (1, [47, 120]) \<and>
   usable (mounts demo_mounts ! 0) \<and> below (m_path (mounts demo_mounts ! 0)) [47, 100, 101, 118, 47, 120] \<and>
   length (m_path (mounts demo_mounts ! 0)) < length (m_path (mounts demo_mounts ! 1))"
proof -
  let ?p = "[47, 100, 101, 118, 47, 120] :: cstr"
  have ok: "mt_ok demo_mounts" by (auto simp: mt_ok_def demo_mounts_def canonical_def less_Suc_eq)
  have r: "mount_resolve demo_mounts (Some ?p) = Some (1, [47, 120])"
    by (simp add: mount_resolve_def demo_mounts_def usable_def covers_def)
  have 0: "0 < length (mounts demo_mounts)" "usable (mounts demo_mounts ! 0)" "below (m_path (mounts demo_mounts ! 0)) ?p"
    by (simp_all add: demo_mounts_def usable_def below_def)
  have "length (m_path (mounts demo_mounts ! 0)) < length (m_path (mounts demo_mounts ! 1))"
    using mount_resolve_longest [OF ok, of ?p] 0 by (simp add: r)
  then show ?thesis using r 0 by blast
qed

section \<open>Concurrent mounts\<close>

text \<open>
  The table with the mounts in progress, by slot and path.  Each rule is one locked section of some task.
\<close>

inductive mount_step :: "mtab \<times> (nat \<times> cstr) set \<Rightarrow> mtab \<times> (nat \<times> cstr) set \<Rightarrow> bool" where
  reserve: "canon_path path = Some mp \<Longrightarrow> mount_reserve mp ty bd mt = Some (i, mt') \<Longrightarrow> mount_step (mt, P) (mt', insert (i, mp) P)"
| finish: "(i, mp) \<in> P \<Longrightarrow> mount_finish i ok priv mt = (r, mt') \<Longrightarrow> mount_step (mt, P) (mt', P - {(i, mp)})"
| detach: "canon_path path = Some mp \<Longrightarrow> mount_detach mp mt = Some (ty, priv, mt') \<Longrightarrow> mount_step (mt, P) (mt', P)"
| register: "fs_register (tat :: nat \<Rightarrow> unit fs_type) t mt = (r, mt') \<Longrightarrow> mount_step (mt, P) (mt', P)"
| unregister: "mount_step (mt, P) (fs_unregister t mt, P)"

definition run_ok :: "mtab \<times> (nat \<times> cstr) set \<Rightarrow> bool" where
  "run_ok s \<longleftrightarrow> mt_ok (fst s) \<and> length (mounts (fst s)) = MOUNT_MAX \<and>
     (\<forall>(i, mp) \<in> snd s. i < MOUNT_MAX \<and> m_used (mounts (fst s) ! i) \<and> m_path (mounts (fst s) ! i) = mp \<and> m_priv (mounts (fst s) ! i) = None)"

lemma mount_step_ok: "mount_step s s' \<Longrightarrow> run_ok s \<Longrightarrow> run_ok s'"
proof (induction rule: mount_step.induct)
  case (reserve path mp ty bd mt i mt' P)
  have ok: "mt_ok mt" and len: "length (mounts mt) = MOUNT_MAX" and P: "\<And>j q. (j, q) \<in> P \<Longrightarrow> j < MOUNT_MAX \<and> m_used (mounts mt ! j) \<and>
      m_path (mounts mt ! j) = q \<and> m_priv (mounts mt ! j) = None" using reserve.prems unfolding run_ok_def by auto
  let ?m = "zero_mount\<lparr>m_path := mp, m_type := Some ty, m_bd := bd, m_priv := None, m_used := True\<rparr>"
  have nt: "\<not> path_taken mp (mounts mt)" and i: "free_slot (mounts mt) 0 = Some i" and e: "mt' = mt\<lparr>mounts := (mounts mt)[i := ?m]\<rparr>"
    using reserve.hyps(2) by (auto simp: mount_reserve_def split: if_splits option.splits)
  have i': "i < MOUNT_MAX" "\<not> m_used (mounts mt ! i)" using free_slot_Some [OF i] len by simp_all
  have "m_path (mounts mt ! j) \<noteq> mp" if "j < length (mounts mt)" "m_used (mounts mt ! j)" for j using nt that unfolding path_taken_def by auto
  then have "mt_ok mt'" unfolding e using canon_path_canonical [OF reserve.hyps(1)] by (intro mt_ok_update [OF ok]) auto
  moreover have "j < MOUNT_MAX \<and> m_used (mounts mt' ! j) \<and> m_path (mounts mt' ! j) = q \<and> m_priv (mounts mt' ! j) = None" if "(j, q) \<in> insert (i, mp) P" for j q
    using that P [of j q] i' len unfolding e by (cases "j = i") auto
  ultimately show ?case using len unfolding run_ok_def e by auto
next
  case (finish i mp P ok priv mt r mt')
  have okm: "mt_ok mt" and len: "length (mounts mt) = MOUNT_MAX" and P: "\<And>j q. (j, q) \<in> P \<Longrightarrow> j < MOUNT_MAX \<and> m_used (mounts mt ! j) \<and>
      m_path (mounts mt ! j) = q \<and> m_priv (mounts mt ! j) = None" using finish.prems unfolding run_ok_def by auto
  define m where "m = (if \<not> ok \<or> priv = None then zero_mount else (mounts mt ! i)\<lparr>m_priv := priv\<rparr>)"
  have e: "mt' = mt\<lparr>mounts := (mounts mt)[i := m]\<rparr>" using finish.hyps(2) by (auto simp: mount_finish_def m_def split: if_splits)
  have i: "i < MOUNT_MAX" "m_used (mounts mt ! i)" "m_path (mounts mt ! i) = mp" using P [OF finish.hyps(1)] by simp_all
  have "canonical (m_path (mounts mt ! i))" using okm i nth_mem [of i "mounts mt"] len unfolding mt_ok_def by auto
  moreover have "m_path (mounts mt ! j) \<noteq> m_path (mounts mt ! i)" if "j < length (mounts mt)" "j \<noteq> i" "m_used (mounts mt ! j)" for j
    using okm that i len unfolding mt_ok_def by auto
  ultimately have "mt_ok mt'" unfolding e by (intro mt_ok_update [OF okm]) (auto simp: m_def)
  moreover have "j < MOUNT_MAX \<and> m_used (mounts mt' ! j) \<and> m_path (mounts mt' ! j) = q \<and> m_priv (mounts mt' ! j) = None" if "(j, q) \<in> P - {(i, mp)}" for j q
    using that P [of j q] i unfolding e by (cases "j = i") auto
  ultimately show ?case using len unfolding run_ok_def e by auto
next
  case (detach path mp mt ty priv mt' P)
  have okm: "mt_ok mt" and len: "length (mounts mt) = MOUNT_MAX" and P: "\<And>j q. (j, q) \<in> P \<Longrightarrow> j < MOUNT_MAX \<and> m_used (mounts mt ! j) \<and>
      m_path (mounts mt ! j) = q \<and> m_priv (mounts mt ! j) = None" using detach.prems unfolding run_ok_def by auto
  obtain i where i: "m_priv (mounts mt ! i) \<noteq> None" and e: "mt' = mt\<lparr>mounts := (mounts mt)[i := zero_mount]\<rparr>"
    using detach.hyps(2) by (auto simp: mount_detach_def split: if_splits option.splits)
  have "mt_ok mt'" unfolding e by (intro mt_ok_update [OF okm]) auto
  moreover have "j < MOUNT_MAX \<and> m_used (mounts mt' ! j) \<and> m_path (mounts mt' ! j) = q \<and> m_priv (mounts mt' ! j) = None" if "(j, q) \<in> P" for j q
    using that P [of j q] i unfolding e by (cases "j = i") auto
  ultimately show ?case using len unfolding run_ok_def e by auto
next
  case (register tat t mt r mt' P)
  then have "mounts mt' = mounts mt" by (auto simp: fs_register_def Let_def split: option.splits if_splits)
  then show ?case using register.prems by (simp add: run_ok_def mt_ok_def)
next
  case (unregister mt P t)
  then show ?case by (cases t) (simp_all add: run_ok_def mt_ok_def fs_unregister_def)
qed

text \<open>
  C16. Concurrent mounts never collide.  However the locked sections of mounting, unmounting and type
  registration of several tasks are interleaved, starting from an empty table, no two slots in use
  have the same mount point, every mount point is canonical, and the slot a task has reserved is still
  its own, with its path and without an instance, when the task comes back to publish or cancel it.
\<close>

theorem mount_table_invariant:
  assumes "mount_step\<^sup>*\<^sup>* (\<lparr>types = replicate FS_TYPE_MAX None, mounts = replicate MOUNT_MAX zero_mount\<rparr>, {}) (mt, P)"
  shows "length (mounts mt) = MOUNT_MAX \<and> (\<forall>m \<in> set (mounts mt). m_used m \<longrightarrow> canonical (m_path m)) \<and>
    (\<forall>i j. i < MOUNT_MAX \<and> j < MOUNT_MAX \<and> i \<noteq> j \<and> m_used (mounts mt ! i) \<and> m_used (mounts mt ! j) \<longrightarrow>
       m_path (mounts mt ! i) \<noteq> m_path (mounts mt ! j)) \<and>
    (\<forall>(i, mp) \<in> P. i < MOUNT_MAX \<and> m_used (mounts mt ! i) \<and> m_path (mounts mt ! i) = mp \<and> \<not> usable (mounts mt ! i))"
proof -
  have "run_ok (mt, P)" using assms
  proof (induction rule: rtranclp_induct)
    case base
    then show ?case by (simp add: run_ok_def mt_ok_def)
  next
    case (step y z)
    then show ?case using mount_step_ok by blast
  qed
  then show ?thesis by (auto simp: run_ok_def mt_ok_def usable_def)
qed

theorem mount_table_invariant_witness:
  "\<exists>mt. mount_step\<^sup>*\<^sup>* (\<lparr>types = replicate FS_TYPE_MAX None, mounts = replicate MOUNT_MAX zero_mount\<rparr>, {}) (mt, {(0, [47])}) \<and>
     m_path (mounts mt ! 0) = [47] \<and> \<not> usable (mounts mt ! 0)"
proof -
  let ?mt = "\<lparr>types = replicate FS_TYPE_MAX None, mounts = replicate MOUNT_MAX zero_mount\<rparr>"
  have c: "canon_path (Some [47]) = Some [47]" by (simp add: canon_path_def trim_slashes.simps)
  have "free_slot (replicate (Suc 7) zero_mount) 0 = Some 0"
    by (simp only: replicate_Suc free_slot.simps zero_mount_unused not_False_eq_True if_True)
  then have f: "free_slot (mounts ?mt) 0 = Some 0" by simp
  have "\<not> path_taken [47] (mounts ?mt)" by (simp add: path_taken_def)
  then have "\<exists>mt'. mount_reserve [47] 0 None ?mt = Some (0, mt')" unfolding mount_reserve_def f by simp
  then obtain mt' where r: "mount_reserve [47] 0 None ?mt = Some (0, mt')" by blast
  have st: "mount_step\<^sup>*\<^sup>* (?mt, {}) (mt', {(0, [47])})" by (rule r_into_rtranclp, rule mount_step.reserve [OF c r])
  have "m_path (mounts mt' ! 0) = [47] \<and> \<not> usable (mounts mt' ! 0)" using mount_table_invariant [OF st] by simp
  then show ?thesis using st by (intro exI [of _ mt'] conjI) simp_all
qed

end
