(* ===== verification/Pipe.thy ===== *)
theory Pipe
  imports Vfs_Types
begin

text \<open>
  Anonymous pipes (\<^verbatim>\<open>kernel/pipe.c\<close>): a 4 KiB ring buffer shared by a read end and a write end. Every
  critical section under the pipe's lock is one atomic step; a blocked reader or writer drops the
  lock and sleeps, and what the other tasks do to the pipe in the meantime is an explicit list of
  interferences.
\<close>

section \<open>The ring\<close>

abbreviation PIPE_BUF_SIZE :: u32 where "PIPE_BUF_SIZE \<equiv> 4096"

record pipe =
  p_buf :: "byte list"
  p_head :: u32
  p_tail :: u32
  p_count :: u32
  p_readers :: int
  p_writers :: int

text \<open>
  The copy loops. \<open>n\<close> is the length of the caller's buffer and \<open>cnt\<close> the number of bytes moved so
  far; \<open>None\<close> is a loop that never ends.
\<close>

partial_function (option) ring_take :: "pipe \<Rightarrow> nat \<Rightarrow> nat \<Rightarrow> byte list \<Rightarrow> (byte list \<times> pipe) option" where
  "ring_take p n cnt dst = (if cnt < n \<and> p_count p > 0 then
     let run = PIPE_BUF_SIZE - p_head p;
         run = (if run > p_count p then p_count p else run);
         run = (if unat run > n - cnt then of_nat (n - cnt) else run)
     in ring_take (p\<lparr>p_head := (p_head p + run) mod PIPE_BUF_SIZE, p_count := p_count p - run\<rparr>) n (cnt + unat run)
          (dst @ get_bytes (unat (p_head p)) (unat run) (p_buf p))
     else Some (dst, p))"

partial_function (option) ring_put :: "pipe \<Rightarrow> byte list \<Rightarrow> nat \<Rightarrow> (nat \<times> pipe) option" where
  "ring_put p src cnt = (if cnt < length src \<and> p_count p < PIPE_BUF_SIZE then
     let space = PIPE_BUF_SIZE - p_count p;
         run = PIPE_BUF_SIZE - p_tail p;
         run = (if run > space then space else run);
         run = (if unat run > length src - cnt then of_nat (length src - cnt) else run)
     in ring_put (p\<lparr>p_buf := put_bytes (unat (p_tail p)) (get_bytes cnt (unat run) src) (p_buf p),
          p_tail := (p_tail p + run) mod PIPE_BUF_SIZE, p_count := p_count p + run\<rparr>) src (cnt + unat run)
     else Some (cnt, p))"

definition pipe_ok :: "pipe \<Rightarrow> bool" where
  "pipe_ok p \<longleftrightarrow> length (p_buf p) = 4096 \<and> unat (p_head p) < 4096 \<and> unat (p_count p) \<le> 4096 \<and>
     unat (p_tail p) = (unat (p_head p) + unat (p_count p)) mod 4096"

definition contents :: "pipe \<Rightarrow> byte list" where
  "contents p = map (\<lambda>i. p_buf p ! ((unat (p_head p) + i) mod 4096)) [0 ..< unat (p_count p)]"

lemma length_contents [simp]: "length (contents p) = unat (p_count p)"
  by (simp add: contents_def)

lemma nth_contents: "i < unat (p_count p) \<Longrightarrow> contents p ! i = p_buf p ! ((unat (p_head p) + i) mod 4096)"
  by (simp add: contents_def)

lemma mod_wrap: "4096 \<le> x \<Longrightarrow> x < 8192 \<Longrightarrow> x mod 4096 = x - (4096 :: nat)"
  by (simp add: mod_if)

text \<open>One pass of each copy loop.\<close>

lemma take_pass:
  assumes ok: "pipe_ok p" and r: "unat run \<le> unat (p_count p)" "unat run \<le> 4096 - unat (p_head p)"
  defines "p' \<equiv> p\<lparr>p_head := (p_head p + run) mod PIPE_BUF_SIZE, p_count := p_count p - run\<rparr>"
  shows "pipe_ok p'" and "contents p' = drop (unat run) (contents p)"
    and "get_bytes (unat (p_head p)) (unat run) (p_buf p) = take (unat run) (contents p)"
proof -
  note K = ok [unfolded pipe_ok_def]
  have h: "unat ((p_head p + run) mod PIPE_BUF_SIZE) = (unat (p_head p) + unat run) mod 4096"
    using K r by (simp add: unat_mod unat_plus_small)
  have c: "unat (p_count p - run) = unat (p_count p) - unat run" using r by (simp add: unat_sub word_le_nat_alt)
  have "((unat (p_head p) + unat run) mod 4096 + (unat (p_count p) - unat run)) mod 4096 = (unat (p_head p) + unat (p_count p)) mod 4096"
    unfolding mod_add_left_eq using r by simp
  moreover have "unat (p_count p) - unat run \<le> 4096" using K by linarith
  ultimately show "pipe_ok p'" using K h c by (simp add: pipe_ok_def p'_def)
  show "contents p' = drop (unat run) (contents p)"
  proof (rule nth_equalityI)
    show "length (contents p') = length (drop (unat run) (contents p))" using c by (simp add: p'_def)
  next
    fix i assume "i < length (contents p')"
    then have i: "i < unat (p_count p) - unat run" using c by (simp add: p'_def)
    have "contents p' ! i = p_buf p ! (((unat (p_head p) + unat run) mod 4096 + i) mod 4096)"
      using i c h by (subst nth_contents) (simp_all add: p'_def)
    also have "\<dots> = contents p ! (unat run + i)" using i by (simp add: nth_contents mod_add_left_eq add.assoc)
    finally show "contents p' ! i = drop (unat run) (contents p) ! i" using i by simp
  qed
  show "get_bytes (unat (p_head p)) (unat run) (p_buf p) = take (unat run) (contents p)"
    using K r by (intro nth_equalityI) (auto simp: get_bytes_def nth_contents)
qed

lemma put_pass:
  assumes ok: "pipe_ok p" and r: "length xs = unat run" "unat run \<le> 4096 - unat (p_count p)" "unat run \<le> 4096 - unat (p_tail p)"
  defines "p' \<equiv> p\<lparr>p_buf := put_bytes (unat (p_tail p)) xs (p_buf p), p_tail := (p_tail p + run) mod PIPE_BUF_SIZE, p_count := p_count p + run\<rparr>"
  shows "pipe_ok p'" and "contents p' = contents p @ xs"
proof -
  note K = ok [unfolded pipe_ok_def]
  have t: "unat (p_tail p) < 4096" using K by simp
  have tl: "unat ((p_tail p + run) mod PIPE_BUF_SIZE) = (unat (p_tail p) + unat run) mod 4096"
    using t r by (simp add: unat_mod unat_plus_small)
  have cr: "unat (p_count p) + unat run \<le> 4096" using K r by linarith
  then have c: "unat (p_count p + run) = unat (p_count p) + unat run" by (intro unat_plus_small) simp
  have fit: "unat (p_tail p) + length xs \<le> length (p_buf p)" using K r t by simp
  have "(unat (p_tail p) + unat run) mod 4096 = (unat (p_head p) + (unat (p_count p) + unat run)) mod 4096"
    using K by (simp add: mod_add_left_eq add.assoc)
  then show "pipe_ok p'" using K tl c cr fit by (simp add: pipe_ok_def p'_def)
  show "contents p' = contents p @ xs"
  proof (rule nth_equalityI)
    show "length (contents p') = length (contents p @ xs)" using c r by (simp add: p'_def)
  next
    fix i assume "i < length (contents p')"
    then have i: "i < unat (p_count p) + unat run" using c by (simp add: p'_def)
    let ?h = "unat (p_head p)" and ?c = "unat (p_count p)"
    have n: "contents p' ! i = put_bytes (unat (p_tail p)) xs (p_buf p) ! ((?h + i) mod 4096)"
      using i c by (subst nth_contents) (simp_all add: p'_def)
    show "contents p' ! i = (contents p @ xs) ! i"
    proof (cases "i < ?c")
      case True
      have "(?h + i) mod 4096 < unat (p_tail p) \<or> unat (p_tail p) + unat run \<le> (?h + i) mod 4096"
      proof (cases "?h + ?c < 4096")
        case True
        then show ?thesis using K \<open>i < ?c\<close> by simp
      next
        case False
        then have "unat (p_tail p) = ?h + ?c - 4096" using K by (simp add: mod_wrap)
        then show ?thesis using K r \<open>i < ?c\<close> False by (cases "?h + i < 4096") (auto simp: mod_wrap)
      qed
      then show ?thesis using n True fit K r by (auto simp: nth_put_bytes nth_append nth_contents)
    next
      case False
      then obtain j where j: "i = ?c + j" using le_Suc_ex not_less by blast
      have "(?h + i) mod 4096 = (unat (p_tail p) + j) mod 4096" using K j by (simp add: mod_add_left_eq add.assoc)
      also have "\<dots> = unat (p_tail p) + j" using i j r t by simp
      finally show ?thesis using n fit i j r by (simp add: nth_put_bytes nth_append)
    qed
  qed
qed

text \<open>The length of a pass, as a number: the run to the wrap point, cut to what is available and wanted.\<close>

lemma run_length:
  assumes "unat x \<le> 4096" and "unat (b::u32) \<le> 4096"
  shows "unat (let run = PIPE_BUF_SIZE - x; run = (if run > b then b else run) in if unat run > m then of_nat m else run) =
    min (min (4096 - unat x) (unat b)) m"
proof -
  have s: "unat (PIPE_BUF_SIZE - x) = 4096 - unat x" using assms by (simp add: unat_sub word_le_nat_alt)
  let ?r = "if PIPE_BUF_SIZE - x > b then b else PIPE_BUF_SIZE - x"
  have r: "unat ?r = min (4096 - unat x) (unat b)" using s by (simp add: word_less_nat_alt min_def)
  have "unat (of_nat m :: u32) = m" if "unat ?r > m" using that r assms by (simp add: unat_of_nat)
  then show ?thesis using r by (simp add: Let_def min_def)
qed

lemma ring_take_ok:
  "pipe_ok p \<Longrightarrow> cnt \<le> n \<Longrightarrow> \<exists>p'. ring_take p n cnt dst = Some (dst @ take (n - cnt) (contents p), p') \<and> pipe_ok p' \<and>
     contents p' = drop (n - cnt) (contents p) \<and> p_readers p' = p_readers p \<and> p_writers p' = p_writers p"
proof (induction "unat (p_count p)" arbitrary: p cnt dst rule: less_induct)
  case less
  show ?case
  proof (cases "cnt < n \<and> p_count p > 0")
    case False
    then have "n = cnt \<or> contents p = []" using less.prems(2) by (auto simp flip: length_0_conv simp: word_less_nat_alt)
    then show ?thesis using False less.prems(1) by (subst ring_take.simps) auto
  next
    case True
    define run where "run = (let run = PIPE_BUF_SIZE - p_head p; run = (if run > p_count p then p_count p else run)
      in if unat run > n - cnt then of_nat (n - cnt) else run)"
    let ?p = "p\<lparr>p_head := (p_head p + run) mod PIPE_BUF_SIZE, p_count := p_count p - run\<rparr>"
    note K = less.prems(1) [unfolded pipe_ok_def]
    have r: "unat run = min (min (4096 - unat (p_head p)) (unat (p_count p))) (n - cnt)"
      unfolding run_def by (rule run_length) (use K in simp_all)
    have rl: "unat run \<le> unat (p_count p)" "unat run \<le> 4096 - unat (p_head p)" using r by linarith+
    have pos: "0 < unat run" "unat run \<le> n - cnt" using r K True by (simp_all add: word_less_nat_alt)
    note P = take_pass [OF less.prems(1) rl]
    have "unat (p_count p - run) = unat (p_count p) - unat run" using rl(1) by (simp add: unat_sub word_le_nat_alt)
    then have dec: "unat (p_count ?p) < unat (p_count p)" using pos rl True by (simp add: word_less_nat_alt)
    have le: "cnt + unat run \<le> n" using pos True by linarith
    from less.hyps [OF dec P(1) le, of "dst @ get_bytes (unat (p_head p)) (unat run) (p_buf p)"]
    obtain p' where ih: "ring_take ?p n (cnt + unat run) (dst @ get_bytes (unat (p_head p)) (unat run) (p_buf p)) =
        Some ((dst @ get_bytes (unat (p_head p)) (unat run) (p_buf p)) @ take (n - (cnt + unat run)) (contents ?p), p')"
      "pipe_ok p'" "contents p' = drop (n - (cnt + unat run)) (contents ?p)" "p_readers p' = p_readers p" "p_writers p' = p_writers p"
      by auto
    have n: "n - cnt = unat run + (n - (cnt + unat run))" using le by simp
    have "take (n - cnt) (contents p) = take (unat run) (contents p) @ take (n - (cnt + unat run)) (contents ?p)"
      unfolding P(2) by (subst n) (rule take_add)
    moreover have "drop (n - cnt) (contents p) = drop (n - (cnt + unat run)) (contents ?p)"
      unfolding P(2) by (subst n) (simp add: add.commute)
    moreover have "ring_take p n cnt dst = ring_take ?p n (cnt + unat run) (dst @ get_bytes (unat (p_head p)) (unat run) (p_buf p))"
      by (subst ring_take.simps) (simp only: run_def True Let_def simp_thms if_True)
    ultimately show ?thesis using ih P(3) by auto
  qed
qed

lemma ring_put_ok:
  "pipe_ok p \<Longrightarrow> cnt \<le> length src \<Longrightarrow> \<exists>p'. ring_put p src cnt =
       Some (min (length src) (cnt + (4096 - length (contents p))), p') \<and> pipe_ok p' \<and>
     contents p' = contents p @ take (4096 - length (contents p)) (drop cnt src) \<and>
     p_readers p' = p_readers p \<and> p_writers p' = p_writers p"
proof (induction "4096 - unat (p_count p)" arbitrary: p cnt rule: less_induct)
  case less
  note K = less.prems(1) [unfolded pipe_ok_def]
  show ?case
  proof (cases "cnt < length src \<and> p_count p < PIPE_BUF_SIZE")
    case False
    then have "length src = cnt \<or> unat (p_count p) = 4096" using less.prems(2) K by (auto simp: word_less_nat_alt)
    then show ?thesis using False less.prems by (subst ring_put.simps) auto
  next
    case True
    define run where "run = (let run = PIPE_BUF_SIZE - p_tail p; space = PIPE_BUF_SIZE - p_count p;
      run = (if run > space then space else run) in if unat run > length src - cnt then of_nat (length src - cnt) else run)"
    define q where "q = p\<lparr>p_buf := put_bytes (unat (p_tail p)) (get_bytes cnt (unat run) src) (p_buf p),
      p_tail := (p_tail p + run) mod PIPE_BUF_SIZE, p_count := p_count p + run\<rparr>"
    have sp: "unat (PIPE_BUF_SIZE - p_count p) = 4096 - unat (p_count p)" using K by (simp add: unat_sub word_le_nat_alt)
    have t: "unat (p_tail p) < 4096" using K by simp
    have r: "unat run = min (min (4096 - unat (p_tail p)) (4096 - unat (p_count p))) (length src - cnt)"
      unfolding run_def sp [symmetric] using run_length [of "p_tail p" "PIPE_BUF_SIZE - p_count p" "length src - cnt"] t sp
      by (simp add: Let_def)
    have rl: "unat run \<le> 4096 - unat (p_count p)" "unat run \<le> 4096 - unat (p_tail p)" "unat run \<le> length src - cnt"
      using r by linarith+
    have pos: "0 < unat run" using r t True by (simp add: word_less_nat_alt)
    have g: "length (get_bytes cnt (unat run) src) = unat run" using rl(3) by (simp add: get_bytes_def)
    note P = put_pass [OF less.prems(1) g rl(1,2), folded q_def]
    have c: "unat (p_count q) = unat (p_count p) + unat run" using arg_cong [OF P(2), of length] g by simp
    then have dec: "4096 - unat (p_count q) < 4096 - unat (p_count p)" using pos rl(1) by linarith
    have le: "cnt + unat run \<le> length src" using rl(3) True by linarith
    from less.hyps [OF dec P(1) le] obtain p' where
      ih: "ring_put q src (cnt + unat run) = Some (min (length src) (cnt + unat run + (4096 - length (contents q))), p')" "pipe_ok p'"
        "contents p' = contents q @ take (4096 - length (contents q)) (drop (cnt + unat run) src)"
        "p_readers p' = p_readers q" "p_writers p' = p_writers q" by blast
    have room: "4096 - unat (p_count p) = unat run + (4096 - unat (p_count q))" using c rl(1) by linarith
    have "contents p' = contents p @ take (4096 - length (contents p)) (drop cnt src)"
      unfolding ih(3) length_contents room take_add unfolding P(2) get_bytes_def by (simp add: add.commute)
    moreover have "cnt + unat run + (4096 - length (contents q)) = cnt + (4096 - length (contents p))" using room by simp
    moreover have "ring_put p src cnt = ring_put q src (cnt + unat run)"
      by (subst ring_put.simps) (simp only: run_def q_def True Let_def simp_thms if_True)
    ultimately show ?thesis using ih by (auto simp: q_def)
  qed
qed

section \<open>A bounded byte queue\<close>

text \<open>The contract a pipe offers its two ends, whatever the ring looks like inside.\<close>

locale byte_queue =
  fixes cap :: nat and inv :: "'q \<Rightarrow> bool" and bytes :: "'q \<Rightarrow> byte list"
    and put :: "'q \<Rightarrow> byte list \<Rightarrow> (nat \<times> 'q) option" and get :: "'q \<Rightarrow> nat \<Rightarrow> (byte list \<times> 'q) option"
  assumes bound: "inv q \<Longrightarrow> length (bytes q) \<le> cap"
    and put_law: "inv q \<Longrightarrow> \<exists>q'. put q src = Some (min (length src) (cap - length (bytes q)), q') \<and> inv q' \<and>
      bytes q' = bytes q @ take (cap - length (bytes q)) src"
    and get_law: "inv q \<Longrightarrow> \<exists>q'. get q n = Some (take n (bytes q), q') \<and> inv q' \<and> bytes q' = drop n (bytes q)"
begin

lemma put_stream:
  assumes "inv q" and "sent = recv @ bytes q" and "put q src = Some (k, q')"
  shows "inv q'" and "sent @ take k src = recv @ bytes q'" and "k \<le> length src" and "length (bytes q') \<le> cap"
proof -
  obtain q'' where "put q src = Some (min (length src) (cap - length (bytes q)), q'')" "inv q''"
    "bytes q'' = bytes q @ take (cap - length (bytes q)) src" using put_law [OF assms(1)] by blast
  then show "inv q'" "sent @ take k src = recv @ bytes q'" "k \<le> length src" "length (bytes q') \<le> cap"
    using assms(2,3) bound [of q'] by (auto simp: min_def)
qed

lemma get_stream:
  assumes "inv q" and "sent = recv @ bytes q" and "get q n = Some (out, q')"
  shows "inv q'" and "sent = (recv @ out) @ bytes q'" and "length out \<le> n" and "bytes q \<noteq> [] \<Longrightarrow> 0 < n \<Longrightarrow> out \<noteq> []"
proof -
  obtain q'' where "get q n = Some (take n (bytes q), q'')" "inv q''" "bytes q'' = drop n (bytes q)" using get_law [OF assms(1)] by blast
  then show "inv q'" "sent = (recv @ out) @ bytes q'" "length out \<le> n" "bytes q \<noteq> [] \<Longrightarrow> 0 < n \<Longrightarrow> out \<noteq> []"
    using assms(2,3) by auto
qed

lemma put_get:
  assumes "inv q" and "bytes q = []" and "length src \<le> cap" and "put q src = Some (k, q')"
  shows "k = length src \<and> (\<exists>q''. get q' (length src) = Some (src, q'') \<and> bytes q'' = [])"
proof -
  have "k = length src" "inv q'" "bytes q' = src" using put_law [OF assms(1), of src] assms(2-4) by auto
  then show ?thesis using get_law [of q' "length src"] by auto
qed

end

interpretation ring: byte_queue 4096 pipe_ok contents "\<lambda>p src. ring_put p src 0" "\<lambda>p n. ring_take p n 0 []"
proof unfold_locales
  show "length (contents p) \<le> 4096" if "pipe_ok p" for p using that by (simp add: pipe_ok_def)
  show "\<exists>p'. ring_put p src 0 = Some (min (length src) (4096 - length (contents p)), p') \<and> pipe_ok p' \<and>
      contents p' = contents p @ take (4096 - length (contents p)) src" if "pipe_ok p" for p src
    using ring_put_ok [OF that, of 0 src] by auto
  show "\<exists>p'. ring_take p n 0 [] = Some (take n (contents p), p') \<and> pipe_ok p' \<and> contents p' = drop n (contents p)"
    if "pipe_ok p" for p n using ring_take_ok [OF that, of 0 n "[]"] by auto
qed

section \<open>Reading, writing and closing an end\<close>

type_synonym pipes = "nat \<Rightarrow> pipe option"

definition new_pipe :: "byte list \<Rightarrow> pipe" where
  "new_pipe junk = \<lparr>p_buf = junk, p_head = 0, p_tail = 0, p_count = 0, p_readers = 1, p_writers = 1\<rparr>"

text \<open>
  Creating a pipe. The first three arguments say whether \<^verbatim>\<open>kzalloc\<close> found memory for the pipe and its two
  ends, the fourth is the ring buffer \<^verbatim>\<open>kmalloc\<close> returned, with whatever it holds; \<open>a\<close> is the address of
  the pipe.
\<close>

definition pipe_create :: "bool \<Rightarrow> bool \<Rightarrow> bool \<Rightarrow> byte list option \<Rightarrow> nat \<Rightarrow> pipes \<Rightarrow> (ofile \<times> ofile) option \<times> pipes" where
  "pipe_create p r w buf a ps = (
     if \<not> p \<or> \<not> r \<or> \<not> w then (None, ps)
     else case buf of None \<Rightarrow> (None, ps)
     | Some junk \<Rightarrow> (Some (zero_file\<lparr>f_type := FILE_PIPE, f_pipe := Some a, f_writable := False, f_flags := 0, f_refs := 1\<rparr>,
         zero_file\<lparr>f_type := FILE_PIPE, f_pipe := Some a, f_writable := True, f_flags := O_WRONLY, f_refs := 1\<rparr>),
         ps(a \<mapsto> new_pipe junk)))"

text \<open>
  One pass of the loop of \<^verbatim>\<open>pipe_read\<close> under the lock: a result and the bytes read, or no result if the
  reader has to wait.
\<close>

definition read_try :: "pipe \<Rightarrow> nat \<Rightarrow> ((int \<times> byte list) option \<times> pipe) option" where
  "read_try p n = (
     if p_count p > 0 then
       (case ring_take p n 0 [] of None \<Rightarrow> None | Some (got, p') \<Rightarrow> Some (Some (int (length got), got), p'))
     else if p_writers p \<le> 0 then Some (Some (0, []), p)
     else Some (None, p))"

definition write_try :: "pipe \<Rightarrow> byte list \<Rightarrow> nat \<Rightarrow> (int option \<times> nat \<times> pipe) option" where
  "write_try p src cnt = (
     if p_readers p \<le> 0 then Some (Some (if cnt \<noteq> 0 then int cnt else - 1), cnt, p)
     else if p_count p < PIPE_BUF_SIZE then
       (case ring_put p (drop cnt src) 0 of None \<Rightarrow> None | Some (k, p') \<Rightarrow> Some (None, cnt + k, p'))
     else Some (None, cnt, p))"

text \<open>
  Whenever the lock is dropped other tasks may run: each element of \<open>env\<close> is what they do to the pipes
  before the lock is taken again. \<open>None\<close> is a call that has not returned yet.
\<close>

fun pipe_read_loop :: "nat \<Rightarrow> nat \<Rightarrow> (pipes \<Rightarrow> pipes) list \<Rightarrow> pipes \<Rightarrow> ((int \<times> byte list) \<times> pipes) option" where
  "pipe_read_loop a n env ps = (case ps a of None \<Rightarrow> None | Some p \<Rightarrow>
     (case read_try p n of None \<Rightarrow> None
      | Some (Some res, p') \<Rightarrow> Some (res, ps(a \<mapsto> p'))
      | Some (None, p') \<Rightarrow> (case env of [] \<Rightarrow> None | e # env' \<Rightarrow> pipe_read_loop a n env' (e ps))))"

fun pipe_write_loop :: "nat \<Rightarrow> byte list \<Rightarrow> nat \<Rightarrow> (pipes \<Rightarrow> pipes) list \<Rightarrow> pipes \<Rightarrow> (int \<times> pipes) option" where
  "pipe_write_loop a src cnt env ps = (if cnt < length src then
     (case ps a of None \<Rightarrow> None | Some p \<Rightarrow>
      (case write_try p src cnt of None \<Rightarrow> None
       | Some (Some r, cnt', p') \<Rightarrow> Some (r, ps)
       | Some (None, cnt', p') \<Rightarrow>
         if cnt' < length src then (case env of [] \<Rightarrow> None | e # env' \<Rightarrow> pipe_write_loop a src cnt' env' (e (ps(a \<mapsto> p'))))
         else Some (int cnt', ps(a \<mapsto> p'))))
     else Some (int cnt, ps))"

declare pipe_read_loop.simps [simp del] pipe_write_loop.simps [simp del]

definition pipe_read :: "ofile \<Rightarrow> nat \<Rightarrow> (pipes \<Rightarrow> pipes) list \<Rightarrow> pipes \<Rightarrow> ((int \<times> byte list) \<times> pipes) option" where
  "pipe_read f n env ps = (case f_pipe f of None \<Rightarrow> Some ((- 1, []), ps) | Some a \<Rightarrow>
     if f_type f \<noteq> FILE_PIPE then Some ((- 1, []), ps)
     else if f_writable f then Some ((- 1, []), ps)
     else if n = 0 then Some ((0, []), ps)
     else pipe_read_loop a n env ps)"

definition pipe_write :: "ofile \<Rightarrow> byte list \<Rightarrow> (pipes \<Rightarrow> pipes) list \<Rightarrow> pipes \<Rightarrow> (int \<times> pipes) option" where
  "pipe_write f src env ps = (case f_pipe f of None \<Rightarrow> Some (- 1, ps) | Some a \<Rightarrow>
     if f_type f \<noteq> FILE_PIPE then Some (- 1, ps)
     else if \<not> f_writable f then Some (- 1, ps)
     else if src = [] then Some (0, ps)
     else pipe_write_loop a src 0 env ps)"

definition drop_end :: "bool \<Rightarrow> pipe \<Rightarrow> pipe" where
  "drop_end w p = (
     if w then (if p_writers p > 0 then p\<lparr>p_writers := p_writers p - 1\<rparr> else p)
     else (if p_readers p > 0 then p\<lparr>p_readers := p_readers p - 1\<rparr> else p))"

definition pipe_close :: "ofile \<Rightarrow> pipes \<Rightarrow> ofile \<times> pipes" where
  "pipe_close f ps = (case f_pipe f of None \<Rightarrow> (f, ps) | Some a \<Rightarrow>
     if f_type f \<noteq> FILE_PIPE then (f, ps)
     else case ps a of None \<Rightarrow> (f, ps) | Some p \<Rightarrow>
       let p' = drop_end (f_writable f) p;
           dead = (p_readers p' \<le> 0 \<and> p_writers p' \<le> 0)
       in (f\<lparr>f_pipe := None\<rparr>, if dead then ps(a := None) else ps(a \<mapsto> p')))"

section \<open>Interleavings\<close>

text \<open>A pipe with the history of what its ends have sent and received so far.\<close>

record pipe_run =
  pr_pipe :: pipe
  pr_sent :: "byte list"
  pr_recv :: "byte list"

inductive pipe_step :: "pipe_run \<Rightarrow> pipe_run \<Rightarrow> bool" where
  read_step: "read_try (pr_pipe s) n = Some (Some (r, out), p') \<Longrightarrow>
    pipe_step s (s\<lparr>pr_pipe := p', pr_recv := pr_recv s @ out\<rparr>)"
| write_step: "write_try (pr_pipe s) src cnt = Some (res, cnt', p') \<Longrightarrow>
    pipe_step s (s\<lparr>pr_pipe := p', pr_sent := pr_sent s @ take (cnt' - cnt) (drop cnt src)\<rparr>)"
| close_step: "pipe_step s (s\<lparr>pr_pipe := drop_end w (pr_pipe s)\<rparr>)"

inductive_cases pipe_stepE: "pipe_step s s'"

definition stream_ok :: "pipe_run \<Rightarrow> bool" where
  "stream_ok s \<longleftrightarrow> pipe_ok (pr_pipe s) \<and> pr_sent s = pr_recv s @ contents (pr_pipe s)"

lemma contents_ends [simp]:
  "contents (p\<lparr>p_readers := r\<rparr>) = contents p" "contents (p\<lparr>p_writers := w\<rparr>) = contents p"
  "pipe_ok (p\<lparr>p_readers := r\<rparr>) = pipe_ok p" "pipe_ok (p\<lparr>p_writers := w\<rparr>) = pipe_ok p"
  by (simp_all add: contents_def pipe_ok_def)

lemma stream_step: "pipe_step s s' \<Longrightarrow> stream_ok s \<Longrightarrow> stream_ok s'"
proof (induction rule: pipe_step.induct)
  case (read_step s n r out p')
  have ok: "pipe_ok (pr_pipe s)" "pr_sent s = pr_recv s @ contents (pr_pipe s)" using read_step.prems by (simp_all add: stream_ok_def)
  show ?case using read_step.hyps ok ring.get_stream [OF ok]
    by (auto simp: stream_ok_def read_try_def split: if_splits option.splits prod.splits)
next
  case (write_step s src cnt res cnt' p')
  have ok: "pipe_ok (pr_pipe s)" "pr_sent s = pr_recv s @ contents (pr_pipe s)" using write_step.prems by (simp_all add: stream_ok_def)
  show ?case using write_step.hyps ok ring.put_stream [OF ok]
    by (auto simp: stream_ok_def write_try_def split: if_splits option.splits prod.splits)
next
  case (close_step s w)
  then show ?case by (auto simp: stream_ok_def drop_end_def)
qed

lemma new_pipe_ok: "length junk = 4096 \<Longrightarrow> pipe_ok (new_pipe junk) \<and> contents (new_pipe junk) = []"
  by (simp add: pipe_ok_def contents_def new_pipe_def)

lemma read_try_ok:
  assumes "pipe_ok p"
  shows "\<exists>p'. read_try p n = Some (if contents p \<noteq> [] then Some (int (length (take n (contents p))), take n (contents p))
      else if p_writers p \<le> 0 then Some (0, []) else None, p') \<and> pipe_ok p' \<and> contents p' = drop n (contents p)"
proof -
  have "p_count p > 0 \<longleftrightarrow> contents p \<noteq> []" by (auto simp flip: length_0_conv simp: word_less_nat_alt)
  then show ?thesis using ring.get_law [OF assms, of n] assms by (auto simp: read_try_def)
qed

lemma read_try_awake:
  assumes "pipe_ok p" and "contents p \<noteq> [] \<or> p_writers p \<le> 0"
  obtains p' where "read_try p n = Some (Some (int (length (take n (contents p))), take n (contents p)), p')" and "pipe_ok p'"
    and "contents p' = drop n (contents p)"
proof (cases "contents p = []")
  case True
  then have "take n (contents p) = []" by simp
  then show ?thesis using that read_try_ok [OF assms(1), of n] assms(2) True unfolding \<open>take n (contents p) = []\<close> by auto
next
  case False
  then show ?thesis using that read_try_ok [OF assms(1), of n] by auto
qed

text \<open>
  C10. A pipe is a reliable byte stream under every interleaving: however the reads, the writes and the
  closes of its ends are interleaved, the bytes received so far followed by the bytes in the ring are
  exactly the bytes accepted from writers, in order, and the ring holds at most 4096 of them; a read
  that reports end of file therefore means that everything sent has been received and no writer is
  left.
\<close>

theorem pipe_stream:
  assumes "length junk = 4096" and run: "pipe_step\<^sup>*\<^sup>* \<lparr>pr_pipe = new_pipe junk, pr_sent = [], pr_recv = []\<rparr> s"
  shows "pr_sent s = pr_recv s @ contents (pr_pipe s) \<and> length (contents (pr_pipe s)) \<le> 4096 \<and>
    (\<forall>n out p'. 0 < n \<and> read_try (pr_pipe s) n = Some (Some (0, out), p') \<longrightarrow>
       pr_recv s = pr_sent s \<and> p_writers (pr_pipe s) \<le> 0)"
proof -
  have ok: "stream_ok s" using run
  proof (induction rule: rtranclp_induct)
    case base
    then show ?case using new_pipe_ok [OF assms(1)] by (simp add: stream_ok_def)
  next
    case (step x y)
    then show ?case using stream_step by blast
  qed
  then have p: "pipe_ok (pr_pipe s)" by (simp add: stream_ok_def)
  have "contents (pr_pipe s) = [] \<and> p_writers (pr_pipe s) \<le> 0"
    if "0 < n" "read_try (pr_pipe s) n = Some (Some (0, out), p')" for n out p'
  proof (cases "contents (pr_pipe s) = []")
    case True
    then show ?thesis using read_try_ok [OF p, of n] that by (auto split: if_splits)
  next
    case False
    then have "length (take n (contents (pr_pipe s))) \<noteq> 0" using that(1) by (simp del: length_contents length_take)
    then show ?thesis using read_try_ok [OF p, of n] that(2) False by (auto simp del: length_take take_eq_Nil)
  qed
  then show ?thesis using ok ring.bound [OF p] by (auto simp: stream_ok_def)
qed

definition demo_ring :: "byte list" where
  "demo_ring = replicate 4096 0"

theorem pipe_stream_witness:
  "\<exists>s. pipe_step\<^sup>*\<^sup>* \<lparr>pr_pipe = new_pipe demo_ring, pr_sent = [], pr_recv = []\<rparr> s \<and> pr_sent s = [1, 2] \<and>
     contents (pr_pipe s) = [1, 2]"
proof -
  let ?s = "\<lparr>pr_pipe = new_pipe demo_ring, pr_sent = [], pr_recv = []\<rparr>"
  have l: "length demo_ring = 4096" by (simp add: demo_ring_def)
  note N = new_pipe_ok [OF l]
  obtain p' where put: "ring_put (new_pipe demo_ring) [1, 2] 0 = Some (2, p')" using ring_put_ok [of "new_pipe demo_ring" 0 "[1, 2]"] N by auto
  then have "write_try (new_pipe demo_ring) [1, 2] 0 = Some (None, 2, p')" by (simp add: write_try_def) (simp add: new_pipe_def)
  from pipe_step.write_step [of ?s, simplified, OF this]
  have st: "pipe_step\<^sup>*\<^sup>* ?s (?s\<lparr>pr_pipe := p', pr_sent := [1, 2]\<rparr>)" by auto
  show ?thesis using pipe_stream [OF l st] st by (intro exI [of _ "?s\<lparr>pr_pipe := p', pr_sent := [1, 2]\<rparr>"]) simp
qed

text \<open>The pipes after the first \<open>k\<close> interferences.\<close>

fun others :: "nat \<Rightarrow> (pipes \<Rightarrow> pipes) list \<Rightarrow> pipes \<Rightarrow> pipes" where
  "others 0 env ps = ps"
| "others (Suc k) [] ps = ps"
| "others (Suc k) (e # env) ps = others k env (e ps)"

text \<open>
  C33. A reader is never left waiting: on a read end, \<^verbatim>\<open>pipe_read\<close> returns as soon as one of the states
  that the other tasks leave behind has a byte in the ring or no writer any more; it returns the
  oldest bytes of that state, as many as fit into the caller's buffer, and 0 exactly when there are
  none.
\<close>

theorem pipe_read_returns:
  assumes f: "f_type f = FILE_PIPE" "f_pipe f = Some a" "\<not> f_writable f" and n: "0 < n"
    and k: "k \<le> length env" and wait: "\<And>j. j < k \<Longrightarrow> \<exists>p. others j env ps a = Some p \<and> pipe_ok p \<and> contents p = [] \<and> 0 < p_writers p"
    and p: "others k env ps a = Some p" "pipe_ok p" "contents p \<noteq> [] \<or> p_writers p \<le> 0"
  shows "\<exists>p'. pipe_read f n env ps = Some ((int (length (take n (contents p))), take n (contents p)), (others k env ps)(a \<mapsto> p')) \<and>
    pipe_ok p' \<and> contents p' = drop n (contents p)"
proof -
  have "\<exists>p'. pipe_read_loop a n env ps = Some ((int (length (take n (contents p))), take n (contents p)), (others k env ps)(a \<mapsto> p')) \<and>
    pipe_ok p' \<and> contents p' = drop n (contents p)"
    using k wait p
  proof (induction k arbitrary: env ps)
    case 0
    then have "ps a = Some p" by simp
    moreover obtain p' where "read_try p n = Some (Some (int (length (take n (contents p))), take n (contents p)), p')" "pipe_ok p'"
      "contents p' = drop n (contents p)" using read_try_awake [OF 0(4,5)] by blast
    ultimately show ?case by (intro exI [of _ p'], subst pipe_read_loop.simps) simp
  next
    case (Suc k)
    then obtain e env' where env: "env = e # env'" by (cases env) auto
    obtain q where q: "ps a = Some q" "pipe_ok q" "contents q = []" "0 < p_writers q" using Suc.prems(2) [of 0] by auto
    have tr: "\<exists>q'. read_try q n = Some (None, q')" using read_try_ok [OF q(2), of n] q(3,4) by auto
    have w: "\<exists>p. others j env' (e ps) a = Some p \<and> pipe_ok p \<and> contents p = [] \<and> 0 < p_writers p" if "j < k" for j
      using Suc.prems(2) [of "Suc j"] that env by simp
    have pa: "others k env' (e ps) a = Some p" and le: "k \<le> length env'" using Suc.prems(1,3) env by simp_all
    from Suc.IH [OF le w pa Suc.prems(4,5)] obtain p' where
      ih: "pipe_read_loop a n env' (e ps) = Some ((int (length (take n (contents p))), take n (contents p)), (others k env' (e ps))(a \<mapsto> p'))"
        "pipe_ok p'" "contents p' = drop n (contents p)" by blast
    obtain q' where "read_try q n = Some (None, q')" using tr by blast
    then show ?case using q(1) env ih by (intro exI [of _ p'], subst pipe_read_loop.simps) simp
  qed
  then show ?thesis using f n by (simp add: pipe_read_def)
qed

theorem pipe_read_returns_witness:
  "\<exists>ps'. pipe_read (zero_file\<lparr>f_type := FILE_PIPE, f_pipe := Some 0\<rparr>) 8
     [\<lambda>ps. ps(0 \<mapsto> (new_pipe demo_ring)\<lparr>p_writers := 0\<rparr>)] (Map.empty(0 \<mapsto> new_pipe demo_ring)) = Some ((0, []), ps')"
proof -
  have l: "length demo_ring = 4096" by (simp add: demo_ring_def)
  note N = new_pipe_ok [OF l]
  have W: "p_writers (new_pipe demo_ring) = 1" "p_count (new_pipe demo_ring) = 0" "\<not> f_writable zero_file"
    by (simp_all add: new_pipe_def zero_file_def)
  show ?thesis
    using pipe_read_returns [of "zero_file\<lparr>f_type := FILE_PIPE, f_pipe := Some 0\<rparr>" 0 8 1
      "[\<lambda>ps. ps(0 \<mapsto> (new_pipe demo_ring)\<lparr>p_writers := 0\<rparr>)]" "Map.empty(0 \<mapsto> new_pipe demo_ring)" "(new_pipe demo_ring)\<lparr>p_writers := 0\<rparr>"] N
    W by (simp only: contents_ends) auto
qed

end
