(* ===== verification/Vfs.thy ===== *)
theory Vfs
  imports Mount Pipe
begin

text \<open>
  The VFS dispatcher (\<^verbatim>\<open>kernel/vfs.c\<close>) over the mount table and over the operations of the file systems
  (\<^verbatim>\<open>struct fs_ops\<close>).  The state holds the mount table, the open files by address, the pipes, the
  registration flags of the two built-in file systems, the device file system's handle registry, and
  whatever further state \<open>'s\<close> the mounted file systems keep.  An operation that may block has no result when it never
  returns.
\<close>

section \<open>State and operation tables\<close>

record 's vworld =
  v_mt :: mtab
  v_files :: "nat \<Rightarrow> ofile option"
  v_pipes :: pipes
  v_kfs_registered :: bool
  v_devfs_ready :: bool
  v_handles :: "nat option list"
  v_fs :: 's

record k_stat =
  st_size :: u32
  st_is_dir :: u32
  st_mode :: u32
  st_uid :: u32
  st_gid :: u32
  st_mtime :: u32

record k_dirent =
  de_name :: "byte list"
  de_size :: u32
  de_is_dir :: u32
  de_mode :: u32
  de_uid :: u32
  de_gid :: u32
  de_mtime :: u32

record fs_statfs =
  sf_block_size :: u32
  sf_blocks :: u64
  sf_free_blocks :: u64
  sf_files :: u32
  sf_free_files :: u32

record 's fs_ops =
  o_open :: "(nat \<Rightarrow> cstr \<Rightarrow> u32 \<Rightarrow> 's vworld \<Rightarrow> nat option \<times> 's vworld) option"
  o_close :: "(nat \<Rightarrow> 's vworld \<Rightarrow> 's vworld) option"
  o_read :: "(nat \<Rightarrow> nat \<Rightarrow> 's vworld \<Rightarrow> ((int \<times> byte list) \<times> 's vworld) option) option"
  o_write :: "(nat \<Rightarrow> byte list \<Rightarrow> 's vworld \<Rightarrow> (int \<times> 's vworld) option) option"
  o_seek :: "(nat \<Rightarrow> int \<Rightarrow> int \<Rightarrow> 's vworld \<Rightarrow> int \<times> 's vworld) option"
  o_stat :: "(nat \<Rightarrow> cstr \<Rightarrow> 's vworld \<Rightarrow> k_stat option \<times> 's vworld) option"
  o_readdir :: "(nat \<Rightarrow> cstr \<Rightarrow> int \<Rightarrow> 's vworld \<Rightarrow> k_dirent option \<times> 's vworld) option"
  o_unlink :: "(nat \<Rightarrow> cstr \<Rightarrow> 's vworld \<Rightarrow> int \<times> 's vworld) option"
  o_mkdir :: "(nat \<Rightarrow> cstr \<Rightarrow> 's vworld \<Rightarrow> int \<times> 's vworld) option"
  o_chmod :: "(nat \<Rightarrow> cstr \<Rightarrow> u32 \<Rightarrow> 's vworld \<Rightarrow> int \<times> 's vworld) option"
  o_chown :: "(nat \<Rightarrow> cstr \<Rightarrow> u32 \<Rightarrow> u32 \<Rightarrow> 's vworld \<Rightarrow> int \<times> 's vworld) option"
  o_statfs :: "(nat \<Rightarrow> 's vworld \<Rightarrow> fs_statfs option \<times> 's vworld) option"

text \<open>What is fixed while the kernel runs: the descriptors and operation tables by address, and the addresses of the pipe operations and of the two built-in file system types.\<close>

record 's kern =
  k_types :: "nat \<Rightarrow> 's vworld fs_type"
  k_ops :: "nat \<Rightarrow> 's fs_ops"
  k_pipe_ops :: nat
  k_kfs_type :: nat
  k_devfs_type :: nat

definition set_file :: "nat \<Rightarrow> ofile option \<Rightarrow> 's vworld \<Rightarrow> 's vworld" where
  "set_file a f w = w\<lparr>v_files := (v_files w)(a := f)\<rparr>"

section \<open>Pipes as ordinary handles\<close>

definition pipe_op_close :: "nat \<Rightarrow> 's vworld \<Rightarrow> 's vworld" where
  "pipe_op_close a w = (let (f, ps) = pipe_close (the (v_files w a)) (v_pipes w) in set_file a None (w\<lparr>v_pipes := ps\<rparr>))"

definition no_ops :: "'s fs_ops" where
  "no_ops = \<lparr>o_open = None, o_close = None, o_read = None, o_write = None, o_seek = None, o_stat = None, o_readdir = None,
     o_unlink = None, o_mkdir = None, o_chmod = None, o_chown = None, o_statfs = None\<rparr>"

text \<open>The argument is what other tasks do to the pipes while a call sleeps.\<close>

definition pipe_ops :: "(pipes \<Rightarrow> pipes) list \<Rightarrow> 's fs_ops" where
  "pipe_ops env = no_ops\<lparr>
     o_read := Some (\<lambda>a n w. case pipe_read (the (v_files w a)) n env (v_pipes w) of None \<Rightarrow> None
       | Some (res, ps) \<Rightarrow> Some (res, w\<lparr>v_pipes := ps\<rparr>)),
     o_write := Some (\<lambda>a buf w. case pipe_write (the (v_files w a)) buf env (v_pipes w) of None \<Rightarrow> None
       | Some (res, ps) \<Rightarrow> Some (res, w\<lparr>v_pipes := ps\<rparr>)),
     o_close := Some pipe_op_close\<rparr>"

text \<open>
  \<^verbatim>\<open>vfs_pipe\<close>: the allocation outcomes of \<^verbatim>\<open>pipe_create\<close>, the address of the pipe and of its two ends.
\<close>

definition vfs_pipe :: "'s kern \<Rightarrow> bool \<Rightarrow> bool \<Rightarrow> bool \<Rightarrow> byte list option \<Rightarrow> nat \<Rightarrow> nat \<Rightarrow> nat \<Rightarrow> 's vworld \<Rightarrow> int \<times> 's vworld" where
  "vfs_pipe k p r w buf pa ra wa v = (case pipe_create p r w buf pa (v_pipes v) of
       (None, ps) \<Rightarrow> (- 1, v\<lparr>v_pipes := ps\<rparr>)
     | (Some (rend, wend), ps) \<Rightarrow> (0, set_file wa (Some (wend\<lparr>f_ops := Some (k_pipe_ops k)\<rparr>))
         (set_file ra (Some (rend\<lparr>f_ops := Some (k_pipe_ops k)\<rparr>)) (v\<lparr>v_pipes := ps\<rparr>))))"

definition file_ops :: "'s kern \<Rightarrow> nat \<Rightarrow> 's vworld \<Rightarrow> nat option \<times> 's vworld" where
  "file_ops k a w = (let f = the (v_files w a) in
     if f_ops f = None \<and> f_type f = FILE_PIPE then (Some (k_pipe_ops k), set_file a (Some (f\<lparr>f_ops := Some (k_pipe_ops k)\<rparr>)) w)
     else (f_ops f, w))"

section \<open>Path dispatch\<close>

text \<open>
  A path or buffer pointer that may be null is an option.  An out pointer that may be null is a boolean,
  whether it is there.  An operation with an out structure returns it only when it succeeds.
\<close>

text \<open>The operations of the file system mounted in a slot.\<close>

definition mount_ops :: "'s kern \<Rightarrow> 's vworld \<Rightarrow> nat \<Rightarrow> nat" where
  "mount_ops k w m = the (t_ops (k_types k (the (m_type (mounts (v_mt w) ! m)))))"

definition vfs_open :: "'s kern \<Rightarrow> cstr option \<Rightarrow> u32 \<Rightarrow> 's vworld \<Rightarrow> nat option \<times> 's vworld" where
  "vfs_open k path flags w = (case mount_resolve (v_mt w) path of None \<Rightarrow> (None, w) | Some (m, rel) \<Rightarrow>
     case o_open (k_ops k (mount_ops k w m)) of None \<Rightarrow> (None, w) | Some op \<Rightarrow>
     (case op m rel flags w of (None, w) \<Rightarrow> (None, w)
      | (Some a, w) \<Rightarrow> (Some a, set_file a (map_option (\<lambda>f. f\<lparr>f_ops := Some (mount_ops k w m), f_mnt := Some m\<rparr>) (v_files w a)) w)))"

definition vfs_stat :: "'s kern \<Rightarrow> cstr option \<Rightarrow> bool \<Rightarrow> 's vworld \<Rightarrow> k_stat option \<times> 's vworld" where
  "vfs_stat k path st w = (if \<not> st then (None, w) else case mount_resolve (v_mt w) path of None \<Rightarrow> (None, w) | Some (m, rel) \<Rightarrow>
     case o_stat (k_ops k (mount_ops k w m)) of None \<Rightarrow> (None, w) | Some op \<Rightarrow> op m rel w)"

definition vfs_readdir :: "'s kern \<Rightarrow> cstr option \<Rightarrow> int \<Rightarrow> bool \<Rightarrow> 's vworld \<Rightarrow> k_dirent option \<times> 's vworld" where
  "vfs_readdir k path index de w = (if \<not> de \<or> index < 0 then (None, w) else
     case mount_resolve (v_mt w) path of None \<Rightarrow> (None, w) | Some (m, rel) \<Rightarrow>
     case o_readdir (k_ops k (mount_ops k w m)) of None \<Rightarrow> (None, w) | Some op \<Rightarrow> op m rel index w)"

definition vfs_unlink :: "'s kern \<Rightarrow> cstr option \<Rightarrow> 's vworld \<Rightarrow> int \<times> 's vworld" where
  "vfs_unlink k path w = (case mount_resolve (v_mt w) path of None \<Rightarrow> (- 1, w) | Some (m, rel) \<Rightarrow>
     case o_unlink (k_ops k (mount_ops k w m)) of None \<Rightarrow> (- 1, w) | Some op \<Rightarrow> op m rel w)"

definition vfs_mkdir :: "'s kern \<Rightarrow> cstr option \<Rightarrow> 's vworld \<Rightarrow> int \<times> 's vworld" where
  "vfs_mkdir k path w = (case mount_resolve (v_mt w) path of None \<Rightarrow> (- 1, w) | Some (m, rel) \<Rightarrow>
     case o_mkdir (k_ops k (mount_ops k w m)) of None \<Rightarrow> (- 1, w) | Some op \<Rightarrow> op m rel w)"

definition vfs_chmod :: "'s kern \<Rightarrow> cstr option \<Rightarrow> u32 \<Rightarrow> 's vworld \<Rightarrow> int \<times> 's vworld" where
  "vfs_chmod k path mode w = (case mount_resolve (v_mt w) path of None \<Rightarrow> (- 1, w) | Some (m, rel) \<Rightarrow>
     case o_chmod (k_ops k (mount_ops k w m)) of None \<Rightarrow> (- 1, w) | Some op \<Rightarrow> op m rel mode w)"

definition vfs_chown :: "'s kern \<Rightarrow> cstr option \<Rightarrow> u32 \<Rightarrow> u32 \<Rightarrow> 's vworld \<Rightarrow> int \<times> 's vworld" where
  "vfs_chown k path uid gid w = (case mount_resolve (v_mt w) path of None \<Rightarrow> (- 1, w) | Some (m, rel) \<Rightarrow>
     case o_chown (k_ops k (mount_ops k w m)) of None \<Rightarrow> (- 1, w) | Some op \<Rightarrow> op m rel uid gid w)"

definition vfs_exec_ok :: "'s kern \<Rightarrow> cred option \<Rightarrow> cstr option \<Rightarrow> 's vworld \<Rightarrow> bool \<times> 's vworld" where
  "vfs_exec_ok k cur path w = (case vfs_stat k path True w of (None, w) \<Rightarrow> (False, w)
     | (Some st, w) \<Rightarrow> if st_is_dir st \<noteq> 0 then (False, w) else (vfs_perm_ok cur (st_mode st) (st_uid st) (st_gid st) VFS_X, w))"

section \<open>Handle dispatch\<close>

definition vfs_close :: "'s kern \<Rightarrow> nat option \<Rightarrow> 's vworld \<Rightarrow> 's vworld" where
  "vfs_close k p w = (case p of None \<Rightarrow> w | Some a \<Rightarrow>
     let f = (the (v_files w a))\<lparr>f_refs := f_refs (the (v_files w a)) - 1\<rparr>; w = set_file a (Some f) w in
     if \<not> f_refs f \<le> 0 then w
     else let (ops, w) = file_ops k a w in
       (case ops of None \<Rightarrow> set_file a None w
        | Some t \<Rightarrow> (case o_close (k_ops k t) of None \<Rightarrow> set_file a None w | Some op \<Rightarrow> op a w)))"

abbreviation (input) IO_MAX :: nat where "IO_MAX \<equiv> 0x7FFFFFFF"

definition vfs_read :: "'s kern \<Rightarrow> nat option \<Rightarrow> bool \<Rightarrow> nat \<Rightarrow> 's vworld \<Rightarrow> ((int \<times> byte list) \<times> 's vworld) option" where
  "vfs_read k p buf n w = (case p of None \<Rightarrow> Some ((- 1, []), w) | Some a \<Rightarrow>
     if \<not> buf then Some ((- 1, []), w)
     else if \<not> vfs_flags_allow_read (f_flags (the (v_files w a))) then Some ((- 1, []), w)
     else let (ops, w) = file_ops k a w in
       (case ops of None \<Rightarrow> Some ((- 1, []), w)
        | Some t \<Rightarrow> (case o_read (k_ops k t) of None \<Rightarrow> Some ((- 1, []), w) | Some op \<Rightarrow> op a (min n IO_MAX) w)))"

definition vfs_write :: "'s kern \<Rightarrow> nat option \<Rightarrow> byte list option \<Rightarrow> 's vworld \<Rightarrow> (int \<times> 's vworld) option" where
  "vfs_write k p buf w = (case p of None \<Rightarrow> Some (- 1, w) | Some a \<Rightarrow>
     if buf = None then Some (- 1, w)
     else if \<not> vfs_flags_allow_write (f_flags (the (v_files w a))) then Some (- 1, w)
     else let (ops, w) = file_ops k a w in
       (case ops of None \<Rightarrow> Some (- 1, w)
        | Some t \<Rightarrow> (case o_write (k_ops k t) of None \<Rightarrow> Some (- 1, w) | Some op \<Rightarrow> op a (take IO_MAX (the buf)) w)))"

definition vfs_seek :: "'s kern \<Rightarrow> nat option \<Rightarrow> int \<Rightarrow> int \<Rightarrow> 's vworld \<Rightarrow> int \<times> 's vworld" where
  "vfs_seek k p off whence w = (case p of None \<Rightarrow> (- 1, w) | Some a \<Rightarrow>
     let (ops, w) = file_ops k a w in
       (case ops of None \<Rightarrow> (- 1, w)
        | Some t \<Rightarrow> (case o_seek (k_ops k t) of None \<Rightarrow> (- 1, w) | Some op \<Rightarrow> op a off whence w)))"

section \<open>Boot\<close>

definition kfs_init :: "'s kern \<Rightarrow> 's vworld \<Rightarrow> 's vworld" where
  "kfs_init k w = (if v_kfs_registered w then w else
     let (r, mt) = fs_register (k_types k) (Some (k_kfs_type k)) (v_mt w); w = w\<lparr>v_mt := mt\<rparr>
     in if r = 0 then w\<lparr>v_kfs_registered := True\<rparr> else w)"

definition devfs_init :: "'s kern \<Rightarrow> 's vworld \<Rightarrow> 's vworld" where
  "devfs_init k w = (if v_devfs_ready w then w else
     let w = w\<lparr>v_handles := replicate 32 None, v_devfs_ready := True\<rparr>;
         (r, mt) = fs_register (k_types k) (Some (k_devfs_type k)) (v_mt w)
     in w\<lparr>v_mt := mt\<rparr>)"

text \<open>A mount at boot, when nothing else runs.  The result of \<^verbatim>\<open>vfs_init\<close> tells whether there is a root file system.\<close>

definition boot_mount :: "'s kern \<Rightarrow> (nat \<Rightarrow> blockdev) \<Rightarrow> devtab \<Rightarrow> cstr \<Rightarrow> cstr \<Rightarrow> cstr option \<Rightarrow> 's vworld \<Rightarrow> int \<times> 's vworld" where
  "boot_mount k devs dt path fstype dev w = (let (r, mt, w) = mount_add (k_types k) devs dt id (Some path) (Some fstype) dev (v_mt w) w
     in (r, w\<lparr>v_mt := mt\<rparr>))"

definition vfs_init :: "'s kern \<Rightarrow> (nat \<Rightarrow> blockdev) \<Rightarrow> devtab \<Rightarrow> 's vworld \<Rightarrow> int \<times> 's vworld" where
  "vfs_init k devs dt w = (
     let w = devfs_init k (kfs_init k w);
         (r, w) = boot_mount k devs dt [47] [107, 102, 115] (Some [104, 100, 97]) w;
         (r', w) = boot_mount k devs dt [47, 100, 101, 118] [100, 101, 118, 102, 115] None w
     in (if r = 0 then 0 else - 1, w))"

section \<open>Pipes through the dispatcher\<close>

text \<open>A handle that is an end of the pipe at an address.\<close>

definition pipe_end :: "'s kern \<Rightarrow> nat \<Rightarrow> bool \<Rightarrow> ofile \<Rightarrow> bool" where
  "pipe_end k pa wr f \<longleftrightarrow> f_ops f = Some (k_pipe_ops k) \<and> f_type f = FILE_PIPE \<and> f_pipe f = Some pa \<and> f_writable f = wr \<and>
     f_flags f = (if wr then O_WRONLY else 0) \<and> f_refs f = 1"

lemma file_ops_end: "v_files w a = Some f \<Longrightarrow> pipe_end k pa wr f \<Longrightarrow> file_ops k a w = (Some (k_pipe_ops k), w)"
  by (simp add: file_ops_def pipe_end_def)

lemma end_flags:
  "pipe_end k pa wr f \<Longrightarrow> vfs_flags_allow_read (f_flags f) = (\<not> wr)"
  "pipe_end k pa wr f \<Longrightarrow> vfs_flags_allow_write (f_flags f) = wr"
  by (cases wr; simp add: pipe_end_def vfs_flags_allow_read_def vfs_flags_allow_write_def)+

lemma pipe_ops_sel [simp]:
  "o_read (pipe_ops env) = Some (\<lambda>a n w. case pipe_read (the (v_files w a)) n env (v_pipes w) of None \<Rightarrow> None
       | Some (res, ps) \<Rightarrow> Some (res, w\<lparr>v_pipes := ps\<rparr>))"
  "o_write (pipe_ops env) = Some (\<lambda>a buf w. case pipe_write (the (v_files w a)) buf env (v_pipes w) of None \<Rightarrow> None
       | Some (res, ps) \<Rightarrow> Some (res, w\<lparr>v_pipes := ps\<rparr>))"
  "o_close (pipe_ops env) = Some pipe_op_close" "o_seek (pipe_ops env) = None"
  by (simp_all add: pipe_ops_def no_ops_def)

lemma vfs_write_end:
  assumes k: "k_ops k (k_pipe_ops k) = pipe_ops env" and f: "v_files w a = Some f" "pipe_end k pa True f"
    and p: "v_pipes w pa = Some p" "pipe_ok p" "0 < p_readers p" and src: "src \<noteq> []" "length (contents p) + length src \<le> 4096"
  obtains p' where "vfs_write k (Some a) (Some src) w = Some (int (length src), w\<lparr>v_pipes := (v_pipes w)(pa \<mapsto> p')\<rparr>)"
    and "pipe_ok p'" and "contents p' = contents p @ src" and "p_readers p' = p_readers p" and "p_writers p' = p_writers p"
proof -
  obtain p' where p': "ring_put p src 0 = Some (length src, p')" "pipe_ok p'" "contents p' = contents p @ src"
    "p_readers p' = p_readers p" "p_writers p' = p_writers p"
    using ring_put_ok [OF p(2), of 0 src] src by auto
  have "p_count p < PIPE_BUF_SIZE" using src by (cases src) (simp_all add: word_less_nat_alt)
  then have "write_try p src 0 = Some (None, length src, p')" using p(3) p'(1) by (simp add: write_try_def)
  then have "pipe_write f src env (v_pipes w) = Some (int (length src), (v_pipes w)(pa \<mapsto> p'))"
    using f(2) src p(1) by (simp add: pipe_write_def pipe_end_def pipe_write_loop.simps [of pa src 0])
  moreover have "take IO_MAX src = src" using src by simp
  ultimately have "vfs_write k (Some a) (Some src) w = Some (int (length src), w\<lparr>v_pipes := (v_pipes w)(pa \<mapsto> p')\<rparr>)"
    using end_flags [OF f(2)] file_ops_end [OF f] f(1) k by (simp add: vfs_write_def)
  then show ?thesis using that p' by blast
qed

lemma vfs_read_end:
  assumes k: "k_ops k (k_pipe_ops k) = pipe_ops env" and f: "v_files w a = Some f" "pipe_end k pa False f"
    and p: "v_pipes w pa = Some p" "pipe_ok p" "contents p \<noteq> [] \<or> p_writers p \<le> 0" and n: "0 < n" "n \<le> 4096"
  obtains p' where "vfs_read k (Some a) True n w =
      Some ((int (length (take n (contents p))), take n (contents p)), w\<lparr>v_pipes := (v_pipes w)(pa \<mapsto> p')\<rparr>)"
    and "pipe_ok p'" and "contents p' = drop n (contents p)" and "p_readers p' = p_readers p" and "p_writers p' = p_writers p"
proof -
  have "p_count p > 0 \<longleftrightarrow> contents p \<noteq> []" by (auto simp flip: length_0_conv simp: word_less_nat_alt)
  then obtain p' where p': "read_try p n = Some (Some (int (length (take n (contents p))), take n (contents p)), p')" "pipe_ok p'"
    "contents p' = drop n (contents p)" "p_readers p' = p_readers p" "p_writers p' = p_writers p"
    using ring_take_ok [OF p(2), of 0 n "[]"] p(2, 3) by (cases "contents p = []") (auto simp: read_try_def)
  then have "pipe_read f n env (v_pipes w) = Some ((int (length (take n (contents p))), take n (contents p)), (v_pipes w)(pa \<mapsto> p'))"
    using f(2) n p(1) by (simp add: pipe_read_def pipe_end_def pipe_read_loop.simps [of pa n])
  moreover have "min n IO_MAX = n" using n by simp
  ultimately have "vfs_read k (Some a) True n w =
      Some ((int (length (take n (contents p))), take n (contents p)), w\<lparr>v_pipes := (v_pipes w)(pa \<mapsto> p')\<rparr>)"
    using end_flags [OF f(2)] file_ops_end [OF f] f(1) k by (simp add: vfs_read_def)
  then show ?thesis using that p' by blast
qed

lemma vfs_close_end:
  assumes k: "k_ops k (k_pipe_ops k) = pipe_ops env" and f: "v_files w a = Some f" "pipe_end k pa wr f" and p: "v_pipes w pa = Some p"
  defines "p' \<equiv> drop_end wr p"
  shows "vfs_close k (Some a) w = w\<lparr>v_files := (v_files w)(a := None),
    v_pipes := (v_pipes w)(pa := if p_readers p' \<le> 0 \<and> p_writers p' \<le> 0 then None else Some p')\<rparr>"
  using f p k
  by (simp add: vfs_close_def file_ops_def pipe_end_def set_file_def pipe_op_close_def pipe_close_def p'_def Let_def)

text \<open>
  C34. The life of a pipe, through the system's dispatcher.  \<^verbatim>\<open>vfs_pipe\<close> makes two handles, and up to 4096
  bytes written to one by \<^verbatim>\<open>vfs_write\<close> are exactly what \<^verbatim>\<open>vfs_read\<close> returns from the other.  Reading
  the write end, writing the read end and seeking either are refused and change nothing.  After the
  write end is closed the reader sees end of file, and closing both ends frees both handles and the
  pipe itself.
\<close>

theorem vfs_pipe_life:
  assumes k: "k_ops k (k_pipe_ops k) = pipe_ops env" and junk: "length junk = 4096" and ne: "ra \<noteq> wa"
    and src: "src \<noteq> []" "length src \<le> 4096"
  shows "\<exists>w1 w2 w3 w4. vfs_pipe k True True True (Some junk) pa ra wa w = (0, w1) \<and>
    vfs_write k (Some wa) (Some src) w1 = Some (int (length src), w2) \<and>
    vfs_read k (Some ra) True (length src) w2 = Some ((int (length src), src), w3) \<and>
    vfs_read k (Some wa) True n w2 = Some ((- 1, []), w2) \<and> vfs_write k (Some ra) (Some src) w2 = Some (- 1, w2) \<and>
    vfs_seek k (Some ra) off whence w2 = (- 1, w2) \<and> vfs_seek k (Some wa) off whence w2 = (- 1, w2) \<and>
    vfs_read k (Some ra) True (length src) (vfs_close k (Some wa) w3) = Some ((0, []), w4) \<and>
    (let w5 = vfs_close k (Some ra) w4 in v_files w5 ra = None \<and> v_files w5 wa = None \<and> v_pipes w5 pa = None)"
proof -
  let ?f = "\<lambda>wr. zero_file\<lparr>f_type := FILE_PIPE, f_pipe := Some pa, f_writable := wr, f_flags := (if wr then O_WRONLY else 0),
    f_refs := 1, f_ops := Some (k_pipe_ops k)\<rparr>"
  define w1 where "w1 = w\<lparr>v_files := (v_files w)(ra \<mapsto> ?f False, wa \<mapsto> ?f True), v_pipes := (v_pipes w)(pa \<mapsto> new_pipe junk)\<rparr>"
  have 1: "vfs_pipe k True True True (Some junk) pa ra wa w = (0, w1)"
    by (simp add: vfs_pipe_def pipe_create_def set_file_def w1_def)
  have e: "pipe_end k pa wr (?f wr)" for wr by (simp add: pipe_end_def)
  have f1: "v_files w1 ra = Some (?f False)" "v_files w1 wa = Some (?f True)" "v_pipes w1 pa = Some (new_pipe junk)"
    using ne by (simp_all add: w1_def)
  have new: "pipe_ok (new_pipe junk)" "contents (new_pipe junk) = []" "0 < p_readers (new_pipe junk)"
    using new_pipe_ok [OF junk] by (simp_all add: new_pipe_def)
  obtain p2 where 2: "vfs_write k (Some wa) (Some src) w1 = Some (int (length src), w1\<lparr>v_pipes := (v_pipes w1)(pa \<mapsto> p2)\<rparr>)"
    "pipe_ok p2" "contents p2 = src" "p_readers p2 = 1" "p_writers p2 = 1"
    using vfs_write_end [OF k f1(2) e f1(3) new(1, 3) src(1)] src new(2) by (auto simp: new_pipe_def)
  define w2 where "w2 = w1\<lparr>v_pipes := (v_pipes w1)(pa \<mapsto> p2)\<rparr>"
  have f2: "v_files w2 ra = Some (?f False)" "v_files w2 wa = Some (?f True)" "v_pipes w2 pa = Some p2"
    using f1 by (simp_all add: w2_def)
  obtain p3 where 3: "vfs_read k (Some ra) True (length src) w2 = Some ((int (length src), src), w2\<lparr>v_pipes := (v_pipes w2)(pa \<mapsto> p3)\<rparr>)"
    "pipe_ok p3" "contents p3 = []" "p_readers p3 = 1" "p_writers p3 = 1"
    using vfs_read_end [OF k f2(1) e f2(3) 2(2), of "length src"] src 2 by auto
  define w3 where "w3 = w2\<lparr>v_pipes := (v_pipes w2)(pa \<mapsto> p3)\<rparr>"
  have f3: "v_files w3 ra = Some (?f False)" "v_files w3 wa = Some (?f True)" "v_pipes w3 pa = Some p3"
    using f2 by (simp_all add: w3_def)
  define w3' where "w3' = vfs_close k (Some wa) w3"
  have f3': "v_files w3' ra = Some (?f False)" "v_files w3' wa = None" "v_pipes w3' pa = Some (p3\<lparr>p_writers := 0\<rparr>)"
    using vfs_close_end [OF k f3(2) e f3(3)] f3 3 ne by (simp_all add: w3'_def drop_end_def)
  obtain p4 where 4: "vfs_read k (Some ra) True (length src) w3' = Some ((0, []), w3'\<lparr>v_pipes := (v_pipes w3')(pa \<mapsto> p4)\<rparr>)"
    "p_readers p4 = 1" "p_writers p4 = 0"
    using vfs_read_end [OF k f3'(1) e f3'(3), of "length src"] src 3 by auto
  define w4 where "w4 = w3'\<lparr>v_pipes := (v_pipes w3')(pa \<mapsto> p4)\<rparr>"
  have f4: "v_files w4 ra = Some (?f False)" "v_files w4 wa = None" "v_pipes w4 pa = Some p4" using f3' by (simp_all add: w4_def)
  have 5: "v_files (vfs_close k (Some ra) w4) ra = None" "v_files (vfs_close k (Some ra) w4) wa = None" "v_pipes (vfs_close k (Some ra) w4) pa = None"
    using vfs_close_end [OF k f4(1) e f4(3)] f4 4 ne by (simp_all add: drop_end_def)
  have 6: "vfs_read k (Some wa) True n w2 = Some ((- 1, []), w2)" "vfs_write k (Some ra) (Some src) w2 = Some (- 1, w2)"
    using end_flags [OF e [of True]] end_flags [OF e [of False]] f2 by (simp_all add: vfs_read_def vfs_write_def)
  have 7: "vfs_seek k (Some ra) off whence w2 = (- 1, w2)" "vfs_seek k (Some wa) off whence w2 = (- 1, w2)"
    using file_ops_end [OF f2(1) e] file_ops_end [OF f2(2) e] k by (simp_all add: vfs_seek_def)
  show ?thesis using 1 2(1) [folded w2_def] 3(1) [folded w3_def] 4(1) [folded w4_def, unfolded w3'_def] 5 6 7 unfolding Let_def by blast
qed

definition demo_kern :: "unit kern" where
  "demo_kern = \<lparr>k_types = (\<lambda>_. \<lparr>t_name = [], t_mount = None, t_unmount = None, t_ops = None\<rparr>),
     k_ops = (\<lambda>_. pipe_ops []), k_pipe_ops = 0, k_kfs_type = 0, k_devfs_type = 1\<rparr>"

definition demo_world :: "unit vworld" where
  "demo_world = \<lparr>v_mt = \<lparr>types = [], mounts = []\<rparr>, v_files = Map.empty, v_pipes = Map.empty, v_kfs_registered = False,
     v_devfs_ready = False, v_handles = [], v_fs = ()\<rparr>"

theorem vfs_pipe_life_witness:
  "\<exists>w1 w2 w3. vfs_pipe demo_kern True True True (Some (replicate 4096 0)) 7 1 2 demo_world = (0, w1) \<and>
     vfs_write demo_kern (Some 2) (Some [104, 105]) w1 = Some (2, w2) \<and>
     vfs_read demo_kern (Some 1) True 2 w2 = Some ((2, [104, 105]), w3)"
proof -
  have k: "k_ops demo_kern (k_pipe_ops demo_kern) = pipe_ops []" by (simp add: demo_kern_def)
  have n: "length [104, 105 :: byte] = 2" "int 2 = 2" "length (replicate 4096 (0 :: byte)) = 4096" by simp_all
  show ?thesis using vfs_pipe_life [OF k n(3), of 1 2 "[104, 105]" 7 demo_world 0 0 0] unfolding n by simp blast
qed

section \<open>Sharing a handle\<close>

text \<open>
  C35. The operations of a shared handle are released exactly once.  Take a handle with \<open>n + 1\<close> holders,
  as \<^verbatim>\<open>dup2\<close> and \<^verbatim>\<open>spawn\<close> make it, whose table has a close operation.  The first \<open>n\<close> calls of \<^verbatim>\<open>vfs_close\<close>
  only count down, and leave every other part of the system as it was.  The last call runs that close
  operation once, on the handle with no holder left.
\<close>

theorem vfs_close_last:
  assumes f: "v_files w a = Some f" "f_refs f = int n + 1" and ops: "f_ops f = Some t" "o_close (k_ops k t) = Some op"
  shows "(\<forall>j \<le> n. (vfs_close k (Some a) ^^ j) w = set_file a (Some (f\<lparr>f_refs := int n + 1 - int j\<rparr>)) w) \<and>
    (vfs_close k (Some a) ^^ Suc n) w = op a (set_file a (Some (f\<lparr>f_refs := 0\<rparr>)) w)"
proof -
  have step: "(vfs_close k (Some a) ^^ j) w = set_file a (Some (f\<lparr>f_refs := int n + 1 - int j\<rparr>)) w" if "j \<le> n" for j
    using that
  proof (induction j)
    case 0
    have "w = set_file a (Some f) w" using f(1) by (simp add: set_file_def fun_upd_idem)
    moreover have "f = f\<lparr>f_refs := int n + 1\<rparr>" by (simp flip: f(2))
    ultimately show ?case by simp
  next
    case (Suc j)
    then show ?case by (simp add: vfs_close_def set_file_def algebra_simps)
  qed
  moreover have "(vfs_close k (Some a) ^^ Suc n) w = op a (set_file a (Some (f\<lparr>f_refs := 0\<rparr>)) w)"
    using step [of n] ops by (simp add: vfs_close_def set_file_def file_ops_def)
  ultimately show ?thesis by blast
qed

theorem vfs_close_last_witness:
  "(vfs_close demo_kern (Some 5) ^^ 2) (set_file 5 (Some (zero_file\<lparr>f_refs := 2, f_ops := Some 0\<rparr>)) demo_world) =
     set_file 5 None (set_file 5 (Some (zero_file\<lparr>f_refs := 0, f_ops := Some 0\<rparr>)) demo_world)"
  using vfs_close_last [of "set_file 5 (Some (zero_file\<lparr>f_refs := 2, f_ops := Some 0\<rparr>)) demo_world" 5 "zero_file\<lparr>f_refs := 2, f_ops := Some 0\<rparr>" 1 0 demo_kern pipe_op_close]
  by (simp add: demo_kern_def set_file_def pipe_op_close_def pipe_close_def zero_file_def numeral_2_eq_2)

end
