(* ===== verification/Kfs_Ops.thy ===== *)
theory Kfs_Ops
  imports Kfs_Mount Kfs_Tree Vfs "HOL-Library.Multiset"
begin

text \<open>
  The file system operations KFS gives to the VFS (\<^verbatim>\<open>kernel/kfs.c\<close>, last part): the open-inode table,
  access control along a path, and the \<^verbatim>\<open>kfs_op_\<close> functions.  They run over the world of the VFS, whose
  file system part holds the KFS state, the open-inode table and the current task.  No lock is held
  from one step of an operation to the next, so each time one is taken the next element of \<open>k_env\<close>
  first acts on the shared data.  The results of \<^verbatim>\<open>vfs_now\<close> and \<^verbatim>\<open>kzalloc\<close> are given in order.
\<close>

section \<open>State\<close>

abbreviation (input) KFS_OPEN_INODES :: nat where "KFS_OPEN_INODES \<equiv> 64"

record open_inode =
  oi_fs :: "nat option"
  oi_inum :: u32
  oi_count :: int

record kops =
  k_st :: kfs_state
  k_open :: "open_inode list"
  k_env :: "(kfs_state \<times> open_inode list \<Rightarrow> kfs_state \<times> open_inode list) list"
  k_cur :: "cred option"
  k_times :: "u32 list"
  k_alloc :: "nat option list"

type_synonym kworld = "kops vworld"

abbreviation kst :: "kworld \<Rightarrow> kfs_state" where "kst w \<equiv> k_st (v_fs w)"
abbreviation koi :: "kworld \<Rightarrow> open_inode list" where "koi w \<equiv> k_open (v_fs w)"
abbreviation kcur :: "kworld \<Rightarrow> cred option" where "kcur w \<equiv> k_cur (v_fs w)"

definition set_kst :: "kfs_state \<Rightarrow> kworld \<Rightarrow> kworld" where
  "set_kst s w = w\<lparr>v_fs := (v_fs w)\<lparr>k_st := s\<rparr>\<rparr>"

definition set_koi :: "open_inode list \<Rightarrow> kworld \<Rightarrow> kworld" where
  "set_koi oi w = w\<lparr>v_fs := (v_fs w)\<lparr>k_open := oi\<rparr>\<rparr>"

text \<open>Taking a lock, and an entry point that runs under one.\<close>

definition enter :: "kworld \<Rightarrow> kworld" where
  "enter w = (case k_env (v_fs w) of [] \<Rightarrow> w
     | e # env \<Rightarrow> (case e (kst w, koi w) of (s, oi) \<Rightarrow> w\<lparr>v_fs := (v_fs w)\<lparr>k_st := s, k_open := oi, k_env := env\<rparr>\<rparr>))"

definition locked :: "(kfs_state \<Rightarrow> 'a \<times> kfs_state) \<Rightarrow> kworld \<Rightarrow> 'a \<times> kworld" where
  "locked call w = (case call (kst (enter w)) of (r, s) \<Rightarrow> (r, set_kst s (enter w)))"

definition now :: "kworld \<Rightarrow> u32 \<times> kworld" where
  "now w = (case k_times (v_fs w) of [] \<Rightarrow> (0, w) | t # ts \<Rightarrow> (t, w\<lparr>v_fs := (v_fs w)\<lparr>k_times := ts\<rparr>\<rparr>))"

definition new_file :: "kworld \<Rightarrow> nat option \<times> kworld" where
  "new_file w = (case k_alloc (v_fs w) of [] \<Rightarrow> (None, w) | a # as \<Rightarrow> (a, w\<lparr>v_fs := (v_fs w)\<lparr>k_alloc := as\<rparr>\<rparr>))"

section \<open>The open-inode table\<close>

definition oi_is :: "nat \<Rightarrow> u32 \<Rightarrow> open_inode \<Rightarrow> bool" where
  "oi_is f inum e \<longleftrightarrow> oi_count e > 0 \<and> oi_fs e = Some f \<and> oi_inum e = inum"

text \<open>The loop of \<^verbatim>\<open>inode_ref\<close>: the entry of the inode, or else the first free one (\<open>- 1\<close> if there is none).\<close>

fun ref_scan :: "nat \<Rightarrow> u32 \<Rightarrow> open_inode list \<Rightarrow> int \<Rightarrow> int \<Rightarrow> int + int" where
  "ref_scan f inum [] i slot = Inr slot"
| "ref_scan f inum (e # es) i slot = (if oi_is f inum e then Inl i
     else ref_scan f inum es (i + 1) (if oi_count e = 0 \<and> slot < 0 then i else slot))"

definition add_handles :: "nat \<Rightarrow> int \<Rightarrow> kfs_state \<Rightarrow> kfs_state" where
  "add_handles f n s = upd_fs f (\<lambda>fs. fs\<lparr>handles := handles fs + n\<rparr>) s"

definition inode_ref :: "nat \<Rightarrow> u32 \<Rightarrow> kworld \<Rightarrow> int \<times> kworld" where
  "inode_ref f inum w = (let w = enter w; oi = koi w in
     case ref_scan f inum oi 0 (- 1) of
       Inl i \<Rightarrow> (0, set_koi (oi[nat i := (oi ! nat i)\<lparr>oi_count := oi_count (oi ! nat i) + 1\<rparr>]) (set_kst (add_handles f 1 (kst w)) w))
     | Inr slot \<Rightarrow> if slot < 0 then (- 1, w)
         else (0, set_koi (oi[nat slot := \<lparr>oi_fs = Some f, oi_inum = inum, oi_count = 1\<rparr>]) (set_kst (add_handles f 1 (kst w)) w)))"

fun unref_first :: "nat \<Rightarrow> u32 \<Rightarrow> open_inode list \<Rightarrow> open_inode list" where
  "unref_first f inum [] = []"
| "unref_first f inum (e # es) = (if oi_is f inum e then e\<lparr>oi_count := oi_count e - 1\<rparr> # es else e # unref_first f inum es)"

definition inode_unref :: "nat \<Rightarrow> u32 \<Rightarrow> kworld \<Rightarrow> kworld" where
  "inode_unref f inum w = (let w = enter w; w = set_koi (unref_first f inum (koi w)) w
     in if handles (fss (kst w) f) > 0 then set_kst (add_handles f (- 1) (kst w)) w else w)"

definition inode_is_open :: "nat \<Rightarrow> u32 \<Rightarrow> kworld \<Rightarrow> bool \<times> kworld" where
  "inode_is_open f inum w = (let w = enter w in (\<exists>e \<in> set (koi w). oi_is f inum e, w))"

section \<open>Walking a path\<close>

definition perm_ok :: "cred option \<Rightarrow> kfs_inode \<Rightarrow> u32 \<Rightarrow> bool" where
  "perm_ok cur ip wanted = vfs_perm_ok cur (ucast (i_mode ip AND KFS_MODE_MASK)) (i_uid ip) (i_gid ip) wanted"

definition comp_next :: "cstr \<Rightarrow> path_step" where
  "comp_next path = (let p = dropWhile (\<lambda>c. c = ch_slash) path in
     if p = [] then P_end
     else let name = takeWhile (\<lambda>c. c \<noteq> ch_slash) p in
       if length name > KFS_NAME_MAX then P_long else P_comp name (drop (length name) p))"

definition at_end :: "cstr \<Rightarrow> bool" where
  "at_end p \<longleftrightarrow> dropWhile (\<lambda>c. c = ch_slash) p = []"

lemma comp_next_path: "comp_next p = path_next p"
  by (simp add: comp_next_def path_next_def skip_slashes_def)

function resolve_walk :: "nat \<Rightarrow> u32 \<Rightarrow> cstr \<Rightarrow> bool \<Rightarrow> kworld \<Rightarrow> int \<times> cstr \<times> kworld" where
  "resolve_walk f cur p want_parent w = (case comp_next p of
     P_long \<Rightarrow> (- 1, [], w)
   | P_end \<Rightarrow> if want_parent then (- 1, [], w) else (sint cur, [], w)
   | P_comp cname rest \<Rightarrow>
     (case locked (kfs_iget f cur) w of (None, w1) \<Rightarrow> (- 1, [], w1) | (Some ip, w1) \<Rightarrow>
      if i_type ip \<noteq> KFS_TYPE_DIR then (- 1, [], w1)
      else if \<not> perm_ok (kcur w1) ip VFS_X then (- 1, [], w1)
      else if want_parent \<and> at_end rest then (sint cur, cname, w1)
      else case locked (kfs_lookup_in f cur cname) w1 of (nxt, w2) \<Rightarrow>
        if nxt < 0 then (- 1, [], w2) else resolve_walk f (word_of_int nxt) rest want_parent w2))"
  by pat_completeness auto
termination
  by (relation "measure (\<lambda>(f, cur, p, want_parent, w). length p)") (auto simp: comp_next_path path_next_comp)

declare resolve_walk.simps [simp del]

definition resolve :: "nat \<Rightarrow> cstr \<Rightarrow> bool \<Rightarrow> kworld \<Rightarrow> int \<times> cstr \<times> kworld" where
  "resolve f path want_parent w = (
     if \<not> mounted (fss (kst w) f) \<or> take 1 path \<noteq> [ch_slash] then (- 1, [], w)
     else resolve_walk f (root_ino (sb_of f (kst w))) path want_parent w)"

text \<open>The instance of a mount slot.\<close>

definition mount_fs :: "nat \<Rightarrow> kworld \<Rightarrow> nat option" where
  "mount_fs m w = m_priv (mounts (v_mt w) ! m)"

definition fill_stat :: "kfs_inode \<Rightarrow> k_stat" where
  "fill_stat ip = \<lparr>st_size = i_size ip, st_is_dir = (if i_type ip = KFS_TYPE_DIR then 1 else 0),
     st_mode = ucast (i_mode ip AND KFS_MODE_MASK), st_uid = i_uid ip, st_gid = i_gid ip, st_mtime = i_mtime ip\<rparr>"

section \<open>Opening and closing\<close>

text \<open>The branch of \<^verbatim>\<open>kfs_op_open\<close> for a name that does not exist.\<close>

definition open_create :: "nat \<Rightarrow> cstr \<Rightarrow> u32 \<Rightarrow> kfs_inode \<Rightarrow> kworld \<Rightarrow> int \<times> kworld" where
  "open_create f path flags dirp w = (
     if flags AND O_CREAT = 0 then (- 1, w)
     else if \<not> perm_ok (kcur w) dirp (VFS_W OR VFS_X) then (- 1, w)
     else case now w of (t, w1) \<Rightarrow>
       locked (kfs_create f path KFS_DEFAULT_FILE_MODE (vfs_uid (kcur w1)) (vfs_gid (kcur w1)) t) w1)"

text \<open>What follows once the inode is known.\<close>

definition open_inode_handle :: "nat \<Rightarrow> u32 \<Rightarrow> u32 \<Rightarrow> kworld \<Rightarrow> nat option \<times> kworld" where
  "open_inode_handle f ino flags w = (
     let need_r = vfs_flags_allow_read flags;
         need_w = (vfs_flags_allow_write flags \<or> flags AND (O_CREAT OR O_TRUNC) \<noteq> 0) in
     case locked (kfs_iget f ino) w of (None, w) \<Rightarrow> (None, w) | (Some ip, w) \<Rightarrow>
     if i_type ip = KFS_TYPE_DIR \<and> need_w then (None, w)
     else if need_r \<and> \<not> perm_ok (kcur w) ip VFS_R then (None, w)
     else if need_w \<and> \<not> perm_ok (kcur w) ip VFS_W then (None, w)
     else case inode_ref f ino w of (r, w) \<Rightarrow>
     if r < 0 then (None, w)
     else case (if flags AND O_TRUNC \<noteq> 0 \<and> i_type ip = KFS_TYPE_FILE
         then (case now w of (t, w) \<Rightarrow> locked (kfs_truncate f ino t) w) else (0, w)) of (r, w) \<Rightarrow>
     if r < 0 then (None, inode_unref f ino w)
     else case new_file w of (None, w) \<Rightarrow> (None, inode_unref f ino w)
       | (Some a, w) \<Rightarrow> (Some a, set_file a (Some (zero_file\<lparr>f_fs := f, f_type := FILE_KFS, f_inum := ino, f_pos := 0,
           f_flags := flags, f_refs := 1\<rparr>)) w))"

definition kfs_op_open :: "nat \<Rightarrow> cstr \<Rightarrow> u32 \<Rightarrow> kworld \<Rightarrow> nat option \<times> kworld" where
  "kfs_op_open m path flags w = (case mount_fs m w of None \<Rightarrow> (None, w) | Some f \<Rightarrow>
     if \<not> mounted (fss (kst w) f) then (None, w)
     else case resolve f path True w of (parent, name, w) \<Rightarrow>
     if parent < 0 then (None, w)
     else case locked (kfs_iget f (word_of_int parent)) w of (None, w) \<Rightarrow> (None, w) | (Some dirp, w) \<Rightarrow>
     case locked (kfs_lookup_in f (word_of_int parent) name) w of (found, w) \<Rightarrow>
     case (if found < 0 then open_create f path flags dirp w else (found, w)) of (ino, w) \<Rightarrow>
     if ino < 0 then (None, w) else open_inode_handle f (word_of_int ino) flags w)"

definition kfs_op_close :: "nat \<Rightarrow> kworld \<Rightarrow> kworld" where
  "kfs_op_close a w = (let kf = the (v_files w a); f = f_fs kf;
     w = inode_unref f (f_inum kf) w; w = enter (set_file a None w)
     in set_kst (instance_release f (kst w)) w)"

section \<open>Reading, writing and seeking\<close>

definition move_pos :: "nat \<Rightarrow> int \<Rightarrow> kworld \<Rightarrow> kworld" where
  "move_pos a r w = (if r > 0 then set_file a (map_option (\<lambda>kf. kf\<lparr>f_pos := f_pos kf + word_of_int r\<rparr>) (v_files w a)) w else w)"

definition kfs_op_read :: "nat \<Rightarrow> nat \<Rightarrow> kworld \<Rightarrow> (int \<times> byte list) \<times> kworld" where
  "kfs_op_read a n w = (let kf = the (v_files w a) in
     case locked (\<lambda>s. case kfs_read (f_fs kf) (f_inum kf) (f_pos kf) (of_nat n) s of (r, buf, s) \<Rightarrow> ((r, buf), s)) w of
       ((r, buf), w) \<Rightarrow> ((r, buf), move_pos a r w))"

definition kfs_op_write :: "nat \<Rightarrow> byte list \<Rightarrow> kworld \<Rightarrow> int \<times> kworld" where
  "kfs_op_write a buf w = (let kf = the (v_files w a) in
     case (if f_flags kf AND O_APPEND \<noteq> 0
       then (case locked (kfs_iget (f_fs kf) (f_inum kf)) w of (None, w) \<Rightarrow> (False, w)
         | (Some ip, w) \<Rightarrow> (True, set_file a (Some (kf\<lparr>f_pos := i_size ip\<rparr>)) w))
       else (True, w)) of (ok, w) \<Rightarrow>
     if \<not> ok then (- 1, w)
     else case now w of (t, w) \<Rightarrow>
       (case locked (kfs_write (f_fs kf) (f_inum kf) (f_pos (the (v_files w a))) buf t) w of (r, w) \<Rightarrow> (r, move_pos a r w)))"

text \<open>Offsets are 64-bit signed numbers; the addition is guarded, so it is exact.\<close>

definition kfs_op_seek :: "nat \<Rightarrow> int \<Rightarrow> int \<Rightarrow> kworld \<Rightarrow> int \<times> kworld" where
  "kfs_op_seek a off whence w = (let kf = the (v_files w a) in
     case (if whence = 0 then (Some 0, w)
       else if whence = 1 then (Some (int (unat (f_pos kf))), w)
       else if whence = 2 then (case locked (kfs_iget (f_fs kf) (f_inum kf)) w of (None, w) \<Rightarrow> (None, w)
         | (Some ip, w) \<Rightarrow> (Some (int (unat (i_size ip))), w))
       else (None, w)) of
       (None, w) \<Rightarrow> (- 1, w)
     | (Some base, w) \<Rightarrow>
       if off > 0 \<and> base > 0x7FFFFFFFFFFFFFFF - off then (- 1, w)
       else let pos = base + off in
         if pos < 0 \<or> pos > int (unat KFS_MAX_FILE_SIZE) then (- 1, w)
         else (pos, set_file a (Some (kf\<lparr>f_pos := word_of_int pos\<rparr>)) w))"

section \<open>Names and metadata\<close>

definition kfs_op_stat :: "nat \<Rightarrow> cstr \<Rightarrow> kworld \<Rightarrow> k_stat option \<times> kworld" where
  "kfs_op_stat m path w = (case mount_fs m w of None \<Rightarrow> (None, w) | Some f \<Rightarrow>
     case resolve f path False w of (ino, _, w) \<Rightarrow>
     if ino < 0 then (None, w)
     else case locked (kfs_iget f (word_of_int ino)) w of (None, w) \<Rightarrow> (None, w) | (Some ip, w) \<Rightarrow> (Some (fill_stat ip), w))"

definition kfs_op_readdir :: "nat \<Rightarrow> cstr \<Rightarrow> int \<Rightarrow> kworld \<Rightarrow> k_dirent option \<times> kworld" where
  "kfs_op_readdir m path index w = (case mount_fs m w of None \<Rightarrow> (None, w) | Some f \<Rightarrow>
     case resolve f path False w of (ino, _, w) \<Rightarrow>
     if ino < 0 then (None, w)
     else case locked (kfs_iget f (word_of_int ino)) w of (None, w) \<Rightarrow> (None, w) | (Some ip, w) \<Rightarrow>
     if i_type ip \<noteq> KFS_TYPE_DIR \<or> \<not> perm_ok (kcur w) ip VFS_R then (None, w)
     else case locked (kfs_readdir f (word_of_int ino) index) w of (None, w) \<Rightarrow> (None, w) | (Some kde, w) \<Rightarrow>
     let de = \<lparr>de_name = (take 60 (d_name kde))[59 := 0], de_size = 0, de_is_dir = 0, de_mode = 0, de_uid = 0, de_gid = 0, de_mtime = 0\<rparr> in
     case locked (kfs_iget f (d_ino kde)) w of (None, w) \<Rightarrow> (Some de, w)
     | (Some ip, w) \<Rightarrow> (Some (de\<lparr>de_size := i_size ip, de_is_dir := (if i_type ip = KFS_TYPE_DIR then 1 else 0),
         de_mode := ucast (i_mode ip AND KFS_MODE_MASK), de_uid := i_uid ip, de_gid := i_gid ip, de_mtime := i_mtime ip\<rparr>), w))"

text \<open>The prologue of \<^verbatim>\<open>kfs_op_unlink\<close> and \<^verbatim>\<open>kfs_op_mkdir\<close>: the parent directory, if the caller may change it.\<close>

definition writable_parent :: "nat \<Rightarrow> cstr \<Rightarrow> kworld \<Rightarrow> (u32 \<times> cstr) option \<times> kworld" where
  "writable_parent f path w = (case resolve f path True w of (parent, name, w) \<Rightarrow>
     if parent < 0 then (None, w)
     else case locked (kfs_iget f (word_of_int parent)) w of (None, w) \<Rightarrow> (None, w) | (Some dirp, w) \<Rightarrow>
     if \<not> perm_ok (kcur w) dirp (VFS_W OR VFS_X) then (None, w) else (Some (word_of_int parent, name), w))"

definition kfs_op_unlink :: "nat \<Rightarrow> cstr \<Rightarrow> kworld \<Rightarrow> int \<times> kworld" where
  "kfs_op_unlink m path w = (case mount_fs m w of None \<Rightarrow> (- 1, w) | Some f \<Rightarrow>
     case writable_parent f path w of (None, w) \<Rightarrow> (- 1, w) | (Some (parent, name), w) \<Rightarrow>
     case locked (kfs_lookup_in f parent name) w of (ino, w) \<Rightarrow>
     if ino < 0 then (- 1, w)
     else case inode_is_open f (word_of_int ino) w of (busy, w) \<Rightarrow>
     if busy then (- 1, w)
     else case now w of (t, w) \<Rightarrow> locked (kfs_unlink f path t) w)"

definition kfs_op_mkdir :: "nat \<Rightarrow> cstr \<Rightarrow> kworld \<Rightarrow> int \<times> kworld" where
  "kfs_op_mkdir m path w = (case mount_fs m w of None \<Rightarrow> (- 1, w) | Some f \<Rightarrow>
     case writable_parent f path w of (None, w) \<Rightarrow> (- 1, w) | (Some _, w) \<Rightarrow>
     case now w of (t, w) \<Rightarrow>
       locked (kfs_mkdir f path KFS_DEFAULT_DIR_MODE (vfs_uid (kcur w)) (vfs_gid (kcur w)) t) w)"

definition kfs_op_chmod :: "nat \<Rightarrow> cstr \<Rightarrow> u32 \<Rightarrow> kworld \<Rightarrow> int \<times> kworld" where
  "kfs_op_chmod m path mode w = (case mount_fs m w of None \<Rightarrow> (- 1, w) | Some f \<Rightarrow>
     case resolve f path False w of (ino, _, w) \<Rightarrow>
     if ino < 0 then (- 1, w)
     else case locked (kfs_iget f (word_of_int ino)) w of (None, w) \<Rightarrow> (- 1, w) | (Some ip, w) \<Rightarrow>
     if vfs_uid (kcur w) \<noteq> 0 \<and> vfs_uid (kcur w) \<noteq> i_uid ip then (- 1, w)
     else case now w of (t, w) \<Rightarrow> locked (kfs_chmod f (word_of_int ino) (ucast (mode AND ucast KFS_MODE_MASK)) t) w)"

definition kfs_op_chown :: "nat \<Rightarrow> cstr \<Rightarrow> u32 \<Rightarrow> u32 \<Rightarrow> kworld \<Rightarrow> int \<times> kworld" where
  "kfs_op_chown m path uid gid w = (case mount_fs m w of None \<Rightarrow> (- 1, w) | Some f \<Rightarrow>
     if vfs_uid (kcur w) \<noteq> 0 then (- 1, w)
     else case resolve f path False w of (ino, _, w) \<Rightarrow>
     if ino < 0 then (- 1, w)
     else case locked (kfs_iget f (word_of_int ino)) w of (None, w) \<Rightarrow> (- 1, w) | (Some ip, w) \<Rightarrow>
     case now w of (t, w) \<Rightarrow> locked (kfs_chown f (word_of_int ino) uid gid t) w)"

text \<open>The sweep of the inode table, from block \<open>b\<close> on: the number of free inodes seen before a read fails.\<close>

fun free_inodes :: "nat \<Rightarrow> nat list \<Rightarrow> nat \<Rightarrow> kfs_state \<Rightarrow> nat \<times> kfs_state" where
  "free_inodes f [] n s = (n, s)"
| "free_inodes f (b # bs) n s = (
     let here = min (unat (inode_count (sb_of f s)) - b * 64) 64 in
     case bread f (inode_start (sb_of f s) + of_nat b) s of (None, s) \<Rightarrow> (n, s)
     | (Some buf, s) \<Rightarrow> free_inodes f bs
         (n + length (filter (\<lambda>j. i_type (dec_inode (get_bytes (j * 64) 64 buf)) = KFS_TYPE_FREE) [0 ..< here])) s)"

definition kfs_op_statfs :: "nat \<Rightarrow> kworld \<Rightarrow> fs_statfs option \<times> kworld" where
  "kfs_op_statfs m w = (case mount_fs m w of None \<Rightarrow> (None, w) | Some f \<Rightarrow>
     locked (\<lambda>s. if \<not> mounted (fss s f) then (None, s)
       else case free_inodes f [0 ..< (unat (inode_count (sb_of f s)) + 63) div 64] 0 s of (free_ino, s) \<Rightarrow>
         (Some \<lparr>sf_block_size = of_nat KFS_BLOCK_SIZE, sf_blocks = ucast (total_blocks (sb_of f s)),
            sf_free_blocks = ucast (Kfs_Format.free_blocks (sb_of f s)), sf_files = inode_count (sb_of f s), sf_free_files = of_nat free_ino\<rparr>, s)) w)"

definition kfs_ops :: "kops fs_ops" where
  "kfs_ops = \<lparr>o_open = Some kfs_op_open, o_close = Some kfs_op_close, o_read = Some (\<lambda>a n w. Some (kfs_op_read a n w)),
     o_write = Some (\<lambda>a buf w. Some (kfs_op_write a buf w)), o_seek = Some kfs_op_seek, o_stat = Some kfs_op_stat,
     o_readdir = Some kfs_op_readdir, o_unlink = Some kfs_op_unlink, o_mkdir = Some kfs_op_mkdir, o_chmod = Some kfs_op_chmod,
     o_chown = Some kfs_op_chown, o_statfs = Some kfs_op_statfs\<rparr>"

section \<open>Running undisturbed\<close>

lemma set_kst_simps [simp]:
  "kst (set_kst s w) = s" "koi (set_kst s w) = koi w" "kcur (set_kst s w) = kcur w" "k_env (v_fs (set_kst s w)) = k_env (v_fs w)"
  "k_times (v_fs (set_kst s w)) = k_times (v_fs w)" "k_alloc (v_fs (set_kst s w)) = k_alloc (v_fs w)"
  "v_files (set_kst s w) = v_files w" "v_mt (set_kst s w) = v_mt w" "set_kst s (set_kst t w) = set_kst s w" "set_kst (kst w) w = w"
  by (simp_all add: set_kst_def)

lemma set_koi_simps [simp]:
  "kst (set_koi oi w) = kst w" "koi (set_koi oi w) = oi" "kcur (set_koi oi w) = kcur w" "k_env (v_fs (set_koi oi w)) = k_env (v_fs w)"
  "k_times (v_fs (set_koi oi w)) = k_times (v_fs w)" "k_alloc (v_fs (set_koi oi w)) = k_alloc (v_fs w)"
  "v_files (set_koi oi w) = v_files w" "v_mt (set_koi oi w) = v_mt w"
  by (simp_all add: set_koi_def)

lemma set_file_simps [simp]:
  "v_fs (set_file a x w) = v_fs w" "v_mt (set_file a x w) = v_mt w" "v_files (set_file a x w) = (v_files w)(a := x)"
  by (simp_all add: set_file_def)

lemma enter_alone [simp]: "k_env (v_fs w) = [] \<Longrightarrow> enter w = w"
  by (simp add: enter_def)

lemma locked_alone: "k_env (v_fs w) = [] \<Longrightarrow> call (kst w) = (r, s') \<Longrightarrow> locked call w = (r, set_kst s' w)"
  by (simp add: locked_def)

section \<open>Access control along a path\<close>

text \<open>
  Walking the tree of names with a search test on every directory that is crossed, to the end of the
  path or to the directory of its last component.
\<close>

fun guarded_walk :: "(u32 \<Rightarrow> cstr \<Rightarrow> u32 option) \<Rightarrow> (u32 \<Rightarrow> bool) \<Rightarrow> u32 \<Rightarrow> cstr list \<Rightarrow> u32 option" where
  "guarded_walk T S cur [] = Some cur"
| "guarded_walk T S cur (n # ns) = (if length n > KFS_NAME_MAX \<or> \<not> S cur then None
     else case T cur n of None \<Rightarrow> None | Some i \<Rightarrow> guarded_walk T S i ns)"

fun guarded_parent :: "(u32 \<Rightarrow> cstr \<Rightarrow> u32 option) \<Rightarrow> (u32 \<Rightarrow> bool) \<Rightarrow> u32 \<Rightarrow> cstr list \<Rightarrow> (u32 \<times> cstr) option" where
  "guarded_parent T S cur [] = None"
| "guarded_parent T S cur (n # ns) = (if length n > KFS_NAME_MAX \<or> \<not> S cur then None
     else if ns = [] then Some (cur, n)
     else case T cur n of None \<Rightarrow> None | Some i \<Rightarrow> guarded_parent T S i ns)"

definition searchable :: "cred option \<Rightarrow> nat \<Rightarrow> kfs_state \<Rightarrow> u32 \<Rightarrow> bool" where
  "searchable cur f s d \<longleftrightarrow> is_dir f s d \<and> perm_ok cur (inode_at f s d) VFS_X"

lemma kfs_iget_readable:
  assumes rd: "readable f s" and v: "ino_valid (sb_of f s) i"
  obtains s' where "kfs_iget f i s = (Some (inode_at f s i), s')" and "looked f s s'"
proof -
  obtain x s' where g: "iget f i s = (x, s')" by fastforce
  have R: "store_ok f s" "layout_ok (sb_of f s)" "mounted (fss s f)" "no_faults s f" using rd fs_wfD(1) by (auto simp: readable_def)
  note l = looked_iget [OF R(1, 2) g]
  have "x \<noteq> None" using l(3) R v by blast
  then show ?thesis using that [of s'] l g by (auto simp: kfs_iget_def)
qed

lemma kfs_lookup_in_tree:
  assumes rd: "readable f s" and t: "tree_ok f s" and v: "ino_valid (sb_of f s) dir"
  obtains s' where "kfs_lookup_in f dir name s = (case tree f s dir name of None \<Rightarrow> - 1 | Some i \<Rightarrow> int (unat i), s')" and "looked f s s'"
proof -
  obtain ino slot s' where d: "dir_lookup f dir name s = (ino, slot, s')" using prod_cases3 by blast
  note e = dir_lookup_tree [OF rd t v d]
  have m: "mounted (fss s f)" using rd by (simp add: readable_def)
  have "sint i = int (unat i)" if "tree f s dir name = Some i" for i using sint_ino [OF t] tree_okD(5) [OF t that] by blast
  then show ?thesis using that [of s'] d e m by (auto simp: kfs_lookup_in_def)
qed

lemma word_of_int_unat: "word_of_int (int (unat i)) = (i :: u32)"
  by (simp add: word_of_int_uint flip: uint_nat)

lemma at_end_components: "at_end p \<longleftrightarrow> components p = []"
  using path_next_components(1) [of p] by (auto simp: at_end_def path_next_def skip_slashes_def Let_def split: if_splits)

lemma searchable_looked: "looked f s s' \<Longrightarrow> searchable cur f s' = searchable cur f s"
  using looked_tree(1) looked_same(1) by (simp add: searchable_def fun_eq_iff)

lemma resolve_walk_ok:
  assumes "k_env (v_fs w) = []" and "readable f (kst w)" and "tree_ok f (kst w)" and "ino_valid (sb_of f (kst w)) cur"
    and "resolve_walk f cur p want_parent w = (r, name, w')"
  shows "\<exists>s'. looked f (kst w) s' \<and> w' = set_kst s' w \<and>
    (if want_parent then (case guarded_parent (tree f (kst w)) (searchable (kcur w) f (kst w)) cur (components p) of
         None \<Rightarrow> r = - 1 | Some (d, n) \<Rightarrow> r = int (unat d) \<and> name = n \<and> is_dir f (kst w) d)
     else r = (case guarded_walk (tree f (kst w)) (searchable (kcur w) f (kst w)) cur (components p) of None \<Rightarrow> - 1 | Some i \<Rightarrow> int (unat i)))"
  using assms
proof (induction f cur p want_parent w arbitrary: r name w' rule: resolve_walk.induct)
  case (1 f cur p want_parent w)
  let ?s = "kst w" and ?T = "tree f (kst w)" and ?S = "searchable (kcur w) f (kst w)"
  note pn = path_next_components [of p] and run = "1.prems"(5) [unfolded resolve_walk.simps [of f cur p] comp_next_path]
  have lr: "looked f ?s ?s" using "1.prems"(2) by (simp add: looked_refl readable_def)
  have sc: "sint cur = int (unat cur)" using sint_ino [OF "1.prems"(3)] "1.prems"(4) by blast
  show ?case
  proof (cases "path_next p")
    case P_end
    then show ?thesis using run pn(1) lr sc by (cases want_parent) (auto intro!: exI [of _ ?s])
  next
    case P_long
    then obtain n ns where "components p = n # ns" "length n > KFS_NAME_MAX" using pn(2) by blast
    then show ?thesis using run P_long lr by (cases want_parent) (auto intro!: exI [of _ ?s])
  next
    case (P_comp cname rest)
    have c: "components p = cname # components rest" by (rule pn(3) [OF P_comp])
    have n: "\<not> length cname > KFS_NAME_MAX" using path_next_comp(3) [OF P_comp] by simp
    obtain s1 where g: "kfs_iget f cur ?s = (Some (inode_at f ?s cur), s1)" and l1: "looked f ?s s1"
      by (rule kfs_iget_readable [OF "1.prems"(2, 4)])
    note lg = locked_alone [of w "kfs_iget f cur", OF "1.prems"(1) g]
    have S: "?S cur \<longleftrightarrow> i_type (inode_at f ?s cur) = KFS_TYPE_DIR \<and> perm_ok (kcur w) (inode_at f ?s cur) VFS_X"
      using "1.prems"(4) by (simp add: searchable_def is_dir_def)
    show ?thesis
    proof (cases "?S cur \<and> \<not> (want_parent \<and> at_end rest)")
      case False
      then have "w' = set_kst s1 w \<and> (if ?S cur then want_parent \<and> at_end rest \<and> r = sint cur \<and> name = cname else r = - 1)"
        using run S unfolding P_comp path_step.case lg prod.case option.case by (auto split: if_splits)
      then show ?thesis using l1 c n sc False at_end_components by (cases want_parent) (auto simp: searchable_def intro!: exI [of _ s1])
    next
      case True
      have rd1: "readable f s1" by (rule readable_looked [OF l1 "1.prems"(2)])
      note t1 = looked_tree [OF l1] and sb1 = lookedD(6) [OF l1]
      have tk1: "tree_ok f s1" and v1: "ino_valid (sb_of f s1) cur" using t1 sb1 "1.prems"(3, 4) by simp_all
      obtain s2 where k: "kfs_lookup_in f cur cname s1 = (case tree f s1 cur cname of None \<Rightarrow> - 1 | Some i \<Rightarrow> int (unat i), s2)"
        and l2: "looked f s1 s2" by (rule kfs_lookup_in_tree [OF rd1 tk1 v1])
      have l12: "looked f ?s s2" by (rule looked_trans [OF l1 l2])
      have lk: "locked (kfs_lookup_in f cur cname) (set_kst s1 w) = (case ?T cur cname of None \<Rightarrow> - 1 | Some i \<Rightarrow> int (unat i), set_kst s2 w)"
        using locked_alone [of "set_kst s1 w" "kfs_lookup_in f cur cname"] k "1.prems"(1) t1(2) by simp
      have run2: "(if (case ?T cur cname of None \<Rightarrow> - 1 | Some i \<Rightarrow> int (unat i)) < 0 then (- 1, [], set_kst s2 w)
          else resolve_walk f (word_of_int (case ?T cur cname of None \<Rightarrow> - 1 | Some i \<Rightarrow> int (unat i))) rest want_parent (set_kst s2 w)) = (r, name, w')"
        using run True S unfolding P_comp path_step.case lg prod.case option.case by (auto simp: lk)
      show ?thesis
      proof (cases "?T cur cname")
        case None
        then have "r = - 1 \<and> w' = set_kst s2 w" using run2 by simp
        then show ?thesis using l12 c n True None at_end_components [of rest] by (cases want_parent) (auto intro!: exI [of _ s2])
      next
        case (Some i)
        then have run3: "resolve_walk f i rest want_parent (set_kst s2 w) = (r, name, w')" using run2 by (simp add: word_of_int_unat)
        note t2 = looked_tree [OF l12] and sb2 = lookedD(6) [OF l12]
        have vi: "ino_valid (sb_of f s2) i" using tree_okD(5) [OF "1.prems"(3) Some] sb2 by simp
        have IH: "\<exists>s'. looked f s2 s' \<and> w' = set_kst s' w \<and>
          (if want_parent then (case guarded_parent (tree f s2) (searchable (kcur w) f s2) i (components rest) of
               None \<Rightarrow> r = - 1 | Some (d, n) \<Rightarrow> r = int (unat d) \<and> name = n \<and> is_dir f s2 d)
           else r = (case guarded_walk (tree f s2) (searchable (kcur w) f s2) i (components rest) of None \<Rightarrow> - 1 | Some i \<Rightarrow> int (unat i)))"
        proof -
          have ci: "comp_next p = P_comp cname rest" using P_comp by (simp add: comp_next_path)
          have ls: "locked (kfs_lookup_in f cur cname) (set_kst s1 w) = (int (unat i), set_kst s2 w)" using lk Some by simp
          have nn: "\<not> int (unat i) < 0" by simp
          note ih = "1.IH" [OF ci lg [symmetric] refl _ _ _ ls [symmetric] nn, unfolded word_of_int_unat set_kst_simps]
          show ?thesis by (rule ih) (use S True "1.prems"(1, 2, 3) run3 vi readable_looked [OF l12] t2 in auto)
        qed
        then obtain s' where s': "looked f s2 s'" "w' = set_kst s' w" and res:
          "if want_parent then (case guarded_parent ?T ?S i (components rest) of None \<Rightarrow> r = - 1 | Some (d, n) \<Rightarrow> r = int (unat d) \<and> name = n \<and> is_dir f ?s d)
           else r = (case guarded_walk ?T ?S i (components rest) of None \<Rightarrow> - 1 | Some i \<Rightarrow> int (unat i))"
          unfolding t2 searchable_looked [OF l12] by blast
        have "guarded_walk ?T ?S cur (components p) = guarded_walk ?T ?S i (components rest)"
          using c n True Some by simp
        moreover have "want_parent \<Longrightarrow> guarded_parent ?T ?S cur (components p) = guarded_parent ?T ?S i (components rest)"
          using c n True Some at_end_components [of rest] by simp
        ultimately show ?thesis using s' res looked_trans [OF l12 s'(1)] by (intro exI [of _ s']) (cases want_parent; simp)
      qed
    qed
  qed
qed

section \<open>References to inodes\<close>

lemma ref_scan_Inl: "ref_scan f n es i slot = Inl k \<Longrightarrow> \<exists>j < length es. k = i + int j \<and> oi_is f n (es ! j)"
proof (induction es arbitrary: i slot)
  case (Cons e es)
  show ?case
  proof (cases "oi_is f n e")
    case True
    then show ?thesis using Cons.prems by (intro exI [of _ 0]) simp
  next
    case False
    then obtain j where "j < length es" "k = i + 1 + int j" "oi_is f n (es ! j)" using Cons by fastforce
    then show ?thesis by (intro exI [of _ "Suc j"]) simp
  qed
qed simp

lemma ref_scan_Inr:
  "ref_scan f n es i slot = Inr k \<Longrightarrow> 0 \<le> i \<Longrightarrow> (\<forall>e \<in> set es. \<not> oi_is f n e) \<and>
     (k = slot \<and> (slot < 0 \<longrightarrow> (\<forall>e \<in> set es. oi_count e \<noteq> 0)) \<or> slot < 0 \<and> (\<exists>j < length es. k = i + int j \<and> oi_count (es ! j) = 0))"
proof (induction es arbitrary: i slot)
  case (Cons e es)
  then have ne: "\<not> oi_is f n e" and r: "ref_scan f n es (i + 1) (if oi_count e = 0 \<and> slot < 0 then i else slot) = Inr k" by (auto split: if_splits)
  have 0: "0 \<le> i + 1" using Cons.prems(2) by simp
  show ?case
  proof (cases "oi_count e = 0 \<and> slot < 0")
    case True
    then have k: "k = i" "\<forall>e \<in> set es. \<not> oi_is f n e" using Cons.IH [OF r 0] Cons.prems(2) by simp_all
    have "\<exists>j < length (e # es). k = i + int j \<and> oi_count ((e # es) ! j) = 0" using k(1) True by (intro exI [of _ 0]) simp
    then show ?thesis using k(2) ne True by simp
  next
    case False
    then have "ref_scan f n es (i + 1) slot = Inr k" using r by (simp only: if_False)
    note ih = Cons.IH [OF this 0]
    have "\<forall>x \<in> set (e # es). \<not> oi_is f n x" using conjunct1 [OF ih] ne by simp
    moreover from conjunct2 [OF ih]
    have "k = slot \<and> (slot < 0 \<longrightarrow> (\<forall>x \<in> set (e # es). oi_count x \<noteq> 0)) \<or>
        slot < 0 \<and> (\<exists>j < length (e # es). k = i + int j \<and> oi_count ((e # es) ! j) = 0)"
    proof
      assume "slot < 0 \<and> (\<exists>j < length es. k = i + 1 + int j \<and> oi_count (es ! j) = 0)"
      then obtain j where j: "slot < 0" "j < length es" "k = i + 1 + int j" "oi_count (es ! j) = 0" by blast
      then have "Suc j < length (e # es) \<and> k = i + int (Suc j) \<and> oi_count ((e # es) ! Suc j) = 0" by simp
      then have "\<exists>j < length (e # es). k = i + int j \<and> oi_count ((e # es) ! j) = 0" by (rule exI)
      then show ?thesis using j(1) by (intro disjI2 conjI)
    next
      assume k: "k = slot \<and> (slot < 0 \<longrightarrow> (\<forall>x \<in> set es. oi_count x \<noteq> 0))"
      have "oi_count x \<noteq> 0" if "slot < 0" "x \<in> set (e # es)" for x
        using set_ConsD [OF that(2)] that(1) conjunct2 [OF k] False by blast
      then have "slot < 0 \<longrightarrow> (\<forall>x \<in> set (e # es). oi_count x \<noteq> 0)" by blast
      then show ?thesis using conjunct1 [OF k] by (intro disjI1 conjI)
    qed
    ultimately show ?thesis by (rule conjI)
  qed
qed simp

text \<open>How often an inode is referenced, counted over the whole table.\<close>

definition oi_refs :: "nat \<Rightarrow> u32 \<Rightarrow> open_inode list \<Rightarrow> int" where
  "oi_refs f n oi = (\<Sum>e \<leftarrow> oi. if oi_is f n e then oi_count e else 0)"

lemma oi_refs_update:
  "j < length oi \<Longrightarrow> oi_refs f n (oi[j := e]) = oi_refs f n oi - (if oi_is f n (oi ! j) then oi_count (oi ! j) else 0) + (if oi_is f n e then oi_count e else 0)"
  unfolding oi_refs_def by (induction oi arbitrary: j) (auto simp: nth_Cons' split: nat.splits)

lemma oi_refs_nonneg: "0 \<le> oi_refs f n oi"
  unfolding oi_refs_def by (induction oi) (auto simp: oi_is_def)

lemma oi_refs_pos: "0 < oi_refs f n oi \<longleftrightarrow> (\<exists>e \<in> set oi. oi_is f n e)"
  using oi_refs_nonneg [of f n] unfolding oi_refs_def
  by (induction oi) (auto simp: oi_is_def add_pos_nonneg add_nonneg_pos)

lemma oi_refs_unref:
  "oi_refs f n (unref_first f' n' oi) = oi_refs f n oi - (if f = f' \<and> n = n' \<and> 0 < oi_refs f n oi then 1 else 0)"
proof (induction oi)
  case (Cons e es)
  show ?case
  proof (cases "oi_is f' n' e")
    case True
    then have "0 < oi_refs f n (e # es)" if "f = f'" "n = n'" using that by (simp add: oi_refs_pos)
    moreover have "oi_refs f n (e\<lparr>oi_count := oi_count e - 1\<rparr> # es) = oi_refs f n (e # es) - (if f = f' \<and> n = n' then 1 else 0)"
      using True by (auto simp: oi_refs_def oi_is_def)
    ultimately show ?thesis using True by auto
  next
    case False
    then have "oi_refs f n (e # unref_first f' n' es) = (if oi_is f n e then oi_count e else 0) + oi_refs f n (unref_first f' n' es)"
      by (simp add: oi_refs_def)
    moreover have "(0 < oi_refs f n (e # es)) = (0 < oi_refs f n es)" if "f = f'" "n = n'" using that False by (simp add: oi_refs_def)
    ultimately show ?thesis using False Cons.IH by (auto simp: oi_refs_def)
  qed
qed (simp add: oi_refs_def)

lemma oi_refs_incr:
  assumes "j < length oi" and "oi_is f n (oi ! j)"
  shows "oi_refs f' n' (oi[j := (oi ! j)\<lparr>oi_count := oi_count (oi ! j) + 1\<rparr>]) = oi_refs f' n' oi + (if f' = f \<and> n' = n then 1 else 0)"
  unfolding oi_refs_update [OF assms(1)] using assms(2) by (auto simp: oi_is_def)

lemma oi_refs_new:
  assumes "j < length oi" and "oi_count (oi ! j) = 0"
  shows "oi_refs f' n' (oi[j := \<lparr>oi_fs = Some f, oi_inum = n, oi_count = 1\<rparr>]) = oi_refs f' n' oi + (if f' = f \<and> n' = n then 1 else 0)"
  unfolding oi_refs_update [OF assms(1)] using assms(2) by (auto simp: oi_is_def)

lemma counts_update: "\<forall>e \<in> set oi. 0 \<le> oi_count e \<Longrightarrow> 0 \<le> oi_count x \<Longrightarrow> \<forall>e \<in> set (oi[j := x]). 0 \<le> oi_count e"
  using set_update_subset_insert [of oi j x] by blast

text \<open>One more reference to an inode in the table.\<close>

definition one_more :: "nat \<Rightarrow> u32 \<Rightarrow> open_inode list \<Rightarrow> open_inode list \<Rightarrow> bool" where
  "one_more f n oi oi' \<longleftrightarrow> length oi' = length oi \<and> (\<forall>e \<in> set oi'. 0 \<le> oi_count e) \<and>
     (\<forall>f' n'. oi_refs f' n' oi' = oi_refs f' n' oi + (if f' = f \<and> n' = n then 1 else 0))"

definition oi_room :: "nat \<Rightarrow> u32 \<Rightarrow> open_inode list \<Rightarrow> bool" where
  "oi_room f n oi \<longleftrightarrow> (\<exists>e \<in> set oi. oi_is f n e \<or> oi_count e = 0)"

lemma inode_ref_ok:
  assumes env: "k_env (v_fs w) = []" and nn: "\<forall>e \<in> set (koi w). 0 \<le> oi_count e"
  shows "oi_room f n (koi w) \<Longrightarrow> \<exists>oi. inode_ref f n w = (0, set_koi oi (set_kst (add_handles f 1 (kst w)) w)) \<and> one_more f n (koi w) oi"
    and "\<not> oi_room f n (koi w) \<Longrightarrow> inode_ref f n w = (- 1, w)"
proof -
  let ?oi = "koi w"
  have "if oi_room f n ?oi then \<exists>oi. inode_ref f n w = (0, set_koi oi (set_kst (add_handles f 1 (kst w)) w)) \<and> one_more f n ?oi oi
    else inode_ref f n w = (- 1, w)"
  proof (cases "ref_scan f n ?oi 0 (- 1)")
    case (Inl k)
    from ref_scan_Inl [OF Inl] obtain j where j: "j < length ?oi" "k = int j" "oi_is f n (?oi ! j)" by auto
    let ?e = "(?oi ! j)\<lparr>oi_count := oi_count (?oi ! j) + 1\<rparr>"
    have room: "oi_room f n ?oi" using j nth_mem unfolding oi_room_def by blast
    have r: "inode_ref f n w = (0, set_koi (?oi[j := ?e]) (set_kst (add_handles f 1 (kst w)) w))"
      using Inl j(2) env by (simp add: inode_ref_def Let_def)
    have c: "0 \<le> oi_count ?e" using j(3) by (simp add: oi_is_def)
    have "one_more f n ?oi (?oi[j := ?e])"
      unfolding one_more_def using oi_refs_incr [OF j(1, 3)] counts_update [OF nn c] by (intro conjI) simp_all
    then show ?thesis using r unfolding if_P [OF room] by blast
  next
    case (Inr k)
    note s = ref_scan_Inr [OF Inr order_refl]
    show ?thesis
    proof (cases "k = - 1")
      case True
      then have no: "\<not> oi_room f n ?oi" using s unfolding oi_room_def by auto
      have "inode_ref f n w = (- 1, w)" using Inr True env by (simp add: inode_ref_def Let_def)
      then show ?thesis unfolding if_not_P [OF no] .
    next
      case False
      from s False obtain j where j: "j < length ?oi" "k = int j" "oi_count (?oi ! j) = 0" by auto
      let ?e = "\<lparr>oi_fs = Some f, oi_inum = n, oi_count = 1\<rparr>"
      have room: "oi_room f n ?oi" using j nth_mem unfolding oi_room_def by blast
      have r: "inode_ref f n w = (0, set_koi (?oi[j := ?e]) (set_kst (add_handles f 1 (kst w)) w))"
        using Inr j(2) env by (simp add: inode_ref_def Let_def)
      have c: "0 \<le> oi_count ?e" by simp
      have "one_more f n ?oi (?oi[j := ?e])"
        unfolding one_more_def using oi_refs_new [OF j(1, 3)] counts_update [OF nn c] by (intro conjI) simp_all
      then show ?thesis using r unfolding if_P [OF room] by blast
    qed
  qed
  then show "oi_room f n ?oi \<Longrightarrow> \<exists>oi. inode_ref f n w = (0, set_koi oi (set_kst (add_handles f 1 (kst w)) w)) \<and> one_more f n ?oi oi"
    and "\<not> oi_room f n ?oi \<Longrightarrow> inode_ref f n w = (- 1, w)" by (simp_all only: if_True if_False)
qed

section \<open>Handles pin instances\<close>

text \<open>
  The calls that share the instance table and the open-inode table, in any order and by any tasks,
  with the references that are held and the slots that are claimed by a mount in progress.  A
  reference is taken on a mounted instance only, and no call releases a claimed slot.
\<close>

type_synonym pin_state = "kworld \<times> (nat \<times> u32) multiset \<times> nat set"

inductive pin_step :: "pin_state \<Rightarrow> pin_state \<Rightarrow> bool" where
  take_ref: "mounted (fss (kst w) f) \<Longrightarrow> f_used (fss (kst w) f) \<Longrightarrow> inode_ref f n w = (0, w') \<Longrightarrow>
    pin_step (w, M, P) (w', add_mset (f, n) M, P)"
| drop_ref: "(f, n) \<in># M \<Longrightarrow> pin_step (w, M, P) (inode_unref f n w, M - {#(f, n)#}, P)"
| release: "f \<notin> P \<Longrightarrow> pin_step (w, M, P) (set_kst (instance_release f (kst w)) w, M, P)"
| unmount: "f \<notin> P \<Longrightarrow> pin_step (w, M, P) (set_kst (kfs_type_unmount (Some f) (kst w)) w, M, P)"
| claim: "kfs_claim d (kst w) = (Some f, s') \<Longrightarrow> pin_step (w, M, P) (set_kst s' w, M, insert f P)"
| probe: "f \<in> P \<Longrightarrow> dev_ok (devs (kst w) d) \<Longrightarrow> block_size (devs (kst w) d) \<noteq> 0 \<Longrightarrow>
    of_nat KFS_BLOCK_SIZE mod block_size (devs (kst w) d) = 0 \<Longrightarrow> kfs_probe d f (kst w) = (ok, s') \<Longrightarrow>
    pin_step (w, M, P) (set_kst s' w, M, P - {f})"

abbreviation held :: "nat \<Rightarrow> (nat \<times> u32) multiset \<Rightarrow> nat" where
  "held f M \<equiv> size {#p \<in># M. fst p = f#}"

text \<open>The tables agree with the references.\<close>

definition refs_ok :: "open_inode list \<Rightarrow> (nat \<times> u32) multiset \<Rightarrow> bool" where
  "refs_ok oi M \<longleftrightarrow> (\<forall>e \<in> set oi. 0 \<le> oi_count e) \<and> (\<forall>f n. oi_refs f n oi = int (count M (f, n)))"

definition slots_ok :: "(nat \<Rightarrow> kfs_fs) \<Rightarrow> (nat \<times> u32) multiset \<Rightarrow> nat set \<Rightarrow> bool" where
  "slots_ok F M P \<longleftrightarrow> (\<forall>f. handles (F f) = int (held f M)) \<and> (\<forall>f. 0 < held f M \<longrightarrow> f_used (F f) \<and> f \<notin> P) \<and>
     (\<forall>f \<in> P. \<not> mounted (F f))"

definition pin_ok :: "pin_state \<Rightarrow> bool" where
  "pin_ok st \<longleftrightarrow> (case st of (w, M, P) \<Rightarrow> k_env (v_fs w) = [] \<and> refs_ok (koi w) M \<and> slots_ok (fss (kst w)) M P)"

lemma held_pos:
  assumes "(f, n) \<in># M" shows "0 < held f M"
proof -
  from multi_member_split [OF assms] obtain N where "M = add_mset (f, n) N" by blast
  then show ?thesis by simp
qed

lemma slots_ok_other:
  assumes "slots_ok F M P" and "\<And>i. i \<noteq> f \<Longrightarrow> G i = F i" and "handles (G f) = int (held f M)"
    and "0 < held f M \<Longrightarrow> f_used (G f)" and "P' \<subseteq> insert f P" and "0 < held f M \<Longrightarrow> f \<notin> P'" and "f \<in> P' \<Longrightarrow> \<not> mounted (G f)"
  shows "slots_ok G M P'"
proof -
  note ok = assms(1) [unfolded slots_ok_def]
  have "handles (G i) = int (held i M) \<and> (0 < held i M \<longrightarrow> f_used (G i) \<and> i \<notin> P') \<and> (i \<in> P' \<longrightarrow> \<not> mounted (G i))" for i
  proof (cases "i = f")
    case True
    then show ?thesis using assms(3, 4, 6, 7) by simp
  next
    case False
    then have "G i = F i" "i \<in> P' \<Longrightarrow> i \<in> P" using assms(2, 5) by blast+
    then show ?thesis using ok by auto
  qed
  then show ?thesis unfolding slots_ok_def by blast
qed

lemma add_handles_fss [simp]: "fss (add_handles f k s) i = (if i = f then (fss s f)\<lparr>handles := handles (fss s f) + k\<rparr> else fss s i)"
  by (simp add: add_handles_def upd_fs_def)

lemma slots_take:
  assumes "slots_ok F M P" and "mounted (F f)" and "f_used (F f)"
    and "\<And>i. G i = (if i = f then (F f)\<lparr>handles := handles (F f) + 1\<rparr> else F i)"
  shows "slots_ok G (add_mset (f, n) M) P"
  using assms unfolding slots_ok_def by auto

lemma slots_drop:
  assumes ok: "slots_ok F M P" and m: "(f, n) \<in># M" and G: "\<And>i. G i = (if i = f then (F f)\<lparr>handles := handles (F f) - 1\<rparr> else F i)"
  shows "slots_ok G (M - {#(f, n)#}) P"
proof -
  from multi_member_split [OF m] obtain N where N: "M = add_mset (f, n) N" by blast
  show ?thesis using ok unfolding slots_ok_def N by (auto simp: G)
qed

lemma unref_counts: "\<forall>e \<in> set oi. 0 \<le> oi_count e \<Longrightarrow> \<forall>e \<in> set (unref_first f n oi). 0 \<le> oi_count e"
  by (induction oi) (auto simp: oi_is_def)

lemma refs_drop:
  assumes "refs_ok oi M" and "(f, n) \<in># M" shows "refs_ok (unref_first f n oi) (M - {#(f, n)#})"
proof -
  have "0 < oi_refs f n oi" using assms by (simp add: refs_ok_def)
  then show ?thesis using assms unref_counts [of oi f n] count_greater_zero_iff [of M "(f, n)"]
    unfolding refs_ok_def oi_refs_unref by (auto simp: of_nat_diff)
qed

lemma take_ref_ok:
  assumes ok: "pin_ok (w, M, P)" and m: "mounted (fss (kst w) f)" "f_used (fss (kst w) f)" and r: "inode_ref f n w = (0, w')"
  shows "pin_ok (w', add_mset (f, n) M, P)"
proof -
  have env: "k_env (v_fs w) = []" and refs: "refs_ok (koi w) M" and sl: "slots_ok (fss (kst w)) M P" using ok by (simp_all add: pin_ok_def)
  have nn: "\<forall>e \<in> set (koi w). 0 \<le> oi_count e" using refs by (simp add: refs_ok_def)
  have "oi_room f n (koi w)" using inode_ref_ok(2) [OF env nn, of f n] r by auto
  from inode_ref_ok(1) [OF env nn this] r obtain oi
    where w': "w' = set_koi oi (set_kst (add_handles f 1 (kst w)) w)" and o: "one_more f n (koi w) oi" by auto
  have "refs_ok oi (add_mset (f, n) M)" using o refs unfolding refs_ok_def one_more_def by auto
  moreover have "slots_ok (fss (add_handles f 1 (kst w))) (add_mset (f, n) M) P" by (rule slots_take [OF sl m]) simp
  ultimately show ?thesis using env by (simp add: pin_ok_def w')
qed

lemma drop_ref_ok:
  assumes ok: "pin_ok (w, M, P)" and m: "(f, n) \<in># M"
  shows "pin_ok (inode_unref f n w, M - {#(f, n)#}, P)"
proof -
  have env: "k_env (v_fs w) = []" and refs: "refs_ok (koi w) M" and sl: "slots_ok (fss (kst w)) M P" using ok by (simp_all add: pin_ok_def)
  have "0 < handles (fss (kst w) f)" using sl held_pos [OF m] by (simp add: slots_ok_def)
  then have u: "inode_unref f n w = set_kst (add_handles f (- 1) (kst w)) (set_koi (unref_first f n (koi w)) w)"
    using env by (simp add: inode_unref_def Let_def)
  have "slots_ok (fss (add_handles f (- 1) (kst w))) (M - {#(f, n)#}) P" by (rule slots_drop [OF sl m]) simp
  then show ?thesis using env refs_drop [OF refs m] by (simp add: pin_ok_def u)
qed

lemma slot_step_ok:
  assumes ok: "pin_ok (w, M, P)" and "\<And>i. i \<noteq> f \<Longrightarrow> fss s' i = fss (kst w) i" and "handles (fss s' f) = int (held f M)"
    and "0 < held f M \<Longrightarrow> f_used (fss s' f)" and "P' \<subseteq> insert f P" and "0 < held f M \<Longrightarrow> f \<notin> P'" and "f \<in> P' \<Longrightarrow> \<not> mounted (fss s' f)"
  shows "pin_ok (set_kst s' w, M, P')"
proof -
  have sl: "slots_ok (fss (kst w)) M P" using ok by (simp add: pin_ok_def)
  have "slots_ok (fss s') M P'" by (rule slots_ok_other [OF sl, of f]) (fact assms)+
  then show ?thesis using ok by (simp add: pin_ok_def)
qed

lemma free_slot_step_ok:
  assumes ok: "pin_ok (w, M, P)" and o: "\<And>i. i \<noteq> f \<Longrightarrow> fss s' i = fss (kst w) i" and h: "handles (fss s' f) = 0" and z: "held f M = 0"
    and P: "P' \<subseteq> insert f P" and m: "f \<in> P' \<Longrightarrow> \<not> mounted (fss s' f)"
  shows "pin_ok (set_kst s' w, M, P')"
proof -
  have "\<not> 0 < held f M" unfolding z by (rule less_irrefl)
  moreover have "handles (fss s' f) = int (held f M)" unfolding h z by simp
  ultimately show ?thesis by (intro slot_step_ok [OF ok o _ _ P _ m]) blast+
qed

lemma release_fss:
  "i \<noteq> f \<Longrightarrow> fss (instance_release f s) i = fss s i" "handles (fss (instance_release f s) f) = handles (fss s f)"
  "mounted (fss (instance_release f s) f) = mounted (fss s f)" "handles (fss s f) \<noteq> 0 \<Longrightarrow> f_used (fss (instance_release f s) f) = f_used (fss s f)"
  by (simp_all add: instance_release_def upd_fs_def)

lemma unmount_fss:
  "i \<noteq> f \<Longrightarrow> fss (kfs_type_unmount (Some f) s) i = fss s i" "handles (fss (kfs_type_unmount (Some f) s) f) = handles (fss s f)"
  "handles (fss s f) \<noteq> 0 \<Longrightarrow> f_used (fss (kfs_type_unmount (Some f) s) f) = f_used (fss s f)"
  by (simp_all add: kfs_type_unmount_def instance_release_def bcache_invalidate_def upd_fs_def)

lemma pin_step_ok: "pin_step st st' \<Longrightarrow> pin_ok st \<Longrightarrow> pin_ok st'"
proof (induction rule: pin_step.induct)
  case (take_ref w f n w' M P)
  then show ?case by (intro take_ref_ok)
next
  case (drop_ref f n M w P)
  then show ?case by (intro drop_ref_ok)
next
  case (release f P w M)
  have h: "handles (fss (kst w) f) = int (held f M)" and u: "0 < held f M \<Longrightarrow> f_used (fss (kst w) f)"
    using release.prems by (simp_all add: pin_ok_def slots_ok_def)
  have "f_used (fss (instance_release f (kst w)) f)" if g: "0 < held f M"
  proof -
    have "handles (fss (kst w) f) \<noteq> 0" using g h by linarith
    then show ?thesis using release_fss(4) u [OF g] by simp
  qed
  then show ?case by (intro slot_step_ok [OF release.prems, of f]) (use h release.hyps release_fss in auto)
next
  case (unmount f P w M)
  have h: "handles (fss (kst w) f) = int (held f M)" and u: "0 < held f M \<Longrightarrow> f_used (fss (kst w) f)"
    using unmount.prems by (simp_all add: pin_ok_def slots_ok_def)
  have "f_used (fss (kfs_type_unmount (Some f) (kst w)) f)" if g: "0 < held f M"
  proof -
    have "handles (fss (kst w) f) \<noteq> 0" using g h by linarith
    then show ?thesis using unmount_fss(3) u [OF g] by simp
  qed
  then show ?case by (intro slot_step_ok [OF unmount.prems, of f]) (use h unmount.hyps unmount_fss in auto)
next
  case (claim d w f s' M P)
  have s': "s' = upd_fs f (\<lambda>_. zero_fs\<lparr>f_used := True\<rparr>) (kst w)" and nu: "\<not> f_used (fss (kst w) f)"
    using claim.hyps unfolding kfs_claim_def by (auto simp: first_from_Some split: if_splits option.splits)
  have "\<not> 0 < held f M" using claim.prems nu unfolding pin_ok_def slots_ok_def prod.case by blast
  then have "held f M = 0" by blast
  then show ?case by (intro free_slot_step_ok [OF claim.prems, of f]) (auto simp: s' upd_fs_def zero_fs_def)
next
  case (probe f P w d ok s' M)
  note p = kfs_probe_ok [OF probe.hyps(2-5)]
  have h: "handles (fss (kst w) f) = int (held f M)" and "\<not> 0 < held f M"
    using probe.prems probe.hyps(1) unfolding pin_ok_def slots_ok_def prod.case by blast+
  then have z: "held f M = 0" by blast
  have "handles (fss s' f) = 0" using p(3) h unfolding z by (simp only: of_nat_0)
  then show ?case using z by (intro free_slot_step_ok [OF probe.prems, of f]) (use p(1) in auto)
qed


text \<open>A world with an empty volume on its disk, for the witnesses.\<close>

definition ops_world :: "kfs_state \<Rightarrow> kworld" where
  "ops_world s = \<lparr>v_mt = \<lparr>types = [], mounts = [\<lparr>m_path = [47], m_type = Some 0, m_bd = Some 0, m_priv = Some 0, m_used = True\<rparr>]\<rparr>,
     v_files = Map.empty, v_pipes = Map.empty, v_kfs_registered = True, v_devfs_ready = True, v_handles = [],
     v_fs = \<lparr>k_st = s, k_open = replicate 64 \<lparr>oi_fs = None, oi_inum = 0, oi_count = 0\<rparr>, k_env = [], k_cur = None,
       k_times = [], k_alloc = [Some 9]\<rparr>\<rparr>"

lemma ops_world_sel [simp]:
  "kst (ops_world s) = s" "k_env (v_fs (ops_world s)) = []" "kcur (ops_world s) = None" "k_alloc (v_fs (ops_world s)) = [Some 9]"
  "\<forall>e \<in> set (koi (ops_world s)). oi_count e = 0" "oi_room f n (koi (ops_world s))" "v_files (ops_world s) = Map.empty"
  by (simp_all add: ops_world_def oi_room_def)


section \<open>Opening an existing file\<close>

text \<open>The inode a path names for a task, with every directory on the way searchable for it.\<close>

definition path_inode :: "cred option \<Rightarrow> nat \<Rightarrow> kfs_state \<Rightarrow> cstr \<Rightarrow> u32 option" where
  "path_inode cur f s path = (case guarded_parent (tree f s) (searchable cur f s) (root_ino (sb_of f s)) (components path) of
     None \<Rightarrow> None | Some (d, n) \<Rightarrow> tree f s d n)"

definition may_open :: "cred option \<Rightarrow> kfs_inode \<Rightarrow> u32 \<Rightarrow> bool" where
  "may_open cur ip flags \<longleftrightarrow> \<not> (i_type ip = KFS_TYPE_DIR \<and> vfs_flags_allow_write flags) \<and>
     (vfs_flags_allow_read flags \<longrightarrow> perm_ok cur ip VFS_R) \<and> (vfs_flags_allow_write flags \<longrightarrow> perm_ok cur ip VFS_W)"

definition kfs_handle :: "nat \<Rightarrow> u32 \<Rightarrow> u32 \<Rightarrow> ofile" where
  "kfs_handle f ino flags = zero_file\<lparr>f_fs := f, f_type := FILE_KFS, f_inum := ino, f_pos := 0, f_flags := flags, f_refs := 1\<rparr>"

lemma resolve_parent_ok:
  assumes env: "k_env (v_fs w) = []" and rd: "readable f (kst w)" and t: "tree_ok f (kst w)"
  obtains r name s' where "resolve f (ch_slash # path) True w = (r, name, set_kst s' w)" and "looked f (kst w) s'"
    and "case guarded_parent (tree f (kst w)) (searchable (kcur w) f (kst w)) (root_ino (sb_of f (kst w))) (components path) of
       None \<Rightarrow> r = - 1 | Some (d, n) \<Rightarrow> r = int (unat d) \<and> name = n \<and> is_dir f (kst w) d"
proof -
  let ?root = "root_ino (sb_of f (kst w))"
  have v: "ino_valid (sb_of f (kst w)) ?root" using tree_okD(1) [OF t] by (simp add: is_dir_def)
  obtain r name w' where run: "resolve_walk f ?root (ch_slash # path) True w = (r, name, w')" using prod_cases3 by blast
  have c: "components (ch_slash # path) = components path" by (simp add: components_def)
  have "mounted (fss (kst w) f)" using rd by (simp add: readable_def)
  then have "resolve f (ch_slash # path) True w = (r, name, w')" using run by (simp add: resolve_def)
  then show ?thesis using resolve_walk_ok [OF env rd t v run] that unfolding c by auto
qed

lemma no_create:
  assumes "flags AND (O_CREAT OR O_TRUNC) = 0" shows "flags AND O_CREAT = 0" and "flags AND O_TRUNC = 0"
proof -
  have "flags AND O_CREAT OR flags AND O_TRUNC = 0" using assms by (simp only: bit.conj_disj_distrib)
  then show "flags AND O_CREAT = 0" and "flags AND O_TRUNC = 0" by (simp_all only: or_eq_0_iff)
qed

lemma add_handles_view: "view f (add_handles g k s) = view f s" "sb_of f (add_handles g k s) = sb_of f s"
proof -
  have fb: "fs_block (add_handles g k s) f = fs_block s f" by (rule ext) (simp add: fs_block_def add_handles_def upd_fs_def Let_def)
  have j: "journal_pending f b (add_handles g k s) = journal_pending f b s" for b
    by (simp add: journal_pending_def add_handles_def upd_fs_def)
  show "view f (add_handles g k s) = view f s" by (rule ext) (simp only: view_def fb j)
  show "sb_of f (add_handles g k s) = sb_of f s" by simp
qed

lemma open_handle_ok:
  assumes env: "k_env (v_fs w) = []" and rd: "readable f (kst w)" and v: "ino_valid (sb_of f (kst w)) ino"
    and fl: "flags AND (O_CREAT OR O_TRUNC) = 0" and mem: "k_alloc (v_fs w) = Some a # as" and oi: "\<forall>e \<in> set (koi w). 0 \<le> oi_count e"
    and run: "open_inode_handle f ino flags w = (r, w')"
  shows "view f (kst w') = view f (kst w) \<and>
    (if may_open (kcur w) (inode_at f (kst w) ino) flags \<and> oi_room f ino (koi w)
     then r = Some a \<and> v_files w' = (v_files w)(a \<mapsto> kfs_handle f ino flags) \<and> one_more f ino (koi w) (koi w')
     else r = None \<and> v_files w' = v_files w \<and> koi w' = koi w)"
proof -
  let ?ip = "inode_at f (kst w) ino"
  obtain s1 where g: "kfs_iget f ino (kst w) = (Some ?ip, s1)" and l: "looked f (kst w) s1" by (rule kfs_iget_readable [OF rd v])
  let ?w1 = "set_kst s1 w"
  have lg: "locked (kfs_iget f ino) w = (Some ?ip, ?w1)" by (rule locked_alone [OF env, of "kfs_iget f ino", OF g])
  have vw: "view f s1 = view f (kst w)" by (rule lookedD(2) [OF l])
  note run' = run [unfolded open_inode_handle_def Let_def lg prod.case option.case fl]
  show ?thesis
  proof (cases "may_open (kcur w) ?ip flags")
    case False
    then have "r = None \<and> w' = ?w1" using run' by (auto simp: may_open_def split: if_splits)
    then show ?thesis using False vw by simp
  next
    case may: True
    have env1: "k_env (v_fs ?w1) = []" and oi1: "\<forall>e \<in> set (koi ?w1). 0 \<le> oi_count e" using env oi by simp_all
    show ?thesis
    proof (cases "oi_room f ino (koi w)")
      case False
      then have "inode_ref f ino ?w1 = (- 1, ?w1)" using inode_ref_ok(2) [OF env1 oi1] by simp
      then have "r = None \<and> w' = ?w1" using run' may by (auto simp: may_open_def split: if_splits)
      then show ?thesis using False vw by simp
    next
      case True
      then obtain oi' where ref: "inode_ref f ino ?w1 = (0, set_koi oi' (set_kst (add_handles f 1 s1) w))" and one: "one_more f ino (koi w) oi'"
        using inode_ref_ok(1) [OF env1 oi1, of f ino] by auto
      let ?w2 = "set_koi oi' (set_kst (add_handles f 1 s1) w)"
      have n: "new_file ?w2 = (Some a, ?w2\<lparr>v_fs := (v_fs ?w2)\<lparr>k_alloc := as\<rparr>\<rparr>)" using mem by (simp add: new_file_def)
      have "r = Some a \<and> w' = set_file a (Some (kfs_handle f ino flags)) (?w2\<lparr>v_fs := (v_fs ?w2)\<lparr>k_alloc := as\<rparr>\<rparr>)"
        using run' may ref n no_create(2) [OF fl] by (auto simp: may_open_def kfs_handle_def split: if_splits)
      then show ?thesis using may True one vw add_handles_view(1) [of f f 1 s1] by simp
    qed
  qed
qed

lemma path_parent_Some:
  assumes "path_inode cur f s path = Some ino"
  obtains d n where "guarded_parent (tree f s) (searchable cur f s) (root_ino (sb_of f s)) (components path) = Some (d, n)" and "tree f s d n = Some ino"
  using assms by (auto simp: path_inode_def split: option.splits)

text \<open>The steps from a path to the inode of its last component, when nothing disturbs them.\<close>

lemma parent_steps:
  assumes env: "k_env (v_fs w) = []" and rd: "readable f (kst w)" and t: "tree_ok f (kst w)"
    and p: "guarded_parent (tree f (kst w)) (searchable (kcur w) f (kst w)) (root_ino (sb_of f (kst w))) (components path) = Some (d, n)"
  obtains s1 s2 s3 where "resolve f (ch_slash # path) True w = (int (unat d), n, set_kst s1 w)"
    and "locked (kfs_iget f d) (set_kst s1 w) = (Some (inode_at f (kst w) d), set_kst s2 w)"
    and "locked (kfs_lookup_in f d n) (set_kst s2 w) = (case tree f (kst w) d n of None \<Rightarrow> - 1 | Some i \<Rightarrow> int (unat i), set_kst s3 w)"
    and "looked f (kst w) s2" and "looked f (kst w) s3"
proof -
  obtain r name s1 where r: "resolve f (ch_slash # path) True w = (r, name, set_kst s1 w)" and l1: "looked f (kst w) s1"
    and c: "case guarded_parent (tree f (kst w)) (searchable (kcur w) f (kst w)) (root_ino (sb_of f (kst w))) (components path) of
       None \<Rightarrow> r = - 1 | Some (d, n) \<Rightarrow> r = int (unat d) \<and> name = n \<and> is_dir f (kst w) d"
    by (rule resolve_parent_ok [OF env rd t])
  have rn: "r = int (unat d)" "name = n" and d: "ino_valid (sb_of f (kst w)) d" using c unfolding p by (simp_all add: is_dir_def)
  have rd1: "readable f s1" by (rule readable_looked [OF l1 rd])
  have d1: "ino_valid (sb_of f s1) d" using d lookedD(6) [OF l1] by simp
  obtain s2 where g: "kfs_iget f d s1 = (Some (inode_at f s1 d), s2)" and l12: "looked f s1 s2" by (rule kfs_iget_readable [OF rd1 d1])
  have l2: "looked f (kst w) s2" by (rule looked_trans [OF l1 l12])
  have rd2: "readable f s2" and t2: "tree_ok f s2" and d2: "ino_valid (sb_of f s2) d"
    using readable_looked [OF l2 rd] looked_tree(3) [OF l2] t d lookedD(6) [OF l2] by simp_all
  obtain s3 where k: "kfs_lookup_in f d n s2 = (case tree f s2 d n of None \<Rightarrow> - 1 | Some i \<Rightarrow> int (unat i), s3)" and l23: "looked f s2 s3"
    by (rule kfs_lookup_in_tree [OF rd2 t2 d2])
  show ?thesis
  proof (rule that)
    show "resolve f (ch_slash # path) True w = (int (unat d), n, set_kst s1 w)" using r rn by simp
    show "locked (kfs_iget f d) (set_kst s1 w) = (Some (inode_at f (kst w) d), set_kst s2 w)"
      using g env looked_same(1) [OF l1] by (simp add: locked_def)
    show "locked (kfs_lookup_in f d n) (set_kst s2 w) = (case tree f (kst w) d n of None \<Rightarrow> - 1 | Some i \<Rightarrow> int (unat i), set_kst s3 w)"
      using k env looked_tree(2) [OF l2] by (simp add: locked_def)
  qed (rule l2, rule looked_trans [OF l2 l23])
qed

lemma idle_readable: "kfs_idle f s \<Longrightarrow> no_faults s f \<Longrightarrow> readable f s"
  by (simp add: readable_def kfs_idle_def)

text \<open>
  C7. Opening an existing file is exactly as permitted as the tree and the mode bits say.  On a sound
  volume and without other tasks in between, \<^verbatim>\<open>kfs_op_open\<close> (without \<^verbatim>\<open>O_CREAT\<close> and \<^verbatim>\<open>O_TRUNC\<close>) gives a handle
  if and only if every directory on the path can be searched by the calling task, the last
  component exists, the inode's mode allows every access the flags ask for, it is not a directory
  opened for writing, and the open-inode table has room.  The handle then refers to that inode
  from position 0 and the inode has one more reference.  Otherwise no handle and no reference is
  left behind, and in no case does the volume change.
\<close>

theorem kfs_open_exact:
  assumes env: "k_env (v_fs w) = []" and vol: "kfs_idle f (kst w)" "no_faults (kst w) f" "tree_ok f (kst w)" and m: "mount_fs m w = Some f"
    and fl: "flags AND (O_CREAT OR O_TRUNC) = 0" and mem: "k_alloc (v_fs w) = Some a # as" and oi: "\<forall>e \<in> set (koi w). 0 \<le> oi_count e"
  shows "case kfs_op_open m (ch_slash # path) flags w of (r, w') \<Rightarrow> view f (kst w') = view f (kst w) \<and>
    (case path_inode (kcur w) f (kst w) path of None \<Rightarrow> r = None \<and> v_files w' = v_files w \<and> koi w' = koi w
     | Some ino \<Rightarrow> if may_open (kcur w) (inode_at f (kst w) ino) flags \<and> oi_room f ino (koi w)
         then r = Some a \<and> v_files w' = (v_files w)(a \<mapsto> kfs_handle f ino flags) \<and> one_more f ino (koi w) (koi w')
         else r = None \<and> v_files w' = v_files w \<and> koi w' = koi w)"
proof -
  have rd: "readable f (kst w)" and mt: "mounted (fss (kst w) f)" using vol by (simp_all add: idle_readable kfs_idle_def)
  let ?gp = "guarded_parent (tree f (kst w)) (searchable (kcur w) f (kst w)) (root_ino (sb_of f (kst w))) (components path)"
  obtain r w' where run: "kfs_op_open m (ch_slash # path) flags w = (r, w')" by fastforce
  note run' = run [unfolded kfs_op_open_def m option.case]
  show ?thesis
  proof (cases ?gp)
    case None
    obtain q name s1 where q: "resolve f (ch_slash # path) True w = (q, name, set_kst s1 w)" "looked f (kst w) s1"
      "case ?gp of None \<Rightarrow> q = - 1 | Some (d, n) \<Rightarrow> q = int (unat d) \<and> name = n \<and> is_dir f (kst w) d"
      by (rule resolve_parent_ok [OF env rd vol(3)])
    then have "r = None" "w' = set_kst s1 w" using run' mt None by simp_all
    then show ?thesis using None lookedD(2) [OF q(2)] by (simp add: run path_inode_def)
  next
    case (Some dn)
    then obtain d n where dn: "?gp = Some (d, n)" by (cases dn) simp
    obtain s1 s2 s3 where st: "resolve f (ch_slash # path) True w = (int (unat d), n, set_kst s1 w)"
      "locked (kfs_iget f d) (set_kst s1 w) = (Some (inode_at f (kst w) d), set_kst s2 w)"
      "locked (kfs_lookup_in f d n) (set_kst s2 w) = (case tree f (kst w) d n of None \<Rightarrow> - 1 | Some i \<Rightarrow> int (unat i), set_kst s3 w)"
      "looked f (kst w) s2" "looked f (kst w) s3" by (rule parent_steps [OF env rd vol(3) dn])
    have pi: "path_inode (kcur w) f (kst w) path = tree f (kst w) d n" by (simp add: path_inode_def dn)
    note vw = lookedD(2) [OF st(5)]
    show ?thesis
    proof (cases "tree f (kst w) d n")
      case None
      then have "r = None" "w' = set_kst s3 w" using run' mt st no_create(1) [OF fl]
        by (simp_all add: word_of_int_unat open_create_def)
      then show ?thesis using None vw by (simp add: run pi)
    next
      case (Some ino)
      have h: "open_inode_handle f ino flags (set_kst s3 w) = (r, w')" using run' mt st Some by (simp add: word_of_int_unat)
      have rd3: "readable f (kst (set_kst s3 w))" using readable_looked [OF st(5) rd] by simp
      have v3: "ino_valid (sb_of f (kst (set_kst s3 w))) ino" using tree_okD(5) [OF vol(3) Some] lookedD(6) [OF st(5)] by simp
      have e3: "k_env (v_fs (set_kst s3 w)) = []" "k_alloc (v_fs (set_kst s3 w)) = Some a # as" "\<forall>e \<in> set (koi (set_kst s3 w)). 0 \<le> oi_count e"
        using env mem oi by simp_all
      from open_handle_ok [OF e3(1) rd3 v3 fl e3(2, 3) h] show ?thesis
        unfolding run pi Some prod.case option.case set_kst_simps vw looked_same(1) [OF st(5)] .
    qed
  qed
qed

text \<open>
  C37. A file that is open cannot be unlinked.  If the path names an inode with a reference in the
  open-inode table, \<^verbatim>\<open>kfs_op_unlink\<close> refuses, without other tasks in between, and changes neither the volume nor
  the table, so the inode number a handle holds is never handed to a new file.
\<close>

theorem kfs_unlink_busy:
  assumes env: "k_env (v_fs w) = []" and vol: "kfs_idle f (kst w)" "no_faults (kst w) f" "tree_ok f (kst w)" and m: "mount_fs m w = Some f"
    and ino: "path_inode (kcur w) f (kst w) path = Some ino" and busy: "e \<in> set (koi w)" "oi_is f ino e"
  shows "case kfs_op_unlink m (ch_slash # path) w of (r, w') \<Rightarrow> r = - 1 \<and> view f (kst w') = view f (kst w) \<and> koi w' = koi w \<and> v_files w' = v_files w"
proof -
  have rd: "readable f (kst w)" using vol by (simp add: idle_readable)
  obtain d n where dn: "guarded_parent (tree f (kst w)) (searchable (kcur w) f (kst w)) (root_ino (sb_of f (kst w))) (components path) = Some (d, n)"
    and i: "tree f (kst w) d n = Some ino" by (rule path_parent_Some [OF ino])
  obtain s1 s2 s3 where st: "resolve f (ch_slash # path) True w = (int (unat d), n, set_kst s1 w)"
    "locked (kfs_iget f d) (set_kst s1 w) = (Some (inode_at f (kst w) d), set_kst s2 w)"
    "locked (kfs_lookup_in f d n) (set_kst s2 w) = (case tree f (kst w) d n of None \<Rightarrow> - 1 | Some i \<Rightarrow> int (unat i), set_kst s3 w)"
    "looked f (kst w) s2" "looked f (kst w) s3" by (rule parent_steps [OF env rd vol(3) dn])
  have "inode_is_open f ino (set_kst s3 w) = (True, set_kst s3 w)" using env busy by (auto simp: inode_is_open_def)
  then have "kfs_op_unlink m (ch_slash # path) w = (- 1, if perm_ok (kcur w) (inode_at f (kst w) d) (VFS_W OR VFS_X) then set_kst s3 w else set_kst s2 w)"
    using m st i by (simp add: kfs_op_unlink_def writable_parent_def word_of_int_unat)
  then show ?thesis using lookedD(2) [OF st(4)] lookedD(2) [OF st(5)] by simp
qed

lemma enter_files [simp]: "v_files (enter w) = v_files w"
  by (auto simp: enter_def split: list.splits prod.splits)

lemma locked_files: "locked call w = (r, w') \<Longrightarrow> v_files w' = v_files w"
  by (auto simp: locked_def split: prod.splits)

text \<open>
  Seeking stays in range.  For every 64-bit offset, origin and interleaving, \<^verbatim>\<open>kfs_op_seek\<close> either
  refuses and leaves the handle as it was, or returns a position between 0 and the largest file size
  and stores exactly that position in the handle's 32-bit field.
\<close>

lemma kfs_seek_bounds:
  assumes "v_files w a = Some kf" and "kfs_op_seek a off whence w = (r, w')"
  shows "r = - 1 \<and> v_files w' = v_files w \<or>
    0 \<le> r \<and> r \<le> 4235264 \<and> v_files w' = (v_files w)(a \<mapsto> kf\<lparr>f_pos := word_of_int r\<rparr>) \<and> int (unat (word_of_int r :: u32)) = r"
proof -
  have u: "int (unat (word_of_int p :: u32)) = p" if "0 \<le> p" "p \<le> 4235264" for p
    using that by (simp add: unsigned_of_int take_bit_int_eq_self)
  show ?thesis
    using assms u [of r] by (auto simp: kfs_op_seek_def Let_def dest!: locked_files split: if_splits option.splits prod.splits)
qed

section \<open>The data operations undisturbed\<close>

lemma now_keeps:
  assumes "now w = (t, w')" shows "kst w' = kst w" "k_env (v_fs w') = k_env (v_fs w)" "v_files w' = v_files w" "koi w' = koi w"
  using assms by (auto simp: now_def split: list.splits)

text \<open>The three data operations on a handle, when nothing disturbs them.\<close>

lemma op_write_alone:
  assumes "k_env (v_fs w) = []" and "v_files w a = Some kf" and "f_flags kf AND O_APPEND = 0"
  obtains t w0 r s' where "now w = (t, w0)" and "kfs_write (f_fs kf) (f_inum kf) (f_pos kf) buf t (kst w) = (r, s')"
    and "kfs_op_write a buf w = (r, move_pos a r (set_kst s' w0))" and "k_env (v_fs w0) = []" and "v_files w0 = v_files w"
proof -
  obtain t w0 where n: "now w = (t, w0)" by fastforce
  note k = now_keeps [OF n]
  obtain r s' where wr: "kfs_write (f_fs kf) (f_inum kf) (f_pos kf) buf t (kst w) = (r, s')" by fastforce
  have "locked (kfs_write (f_fs kf) (f_inum kf) (f_pos kf) buf t) w0 = (r, set_kst s' w0)" using wr k assms(1) by (simp add: locked_def)
  then show ?thesis using that [OF n wr] k assms n by (simp add: kfs_op_write_def)
qed

lemma op_read_alone:
  assumes "k_env (v_fs w) = []" and "v_files w a = Some kf" and "kfs_read (f_fs kf) (f_inum kf) (f_pos kf) (of_nat n) (kst w) = (r, bs, s')"
  shows "kfs_op_read a n w = ((r, bs), move_pos a r (set_kst s' w))"
  using assms by (simp add: kfs_op_read_def locked_def)

lemma op_seek_back:
  assumes "v_files w a = Some kf" and "0 < r" and "int (unat (f_pos kf)) = p + r" and "0 \<le> p" and "p \<le> 4235264"
  shows "kfs_op_seek a (- r) 1 w = (p, set_file a (Some (kf\<lparr>f_pos := word_of_int p\<rparr>)) w)"
  using assms by (simp add: kfs_op_seek_def)

section \<open>Witnesses\<close>

text \<open>A volume with one file, \<^verbatim>\<open>/a\<close>, made by the code's own \<^verbatim>\<open>kfs_create\<close>.\<close>

definition named_vol :: kfs_state where
  "named_vol = snd (kfs_create 0 [ch_slash, 97] 420 7 8 9 demo_vol)"

lemma named_vol:
  obtains ino where "kfs_idle 0 named_vol" and "no_faults named_vol 0" and "tree_ok 0 named_vol"
    and "path_inode None 0 named_vol [97] = Some ino" and "i_type (inode_at 0 named_vol ino) = KFS_TYPE_FILE"
proof -
  obtain r s' where ret: "kfs_create 0 [ch_slash, 97] 420 7 8 9 demo_vol = (r, s')" by fastforce
  have nf: "no_faults demo_vol 0" by simp
  have r: "r \<ge> 0" by (rule kfs_create_live [OF demo_vol_idle nf demo_tree(3) demo_can_create ret])
  have z: "0 \<notin> set [ch_slash, 97 :: byte]" by simp
  from kfs_create_ok [OF demo_vol_idle nf demo_tree(3) z ret r] obtain pre name dir ino
    where o: "kfs_idle 0 s'" "no_faults s' 0" "tree_ok 0 s'" "same_layout (sb_of 0 s') (sb_of 0 demo_vol)"
      "components [ch_slash, 97] = pre @ [name]" "tree_walk (tree 0 demo_vol) (root_ino (sb_of 0 demo_vol)) pre = Some dir"
      "created 0 dir name ino (fresh_inode KFS_TYPE_FILE 420 7 8 9) demo_vol s'" by blast
  have s: "named_vol = s'" by (simp add: named_vol_def ret)
  have c: "components [ch_slash, 97 :: byte] = [[97]]" "components [97 :: byte] = [[97]]" by (simp_all add: components_def)
  have pn: "pre = []" "name = [97]" using o(5) c by simp_all
  then have d: "dir = root_ino (sb_of 0 s')" using o(6) same_layout_fields [OF o(4)] by simp
  have i: "tree 0 s' dir [97] = Some ino" "inode_at 0 s' ino = fresh_inode KFS_TYPE_FILE 420 7 8 9" using o(7) pn by (simp_all add: created_def)
  have "searchable None 0 s' dir" using tree_okD(1) [OF o(3)] d by (simp add: searchable_def perm_ok_def vfs_perm_ok_def vfs_uid_def)
  then have "path_inode None 0 s' [97] = Some ino" using i(1) d c by (simp add: path_inode_def)
  then show ?thesis using that [of ino] o(1-3) i(2) s by (simp add: fresh_inode_def)
qed

theorem kfs_open_exact_witness:
  "case kfs_op_open 0 [ch_slash, 97] O_RDWR (ops_world named_vol) of (r, w') \<Rightarrow> r = Some 9 \<and>
     (\<exists>ino. path_inode None 0 named_vol [97] = Some ino \<and> v_files w' 9 = Some (kfs_handle 0 ino O_RDWR))"
proof -
  obtain ino where v: "kfs_idle 0 named_vol" "no_faults named_vol 0" "tree_ok 0 named_vol"
    "path_inode None 0 named_vol [97] = Some ino" "i_type (inode_at 0 named_vol ino) = KFS_TYPE_FILE" by (rule named_vol)
  let ?w = "ops_world named_vol"
  have m: "mount_fs 0 ?w = Some 0" by (simp add: mount_fs_def ops_world_def)
  have fl: "O_RDWR AND (O_CREAT OR O_TRUNC) = (0 :: u32)" by simp
  have cnt: "\<forall>e \<in> set (koi ?w). 0 \<le> oi_count e" using ops_world_sel(5) [of named_vol] by simp
  have may: "may_open None (inode_at 0 named_vol ino) O_RDWR"
    using v(5) by (simp add: may_open_def perm_ok_def vfs_perm_ok_def vfs_uid_def)
  from kfs_open_exact [of ?w 0 0 O_RDWR 9 "[]" "[97]", OF ops_world_sel(2) _ _ _ m fl ops_world_sel(4) cnt]
  show ?thesis using v(1-4) may by (auto split: prod.splits)
qed

theorem kfs_unlink_busy_witness:
  "\<exists>ino w. path_inode None 0 (kst w) [97] = Some ino \<and> oi_is 0 ino (hd (koi w)) \<and> fst (kfs_op_unlink 0 [ch_slash, 97] w) = - 1"
proof -
  obtain ino where v: "kfs_idle 0 named_vol" "no_faults named_vol 0" "tree_ok 0 named_vol"
    "path_inode None 0 named_vol [97] = Some ino" by (rule named_vol)
  let ?e = "\<lparr>oi_fs = Some 0, oi_inum = ino, oi_count = 1\<rparr>" let ?w = "set_koi [?e] (ops_world named_vol)"
  have m: "mount_fs 0 ?w = Some 0" by (simp add: mount_fs_def ops_world_def)
  from kfs_unlink_busy [of ?w 0 0 "[97]" ino ?e, OF _ _ _ _ m] have "fst (kfs_op_unlink 0 [ch_slash, 97] ?w) = - 1"
    using v by (simp add: oi_is_def split: prod.splits)
  then show ?thesis using v(4) by (intro exI [of _ ino] exI [of _ ?w]) (simp add: oi_is_def)
qed

end
