(* ===== verification/Clock.thy ===== *)
theory Clock
  imports Kestrel_Prelude
begin

text \<open>
  Wall-clock time: the CMOS clock driver (\<^verbatim>\<open>kernel/rtc.c\<close>) and the calendar arithmetic and cached time
  of the file system layer (the first part of \<^verbatim>\<open>kernel/vfs.c\<close>). The chip is a parameter \<open>hw\<close>: the
  byte that the \<open>t\<close>-th access to a register reads, so a register may change between two accesses.
\<close>

section \<open>The CMOS clock\<close>

record k_rtc =
  t_year :: u16
  t_mon :: byte
  t_day :: byte
  t_hour :: byte
  t_min :: byte
  t_sec :: byte
  t_wday :: byte

record raw_time =
  r_sec :: byte
  r_min :: byte
  r_hour :: byte
  r_day :: byte
  r_mon :: byte
  r_year :: byte
  r_century :: byte

type_synonym cmos = "nat \<Rightarrow> byte \<Rightarrow> byte"

abbreviation RTC_SEC :: byte where "RTC_SEC \<equiv> 0x00"
abbreviation RTC_MIN :: byte where "RTC_MIN \<equiv> 0x02"
abbreviation RTC_HOUR :: byte where "RTC_HOUR \<equiv> 0x04"
abbreviation RTC_DAY :: byte where "RTC_DAY \<equiv> 0x07"
abbreviation RTC_MON :: byte where "RTC_MON \<equiv> 0x08"
abbreviation RTC_YEAR :: byte where "RTC_YEAR \<equiv> 0x09"
abbreviation RTC_STATUS_A :: byte where "RTC_STATUS_A \<equiv> 0x0A"
abbreviation RTC_STATUS_B :: byte where "RTC_STATUS_B \<equiv> 0x0B"
abbreviation RTC_CENTURY :: byte where "RTC_CENTURY \<equiv> 0x32"
abbreviation STATUS_A_UIP :: byte where "STATUS_A_UIP \<equiv> 0x80"
abbreviation STATUS_B_24H :: byte where "STATUS_B_24H \<equiv> 0x02"
abbreviation STATUS_B_BIN :: byte where "STATUS_B_BIN \<equiv> 0x04"
abbreviation HOUR_PM :: byte where "HOUR_PM \<equiv> 0x80"
abbreviation UIP_SPINS :: nat where "UIP_SPINS \<equiv> 1000000"
abbreviation SETTLE_TRIES :: nat where "SETTLE_TRIES \<equiv> 16"

definition cmos_read :: "cmos \<Rightarrow> byte \<Rightarrow> nat \<Rightarrow> byte \<times> nat" where
  "cmos_read hw reg t = (hw t reg, Suc t)"

definition bcd_to_bin :: "byte \<Rightarrow> byte" where
  "bcd_to_bin v = (v AND 0x0F) + drop_bit 4 v * 10"

definition sakamoto_off :: "u32 list" where
  "sakamoto_off = [0, 3, 2, 5, 0, 3, 5, 1, 4, 6, 2, 4]"

definition day_of_week :: "u16 \<Rightarrow> byte \<Rightarrow> byte \<Rightarrow> byte" where
  "day_of_week year mon day = (let y = ucast year :: u32; y = (if mon < 3 then y - 1 else y) in
     ucast ((y + y div 4 - y div 100 + y div 400 + sakamoto_off ! (unat mon - 1) + ucast day) mod 7))"

definition dim :: "nat list" where
  "dim = [31, 28, 31, 30, 31, 30, 31, 31, 30, 31, 30, 31]"

definition days_in_month :: "u16 \<Rightarrow> byte \<Rightarrow> nat" where
  "days_in_month year mon = (if mon = 2 \<and> (year mod 4 = 0 \<and> (year mod 100 \<noteq> 0 \<or> year mod 400 = 0)) then 29
     else dim ! (unat mon - 1))"

definition plausible :: "k_rtc \<Rightarrow> bool" where
  "plausible t \<longleftrightarrow> \<not> (t_mon t < 1 \<or> t_mon t > 12) \<and>
     \<not> (t_day t < 1 \<or> unat (t_day t) > days_in_month (t_year t) (t_mon t)) \<and>
     \<not> (t_hour t > 23 \<or> t_min t > 59 \<or> t_sec t > 59) \<and>
     \<not> (t_year t < 1980 \<or> t_year t > 2199)"

primrec wait_uip_clear :: "cmos \<Rightarrow> nat \<Rightarrow> nat \<Rightarrow> nat" where
  "wait_uip_clear hw 0 t = t"
| "wait_uip_clear hw (Suc n) t = (case cmos_read hw RTC_STATUS_A t of (a, t1) \<Rightarrow>
     if a AND STATUS_A_UIP = 0 then t1 else wait_uip_clear hw n t1)"

definition read_raw :: "cmos \<Rightarrow> nat \<Rightarrow> raw_time \<times> nat" where
  "read_raw hw t = (let t = wait_uip_clear hw UIP_SPINS t in
     case cmos_read hw RTC_SEC t of (s, t) \<Rightarrow>
     case cmos_read hw RTC_MIN t of (mi, t) \<Rightarrow>
     case cmos_read hw RTC_HOUR t of (h, t) \<Rightarrow>
     case cmos_read hw RTC_DAY t of (d, t) \<Rightarrow>
     case cmos_read hw RTC_MON t of (mo, t) \<Rightarrow>
     case cmos_read hw RTC_YEAR t of (y, t) \<Rightarrow>
     case cmos_read hw RTC_CENTURY t of (c, t) \<Rightarrow>
     (\<lparr>r_sec = s, r_min = mi, r_hour = h, r_day = d, r_mon = mo, r_year = y, r_century = c\<rparr>, t))"

text \<open>Sweep until two consecutive sweeps agree, at most \<open>n\<close> more times.\<close>

primrec settle :: "cmos \<Rightarrow> nat \<Rightarrow> raw_time \<Rightarrow> nat \<Rightarrow> raw_time option \<times> nat" where
  "settle hw 0 a t = (None, t)"
| "settle hw (Suc n) a t = (case read_raw hw t of (b, t1) \<Rightarrow>
     if a = b then (Some a, t1) else settle hw n b t1)"

definition raw_bin :: "raw_time \<Rightarrow> raw_time" where
  "raw_bin a = \<lparr>r_sec = bcd_to_bin (r_sec a), r_min = bcd_to_bin (r_min a), r_hour = bcd_to_bin (r_hour a),
     r_day = bcd_to_bin (r_day a), r_mon = bcd_to_bin (r_mon a), r_year = bcd_to_bin (r_year a),
     r_century = bcd_to_bin (r_century a)\<rparr>"

definition rtc_decode :: "byte \<Rightarrow> raw_time \<Rightarrow> k_rtc" where
  "rtc_decode status_b a = (let
     pm = status_b AND STATUS_B_24H = 0 \<and> r_hour a AND HOUR_PM \<noteq> 0;
     a = a\<lparr>r_hour := r_hour a AND NOT HOUR_PM\<rparr>;
     a = (if status_b AND STATUS_B_BIN = 0 then raw_bin a else a);
     a = (if pm then a\<lparr>r_hour := r_hour a mod 12 + 12\<rparr>
          else if status_b AND STATUS_B_24H = 0 then a\<lparr>r_hour := r_hour a mod 12\<rparr> else a);
     century = (if 19 \<le> r_century a \<and> r_century a \<le> 21 then r_century a else 20)
     in \<lparr>t_year = ucast century * 100 + ucast (r_year a), t_mon = r_mon a, t_day = r_day a,
       t_hour = r_hour a, t_min = r_min a, t_sec = r_sec a, t_wday = 0\<rparr>)"

definition rtc_read :: "cmos \<Rightarrow> nat \<Rightarrow> k_rtc option \<times> nat" where
  "rtc_read hw t = (case read_raw hw t of (a, t1) \<Rightarrow>
     case settle hw SETTLE_TRIES a t1 of
       (None, t2) \<Rightarrow> (None, t2)
     | (Some a, t2) \<Rightarrow> (case cmos_read hw RTC_STATUS_B t2 of (status_b, t3) \<Rightarrow>
         let out = rtc_decode status_b a in
         if \<not> plausible out then (None, t3)
         else (Some (out\<lparr>t_wday := day_of_week (t_year out) (t_mon out) (t_day out)\<rparr>), t3)))"

definition rtc_wday_name :: "byte \<Rightarrow> string" where
  "rtc_wday_name wday = (if wday < 7 then [''Sun'', ''Mon'', ''Tue'', ''Wed'', ''Thu'', ''Fri'', ''Sat''] ! unat wday else ''???'')"

definition put2 :: "nat \<Rightarrow> string" where
  "put2 v = [char_of (48 + (v div 10) mod 10), char_of (48 + v mod 10)]"

definition rtc_line :: "k_rtc \<Rightarrow> string" where
  "rtc_line t = put2 (unat (t_year t) div 100) @ put2 (unat (t_year t) mod 100) @ ''-'' @ put2 (unat (t_mon t)) @ ''-'' @
     put2 (unat (t_day t)) @ '' '' @ put2 (unat (t_hour t)) @ '':'' @ put2 (unat (t_min t)) @ '':'' @ put2 (unat (t_sec t)) @
     '' '' @ rtc_wday_name (t_wday t) @ [char_of (10 :: nat)]"

definition rtc_format :: "cmos \<Rightarrow> int \<Rightarrow> nat \<Rightarrow> (int \<times> string) \<times> nat" where
  "rtc_format hw mx t = (if mx \<le> 0 then ((- 1, []), t)
     else case rtc_read hw t of
       (None, t1) \<Rightarrow> ((- 1, []), t1)
     | (Some k, t1) \<Rightarrow> (let len = min 24 mx in ((len, take (nat len) (rtc_line k)), t1)))"

section \<open>Unix time\<close>

definition is_leap :: "u32 \<Rightarrow> bool" where
  "is_leap y \<longleftrightarrow> (y mod 4 = 0 \<and> y mod 100 \<noteq> 0) \<or> y mod 400 = 0"

definition leaps_before :: "u32 \<Rightarrow> u32" where
  "leaps_before y = (let p = y - 1 in p div 4 - p div 100 + p div 400)"

definition month_start :: "u32 list" where
  "month_start = [0, 31, 59, 90, 120, 151, 181, 212, 243, 273, 304, 334]"

definition days_from_epoch :: "u32 \<Rightarrow> u32 \<Rightarrow> u32 \<Rightarrow> u32" where
  "days_from_epoch y mon day = (if y < 1970 \<or> mon < 1 \<or> mon > 12 \<or> day < 1 then 0
     else (y - 1970) * 365 + (leaps_before y - leaps_before 1970) + month_start ! unat (mon - 1) +
       (if mon > 2 \<and> is_leap y then 1 else 0) + (day - 1))"

definition rtc_to_unix :: "k_rtc \<Rightarrow> u32" where
  "rtc_to_unix t = days_from_epoch (ucast (t_year t)) (ucast (t_mon t)) (ucast (t_day t)) * 86400 +
     ucast (t_hour t) * 3600 + ucast (t_min t) * 60 + ucast (t_sec t)"

abbreviation TIMER_HZ :: u64 where "TIMER_HZ \<equiv> 100"
abbreviation CLK_REFRESH_TICKS :: u64 where "CLK_REFRESH_TICKS \<equiv> TIMER_HZ * 60"

record clk_state =
  clk_base :: u32
  clk_tick :: u64
  clk_valid :: bool

definition clk_extrapolate :: "u32 \<Rightarrow> u64 \<Rightarrow> u64 \<Rightarrow> u32" where
  "clk_extrapolate base tick now = (if now < tick then base else base + ucast ((now - tick) div TIMER_HZ))"

text \<open>\<open>now\<close> is the tick count on entry, \<open>now'\<close> the one read again after the chip has been sampled.\<close>

definition rtc_unix_time :: "k_rtc option \<Rightarrow> u64 \<Rightarrow> u64 \<Rightarrow> clk_state \<Rightarrow> u32 \<times> clk_state" where
  "rtc_unix_time chip now now' c = (
     if clk_valid c \<and> now - clk_tick c < CLK_REFRESH_TICKS then (clk_extrapolate (clk_base c) (clk_tick c) now, c)
     else case chip of
       None \<Rightarrow> (if clk_valid c then clk_extrapolate (clk_base c) (clk_tick c) now else 0, c)
     | Some t \<Rightarrow> (rtc_to_unix t, \<lparr>clk_base = rtc_to_unix t, clk_tick = now', clk_valid = True\<rparr>))"

definition vfs_now :: "k_rtc option \<Rightarrow> u64 \<Rightarrow> u64 \<Rightarrow> clk_state \<Rightarrow> u32 \<times> clk_state" where
  "vfs_now chip now now' c = rtc_unix_time chip now now' c"

section \<open>The calendar\<close>

lemma unat_ucast_widen [simp]:
  "unat (ucast (x::u16) :: u32) = unat x" "unat (ucast (b::byte) :: u32) = unat b" "unat (ucast (b::byte) :: u16) = unat b"
  using unsigned_less [of x, where ?'a = nat] unsigned_less [of b, where ?'a = nat]
  by (simp_all add: unsigned_ucast_eq take_bit_nat_eq_self)

lemma unat_ucast_down_less: "unat (x::u32) < 256 \<Longrightarrow> unat (ucast x :: byte) = unat x"
  by (simp add: unsigned_ucast_eq take_bit_nat_eq_self)

lemma unat_sum5:
  "\<lbrakk>unat (a::u32) \<le> 23920640; unat b \<le> 65536; unat c \<le> 334; unat d \<le> 1; unat e \<le> 255\<rbrakk> \<Longrightarrow>
    unat (a + b + c + d + e) = unat a + unat b + unat c + unat d + unat e"
  by (simp add: unat_plus_small)

lemma unat_mult_small: "unat (a::u32) * unat b < 2 ^ 32 \<Longrightarrow> unat (a * b) = unat a * unat b"
  by (simp add: unat_word_ariths)

text \<open>The Gregorian calendar, counted day by day.\<close>

definition leap :: "nat \<Rightarrow> bool" where
  "leap y \<longleftrightarrow> y mod 4 = 0 \<and> (y mod 100 \<noteq> 0 \<or> y mod 400 = 0)"

definition month_days :: "nat \<Rightarrow> nat \<Rightarrow> nat" where
  "month_days y m = (if m = 2 \<and> leap y then 29 else dim ! (m - 1))"

definition epoch_days :: "nat \<Rightarrow> nat \<Rightarrow> nat \<Rightarrow> nat" where
  "epoch_days y m d = (\<Sum>k \<in> {1970 ..< y}. if leap k then 366 else 365) + (\<Sum>j \<in> {1 ..< m}. month_days y j) + (d - 1)"

definition leap_count :: "nat \<Rightarrow> nat" where
  "leap_count y = (y - 1) div 4 + (y - 1) div 400 - (y - 1) div 100"

lemma leap_step: "1 \<le> y \<Longrightarrow> leap_count (Suc y) = leap_count y + (if leap y then 1 else 0)"
proof -
  assume y: "1 \<le> y"
  have d: "y div n = (y - 1) div n + (if y mod n = 0 then 1 else 0)" if "0 < n" for n
    using y that div_Suc [of "y - 1" n] mod_Suc [of "y - 1" n] by auto
  have "(y - 1) div 100 \<le> (y - 1) div 4" by (rule div_le_mono2) simp_all
  moreover have "y mod 100 = 0 \<Longrightarrow> y mod 4 = 0" "y mod 400 = 0 \<Longrightarrow> y mod 100 = 0" by presburger+
  ultimately show ?thesis unfolding leap_count_def leap_def by (simp add: d [of 4] d [of 100] d [of 400])
qed

lemma leap_count_mono: "1 \<le> x \<Longrightarrow> x \<le> y \<Longrightarrow> leap_count x \<le> leap_count y"
proof (induction y)
  case (Suc y)
  then show ?case using leap_step [of y] by (cases "x = Suc y") auto
qed simp

lemma year_sum: "1970 \<le> y \<Longrightarrow> (\<Sum>k \<in> {1970 ..< y}. if leap k then 366 else 365) + 477 = 365 * (y - 1970) + leap_count y"
proof (induction y rule: nat_induct_at_least)
  case base
  then show ?case by (simp add: leap_count_def)
next
  case (Suc y)
  have "Suc y - 1970 = Suc (y - 1970)" using Suc.hyps by simp
  then show ?case using Suc leap_step [of y] by (simp add: sum.atLeastLessThan_Suc)
qed

definition cum_days :: "nat list" where
  "cum_days = [0, 31, 59, 90, 120, 151, 181, 212, 243, 273, 304, 334]"

lemma month_sum:
  assumes "1 \<le> m" and "m \<le> 12"
  shows "(\<Sum>j \<in> {1 ..< m}. month_days y j) = cum_days ! (m - 1) + (if 2 < m \<and> leap y then 1 else 0)"
proof -
  have "m = 1 \<or> m = 2 \<or> m = 3 \<or> m = 4 \<or> m = 5 \<or> m = 6 \<or> m = 7 \<or> m = 8 \<or> m = 9 \<or> m = 10 \<or> m = 11 \<or> m = 12"
    using assms by presburger
  then show ?thesis by (elim disjE) (simp_all add: month_days_def dim_def cum_days_def eval_nat_numeral sum.atLeastLessThan_Suc)
qed

lemma leaps_before_ok:
  assumes "1 \<le> unat y"
  shows "unat (leaps_before y) = leap_count (unat y)" and "leap_count (unat y) < unat y"
proof -
  define n where "n = unat y - 1"
  have p: "unat (y - 1) = n" and n: "n < unat y" using assms by (simp_all add: unat_sub word_le_nat_alt n_def)
  define A B C where "A = n div 4" and "B = n div 100" and "C = n div 400"
  have le: "B \<le> A" "C \<le> B" "A \<le> n" unfolding A_def B_def C_def by (simp_all add: div_le_mono2)
  have u: "unat ((y - 1) div 4) = A" "unat ((y - 1) div 100) = B" "unat ((y - 1) div 400) = C"
    by (simp_all add: unat_div p A_def B_def C_def)
  have "unat ((y - 1) div 4 - (y - 1) div 100) = A - B" using le u by (simp add: unat_sub word_le_nat_alt)
  moreover have "A - B + C < 2 ^ 32" using le n u32_less [of y] by simp
  ultimately have "unat (leaps_before y) = A - B + C"
    unfolding leaps_before_def Let_def using u by (subst unat_plus_small) simp_all
  moreover have "leap_count (unat y) = A + C - B" by (simp add: leap_count_def A_def B_def C_def n_def)
  ultimately show "unat (leaps_before y) = leap_count (unat y)" and "leap_count (unat y) < unat y" using le n by simp_all
qed

lemma is_leap_ok: "is_leap y \<longleftrightarrow> leap (unat y)"
proof -
  have z: "y mod n = 0 \<longleftrightarrow> unat y mod unat n = 0" for n :: u32
    by (simp only: word_unat_eq_iff unat_mod unat_0)
  have q: "y mod 4 = 0 \<longleftrightarrow> unat y mod 4 = 0" "y mod 100 = 0 \<longleftrightarrow> unat y mod 100 = 0"
    "y mod 400 = 0 \<longleftrightarrow> unat y mod 400 = 0"
    using z [of 4] z [of 100] z [of 400] by simp_all
  have "unat y mod 4 = 0" if "unat y mod 400 = 0"
    using that dvd_trans [of 4 400 "unat y"] by (simp add: mod_eq_0_iff_dvd)
  then show ?thesis unfolding is_leap_def leap_def q by (cases "unat y mod 400 = 0") simp_all
qed

lemma month_start_ok:
  assumes "1 \<le> m" and "m \<le> 12"
  shows "unat (month_start ! (m - 1)) = cum_days ! (m - 1)"
    and "unat (month_start ! (m - 1)) \<le> 334"
proof -
  have "m = 1 \<or> m = 2 \<or> m = 3 \<or> m = 4 \<or> m = 5 \<or> m = 6 \<or> m = 7 \<or> m = 8 \<or> m = 9 \<or> m = 10 \<or> m = 11 \<or> m = 12"
    using assms by presburger
  then show "unat (month_start ! (m - 1)) = cum_days ! (m - 1)"
    and "unat (month_start ! (m - 1)) \<le> 334" by (elim disjE; simp add: month_start_def cum_days_def)+
qed

lemma days_from_epoch_ok:
  assumes y: "1970 \<le> unat y" "unat y < 65536" and m: "1 \<le> unat mon" "unat mon \<le> 12" and d: "1 \<le> unat day" "unat day < 256"
  shows "unat (days_from_epoch y mon day) = epoch_days (unat y) (unat mon) (unat day)"
proof -
  have g: "\<not> (y < 1970 \<or> mon < 1 \<or> mon > 12 \<or> day < 1)" using y m d by (simp add: word_less_nat_alt not_less)
  have L: "unat (leaps_before y) = leap_count (unat y)" by (rule leaps_before_ok(1)) (use y in simp)
  have L0': "leap_count 1970 = 477" by (simp add: leap_count_def)
  have L0: "unat (leaps_before 1970) = 477" by (subst leaps_before_ok(1)) (simp_all add: L0')
  have ge: "477 \<le> leap_count (unat y)" by (rule leap_count_mono [of 1970, unfolded L0']) (use y in simp_all)
  have lc: "leap_count (unat y) \<le> 65536" using leaps_before_ok(2) [of y] y by simp
  have "unat (y - 1970) = unat y - 1970" using y by (simp add: unat_sub word_le_nat_alt)
  then have a: "unat ((y - 1970) * 365) = 365 * (unat y - 1970)" using y by (subst unat_mult_small) simp_all
  have b: "unat (leaps_before y - leaps_before 1970) = leap_count (unat y) - 477"
    using L L0 ge by (simp add: unat_sub word_le_nat_alt)
  have mi: "unat (mon - 1) = unat mon - 1" "unat (day - 1) = unat day - 1" using m d by (simp_all add: unat_sub word_le_nat_alt)
  let ?l = "if mon > 2 \<and> is_leap y then 1 else 0 :: u32"
  have l: "unat ?l = (if 2 < unat mon \<and> leap (unat y) then 1 else 0)" by (simp add: is_leap_ok word_less_nat_alt)
  have "unat (days_from_epoch y mon day) = 365 * (unat y - 1970) + (leap_count (unat y) - 477) + unat (month_start ! (unat mon - 1)) + unat ?l + (unat day - 1)"
  proof -
    have "days_from_epoch y mon day = (y - 1970) * 365 + (leaps_before y - leaps_before 1970) + month_start ! (unat mon - 1) + ?l + (day - 1)"
      unfolding days_from_epoch_def mi(1) using g by (simp only: if_False)
    moreover have "unat ((y - 1970) * 365) \<le> 23920640" "unat (leaps_before y - leaps_before 1970) \<le> 65536"
      "unat ?l \<le> 1" "unat (day - 1) \<le> 255" using a b lc mi(2) y d by simp_all
    note unat_sum5 [OF this(1,2) month_start_ok(2) [OF m] this(3,4)]
    ultimately show ?thesis by (simp only: a b mi(2))
  qed
  then show ?thesis unfolding epoch_days_def month_sum [OF m] l month_start_ok(1) [OF m] using year_sum [OF y(1)] ge by linarith
qed

text \<open>Sakamoto's congruence against the day count; 1 January 1970 was a Thursday.\<close>

lemma day_of_week_ok:
  assumes y: "1970 \<le> unat year" and m: "1 \<le> unat mon" "unat mon \<le> 12" and d: "1 \<le> unat day"
  shows "unat (day_of_week year mon day) = (epoch_days (unat year) (unat mon) (unat day) + 4) mod 7"
proof -
  have mon: "unat mon = 1 \<or> unat mon = 2 \<or> unat mon = 3 \<or> unat mon = 4 \<or> unat mon = 5 \<or> unat mon = 6 \<or> unat mon = 7 \<or>
    unat mon = 8 \<or> unat mon = 9 \<or> unat mon = 10 \<or> unat mon = 11 \<or> unat mon = 12" using m by presburger
  define Y where "Y = (if unat mon < 3 then unat year - 1 else unat year)"
  define y where "y = (if mon < 3 then ucast year - 1 else ucast year :: u32)"
  have y16: "unat year < 65536" using unsigned_less [of year, where ?'a = nat] by simp
  have uy: "unat (ucast year :: u32) = unat year" by simp
  have yY: "unat y = Y" using y uy by (simp add: y_def Y_def word_less_nat_alt unat_sub word_le_nat_alt)
  define A B C where "A = Y div 4" and "B = Y div 100" and "C = Y div 400"
  have Y: "Y < 65536" using y16 by (auto simp: Y_def)
  have le: "B \<le> A" "C \<le> B" "A \<le> Y" unfolding A_def B_def C_def by (simp_all add: div_le_mono2)
  have u: "unat (y div 4) = A" "unat (y div 100) = B" "unat (y div 400) = C" by (simp_all add: unat_div yY A_def B_def C_def)
  have o: "unat (sakamoto_off ! (unat mon - 1)) = [0, 3, 2, 5, 0, 3, 5, 1, 4, 6, 2, 4] ! (unat mon - 1)"
    "unat (sakamoto_off ! (unat mon - 1)) \<le> 6"
    using mon by (elim disjE; simp add: sakamoto_off_def)+
  have d8: "unat (ucast day :: u32) = unat day" "unat day < 256"
    using unsigned_less [of day, where ?'a = nat] by simp_all
  have s1: "unat (y + y div 4) = Y + A" using yY u le Y by (simp add: unat_plus_small)
  have s2: "unat (y + y div 4 - y div 100) = Y + A - B" using s1 u le by (simp add: unat_sub word_le_nat_alt)
  have s3: "unat (y + y div 4 - y div 100 + y div 400) = Y + A - B + C" using s2 u le Y by (subst unat_plus_small) simp_all
  have s4: "unat (y + y div 4 - y div 100 + y div 400 + sakamoto_off ! (unat mon - 1)) = Y + A - B + C + unat (sakamoto_off ! (unat mon - 1))"
    using s3 o(2) le Y by (subst unat_plus_small) simp_all
  have s5: "unat (y + y div 4 - y div 100 + y div 400 + sakamoto_off ! (unat mon - 1) + ucast day) =
      Y + A - B + C + unat (sakamoto_off ! (unat mon - 1)) + unat day"
    using s4 o(2) d8 le Y by (subst unat_plus_small) simp_all
  have "unat ((y + y div 4 - y div 100 + y div 400 + sakamoto_off ! (unat mon - 1) + ucast day) mod 7) =
      (Y + A - B + C + unat (sakamoto_off ! (unat mon - 1)) + unat day) mod 7"
    unfolding unat_mod s5 by simp
  then have w: "unat (day_of_week year mon day) = (Y + A - B + C + unat (sakamoto_off ! (unat mon - 1)) + unat day) mod 7"
    unfolding day_of_week_def Let_def y_def [symmetric] by (subst unat_ucast_down_less) (simp_all add: order_less_trans [OF mod_less_divisor])
  have "epoch_days (unat year) (unat mon) (unat day) + 477 =
      365 * (unat year - 1970) + leap_count (unat year) + cum_days ! (unat mon - 1) + (if 2 < unat mon \<and> leap (unat year) then 1 else 0) + (unat day - 1)"
    unfolding epoch_days_def month_sum [OF m] using year_sum [OF y] by linarith
  moreover define K where "K = leap_count (Suc Y)"
  have "K = leap_count (unat year) + (if 2 < unat mon \<and> leap (unat year) then 1 else 0)"
    using leap_step [of "unat year"] y by (simp add: Y_def K_def)
  ultimately have e: "epoch_days (unat year) (unat mon) (unat day) + 477 =
      365 * (unat year - 1970) + K + cum_days ! (unat mon - 1) + (unat day - 1)" by linarith
  have "K = A + C - B" by (simp add: K_def leap_count_def A_def B_def C_def)
  then have "Y + A - B + C = Y + K" using le by linarith
  then have W: "unat (day_of_week year mon day) = (Y + K + unat (sakamoto_off ! (unat mon - 1)) + unat day) mod 7"
    using w by (simp only:)
  obtain x where x: "unat year = 1970 + x" using y le_Suc_ex by blast
  define z where "z = x + K + (unat day - 1)"
  have "epoch_days (unat year) (unat mon) (unat day) + 4 + 7 * 68 = z + (cum_days ! (unat mon - 1) + 3) + 7 * (52 * x)"
    using e x by (simp add: z_def)
  then have "(epoch_days (unat year) (unat mon) (unat day) + 4) mod 7 = (z + (cum_days ! (unat mon - 1) + 3)) mod 7"
    by (metis mod_mult_self2)
  moreover have "Y + K + unat (sakamoto_off ! (unat mon - 1)) + unat day =
      z + ((if unat mon < 3 then 1970 else 1971) + [0, 3, 2, 5, 0, 3, 5, 1, 4, 6, 2, 4] ! (unat mon - 1))"
    unfolding o(1) using d by (simp add: z_def Y_def x)
  moreover have "((if unat mon < 3 then 1970 else 1971) + [0, 3, 2, 5, 0, 3, 5, 1, 4, 6, 2, 4] ! (unat mon - 1)) mod 7 =
      (cum_days ! (unat mon - 1) + 3) mod (7::nat)"
    using mon by (elim disjE) (simp_all add: cum_days_def)
  note mod_add_cong [OF refl [of "z mod 7"] this]
  ultimately show ?thesis unfolding W by (simp only:)
qed

section \<open>Properties of the clock\<close>

definition seconds :: "nat \<Rightarrow> nat \<Rightarrow> nat \<Rightarrow> nat \<Rightarrow> nat \<Rightarrow> nat \<Rightarrow> nat" where
  "seconds y mo d h mi s = ((epoch_days y mo d * 24 + h) * 60 + mi) * 60 + s"

lemma rtc_to_unix_ok:
  assumes "plausible t"
  shows "unat (rtc_to_unix t) = seconds (unat (t_year t)) (unat (t_mon t)) (unat (t_day t)) (unat (t_hour t)) (unat (t_min t))
    (unat (t_sec t)) mod 2 ^ 32"
proof -
  have p: "1970 \<le> unat (t_year t)" "1 \<le> unat (t_mon t)" "unat (t_mon t) \<le> 12" "1 \<le> unat (t_day t)"
    using assms by (simp_all add: plausible_def word_less_nat_alt not_less)
  have r: "unat (t_year t) < 65536" "unat (t_day t) < 256"
    using unsigned_less [of "t_year t", where ?'a = nat] unsigned_less [of "t_day t", where ?'a = nat] by simp_all
  let ?D = "epoch_days (unat (t_year t)) (unat (t_mon t)) (unat (t_day t))"
  have "unat (days_from_epoch (ucast (t_year t)) (ucast (t_mon t)) (ucast (t_day t))) = ?D"
    using days_from_epoch_ok [of "ucast (t_year t)" "ucast (t_mon t)" "ucast (t_day t)"] p r by simp
  then have "days_from_epoch (ucast (t_year t)) (ucast (t_mon t)) (ucast (t_day t)) = of_nat ?D" by (metis of_nat_unat ucast_id)
  then have "rtc_to_unix t = of_nat (?D * 86400 + unat (t_hour t) * 3600 + unat (t_min t) * 60 + unat (t_sec t))"
    by (simp add: rtc_to_unix_def)
  then have "unat (rtc_to_unix t) = (?D * 86400 + unat (t_hour t) * 3600 + unat (t_min t) * 60 + unat (t_sec t)) mod 2 ^ 32"
    by (simp only: unat_of_nat) simp
  then show ?thesis by (simp add: seconds_def algebra_simps)
qed

text \<open>The registers of a chip that shows the time \<open>t\<close>, in BCD or binary and with 12 or 24 hours.\<close>

definition reg_enc :: "bool \<Rightarrow> nat \<Rightarrow> byte" where
  "reg_enc bcd v = (if bcd then of_nat (v div 10 * 16 + v mod 10) else of_nat v)"

definition hour_enc :: "bool \<Rightarrow> bool \<Rightarrow> nat \<Rightarrow> byte" where
  "hour_enc bcd h24 h = (if h24 then reg_enc bcd h
     else reg_enc bcd (if h mod 12 = 0 then 12 else h mod 12) OR (if h \<ge> 12 then HOUR_PM else 0))"

definition chip :: "bool \<Rightarrow> bool \<Rightarrow> k_rtc \<Rightarrow> byte \<Rightarrow> byte" where
  "chip bcd h24 t reg = (
     if reg = RTC_SEC then reg_enc bcd (unat (t_sec t))
     else if reg = RTC_MIN then reg_enc bcd (unat (t_min t))
     else if reg = RTC_HOUR then hour_enc bcd h24 (unat (t_hour t))
     else if reg = RTC_DAY then reg_enc bcd (unat (t_day t))
     else if reg = RTC_MON then reg_enc bcd (unat (t_mon t))
     else if reg = RTC_YEAR then reg_enc bcd (unat (t_year t) mod 100)
     else if reg = RTC_CENTURY then reg_enc bcd (unat (t_year t) div 100)
     else if reg = RTC_STATUS_B then (if bcd then 0 else STATUS_B_BIN) OR (if h24 then STATUS_B_24H else 0)
     else 0)"

lemma bcd_to_bin_enc: "v < 100 \<Longrightarrow> bcd_to_bin (reg_enc True v) = of_nat v"
proof -
  have "\<forall>v \<in> set [0 ..< 100]. bcd_to_bin (reg_enc True v) = of_nat v" by code_simp
  then show "v < 100 \<Longrightarrow> bcd_to_bin (reg_enc True v) = of_nat v" by simp
qed

lemma hour_dec:
  assumes "h < 24"
  shows "hour_enc bcd False h AND HOUR_PM \<noteq> 0 \<longleftrightarrow> h \<ge> 12"
    and "hour_enc bcd False h AND NOT HOUR_PM = reg_enc bcd (if h mod 12 = 0 then 12 else h mod 12)"
    and "hour_enc bcd True h AND NOT HOUR_PM = reg_enc bcd h"
proof -
  have "\<forall>h \<in> set [0 ..< 24]. \<forall>bcd \<in> {True, False}. (hour_enc bcd False h AND HOUR_PM \<noteq> 0 \<longleftrightarrow> h \<ge> 12) \<and>
    hour_enc bcd False h AND NOT HOUR_PM = reg_enc bcd (if h mod 12 = 0 then 12 else h mod 12) \<and>
    hour_enc bcd True h AND NOT HOUR_PM = reg_enc bcd h" by code_simp
  moreover have "h \<in> set [0 ..< 24]" "bcd \<in> {True, False}" using assms by auto
  ultimately show "hour_enc bcd False h AND HOUR_PM \<noteq> 0 \<longleftrightarrow> h \<ge> 12"
    and "hour_enc bcd False h AND NOT HOUR_PM = reg_enc bcd (if h mod 12 = 0 then 12 else h mod 12)"
    and "hour_enc bcd True h AND NOT HOUR_PM = reg_enc bcd h" by blast+
qed

lemma read_raw_chip:
  "\<exists>t'. read_raw (\<lambda>_. chip bcd h24 t) t0 = (\<lparr>r_sec = reg_enc bcd (unat (t_sec t)), r_min = reg_enc bcd (unat (t_min t)),
     r_hour = hour_enc bcd h24 (unat (t_hour t)), r_day = reg_enc bcd (unat (t_day t)), r_mon = reg_enc bcd (unat (t_mon t)),
     r_year = reg_enc bcd (unat (t_year t) mod 100), r_century = reg_enc bcd (unat (t_year t) div 100)\<rparr>, t')"
proof -
  have "wait_uip_clear (\<lambda>_. chip bcd h24 t) UIP_SPINS t0 = Suc t0"
    using wait_uip_clear.simps(2) [of "\<lambda>_. chip bcd h24 t" 999999 t0] by (simp add: cmos_read_def chip_def)
  then show ?thesis by (simp add: read_raw_def cmos_read_def chip_def)
qed

lemma reg_bin:
  assumes "v < 100"
  shows "(if bcd then bcd_to_bin (reg_enc bcd v) else reg_enc bcd v) = of_nat v"
  using bcd_to_bin_enc [OF assms] by (auto simp: reg_enc_def)

lemma hour_12:
  assumes "h < 24"
  shows "(of_nat (if h mod 12 = 0 then 12 else h mod 12) :: byte) mod 12 + (if h \<ge> 12 then 12 else 0) = of_nat h"
proof -
  have "\<forall>h \<in> set [0 ..< 24]. (of_nat (if h mod 12 = 0 then 12 else h mod 12) :: byte) mod 12 + (if h \<ge> 12 then 12 else 0) = of_nat h"
    by code_simp
  moreover have "h \<in> set [0 ..< 24]" using assms by simp
  ultimately show ?thesis by blast
qed

lemma plausibleD:
  assumes "plausible t"
  shows "unat (t_sec t) < 60" and "unat (t_min t) < 60" and "unat (t_hour t) < 24" and "1 \<le> unat (t_mon t)" and "unat (t_mon t) \<le> 12"
    and "1 \<le> unat (t_day t)" and "unat (t_day t) \<le> 31" and "1980 \<le> unat (t_year t)" and "unat (t_year t) \<le> 2199"
proof -
  note p = assms [unfolded plausible_def]
  show m: "1 \<le> unat (t_mon t)" "unat (t_mon t) \<le> 12" using p by (simp_all add: word_less_nat_alt not_less)
  have "dim ! (unat (t_mon t) - 1) \<le> 31"
  proof -
    have "\<forall>i < 12. dim ! i \<le> 31" by (simp add: dim_def nth_Cons')
    then show ?thesis using m by simp
  qed
  then have "days_in_month (t_year t) (t_mon t) \<le> 31" by (simp add: days_in_month_def)
  then show "unat (t_day t) \<le> 31" using p by simp
qed (use assms in \<open>simp_all add: plausible_def word_less_nat_alt not_less\<close>)

lemma rtc_decode_chip:
  assumes p: "plausible t"
  shows "rtc_decode ((if bcd then 0 else STATUS_B_BIN) OR (if h24 then STATUS_B_24H else 0))
    \<lparr>r_sec = reg_enc bcd (unat (t_sec t)), r_min = reg_enc bcd (unat (t_min t)),
     r_hour = hour_enc bcd h24 (unat (t_hour t)), r_day = reg_enc bcd (unat (t_day t)), r_mon = reg_enc bcd (unat (t_mon t)),
     r_year = reg_enc bcd (unat (t_year t) mod 100), r_century = reg_enc bcd (unat (t_year t) div 100)\<rparr> = t\<lparr>t_wday := 0\<rparr>"
proof -
  note P = plausibleD [OF p]
  let ?c = "unat (t_year t) div 100" and ?y = "unat (t_year t) mod 100"
  have c: "19 \<le> ?c" "?c \<le> 21" using P(8,9) by simp_all
  have cb: "unat (of_nat ?c :: byte) = ?c" "unat (of_nat ?y :: byte) = ?y" using c by (simp_all add: unat_of_nat mod_less)
  then have cw: "19 \<le> (of_nat ?c :: byte)" "(of_nat ?c :: byte) \<le> 21" using c by (simp_all add: word_le_nat_alt)
  have "unat (ucast (of_nat ?c :: byte) * 100 + ucast (of_nat ?y :: byte) :: u16) = ?c * 100 + ?y"
    using c cb by (simp add: unat_word_ariths mod_less)
  then have yr: "ucast (of_nat ?c :: byte) * 100 + ucast (of_nat ?y :: byte) = t_year t"
    by (simp add: word_unat_eq_iff)
  have B: "bcd_to_bin (reg_enc True v) = of_nat v" "reg_enc False v = of_nat v" if "v < 100" for v
    using reg_bin [OF that, of True] reg_bin [OF that, of False] by simp_all
  have hm: "(if unat (t_hour t) mod 12 = 0 then 12 else unat (t_hour t) mod 12) < 100"
    using P(3) by (simp add: order_le_less_trans [OF mod_less_eq_dividend])
  have R: "\<lparr>t_year = t_year t, t_mon = t_mon t, t_day = t_day t, t_hour = t_hour t, t_min = t_min t, t_sec = t_sec t, t_wday = 0\<rparr> =
    t\<lparr>t_wday := 0\<rparr>" by (cases t) simp
  note H = hour_dec [OF P(3)] and h = hour_12 [OF P(3)]
  have he: "hour_enc bcd True n = reg_enc bcd n" for n by (simp add: hour_enc_def)
  show ?thesis
  proof (cases h24)
    case True
    show ?thesis unfolding eqTrueI [OF True] he using P c cw yr H(3) [of bcd, unfolded he]
      by (cases bcd) (simp_all add: rtc_decode_def Let_def raw_bin_def B R)
  next
    case False
    then have False_h: "h24 = False" by simp
    show ?thesis unfolding False_h using P c cw yr H(1,2) [of bcd] B [OF hm] h
      by (cases bcd; cases "12 \<le> unat (t_hour t)") (simp_all add: rtc_decode_def Let_def raw_bin_def B R)
  qed
qed


lemma seconds_2106:
  assumes p: "plausible t" and y: "unat (t_year t) < 2106"
  shows "seconds (unat (t_year t)) (unat (t_mon t)) (unat (t_day t)) (unat (t_hour t)) (unat (t_min t)) (unat (t_sec t)) < 2 ^ 32"
proof -
  note P = plausibleD [OF p]
  have "leap_count 2105 = 510" by (simp add: leap_count_def)
  then have "leap_count (unat (t_year t)) \<le> 510" using leap_count_mono [of "unat (t_year t)" 2105] y P(8) by simp
  moreover have "cum_days ! (unat (t_mon t) - 1) \<le> 334" using month_start_ok [OF P(4,5)] by simp
  ultimately have "epoch_days (unat (t_year t)) (unat (t_mon t)) (unat (t_day t)) + 477 \<le> 365 * 135 + 510 + 334 + 1 + 30"
    unfolding epoch_days_def month_sum [OF P(4,5)] using year_sum [of "unat (t_year t)"] y P by (auto split: if_splits)
  then have "epoch_days (unat (t_year t)) (unat (t_mon t)) (unat (t_day t)) \<le> 49673" by simp
  then show ?thesis using P(1-3) by (simp add: seconds_def)
qed

text \<open>
  C31. The calendar arithmetic agrees with counting days: for every date the clock driver accepts, the
  Unix time computed from the leap-year formula is the number of seconds since 1 January 1970,
  counted year by year and month by month, reduced to 32 bits, hence exact before 2106; and
  Sakamoto's formula gives the weekday of that day count.
\<close>

theorem rtc_calendar_exact:
  assumes "plausible t"
  shows "let days = epoch_days (unat (t_year t)) (unat (t_mon t)) (unat (t_day t));
      secs = seconds (unat (t_year t)) (unat (t_mon t)) (unat (t_day t)) (unat (t_hour t)) (unat (t_min t)) (unat (t_sec t))
    in unat (rtc_to_unix t) = secs mod 2 ^ 32 \<and> (unat (t_year t) < 2106 \<longrightarrow> unat (rtc_to_unix t) = secs) \<and>
      unat (day_of_week (t_year t) (t_mon t) (t_day t)) = (days + 4) mod 7"
  using rtc_to_unix_ok [OF assms] seconds_2106 [OF assms] day_of_week_ok plausibleD [OF assms] by (simp add: Let_def)

text \<open>The last second that 32 bits can hold.\<close>

definition last_second :: k_rtc where
  "last_second = \<lparr>t_year = 2106, t_mon = 2, t_day = 7, t_hour = 6, t_min = 28, t_sec = 15, t_wday = 0\<rparr>"

theorem rtc_calendar_exact_witness:
  "plausible last_second \<and> seconds 2106 2 7 6 28 15 mod 2 ^ 32 = 4294967295 \<and> (epoch_days 2106 2 7 + 4) mod 7 = 0"
proof -
  have p: "plausible last_second" by code_simp
  have f: "unat (t_year last_second) = 2106" "unat (t_mon last_second) = 2" "unat (t_day last_second) = 7"
    "unat (t_hour last_second) = 6" "unat (t_min last_second) = 28" "unat (t_sec last_second) = 15"
    by (simp_all add: last_second_def)
  have u: "unat (rtc_to_unix last_second) = 4294967295"
    by (simp add: rtc_to_unix_def days_from_epoch_def leaps_before_def is_leap_def month_start_def last_second_def)
  have d: "unat (day_of_week (t_year last_second) (t_mon last_second) (t_day last_second)) = 0"
    by (simp add: day_of_week_def sakamoto_off_def last_second_def)
  show ?thesis using rtc_calendar_exact [OF p] p unfolding Let_def u d f by simp
qed

text \<open>
  C32. The driver reads what the chip shows: from a chip that steadily shows a valid date between 1980
  and 2199, in BCD or binary and in 12-hour or 24-hour mode, \<^verbatim>\<open>rtc_read\<close> returns exactly that date
  and time together with its weekday.
\<close>

theorem rtc_read_chip:
  assumes "plausible t"
  shows "fst (rtc_read (\<lambda>_. chip bcd h24 t) t0) = Some (t\<lparr>t_wday := day_of_week (t_year t) (t_mon t) (t_day t)\<rparr>)"
proof -
  let ?hw = "\<lambda>_::nat. chip bcd h24 t"
  obtain raw t1 where r1: "read_raw ?hw t0 = (raw, t1)" by fastforce
  obtain t2 where r2: "read_raw ?hw t1 = (raw, t2)" using read_raw_chip [of bcd h24 t t1] read_raw_chip [of bcd h24 t t0] r1 by auto
  have st: "settle ?hw SETTLE_TRIES raw t1 = (Some raw, t2)"
    using settle.simps(2) [of ?hw 15 raw t1] r2 by (simp add: eval_nat_numeral)
  have sb: "chip bcd h24 t RTC_STATUS_B = (if bcd then 0 else STATUS_B_BIN) OR (if h24 then STATUS_B_24H else 0)"
    by (simp add: chip_def)
  have dec: "rtc_decode (chip bcd h24 t RTC_STATUS_B) raw = t\<lparr>t_wday := 0\<rparr>"
    unfolding sb using rtc_decode_chip [OF assms] read_raw_chip [of bcd h24 t t0] r1 by auto
  have "plausible (t\<lparr>t_wday := 0\<rparr>)" using assms by (simp add: plausible_def)
  then show ?thesis by (simp add: rtc_read_def r1 st cmos_read_def dec)
qed

theorem rtc_read_chip_witness:
  "fst (rtc_read (\<lambda>_. chip True False last_second) 0) = Some last_second"
proof -
  have p: "plausible last_second" by code_simp
  have "day_of_week 2106 2 7 = 0" by (simp add: day_of_week_def sakamoto_off_def)
  then show ?thesis using rtc_read_chip [OF p, of True False 0] by (simp add: last_second_def)
qed

end
