(* ===== verification/Net_Checksum.thy ===== *)
theory Net_Checksum
  imports Kestrel_Prelude
begin

unbundle bit_operations_syntax

text \<open>
  The Internet checksum (\<^verbatim>\<open>kernel/net_checksum.c\<close>) and the byte-order helpers of
  \<^verbatim>\<open>kernel/include/net.h\<close>.  A buffer is the list of its bytes.
\<close>

section \<open>Definitions\<close>

definition htons :: "u16 \<Rightarrow> u16" where
  "htons v = push_bit 8 v OR drop_bit 8 v"

definition htonl :: "u32 \<Rightarrow> u32" where
  "htonl v = push_bit 24 (v AND 0x000000FF) OR push_bit 8 (v AND 0x0000FF00) OR drop_bit 8 (v AND 0x00FF0000) OR
     drop_bit 24 (v AND 0xFF000000)"

definition ntohs :: "u16 \<Rightarrow> u16" where
  "ntohs v = htons v"

definition ntohl :: "u32 \<Rightarrow> u32" where
  "ntohl v = htonl v"

fun add_bytes :: "u32 \<Rightarrow> byte list \<Rightarrow> u32" where
  "add_bytes s (a # b # p) = add_bytes (s + (push_bit 8 (ucast a) OR ucast b)) p"
| "add_bytes s [a] = s + push_bit 8 (ucast a)"
| "add_bytes s [] = s"

lemma byte_less: "unat (x::byte) < 256"
  using unsigned_less [of x, where ?'a = nat] by simp

lemma low16: "unat (s AND 0xFFFF :: u32) = unat s mod 65536"
proof -
  have "s AND 0xFFFF = take_bit 16 s" by (simp add: take_bit_eq_mask mask_eq_exp_minus_1)
  then show ?thesis by (simp add: unsigned_take_bit_eq take_bit_eq_mod unat_mod)
qed

lemma high16: "unat (drop_bit 16 (s::u32)) = unat s div 65536"
  by (simp add: drop_bit_eq_div unat_div)

lemma fold_once: "unat ((s AND 0xFFFF) + drop_bit 16 (s::u32)) = unat s mod 65536 + unat s div 65536"
proof -
  have "unat s < 4294967296" using u32_less [of s] by simp
  then have "unat s div 65536 < 65536" by (simp add: less_mult_imp_div_less)
  moreover have "unat s mod 65536 < 65536" by simp
  ultimately have "unat (s AND 0xFFFF) + unat (drop_bit 16 s) < 2 ^ 32" unfolding low16 high16 by simp
  then show ?thesis by (simp only: unat_plus_small low16 high16)
qed

lemma high_zero: "drop_bit 16 (s::u32) = 0 \<longleftrightarrow> unat s < 65536"
proof -
  have "drop_bit 16 s = 0 \<longleftrightarrow> unat (drop_bit 16 s) = 0" by (simp only: unat_eq_0)
  then show ?thesis by (simp only: high16 div_eq_0_iff) simp
qed

lemma fold_decreases: "drop_bit 16 (s::u32) \<noteq> 0 \<Longrightarrow> unat ((s AND 0xFFFF) + drop_bit 16 s) < unat s"
proof -
  assume "drop_bit 16 s \<noteq> 0"
  then have "unat s div 65536 > 0" by (simp add: high_zero div_greater_zero_iff)
  then show ?thesis using div_mult_mod_eq [of "unat s" 65536] unfolding fold_once by linarith
qed

text \<open>The loop of \<^verbatim>\<open>finish_sum\<close>.\<close>

function fold_sum :: "u32 \<Rightarrow> u32" where
  "fold_sum s = (if drop_bit 16 s \<noteq> 0 then fold_sum ((s AND 0xFFFF) + drop_bit 16 s) else s)"
  by pat_completeness auto
termination by (relation "measure unat") (simp_all add: fold_decreases)

declare fold_sum.simps [simp del]

definition finish_sum :: "u32 \<Rightarrow> u16" where
  "finish_sum s = htons (ucast (NOT (fold_sum s)))"

definition net_checksum :: "byte list \<Rightarrow> u16" where
  "net_checksum bs = finish_sum (add_bytes 0 bs)"

text \<open>Addresses are in network order, so their bytes in memory are the little-endian bytes of the word.\<close>

definition net_transport_checksum :: "u32 \<Rightarrow> u32 \<Rightarrow> byte \<Rightarrow> byte list \<Rightarrow> u16" where
  "net_transport_checksum src_be dst_be protocol segment =
     finish_sum (add_bytes (add_bytes (add_bytes 0 (le32 src_be)) (le32 dst_be) + ucast protocol +
       ucast (of_nat (length segment) :: u16)) segment)"

section \<open>One's complement sums\<close>

lemma mod_fold: "(n mod 65536 + n div 65536) mod 65535 = n mod (65535::nat)"
proof -
  define d m where "d = n div 65536" and "m = n mod 65536"
  have "n = d * 65536 + m" unfolding d_def m_def by (simp only: div_mult_mod_eq)
  then have n: "n = (m + d) + 65535 * d" by simp
  have "n mod 65535 = (m + d) mod 65535" unfolding n by (rule mod_mult_self2)
  then show ?thesis unfolding d_def m_def by (rule sym)
qed

lemma complement_mod:
  assumes "F < 65536" and "F mod 65535 = S mod (65535::nat)"
  shows "(S + (65535 - F)) mod 65535 = 0"
proof -
  have "(S + (65535 - F)) mod 65535 = (S mod 65535 + (65535 - F)) mod 65535" by (rule mod_add_left_eq [symmetric])
  also have "\<dots> = (F + (65535 - F)) mod 65535" unfolding assms(2) [symmetric] by (rule mod_add_left_eq)
  also have "F + (65535 - F) = 65535" using assms(1) by simp
  finally show ?thesis by simp
qed

lemma fold_sum_law: "unat (fold_sum s) mod 65535 = unat s mod 65535 \<and> unat (fold_sum s) < 65536 \<and> (fold_sum s = 0 \<longleftrightarrow> s = 0)"
proof (induction s rule: fold_sum.induct)
  case (1 s)
  show ?case
  proof (cases "drop_bit 16 s = 0")
    case True
    then show ?thesis by (subst (1 2 3) fold_sum.simps) (simp add: high_zero)
  next
    case False
    let ?t = "(s AND 0xFFFF) + drop_bit 16 s"
    have "unat ?t mod 65535 = unat s mod 65535" unfolding fold_once by (rule mod_fold)
    moreover have "unat ?t \<noteq> 0" "s \<noteq> 0" using False unfolding fold_once by (auto simp: high_zero)
    ultimately show ?thesis using 1 [OF False] unfolding unat_eq_0 by (subst (1 2 3) fold_sum.simps) (simp add: False)
  qed
qed

fun sum16 :: "byte list \<Rightarrow> nat" where
  "sum16 (a # b # p) = 256 * unat a + unat b + sum16 p"
| "sum16 [a] = 256 * unat a"
| "sum16 [] = 0"

lemma byte_pair: "unat (push_bit 8 (ucast (a::byte)) OR ucast (b::byte) :: u32) = 256 * unat a + unat b"
proof -
  have "push_bit 8 (ucast a) OR ucast b = push_bit 8 (ucast a) + (ucast b :: u32)"
    by (rule disjunctive_add [symmetric]) (auto simp: bit_push_bit_iff bit_ucast_iff dest: bit_imp_le_length)
  moreover have "unat a < 256" "unat b < 256" using byte_less [of a] byte_less [of b] by simp_all
  moreover have "push_bit 8 (ucast a :: u32) = ucast a * 256" by (simp add: push_bit_eq_mult)
  ultimately show ?thesis by (simp add: unat_word_ariths unsigned_ucast_eq take_bit_nat_eq_self)
qed

lemma sum16_bound: "sum16 p \<le> 65535 * ((length p + 1) div 2)"
proof (induction p rule: sum16.induct)
  case (1 a b p)
  have "unat a < 256" "unat b < 256" using byte_less [of a] byte_less [of b] by simp_all
  then show ?case using 1 by simp
next
  case (2 a)
  have "unat a < 256" using byte_less [of a] by simp
  then show ?case by simp
qed simp

lemma add_bytes_sum: "unat s + sum16 p < 2 ^ 32 \<Longrightarrow> unat (add_bytes s p) = unat s + sum16 p"
proof (induction s p rule: add_bytes.induct)
  case (1 s a b p)
  then show ?case by (simp add: unat_plus_small byte_pair)
next
  case (2 s a)
  then show ?case using byte_pair [of a 0] by (simp add: unat_plus_small)
qed simp

lemma sum16_append: "even (length p) \<Longrightarrow> sum16 (p @ q) = sum16 p + sum16 q"
  by (induction p rule: sum16.induct) simp_all

lemma fold_full: "fold_sum s = 0xFFFF \<longleftrightarrow> s \<noteq> 0 \<and> unat s mod 65535 = 0"
proof
  assume f: "fold_sum s = 0xFFFF"
  then have "unat (fold_sum s) = 65535" by simp
  then show "s \<noteq> 0 \<and> unat s mod 65535 = 0" using fold_sum_law [of s] f by auto
next
  assume s: "s \<noteq> 0 \<and> unat s mod 65535 = 0"
  then have "unat (fold_sum s) mod 65535 = 0" "unat (fold_sum s) < 65536" "unat (fold_sum s) \<noteq> 0"
    using fold_sum_law [of s] by (simp_all add: unat_eq_0)
  then have "unat (fold_sum s) = unat (0xFFFF::u32)" by (auto elim!: dvdE simp: mod_eq_0_iff_dvd)
  then show "fold_sum s = 0xFFFF" by (simp only: word_unat_eq_iff)
qed

lemma htons_htons: "htons (htons v) = v"
  by (rule bit_word_eqI) (auto simp: htons_def bit_or_iff bit_push_bit_iff bit_drop_bit_eq dest: bit_imp_le_length)

lemma htons_eq_0: "htons v = 0 \<longleftrightarrow> v = 0"
proof
  assume "htons v = 0"
  then have "htons (htons v) = htons 0" by simp
  then show "v = 0" unfolding htons_htons by (simp add: htons_def)
qed (simp add: htons_def)

lemma unat_not_low: "unat (f::u32) < 65536 \<Longrightarrow> unat (ucast (NOT f) :: u16) = 65535 - unat f"
proof -
  assume f: "unat f < 65536"
  have u: "uint f = int (unat f)" by (rule uint_nat)
  have "uint (ucast (NOT f) :: u16) = take_bit 16 (NOT (uint f))"
    by (rule bit_eqI) (auto simp: bit_unsigned_iff bit_take_bit_iff bit_not_iff)
  also have "\<dots> = (- uint f - 1) mod 65536" by (simp only: take_bit_eq_mod not_eq_complement) simp
  also have "\<dots> = (65535 - uint f) mod 65536"
  proof -
    have "- uint f - 1 + 65536 = 65535 - uint f" by simp
    then show ?thesis using mod_add_self2 [of "- uint f - 1" 65536] by (simp only:)
  qed
  also have "\<dots> = 65535 - uint f" using u f by (intro mod_pos_pos_trivial) linarith+
  finally show ?thesis unfolding uint_nat by linarith
qed

lemma finish_sum_0: "finish_sum s = 0 \<longleftrightarrow> s \<noteq> 0 \<and> unat s mod 65535 = 0"
proof -
  have "finish_sum s = 0 \<longleftrightarrow> unat (ucast (NOT (fold_sum s)) :: u16) = 0" by (simp only: finish_sum_def htons_eq_0 unat_eq_0)
  also have "\<dots> \<longleftrightarrow> unat (fold_sum s) = unat (0xFFFF::u32)" using fold_sum_law [of s] by (auto simp: unat_not_low)
  also have "\<dots> \<longleftrightarrow> fold_sum s = 0xFFFF" by (simp only: word_unat_eq_iff)
  finally show ?thesis by (simp only: fold_full)
qed

lemma sum16_htons: "sum16 (le16 (htons v)) = unat v"
proof -
  let ?h = "ucast (htons v) :: byte" and ?l = "ucast (drop_bit 8 (htons v)) :: byte"
  have "push_bit 8 (ucast ?h) OR ucast ?l = (ucast v :: u32)"
    by (rule bit_word_eqI) (auto simp: htons_def bit_or_iff bit_push_bit_iff bit_drop_bit_eq bit_ucast_iff dest: bit_imp_le_length)
  then have "256 * unat ?h + unat ?l = unat (ucast v :: u32)" using byte_pair [of ?h ?l] by simp
  moreover have "unat v < 65536" using unsigned_less [of v, where ?'a = nat] by simp
  ultimately show ?thesis by (simp add: le16_def unsigned_ucast_eq take_bit_nat_eq_self)
qed

lemma sum16_finish: "sum16 (le16 (finish_sum s)) = 65535 - unat (fold_sum s)"
  using fold_sum_law [of s] by (simp add: finish_sum_def sum16_htons unat_not_low)

lemma sum16_update:
  assumes "i < length p"
  shows "int (sum16 (p[i := b])) = int (sum16 p) + (int (unat b) - int (unat (p ! i))) * (if even i then 256 else 1)"
  using assms
proof (induction p arbitrary: i rule: sum16.induct)
  case (1 a b p)
  then show ?case by (cases i; cases "i - 1") (auto simp: algebra_simps)
qed simp_all

section \<open>Transport checksums\<close>

text \<open>What the pseudo header adds to the sum.\<close>

definition pseudo :: "u32 \<Rightarrow> u32 \<Rightarrow> byte \<Rightarrow> nat \<Rightarrow> nat" where
  "pseudo src dst protocol n = sum16 (le32 src) + sum16 (le32 dst) + unat protocol + n"

lemma transport_sum:
  assumes "length seg < 65536"
  obtains s where "\<And>src dst protocol. net_transport_checksum src dst protocol seg = finish_sum (s src dst protocol)"
    and "\<And>src dst protocol. unat (s src dst protocol) = pseudo src dst protocol (length seg) + sum16 seg"
proof -
  define h where "h = (\<lambda>src dst (protocol::byte). add_bytes (add_bytes 0 (le32 src)) (le32 dst) + ucast protocol +
       ucast (of_nat (length seg) :: u16) :: u32)"
  have b: "sum16 (le32 w) \<le> 131070" for w using sum16_bound [of "le32 w"] by simp
  have c: "sum16 seg \<le> 65535 * 32768"
    using sum16_bound [of seg] assms mult_le_mono2 [of "(length seg + 1) div 2" 32768 65535] by linarith
  have h: "unat (h src dst protocol) = pseudo src dst protocol (length seg)" for src dst protocol
  proof -
    have 1: "unat (add_bytes (add_bytes 0 (le32 src)) (le32 dst)) = sum16 (le32 src) + sum16 (le32 dst)"
      using b [of src] b [of dst] by (simp add: add_bytes_sum)
    have 2: "unat (ucast protocol :: u32) = unat protocol" using byte_less [of protocol] by (simp add: unsigned_ucast_eq take_bit_nat_eq_self)
    have 3: "unat (ucast (of_nat (length seg) :: u16) :: u32) = length seg"
      using assms by (simp add: unsigned_ucast_eq unsigned_of_nat take_bit_nat_eq_self)
    show ?thesis using b [of src] b [of dst] byte_less [of protocol] assms
      by (simp add: h_def pseudo_def unat_plus_small 1 2 3)
  qed
  have "unat (add_bytes (h src dst protocol) seg) = pseudo src dst protocol (length seg) + sum16 seg" for src dst protocol
    using c b [of src] b [of dst] byte_less [of protocol] assms by (subst add_bytes_sum) (simp_all add: h pseudo_def)
  then show ?thesis using that [of "\<lambda>src dst protocol. add_bytes (h src dst protocol) seg"]
    by (simp add: net_transport_checksum_def h_def)
qed

lemma checksum_zero:
  assumes "length q < 65536" "0 < length q"
  shows "net_transport_checksum src dst protocol q = 0 \<longleftrightarrow> (pseudo src dst protocol (length q) + sum16 q) mod 65535 = 0"
proof -
  obtain t where t: "net_transport_checksum src dst protocol q = finish_sum t" "unat t = pseudo src dst protocol (length q) + sum16 q"
    using transport_sum [OF assms(1)] by metis
  have "unat t \<noteq> 0" unfolding t(2) using assms(2) by (simp add: pseudo_def)
  then have "t \<noteq> 0" by (simp add: unat_eq_0)
  then show ?thesis by (simp add: t finish_sum_0)
qed

lemma checksum_stored:
  assumes even: "even (length pre)" and len: "length pre + 2 + length post < 65536"
    and c: "c = net_transport_checksum src dst protocol (pre @ [0, 0] @ post)"
  shows "(pseudo src dst protocol (length (pre @ le16 c @ post)) + sum16 (pre @ le16 c @ post)) mod 65535 = 0"
proof -
  let ?z = "pre @ [0, 0] @ post" and ?p = "pre @ le16 c @ post"
  have lz: "length ?z < 65536" using len by simp
  obtain s where s: "c = finish_sum s" "unat s = pseudo src dst protocol (length ?z) + sum16 ?z"
    using transport_sum [OF lz] c by metis
  have z: "sum16 ?z + sum16 (le16 c) = sum16 ?p" using even by (simp add: sum16_append)
  have "unat (fold_sum s) < 65536" "unat (fold_sum s) mod 65535 = unat s mod 65535" using fold_sum_law [of s] by simp_all
  then have m: "(unat s + sum16 (le16 c)) mod 65535 = 0" unfolding s(1) sum16_finish by (rule complement_mod)
  have "length ?z = length ?p" by simp
  then have "unat s + sum16 (le16 c) = pseudo src dst protocol (length ?p) + sum16 ?p" unfolding s(2) z [symmetric] by simp
  then show ?thesis using m by (simp only:)
qed

lemma checksum_verifies:
  assumes "even (length pre)" and "length pre + 2 + length post < 65536"
  shows "net_transport_checksum src dst protocol (pre @ le16 (net_transport_checksum src dst protocol (pre @ [0, 0] @ post)) @ post) = 0"
  using checksum_stored [OF assms refl] assms by (subst checksum_zero) simp_all

text \<open>
  C38. The checksum the sender stores is the one the receiver accepts, and no single corrupted byte
  escapes it: take a segment of less than 64 KiB whose checksum field, two bytes at an even offset, is
  zero, and store its \<^verbatim>\<open>net_transport_checksum\<close> in the field.  The checksum of the result is 0, which is
  the test the protocols apply to a received segment, and it is not 0 any more when any one byte of
  the segment, in the field or not, is replaced by another.
\<close>

theorem transport_checksum_roundtrip:
  assumes even: "even (length pre)" and len: "length pre + 2 + length post < 65536"
    and c: "c = net_transport_checksum src dst protocol (pre @ [0, 0] @ post)"
  shows "net_transport_checksum src dst protocol (pre @ le16 c @ post) = 0 \<and>
    (\<forall>i b. i < length pre + 2 + length post \<and> b \<noteq> (pre @ le16 c @ post) ! i \<longrightarrow>
       net_transport_checksum src dst protocol ((pre @ le16 c @ post)[i := b]) \<noteq> 0)"
proof -
  let ?p = "pre @ le16 c @ post"
  have lp: "length ?p < 65536" "0 < length ?p" using len by simp_all
  note mod = checksum_stored [OF assms]
  have int_dvd: "65535 dvd int n" if "n mod 65535 = 0" for n :: nat
    using that int_dvd_int_iff [of 65535 n] by (simp add: mod_eq_0_iff_dvd)
  have "(pseudo src dst protocol (length ?p) + sum16 (?p[i := b])) mod 65535 \<noteq> 0" if i: "i < length ?p" "b \<noteq> ?p ! i" for i b
  proof
    define d where "d = (int (unat b) - int (unat (?p ! i))) * (if even i then 256 else 1)"
    define T where "T = pseudo src dst protocol (length ?p)"
    assume "(pseudo src dst protocol (length ?p) + sum16 (?p[i := b])) mod 65535 = 0"
    then have "65535 dvd int (T + sum16 (?p[i := b]))" unfolding T_def by (rule int_dvd)
    moreover have A: "65535 dvd int (T + sum16 ?p)" using mod unfolding T_def by (rule int_dvd)
    moreover have "int (T + sum16 (?p[i := b])) = int (T + sum16 ?p) + d" using sum16_update [OF i(1), of b] by (simp add: d_def)
    ultimately have "65535 dvd d" using dvd_add_right_iff [OF A, of d] by (simp only:)
    moreover have "int (unat b) \<noteq> int (unat (?p ! i))" using i(2) by (simp only: of_nat_eq_iff word_unat_eq_iff) simp
    then have "d \<noteq> 0" by (simp add: d_def)
    moreover have bd: "\<bar>x * (if even i then 256 else 1)\<bar> < 65535" if "\<bar>x\<bar> < 256" for x :: int
      using that by (cases "even i") (simp_all add: abs_mult)
    have "\<bar>int (unat b) - int (unat (?p ! i))\<bar> < 256" using byte_less [of b] byte_less [of "?p ! i"] by linarith
    then have "\<bar>d\<bar> < 65535" unfolding d_def by (rule bd)
    ultimately show False using zdvd_not_zless [of "\<bar>d\<bar>" 65535] by simp
  qed
  then show ?thesis using checksum_zero [OF lp] checksum_zero [of "?p[_ := _]"] mod lp by simp
qed

theorem transport_checksum_roundtrip_witness:
  "\<exists>c. net_transport_checksum 0x0100000A 0x0200000A 6 ([1, 2] @ le16 c @ [3]) = 0 \<and>
     net_transport_checksum 0x0100000A 0x0200000A 6 (([1, 2] @ le16 c @ [3])[4 := 7]) \<noteq> 0"
proof -
  obtain c where c: "c = net_transport_checksum 0x0100000A 0x0200000A 6 ([1, 2] @ [0, 0] @ [3])" by blast
  have e: "even (length [1, 2::byte])" "length [1, 2::byte] + 2 + length [3::byte] < 65536" by simp_all
  have "4 < length [1, 2::byte] + 2 + length [3::byte] \<and> 7 \<noteq> ([1, 2] @ le16 c @ [3]) ! 4" by (simp add: le16_def)
  then show ?thesis using transport_checksum_roundtrip [OF e c] by blast
qed

end
