(* ===== verification/Tcp_Reassembly.thy ===== *)
theory Tcp_Reassembly
  imports Kestrel_Prelude
begin

unbundle bit_operations_syntax

text \<open>
  Reordered TCP data (\<^verbatim>\<open>kernel/tcp_reassembly.c\<close>): bytes beyond the next expected sequence number wait in
  unused slots of the receive ring, one presence bit per slot.  Ring positions and lengths, which the
  code keeps in \<^verbatim>\<open>int\<close> and checks not to be negative, are natural numbers.
\<close>

section \<open>Definitions\<close>

abbreviation TCP_RXBUF :: nat where
  "TCP_RXBUF \<equiv> 8192"

record tcp_reassembly =
  present :: "byte list"

record tcp_sack_block =
  sb_left :: u32
  sb_right :: u32

definition bit_test :: "tcp_reassembly \<Rightarrow> nat \<Rightarrow> bool" where
  "bit_test r pos \<longleftrightarrow> drop_bit (pos mod 8) (present r ! (pos div 8)) AND 1 \<noteq> 0"

definition bit_set :: "tcp_reassembly \<Rightarrow> nat \<Rightarrow> tcp_reassembly" where
  "bit_set r pos = r\<lparr>present := (present r)[pos div 8 := present r ! (pos div 8) OR push_bit (pos mod 8) 1]\<rparr>"

definition bit_clear :: "tcp_reassembly \<Rightarrow> nat \<Rightarrow> tcp_reassembly" where
  "bit_clear r pos = r\<lparr>present := (present r)[pos div 8 := present r ! (pos div 8) AND NOT (push_bit (pos mod 8) 1)]\<rparr>"

definition tcp_reassembly_reset :: "tcp_reassembly \<Rightarrow> tcp_reassembly" where
  "tcp_reassembly_reset r = r\<lparr>present := replicate (length (present r)) 0\<rparr>"

text \<open>The loop that stores a run of bytes into the slots from ring position \<open>base\<close> on.\<close>

fun store_run :: "tcp_reassembly \<Rightarrow> byte list \<Rightarrow> nat \<Rightarrow> byte list \<Rightarrow> tcp_reassembly \<times> byte list" where
  "store_run r ring base [] = (r, ring)"
| "store_run r ring base (d # ds) = (let pos = base mod TCP_RXBUF in
     if \<not> bit_test r pos then store_run (bit_set r pos) (ring[pos := d]) (base + 1) ds
     else store_run r ring (base + 1) ds)"

text \<open>The loop that moves the edge of the contiguous data over the slots that are present.\<close>

function advance :: "tcp_reassembly \<Rightarrow> nat \<Rightarrow> nat \<Rightarrow> u32 \<Rightarrow> nat \<Rightarrow> nat \<times> tcp_reassembly \<times> nat \<times> u32" where
  "advance r head contiguous next advanced =
     (if contiguous < TCP_RXBUF then
        (let tail = (head + contiguous) mod TCP_RXBUF in
         if \<not> bit_test r tail then (advanced, r, contiguous, next)
         else advance (bit_clear r tail) head (contiguous + 1) (next + 1) (advanced + 1))
      else (advanced, r, contiguous, next))"
  by pat_completeness auto
termination by (relation "measure (\<lambda>(r, head, contiguous, next, advanced). TCP_RXBUF - contiguous)") auto

declare advance.simps [simp del]

text \<open>The result is the number of bytes that became contiguous, then the updated state.\<close>

definition tcp_reassembly_accept :: "tcp_reassembly \<Rightarrow> byte list \<Rightarrow> nat \<Rightarrow> nat \<Rightarrow> u32 \<Rightarrow> u32 \<Rightarrow> byte list \<Rightarrow>
    nat \<times> tcp_reassembly \<times> byte list \<times> nat \<times> u32" where
  "tcp_reassembly_accept r ring head contiguous next seq data =
     (let unchanged = (0, r, ring, contiguous, next) in
      if length data = 0 \<or> head \<ge> TCP_RXBUF \<or> contiguous > TCP_RXBUF then unchanged
      else let delta = sint (seq - next); duplicate = next - seq in
      if delta < 0 \<and> duplicate \<ge> of_nat (length data) then unchanged
      else let data = (if delta < 0 then drop (unat duplicate) data else data);
               delta = (if delta < 0 then 0 else nat delta);
               window = TCP_RXBUF - contiguous in
      if delta \<ge> window then unchanged
      else let accepted = min (length data) (window - delta);
               tail = (head + contiguous) mod TCP_RXBUF;
               (r, ring) = store_run r ring (tail + delta) (take accepted data);
               (advanced, r, contiguous, next) = advance r head contiguous next 0
           in (advanced, r, ring, contiguous, next))"

definition tcp_reassembly_discard_from :: "tcp_reassembly \<Rightarrow> nat \<Rightarrow> nat \<Rightarrow> u32 \<Rightarrow> u32 \<Rightarrow> tcp_reassembly" where
  "tcp_reassembly_discard_from r head contiguous next seq =
     (if head \<ge> TCP_RXBUF \<or> contiguous > TCP_RXBUF then r
      else let delta = sint (seq - next); window = TCP_RXBUF - contiguous in
      if delta < 0 \<or> delta \<ge> int window then r
      else let tail = (head + contiguous) mod TCP_RXBUF
           in fold (\<lambda>off r. bit_clear r ((tail + off) mod TCP_RXBUF)) [nat delta ..< window] r)"

text \<open>The two inner loops of \<^verbatim>\<open>tcp_reassembly_sack_blocks\<close>: skip slots whose bit is not \<open>b\<close>.\<close>

function scan_bits :: "bool \<Rightarrow> tcp_reassembly \<Rightarrow> nat \<Rightarrow> nat \<Rightarrow> nat \<Rightarrow> nat" where
  "scan_bits b r tail window off =
     (if off < window \<and> bit_test r ((tail + off) mod TCP_RXBUF) \<noteq> b then scan_bits b r tail window (off + 1) else off)"
  by pat_completeness auto
termination by (relation "measure (\<lambda>(b, r, tail, window, off). window - off)") auto

declare scan_bits.simps [simp del]

function sack_scan :: "tcp_reassembly \<Rightarrow> nat \<Rightarrow> nat \<Rightarrow> u32 \<Rightarrow> nat \<Rightarrow> nat \<Rightarrow> nat \<Rightarrow> tcp_sack_block list" where
  "sack_scan r tail window next max_blocks off count =
     (if off < window \<and> count < max_blocks then
        (let first = scan_bits True r tail window off in
         if first \<ge> window then []
         else let off = scan_bits False r tail window first in
           \<lparr>sb_left = next + of_nat first, sb_right = next + of_nat off\<rparr> #
             sack_scan r tail window next max_blocks off (count + 1))
      else [])"
  by pat_completeness auto
termination by (relation "measure (\<lambda>(r, tail, window, next, max_blocks, off, count). max_blocks - count)") auto

declare sack_scan.simps [simp del]

definition tcp_reassembly_sack_blocks :: "tcp_reassembly \<Rightarrow> nat \<Rightarrow> nat \<Rightarrow> u32 \<Rightarrow> nat \<Rightarrow> tcp_sack_block list" where
  "tcp_reassembly_sack_blocks r head contiguous next max_blocks =
     (if max_blocks = 0 \<or> head \<ge> TCP_RXBUF \<or> contiguous > TCP_RXBUF then []
      else sack_scan r ((head + contiguous) mod TCP_RXBUF) (TCP_RXBUF - contiguous) next max_blocks 0 0)"

section \<open>Presence bits\<close>

definition bits_ok :: "tcp_reassembly \<Rightarrow> bool" where
  "bits_ok r \<longleftrightarrow> length (present r) = 1024"

lemma bit_test_iff: "bit_test r pos \<longleftrightarrow> bit (present r ! (pos div 8)) (pos mod 8)"
  by (simp add: bit_test_def bit_iff_odd_drop_bit and_one_eq odd_iff_mod_2_eq_one)

lemma pos_eq: "(p::nat) = q \<longleftrightarrow> p div 8 = q div 8 \<and> p mod 8 = q mod 8"
  by (metis div_mult_mod_eq)

lemma bit_test_set [simp]: "bits_ok r \<Longrightarrow> p < 8192 \<Longrightarrow> bit_test (bit_set r p) q \<longleftrightarrow> q = p \<or> bit_test r q"
  by (cases "p div 8 = q div 8")
    (auto simp: bit_test_iff bit_set_def bits_ok_def bit_or_iff bit_push_bit_iff pos_eq [of q p] nth_list_update bit_exp_iff)

lemma bit_test_clear [simp]: "bits_ok r \<Longrightarrow> p < 8192 \<Longrightarrow> bit_test (bit_clear r p) q \<longleftrightarrow> q \<noteq> p \<and> bit_test r q"
  by (cases "p div 8 = q div 8")
    (auto simp: bit_test_iff bit_clear_def bits_ok_def bit_and_iff bit_not_iff bit_push_bit_iff pos_eq [of q p] nth_list_update bit_exp_iff)

lemma bits_ok_upd [simp]: "bits_ok (bit_set r p) = bits_ok r" "bits_ok (bit_clear r p) = bits_ok r"
  "bits_ok (tcp_reassembly_reset r) = bits_ok r"
  by (simp_all add: bits_ok_def bit_set_def bit_clear_def tcp_reassembly_reset_def)

lemma bit_test_reset [simp]: "bits_ok r \<Longrightarrow> p < 8192 \<Longrightarrow> \<not> bit_test (tcp_reassembly_reset r) p"
  by (simp add: bit_test_iff tcp_reassembly_reset_def bits_ok_def)


section \<open>The stream behind the ring\<close>

text \<open>Byte \<open>k\<close> of the peer's stream has its slot at a fixed distance from the slot of byte 0.\<close>

abbreviation slot :: "nat \<Rightarrow> nat \<Rightarrow> nat" where
  "slot orig k \<equiv> (orig + k) mod TCP_RXBUF"

lemma slot_eq: "lo \<le> k \<Longrightarrow> k < lo + TCP_RXBUF \<Longrightarrow> lo \<le> j \<Longrightarrow> j < lo + TCP_RXBUF \<Longrightarrow> slot orig k = slot orig j \<longleftrightarrow> k = j"
proof (induction k j rule: linorder_wlog)
  case (le a b)
  then have "slot orig b = slot orig a \<longleftrightarrow> TCP_RXBUF dvd b - a" by (simp add: mod_eq_dvd_iff_nat)
  moreover have "TCP_RXBUF dvd b - a \<longleftrightarrow> b - a = 0" using le by (auto dest: dvd_imp_le)
  ultimately show ?case using le by auto
qed auto

lemma store_run_law:
  assumes "bits_ok r" "length ring = TCP_RXBUF" "base mod TCP_RXBUF = slot orig q" "lo \<le> q" "q + length ds \<le> lo + TCP_RXBUF"
    and "store_run r ring base ds = (r', ring')"
  shows "bits_ok r' \<and> length ring' = TCP_RXBUF \<and>
    (\<forall>k. lo \<le> k \<and> k < lo + TCP_RXBUF \<longrightarrow>
       (bit_test r' (slot orig k) \<longleftrightarrow> bit_test r (slot orig k) \<or> q \<le> k \<and> k < q + length ds) \<and>
       ring' ! slot orig k = (if q \<le> k \<and> k < q + length ds \<and> \<not> bit_test r (slot orig k) then ds ! (k - q) else ring ! slot orig k))"
  using assms
proof (induction ds arbitrary: r ring base q)
  case (Cons d ds)
  have base: "(base + 1) mod TCP_RXBUF = slot orig (q + 1)" using Cons.prems(3) mod_Suc_eq [of base TCP_RXBUF] mod_Suc_eq [of "orig + q" TCP_RXBUF] by simp
  have q: "q < lo + TCP_RXBUF" "lo \<le> q + 1" "q + 1 + length ds \<le> lo + TCP_RXBUF" using Cons.prems(4,5) by simp_all
  show ?case
  proof (cases "bit_test r (slot orig q)")
    case True
    then have "store_run r ring (base + 1) ds = (r', ring')" using Cons.prems(6) by (simp add: Cons.prems(3) Let_def)
    note IH = Cons.IH [OF Cons.prems(1,2) base q(2,3) this]
    then show ?thesis using True by (auto simp: nth_Cons' Suc_le_eq)
  next
    case False
    have "store_run (bit_set r (slot orig q)) (ring[slot orig q := d]) (base + 1) ds = (r', ring')"
      using False Cons.prems(6) by (simp add: Cons.prems(3) Let_def)
    note IH = Cons.IH [OF _ _ base q(2,3) this]
    have S: "slot orig k = slot orig q \<longleftrightarrow> k = q" if "lo \<le> k" "k < lo + TCP_RXBUF" for k using slot_eq [OF that Cons.prems(4) q(1)] .
    have U: "ring[slot orig q := d] ! slot orig k = (if k = q then d else ring ! slot orig k)" if "lo \<le> k" "k < lo + TCP_RXBUF" for k
      using S [OF that] Cons.prems(2) by (auto simp: nth_list_update)
    show ?thesis using IH False S Cons.prems(1,2) by (auto simp: nth_Cons' Suc_le_eq U)
  qed
qed auto


text \<open>
  The invariant of the receive ring.  \<open>S\<close> is the peer's stream, \<open>irs\<close> the sequence number of its first
  byte, \<open>orig\<close> the slot of its first byte and \<open>N\<close> the number of bytes that are contiguous so far, of
  which the last \<open>contiguous\<close> still wait in the ring.
\<close>

definition rx_ok :: "(nat \<Rightarrow> byte) \<Rightarrow> u32 \<Rightarrow> nat \<Rightarrow> nat \<Rightarrow> tcp_reassembly \<Rightarrow> byte list \<Rightarrow> nat \<Rightarrow> nat \<Rightarrow> u32 \<Rightarrow> bool" where
  "rx_ok S irs orig N r ring head contiguous next \<longleftrightarrow>
     bits_ok r \<and> length ring = TCP_RXBUF \<and> head < TCP_RXBUF \<and> contiguous \<le> TCP_RXBUF \<and> contiguous \<le> N \<and>
     next = irs + of_nat N \<and> head = slot orig (N - contiguous) \<and>
     (\<forall>k. N - contiguous \<le> k \<and> k < N \<longrightarrow> ring ! slot orig k = S k \<and> \<not> bit_test r (slot orig k)) \<and>
     (\<forall>k. N \<le> k \<and> k < N - contiguous + TCP_RXBUF \<and> bit_test r (slot orig k) \<longrightarrow> ring ! slot orig k = S k)"

text \<open>The indices of the stream bytes the receiver holds or has handed on.\<close>

definition got :: "nat \<Rightarrow> nat \<Rightarrow> tcp_reassembly \<Rightarrow> nat \<Rightarrow> nat set" where
  "got orig N r contiguous = {k. k < N \<or> k < N - contiguous + TCP_RXBUF \<and> bit_test r (slot orig k)}"

lemma rx_tail: "rx_ok S irs orig N r ring head contiguous next \<Longrightarrow> (head + contiguous) mod TCP_RXBUF = slot orig N"
  by (auto simp: rx_ok_def mod_add_left_eq)

lemma advance_law:
  assumes "rx_ok S irs orig N r ring head contiguous next"
    and "advance r head contiguous next a = (a', r', contiguous', next')"
  shows "a \<le> a' \<and> contiguous' = contiguous + (a' - a) \<and> rx_ok S irs orig (N + (a' - a)) r' ring head contiguous' next' \<and>
    got orig (N + (a' - a)) r' contiguous' = got orig N r contiguous \<and> N + (a' - a) \<notin> got orig N r contiguous"
  using assms
proof (induction r head contiguous "next" a arbitrary: N rule: advance.induct)
  case (1 r head contiguous "next" a)
  let ?t = "(head + contiguous) mod TCP_RXBUF"
  have t: "?t = slot orig N" by (rule rx_tail [OF 1(2)])
  note ok = 1(2) [unfolded rx_ok_def]
  show ?case
  proof (cases "contiguous < TCP_RXBUF \<and> bit_test r ?t")
    case False
    then have "(a', r', contiguous', next') = (a, r, contiguous, next)" using 1(3) by (subst (asm) advance.simps) (auto simp: Let_def split: if_splits)
    then show ?thesis using 1(2) False ok t by (auto simp: got_def)
  next
    case True
    then have step: "advance (bit_clear r ?t) head (contiguous + 1) (next + 1) (a + 1) = (a', r', contiguous', next')"
      using 1(3) by (subst (asm) advance.simps) (auto simp: Let_def)
    let ?r = "bit_clear r (slot orig N)"
    have sl: "slot orig k = slot orig N \<longleftrightarrow> k = N" if "N - contiguous \<le> k" "k < N - contiguous + TCP_RXBUF" for k
      by (rule slot_eq [OF that]) (use True ok in auto)
    have bt: "bit_test ?r (slot orig k) \<longleftrightarrow> k \<noteq> N \<and> bit_test r (slot orig k)" if "N - contiguous \<le> k" "k < N - contiguous + TCP_RXBUF" for k
      using ok sl [OF that] by auto
    have ok': "rx_ok S irs orig (N + 1) ?r ring head (contiguous + 1) (next + 1)"
      using ok True t bt unfolding rx_ok_def by (auto simp: less_Suc_eq)
    have g: "got orig (N + 1) ?r (contiguous + 1) = got orig N r contiguous"
    proof (rule set_eqI)
      fix k
      have b: "bit_test r (slot orig N)" "contiguous \<le> N" "contiguous < TCP_RXBUF" using True ok unfolding t by simp_all
      show "k \<in> got orig (N + 1) ?r (contiguous + 1) \<longleftrightarrow> k \<in> got orig N r contiguous"
      proof (cases "N < k \<and> k < N - contiguous + TCP_RXBUF")
        case True
        then have "N - contiguous \<le> k" by linarith
        then show ?thesis using bt [of k] True by (simp add: got_def)
      next
        case False
        then show ?thesis using b by (cases "k = N") (auto simp: got_def)
      qed
    qed
    have c: "contiguous < TCP_RXBUF" "\<not> \<not> bit_test r ?t" using True by simp_all
    note IH = 1(1) [OF c(1) refl c(2) ok' [folded t] step]
    have le: "a + 1 \<le> a'" using IH by (rule conjunct1)
    then have N: "N + 1 + (a' - (a + 1)) = N + (a' - a)" and c': "contiguous + 1 + (a' - (a + 1)) = contiguous + (a' - a)" and "a \<le> a'"
      by simp_all
    show ?thesis using IH [unfolded N c' g [folded t]] \<open>a \<le> a'\<close> by blast
  qed
qed


lemma store_law:
  assumes ok: "rx_ok S irs orig N r ring head contiguous next" and q: "N \<le> q" "q \<le> e" "e \<le> N - contiguous + TCP_RXBUF"
    and base: "base mod TCP_RXBUF = slot orig q" and st: "store_run r ring base (map S [q ..< e]) = (r', ring')"
  shows "rx_ok S irs orig N r' ring' head contiguous next \<and> got orig N r' contiguous = got orig N r contiguous \<union> {q ..< e}"
proof -
  note o = ok [unfolded rx_ok_def]
  have "bits_ok r" "length ring = TCP_RXBUF" "N - contiguous \<le> q" "q + length (map S [q ..< e]) \<le> N - contiguous + TCP_RXBUF"
    using o q by auto
  note L = store_run_law [OF this(1,2) base this(3,4) st]
  have B: "bit_test r' (slot orig k) \<longleftrightarrow> bit_test r (slot orig k) \<or> q \<le> k \<and> k < e"
    and R: "ring' ! slot orig k = (if q \<le> k \<and> k < e \<and> \<not> bit_test r (slot orig k) then S k else ring ! slot orig k)"
    if "N - contiguous \<le> k" "k < N - contiguous + TCP_RXBUF" for k
    using L that q by auto
  have "rx_ok S irs orig N r' ring' head contiguous next" unfolding rx_ok_def
  proof (intro conjI allI impI)
    show "bits_ok r'" "length ring' = TCP_RXBUF" using L by simp_all
    show "head < TCP_RXBUF" "contiguous \<le> TCP_RXBUF" "contiguous \<le> N" "next = irs + of_nat N" "head = slot orig (N - contiguous)"
      using o by simp_all
  next
    fix k assume k: "N - contiguous \<le> k \<and> k < N"
    then have "k < N - contiguous + TCP_RXBUF" using o by linarith
    then show "ring' ! slot orig k = S k" "\<not> bit_test r' (slot orig k)" using k B [of k] R [of k] o q(1) by auto
  next
    fix k assume k: "N \<le> k \<and> k < N - contiguous + TCP_RXBUF \<and> bit_test r' (slot orig k)"
    then show "ring' ! slot orig k = S k" using B [of k] R [of k] o by auto
  qed
  moreover have "got orig N r' contiguous = got orig N r contiguous \<union> {q ..< e}"
  proof (rule set_eqI)
    fix k
    show "k \<in> got orig N r' contiguous \<longleftrightarrow> k \<in> got orig N r contiguous \<union> {q ..< e}"
    proof (cases "N \<le> k \<and> k < N - contiguous + TCP_RXBUF")
      case True
      then have "N - contiguous \<le> k" by linarith
      then show ?thesis using B [of k] True by (auto simp: got_def)
    qed (use q in \<open>auto simp: got_def\<close>)
  qed
  ultimately show ?thesis by simp
qed

definition rx_inv :: "(nat \<Rightarrow> byte) \<Rightarrow> u32 \<Rightarrow> nat \<Rightarrow> nat \<Rightarrow> tcp_reassembly \<Rightarrow> byte list \<Rightarrow> nat \<Rightarrow> nat \<Rightarrow> u32 \<Rightarrow> bool" where
  "rx_inv S irs orig N r ring head contiguous next \<longleftrightarrow>
     rx_ok S irs orig N r ring head contiguous next \<and> N \<notin> got orig N r contiguous"

lemma seq_delta:
  assumes "q < N + 2 ^ 31" "N \<le> q + 2 ^ 31"
  shows "sint (irs + of_nat q - (irs + of_nat N) :: u32) = int q - int N"
proof -
  have "irs + of_nat q - (irs + of_nat N) = (of_int (int q - int N) :: u32)" by simp
  moreover have "sint (of_int (int q - int N) :: u32) = int q - int N" using assms
    by (simp only: signed_of_int of_int_eq_id id_apply) (rule signed_take_bit_int_eq_self, simp_all)
  ultimately show ?thesis by simp
qed

lemma take_stream: "take m (map S [q ..< n]) = map S [q ..< min n (q + m)]"
  by (cases "q + m \<le> n") (auto simp: take_map take_upt min_def)

text \<open>What \<^verbatim>\<open>tcp_reassembly_accept\<close> does with a segment of the stream: it stores the part inside the window.\<close>

lemma accept_eq:
  assumes ok: "rx_ok S irs orig N r ring head contiguous next"
    and q: "q < N + 2 ^ 31" "N \<le> q + 2 ^ 31" and len: "n < 2 ^ 31"
  defines "q' \<equiv> max q N" and "e \<equiv> min (q + n) (N - contiguous + TCP_RXBUF)"
  shows "tcp_reassembly_accept r ring head contiguous next (irs + of_nat q) (map S [q ..< q + n]) =
    (if q' < e then
       case store_run r ring ((head + contiguous) mod TCP_RXBUF + (q' - N)) (map S [q' ..< e]) of (r1, ring1) \<Rightarrow>
       case advance r1 head contiguous next 0 of (a, r', contiguous', next') \<Rightarrow> (a, r', ring1, contiguous', next')
     else (0, r, ring, contiguous, next))"
proof -
  note o = ok [unfolded rx_ok_def]
  have delta: "sint (irs + of_nat q - next) = int q - int N" using seq_delta [OF q] o by simp
  have g: "\<not> head \<ge> TCP_RXBUF" "\<not> contiguous > TCP_RXBUF" and c: "contiguous \<le> N" using o by auto
  have w: "N - contiguous + TCP_RXBUF = N + (TCP_RXBUF - contiguous)" using g c by simp
  show ?thesis
  proof (cases "q < N")
    case True
    have "next - (irs + of_nat q) = of_nat (N - q)" using o True by simp
    moreover have "N - q < 2 ^ 32" using q by simp
    ultimately have u: "unat (next - (irs + of_nat q)) = N - q" by (simp add: unsigned_of_nat take_bit_nat_eq_self)
    have d: "of_nat n \<le> next - (irs + of_nat q) \<longleftrightarrow> q + n \<le> N"
      using len True by (auto simp: word_le_nat_alt u unsigned_of_nat take_bit_nat_eq_self)
    have t: "take (min (q + n - N) (TCP_RXBUF - contiguous)) (map S [N ..< q + n]) = map S [N ..< e]" if "N < q + n"
      using that by (simp add: take_stream e_def w min_def)
    have neg: "int q - int N < 0" "q' = N" using True by (simp_all add: q'_def)
    show ?thesis
    proof (cases "N < q + n \<and> contiguous < TCP_RXBUF")
      case True
      then have "N < e" unfolding e_def w min_less_iff_conj by linarith
      moreover have "n \<noteq> 0" "N + n - q \<noteq> 0" "\<not> TCP_RXBUF - contiguous \<le> 0" "\<not> q + n \<le> N" using True \<open>q < N\<close> by simp_all
      ultimately show ?thesis using g t True \<open>q < N\<close> by (simp add: tcp_reassembly_accept_def Let_def delta u d neg drop_map drop_upt)
    next
      case False
      then have "\<not> N < e" by (auto simp: e_def w)
      then show ?thesis using False g by (auto simp: tcp_reassembly_accept_def Let_def delta d neg)
    qed
  next
    case False
    have t: "take (min n m) (map S [q ..< q + n]) = map S [q ..< e]" if "q - N < TCP_RXBUF - contiguous" "m = TCP_RXBUF - contiguous - (q - N)" for m
      using that False by (auto simp add: take_stream e_def w min_def add.commute)
    have d: "\<not> int q - int N < 0" "nat (int q - int N) = q - N" using False by simp_all
    have q'': "q' = q" using False by (simp add: q'_def)
    show ?thesis
    proof (cases "0 < n \<and> q - N < TCP_RXBUF - contiguous")
      case True
      then have "q < e" using False by (auto simp: e_def w)
      then show ?thesis using True g t \<open>\<not> q < N\<close> by (simp add: tcp_reassembly_accept_def Let_def delta d q'')
    next
      case False
      then have "\<not> q < e" using \<open>\<not> q < N\<close> by (auto simp: e_def w)
      then show ?thesis using False g by (auto simp: tcp_reassembly_accept_def Let_def delta d q'')
    qed
  qed
qed

lemma accept_law:
  assumes inv: "rx_inv S irs orig N r ring head contiguous next"
    and q: "q < N + 2 ^ 31" "N \<le> q + 2 ^ 31" and len: "n < 2 ^ 31"
    and acc: "tcp_reassembly_accept r ring head contiguous next (irs + of_nat q) (map S [q ..< q + n]) = (a, r', ring', contiguous', next')"
  shows "contiguous' = contiguous + a \<and> rx_inv S irs orig (N + a) r' ring' head contiguous' next' \<and>
    got orig (N + a) r' contiguous' = got orig N r contiguous \<union> ({q ..< q + n} \<inter> {..< N - contiguous + TCP_RXBUF})"
proof -
  have ok: "rx_ok S irs orig N r ring head contiguous next" and N: "N \<notin> got orig N r contiguous" using inv by (simp_all add: rx_inv_def)
  have low: "{..< N} \<subseteq> got orig N r contiguous" by (auto simp: got_def)
  define e where "e = min (q + n) (N - contiguous + TCP_RXBUF)"
  define q' where "q' = max q N"
  note eq = accept_eq [OF ok q len, folded e_def q'_def]
  show ?thesis
  proof (cases "q' < e")
    case False
    then have "(a, r', ring', contiguous', next') = (0, r, ring, contiguous, next)" using eq acc by simp
    moreover have "{q ..< q + n} \<inter> {..< N - contiguous + TCP_RXBUF} \<subseteq> {..< N}" using False by (auto simp: e_def q'_def)
    ultimately show ?thesis using inv low by auto
  next
    case True
    obtain r1 where st: "store_run r ring ((head + contiguous) mod TCP_RXBUF + (q' - N)) (map S [q' ..< e]) = (r1, ring')"
      and adv: "advance r1 head contiguous next 0 = (a, r', contiguous', next')" using eq acc True by (auto split: prod.splits)
    have q': "N \<le> q'" "q' \<le> e" "e \<le> N - contiguous + TCP_RXBUF" using True by (simp_all add: q'_def e_def)
    have base: "((head + contiguous) mod TCP_RXBUF + (q' - N)) mod TCP_RXBUF = slot orig q'"
      unfolding rx_tail [OF ok] using q'(1) by (simp only: mod_add_left_eq) simp
    note L = store_law [OF ok q' base st]
    note A = advance_law [OF conjunct1 [OF L] adv]
    have "{q ..< q + n} \<inter> {..< N - contiguous + TCP_RXBUF} \<union> {..<N} = {q' ..< e} \<union> {..<N}" using True by (auto simp: q'_def e_def)
    then have "got orig N r contiguous \<union> ({q ..< q + n} \<inter> {..< N - contiguous + TCP_RXBUF}) = got orig N r contiguous \<union> {q' ..< e}"
      using low by blast
    then show ?thesis using A L unfolding rx_inv_def minus_nat.diff_0 by (elim conjE) simp
  qed
qed


section \<open>Reading, resetting and discarding\<close>

lemma rx_start: "bits_ok r \<Longrightarrow> length ring = TCP_RXBUF \<Longrightarrow> head < TCP_RXBUF \<Longrightarrow> rx_inv S irs head 0 (tcp_reassembly_reset r) ring head 0 irs"
  by (simp add: rx_inv_def rx_ok_def got_def)

lemma got_start: "bits_ok r \<Longrightarrow> got orig 0 (tcp_reassembly_reset r) 0 = {}"
  by (simp add: got_def)

text \<open>The application takes the oldest bytes of the ring.\<close>

lemma consume_law:
  assumes inv: "rx_inv S irs orig N r ring head contiguous next" and m: "m \<le> contiguous"
  shows "rx_inv S irs orig N r ring ((head + m) mod TCP_RXBUF) (contiguous - m) next \<and>
    got orig N r (contiguous - m) = got orig N r contiguous \<and>
    map (\<lambda>i. ring ! ((head + i) mod TCP_RXBUF)) [0 ..< m] = map S [N - contiguous ..< N - contiguous + m]"
proof -
  note o = inv [unfolded rx_inv_def rx_ok_def]
  have h: "(head + i) mod TCP_RXBUF = slot orig (N - contiguous + i)" for i using o by (simp add: mod_add_left_eq add.assoc)
  have c: "N - (contiguous - m) = N - contiguous + m" using o m by simp
  have wrap: "\<not> bit_test r (slot orig k)" if "N - contiguous + TCP_RXBUF \<le> k" "k < N - contiguous + m + TCP_RXBUF" for k
  proof -
    have "N - contiguous \<le> k - TCP_RXBUF \<and> k - TCP_RXBUF < N" using that o m by linarith
    then have "\<not> bit_test r (slot orig (k - TCP_RXBUF))" using o by blast
    moreover have "orig + k = orig + (k - TCP_RXBUF) + TCP_RXBUF" using that by simp
    then have "slot orig k = slot orig (k - TCP_RXBUF)" by (simp only: mod_add_self2)
    ultimately show ?thesis by simp
  qed
  have G: "got orig N r (contiguous - m) = got orig N r contiguous"
    unfolding got_def c using wrap by (auto simp: not_less [symmetric])
  have "rx_ok S irs orig N r ring ((head + m) mod TCP_RXBUF) (contiguous - m) next" unfolding rx_ok_def c h
  proof (intro conjI allI impI)
    fix k assume k: "N \<le> k \<and> k < N - contiguous + m + TCP_RXBUF \<and> bit_test r (slot orig k)"
    then have "k < N - contiguous + TCP_RXBUF" using wrap [of k] by linarith
    then show "ring ! slot orig k = S k" using o k by blast
  qed (use o m in auto)
  moreover have "map (\<lambda>i. ring ! ((head + i) mod TCP_RXBUF)) [0 ..< m] = map S [N - contiguous ..< N - contiguous + m]"
  proof -
    have "ring ! slot orig (N - contiguous + i) = S (N - contiguous + i)" if "i < m" for i
    proof -
      have "N - contiguous \<le> N - contiguous + i \<and> N - contiguous + i < N" using that o m by linarith
      then show ?thesis using o by blast
    qed
    then show ?thesis unfolding h by (intro nth_equalityI) simp_all
  qed
  ultimately show ?thesis using o unfolding rx_inv_def G by blast
qed

lemma clear_fold:
  "bits_ok r \<Longrightarrow> bits_ok (fold (\<lambda>off r. bit_clear r (f off mod TCP_RXBUF)) xs r) \<and>
   (bit_test (fold (\<lambda>off r. bit_clear r (f off mod TCP_RXBUF)) xs r) p \<longleftrightarrow> bit_test r p \<and> (\<forall>off \<in> set xs. f off mod TCP_RXBUF \<noteq> p))"
  by (induction xs arbitrary: r) auto

lemma discard_law:
  assumes inv: "rx_inv S irs orig N r ring head contiguous next" and q: "N \<le> q" "q < N + 2 ^ 31"
  defines "r' \<equiv> tcp_reassembly_discard_from r head contiguous next (irs + of_nat q)"
  shows "rx_inv S irs orig N r' ring head contiguous next \<and> got orig N r' contiguous = got orig N r contiguous \<inter> {..< q}"
proof -
  note o = inv [unfolded rx_inv_def]
  note k = conjunct1 [OF o, unfolded rx_ok_def]
  have delta: "sint (irs + of_nat q - next) = int q - int N" using seq_delta [of q N irs] q k by simp
  have w: "N - contiguous + TCP_RXBUF = N + (TCP_RXBUF - contiguous)" using k by simp
  show ?thesis
  proof (cases "q - N < TCP_RXBUF - contiguous")
    case False
    then have "r' = r" using delta q(1) by (auto simp: r'_def tcp_reassembly_discard_from_def Let_def)
    moreover have "got orig N r contiguous \<subseteq> {..< q}" using False q w by (auto simp: got_def)
    ultimately show ?thesis using inv by auto
  next
    case True
    define xs where "xs = [q - N ..< TCP_RXBUF - contiguous]"
    have r': "r' = fold (\<lambda>off r. bit_clear r ((slot orig N + off) mod TCP_RXBUF)) xs r"
    proof -
      have "\<not> int q - int N < 0" "\<not> int (TCP_RXBUF - contiguous) \<le> int q - int N" "nat (int q - int N) = q - N" "\<not> TCP_RXBUF \<le> head" "\<not> TCP_RXBUF < contiguous"
        using True q(1) k by linarith+
      then show ?thesis unfolding r'_def tcp_reassembly_discard_from_def Let_def delta xs_def rx_tail [OF conjunct1 [OF o], symmetric] by (simp only: if_False disj_not1 simp_thms)
    qed
    have B: "bits_ok r'" and T: "bit_test r' p \<longleftrightarrow> bit_test r p \<and> (\<forall>off \<in> set xs. (slot orig N + off) mod TCP_RXBUF \<noteq> p)" for p
      unfolding r' using clear_fold [of r "\<lambda>off. slot orig N + off" xs] k by auto
    have S: "(slot orig N + off) mod TCP_RXBUF = slot orig (N + off)" for off by (simp add: mod_add_left_eq add.assoc)
    have E: "bit_test r' (slot orig j) \<longleftrightarrow> bit_test r (slot orig j) \<and> j < q" if "N - contiguous \<le> j" "j < N - contiguous + TCP_RXBUF" for j
    proof -
      have "(\<forall>off \<in> set xs. slot orig (N + off) \<noteq> slot orig j) \<longleftrightarrow> j < q"
      proof
        assume a: "\<forall>off \<in> set xs. slot orig (N + off) \<noteq> slot orig j"
        show "j < q"
        proof (rule ccontr)
          assume "\<not> j < q"
          then have "j - N \<in> set xs" "N + (j - N) = j" using that q(1) unfolding xs_def w by auto
          then show False using a by metis
        qed
      next
        assume j: "j < q"
        show "\<forall>off \<in> set xs. slot orig (N + off) \<noteq> slot orig j"
        proof
          fix off assume "off \<in> set xs"
          then have f: "N - contiguous \<le> N + off" "N + off < N - contiguous + TCP_RXBUF" "N + off \<noteq> j" using j q(1) unfolding xs_def w by auto
          then show "slot orig (N + off) \<noteq> slot orig j" using slot_eq [OF f(1,2) that] by simp
        qed
      qed
      then show ?thesis unfolding T S by simp
    qed
    have "rx_ok S irs orig N r' ring head contiguous next" unfolding rx_ok_def
    proof (intro conjI allI impI)
      fix j assume j: "N - contiguous \<le> j \<and> j < N"
      then have "j < N - contiguous + TCP_RXBUF" using k by linarith
      then show "ring ! slot orig j = S j" "\<not> bit_test r' (slot orig j)" using j k E [of j] by auto
    next
      fix j assume j: "N \<le> j \<and> j < N - contiguous + TCP_RXBUF \<and> bit_test r' (slot orig j)"
      then have "N - contiguous \<le> j" by linarith
      then show "ring ! slot orig j = S j" using j k E [of j] by auto
    qed (use k B in auto)
    moreover have "got orig N r' contiguous = got orig N r contiguous \<inter> {..< q}"
    proof (rule set_eqI)
      fix j
      show "j \<in> got orig N r' contiguous \<longleftrightarrow> j \<in> got orig N r contiguous \<inter> {..< q}"
      proof (cases "N \<le> j \<and> j < N - contiguous + TCP_RXBUF")
        case True
        then have "N - contiguous \<le> j" by linarith
        then show ?thesis using E [of j] True by (auto simp: got_def)
      qed (use q in \<open>auto simp: got_def\<close>)
    qed
    ultimately show ?thesis using o unfolding rx_inv_def by blast
  qed
qed

section \<open>Selective acknowledgements\<close>

lemma scan_bits_law:
  "off \<le> scan_bits b r tail window off \<and> scan_bits b r tail window off \<le> max off window \<and>
   (\<forall>k. off \<le> k \<and> k < scan_bits b r tail window off \<longrightarrow> bit_test r ((tail + k) mod TCP_RXBUF) \<noteq> b) \<and>
   (scan_bits b r tail window off < window \<longrightarrow> bit_test r ((tail + scan_bits b r tail window off) mod TCP_RXBUF) = b)"
proof (induction b r tail window off rule: scan_bits.induct)
  case (1 b r tail window off)
  show ?case
  proof (cases "off < window \<and> bit_test r ((tail + off) mod TCP_RXBUF) \<noteq> b")
    case True
    then have e: "scan_bits b r tail window off = scan_bits b r tail window (off + 1)" by (subst scan_bits.simps) simp
    have "k = off \<or> off + 1 \<le> k" if "off \<le> k" for k using that by linarith
    then show ?thesis using 1 [OF True] True unfolding e by (auto simp: max_def)
  next
    case False
    then have "scan_bits b r tail window off = off" by (subst scan_bits.simps) auto
    then show ?thesis using False by auto
  qed
qed

text \<open>The maximal runs of present slots in a stretch of offsets, as pairs of first and end offset.\<close>

definition runs_ok :: "(nat \<Rightarrow> bool) \<Rightarrow> nat \<Rightarrow> nat \<Rightarrow> nat \<Rightarrow> (nat \<times> nat) list \<Rightarrow> bool" where
  "runs_ok G off window limit fs \<longleftrightarrow> length fs \<le> limit \<and> sorted_wrt (\<lambda>(f, e) (f', e'). e < f') fs \<and>
     (\<forall>(f, e) \<in> set fs. off \<le> f \<and> f < e \<and> e \<le> window \<and> (\<forall>k. f \<le> k \<and> k < e \<longrightarrow> G k) \<and> (e < window \<longrightarrow> \<not> G e) \<and>
        (off < f \<longrightarrow> \<not> G (f - 1))) \<and>
     (length fs < limit \<longrightarrow> (\<forall>k. off \<le> k \<and> k < window \<and> G k \<longrightarrow> (\<exists>(f, e) \<in> set fs. f \<le> k \<and> k < e)))"

lemma runs_ok_Cons:
  assumes "off \<le> f" "f < e" "e \<le> window" "\<And>k. off \<le> k \<Longrightarrow> k < f \<Longrightarrow> \<not> G k" "\<And>k. f \<le> k \<Longrightarrow> k < e \<Longrightarrow> G k" "e < window \<Longrightarrow> \<not> G e"
    and rest: "runs_ok G e window limit fs"
  shows "runs_ok G off window (Suc limit) ((f, e) # fs)"
proof -
  have A: "e < f'" "off < f'" "\<not> G (f' - 1)" if "(f', e') \<in> set fs" for f' e'
  proof -
    have R: "e \<le> f' \<and> f' < e' \<and> e' \<le> window \<and> (\<forall>k. f' \<le> k \<and> k < e' \<longrightarrow> G k) \<and> (e < f' \<longrightarrow> \<not> G (f' - 1))"
      using rest that unfolding runs_ok_def by fast
    then have "f' \<noteq> e" using assms(6) by (metis less_le_trans order_refl)
    then show "e < f'" "off < f'" "\<not> G (f' - 1)" using R assms(1,2) by linarith+
  qed
  have B: "e \<le> f'" "f' < e'" "e' \<le> window" "f' \<le> k \<Longrightarrow> k < e' \<Longrightarrow> G k" "e' < window \<Longrightarrow> \<not> G e'" if "(f', e') \<in> set fs" for f' e' k
    using rest that unfolding runs_ok_def by fast+
  have C: "\<exists>(f', e') \<in> set ((f, e) # fs). f' \<le> k \<and> k < e'" if "length fs < limit" "off \<le> k" "k < window" "G k" for k
  proof (cases "e \<le> k")
    case True
    then have "\<exists>(f', e') \<in> set fs. f' \<le> k \<and> k < e'" using rest that unfolding runs_ok_def by blast
    then show ?thesis by auto
  next
    case False
    then show ?thesis using assms(4) [of k] that by force
  qed
  show ?thesis unfolding runs_ok_def
  proof (intro conjI)
    show "length ((f, e) # fs) \<le> Suc limit" "sorted_wrt (\<lambda>(f, e) (f', e'). e < f') ((f, e) # fs)"
      using rest A unfolding runs_ok_def by auto
    show "length ((f, e) # fs) < Suc limit \<longrightarrow> (\<forall>k. off \<le> k \<and> k < window \<and> G k \<longrightarrow> (\<exists>(f', e') \<in> set ((f, e) # fs). f' \<le> k \<and> k < e'))"
      using C by auto
    show "\<forall>(f', e') \<in> set ((f, e) # fs). off \<le> f' \<and> f' < e' \<and> e' \<le> window \<and> (\<forall>k. f' \<le> k \<and> k < e' \<longrightarrow> G k) \<and>
        (e' < window \<longrightarrow> \<not> G e') \<and> (off < f' \<longrightarrow> \<not> G (f' - 1))"
      using assms(1-6) A B by fastforce
  qed
qed

lemma sack_scan_law:
  "\<exists>fs. sack_scan r tail window next max_blocks off count =
      map (\<lambda>(f, e). \<lparr>sb_left = next + of_nat f, sb_right = next + of_nat e\<rparr>) fs \<and>
    runs_ok (\<lambda>k. bit_test r ((tail + k) mod TCP_RXBUF)) off window (max_blocks - count) fs"
proof (induction r tail window "next" max_blocks off count rule: sack_scan.induct)
  case (1 r tail window "next" max_blocks off count)
  define G where "G = (\<lambda>k. bit_test r ((tail + k) mod TCP_RXBUF))"
  define f where "f = scan_bits True r tail window off"
  define e where "e = scan_bits False r tail window f"
  show ?case
  proof (cases "off < window \<and> count < max_blocks \<and> \<not> f \<ge> window")
    case True
    then have c: "off < window \<and> count < max_blocks" "\<not> f \<ge> window" by simp_all
    from 1 [OF c(1) f_def c(2) e_def] obtain fs where
      fs: "sack_scan r tail window next max_blocks e (count + 1) = map (\<lambda>(f, e). \<lparr>sb_left = next + of_nat f, sb_right = next + of_nat e\<rparr>) fs"
        "runs_ok G e window (max_blocks - (count + 1)) fs" unfolding G_def by blast
    have F: "off \<le> f" "\<And>k. off \<le> k \<Longrightarrow> k < f \<Longrightarrow> \<not> G k" "G f"
      using scan_bits_law [of off True r tail window] c(2) unfolding f_def G_def by auto
    have E: "f \<le> e" "e \<le> window" "\<And>k. f \<le> k \<Longrightarrow> k < e \<Longrightarrow> G k" "e < window \<Longrightarrow> \<not> G e"
      using scan_bits_law [of f False r tail window] c(2) unfolding e_def G_def by auto
    have "f < e" using F(3) E c(2) by (metis le_neq_implies_less not_le)
    then have "runs_ok G off window (Suc (max_blocks - (count + 1))) ((f, e) # fs)" using F E fs(2) by (intro runs_ok_Cons) auto
    moreover have "Suc (max_blocks - (count + 1)) = max_blocks - count" using c(1) by linarith
    moreover have "sack_scan r tail window next max_blocks off count =
        map (\<lambda>(f, e). \<lparr>sb_left = next + of_nat f, sb_right = next + of_nat e\<rparr>) ((f, e) # fs)"
      using c fs(1) by (subst sack_scan.simps) (simp add: Let_def f_def [symmetric] e_def [symmetric])
    ultimately show ?thesis unfolding G_def by metis
  next
    case False
    then have nil: "sack_scan r tail window next max_blocks off count = []" by (subst sack_scan.simps) (auto simp: Let_def f_def)
    have "\<not> (off \<le> k \<and> k < window \<and> G k)" if "count < max_blocks" for k
      using False that scan_bits_law [of off True r tail window] unfolding f_def G_def by auto
    then have "runs_ok G off window (max_blocks - count) []" by (auto simp: runs_ok_def)
    then show ?thesis using nil unfolding G_def by (intro exI [of _ "[]"]) simp
  qed
qed


lemma rx_next: "rx_inv S irs orig N r ring head contiguous next \<Longrightarrow> next = irs + of_nat N"
  unfolding rx_inv_def rx_ok_def by blast

lemma sack_window:
  assumes inv: "rx_inv S irs orig N r ring head contiguous next" and k: "k < TCP_RXBUF - contiguous"
  shows "bit_test r (((head + contiguous) mod TCP_RXBUF + k) mod TCP_RXBUF) \<longleftrightarrow> N + k \<in> got orig N r contiguous"
proof -
  have ok: "rx_ok S irs orig N r ring head contiguous next" using inv by (simp add: rx_inv_def)
  then have c: "contiguous \<le> N" by (simp add: rx_ok_def)
  have e: "((head + contiguous) mod TCP_RXBUF + k) mod TCP_RXBUF = slot orig (N + k)" unfolding rx_tail [OF ok] by (simp add: mod_add_left_eq add.assoc)
  have "\<not> N + k < N" "N + k < N - contiguous + TCP_RXBUF" using k c by linarith+
  then show ?thesis unfolding e got_def mem_Collect_eq by blast
qed

text \<open>
  C4. Reassembly is exact.  Let the ring hold part of the peer's byte stream, with \<open>N\<close> bytes contiguous.
  Whatever piece of the stream a segment carries, early, late, repeated or overlapping what is already
  there, as long as it lies within half the sequence space of the expected byte, \<^verbatim>\<open>tcp_reassembly_accept\<close>
  keeps the ring faithful to the stream; the bytes held afterwards are those held before and those of
  the segment that fit the window, nothing else; and the contiguous part grows exactly to the first
  byte still missing, by the number the function returns.
\<close>

theorem reassembly_accept:
  assumes inv: "rx_inv S irs orig N r ring head contiguous next" and q: "q < N + 2 ^ 31" "N \<le> q + 2 ^ 31" and len: "n < 2 ^ 31"
  shows "\<exists>a r' ring'. tcp_reassembly_accept r ring head contiguous next (irs + of_nat q) (map S [q ..< q + n]) =
      (a, r', ring', contiguous + a, next + of_nat a) \<and>
    rx_inv S irs orig (N + a) r' ring' head (contiguous + a) (next + of_nat a) \<and>
    got orig (N + a) r' (contiguous + a) = got orig N r contiguous \<union> ({q ..< q + n} \<inter> {..< N - contiguous + TCP_RXBUF})"
proof -
  obtain a r' ring' c' n' where acc: "tcp_reassembly_accept r ring head contiguous next (irs + of_nat q) (map S [q ..< q + n]) = (a, r', ring', c', n')"
    by (rule prod_cases5)
  note L = accept_law [OF inv q len acc]
  have "n' = irs + of_nat (N + a)" using L rx_next by blast
  then have "n' = next + of_nat a" using rx_next [OF inv] by simp
  then show ?thesis using acc L by blast
qed

definition fresh_ring :: "byte list" where
  "fresh_ring = replicate 8192 0"

definition fresh_bits :: tcp_reassembly where
  "fresh_bits = \<lparr>present = replicate 1024 0\<rparr>"

lemma fresh_inv: "rx_inv S irs 0 0 (tcp_reassembly_reset fresh_bits) fresh_ring 0 0 irs"
  by (rule rx_start) (simp_all add: bits_ok_def fresh_bits_def fresh_ring_def)

theorem reassembly_accept_witness:
  "\<exists>a r' ring'. tcp_reassembly_accept (tcp_reassembly_reset fresh_bits) fresh_ring 0 0 0xFFFFFFFF (0xFFFFFFFF + of_nat 2) (map of_nat [2 ..< 4]) =
     (a, r', ring', a, 0xFFFFFFFF + of_nat a) \<and> got 0 a r' a = {2, 3}"
proof -
  have "got 0 0 (tcp_reassembly_reset fresh_bits) 0 = {}" by (rule got_start) (simp add: bits_ok_def fresh_bits_def)
  moreover have "{2 ..< 2 + 2} \<inter> {..< 0 - 0 + TCP_RXBUF} = {2, 3::nat}" by auto
  ultimately show ?thesis using reassembly_accept [OF fresh_inv [where S = of_nat and irs = "0xFFFFFFFF"], of 2 2] by auto
qed

text \<open>
  C39. Selective acknowledgements tell the truth.  The blocks \<^verbatim>\<open>tcp_reassembly_sack_blocks\<close> reports are, in
  ascending order and without touching each other, maximal runs of stream bytes the receiver holds
  beyond the first missing one; and when fewer blocks are reported than asked for, they cover every
  such byte.
\<close>

theorem sack_blocks_exact:
  assumes inv: "rx_inv S irs orig N r ring head contiguous next"
  shows "\<exists>fs. tcp_reassembly_sack_blocks r head contiguous next max_blocks =
      map (\<lambda>(f, e). \<lparr>sb_left = irs + of_nat f, sb_right = irs + of_nat e\<rparr>) fs \<and>
    length fs \<le> max_blocks \<and> sorted_wrt (\<lambda>(f, e) (f', e'). e < f') fs \<and>
    (\<forall>(f, e) \<in> set fs. N < f \<and> f < e \<and> {f ..< e} \<subseteq> got orig N r contiguous \<and> e \<notin> got orig N r contiguous \<and> f - 1 \<notin> got orig N r contiguous) \<and>
    (length fs < max_blocks \<longrightarrow> got orig N r contiguous - {..< N} \<subseteq> (\<Union>(f, e) \<in> set fs. {f ..< e}))"
proof -
  define G where "G = (\<lambda>k. bit_test r (((head + contiguous) mod TCP_RXBUF + k) mod TCP_RXBUF))"
  define w where "w = TCP_RXBUF - contiguous"
  note o = inv [unfolded rx_inv_def rx_ok_def]
  have nx: "next = irs + of_nat N" and h: "head < TCP_RXBUF" "contiguous \<le> TCP_RXBUF" "contiguous \<le> N" and N: "N \<notin> got orig N r contiguous"
    using o by blast+
  have W: "k \<in> got orig N r contiguous \<longleftrightarrow> k - N < w \<and> G (k - N)" if "N \<le> k" for k
  proof (cases "k - N < w")
    case True
    then show ?thesis using sack_window [OF inv, of "k - N"] that by (simp add: G_def w_def)
  next
    case False
    then have "\<not> k < N" "\<not> k < N - contiguous + TCP_RXBUF" using that h unfolding w_def by linarith+
    then show ?thesis using False by (simp add: got_def)
  qed
  obtain fs where fs: "tcp_reassembly_sack_blocks r head contiguous next max_blocks =
      map (\<lambda>(f, e). \<lparr>sb_left = next + of_nat f, sb_right = next + of_nat e\<rparr>) fs" and R: "runs_ok G 0 w max_blocks fs"
  proof -
    have "tcp_reassembly_sack_blocks r head contiguous next max_blocks = sack_scan r ((head + contiguous) mod TCP_RXBUF) w next max_blocks 0 0"
      using h by (cases "max_blocks = 0") (simp_all add: tcp_reassembly_sack_blocks_def w_def sack_scan.simps [of _ _ _ _ 0])
    then show ?thesis using that sack_scan_law [of r "(head + contiguous) mod TCP_RXBUF" w "next" max_blocks 0 0] unfolding G_def by auto
  qed
  have P: "0 < f" "f < e" "e \<le> w" "\<And>k. f \<le> k \<Longrightarrow> k < e \<Longrightarrow> G k" "e < w \<Longrightarrow> \<not> G e" "\<not> G (f - 1)" if "(f, e) \<in> set fs" for f e
  proof -
    have r: "f < e \<and> e \<le> w \<and> (\<forall>k. f \<le> k \<and> k < e \<longrightarrow> G k) \<and> (e < w \<longrightarrow> \<not> G e) \<and> (0 < f \<longrightarrow> \<not> G (f - 1))"
      using R that unfolding runs_ok_def by fast
    moreover have "f \<noteq> 0" using r W [of N] N by auto
    ultimately show "0 < f" "f < e" "e \<le> w" "\<And>k. f \<le> k \<Longrightarrow> k < e \<Longrightarrow> G k" "e < w \<Longrightarrow> \<not> G e" "\<not> G (f - 1)" by auto
  qed
  define gs where "gs = map (\<lambda>(f, e). (N + f, N + e)) fs"
  show ?thesis
  proof (intro exI [of _ gs] conjI)
    show "tcp_reassembly_sack_blocks r head contiguous next max_blocks = map (\<lambda>(f, e). \<lparr>sb_left = irs + of_nat f, sb_right = irs + of_nat e\<rparr>) gs"
      using fs by (simp add: gs_def nx add.assoc split_def comp_def)
    show "length gs \<le> max_blocks" "sorted_wrt (\<lambda>(f, e) (f', e'). e < f') gs"
      using R by (auto simp: gs_def runs_ok_def sorted_wrt_map split_def)
    show "\<forall>(f, e) \<in> set gs. N < f \<and> f < e \<and> {f ..< e} \<subseteq> got orig N r contiguous \<and> e \<notin> got orig N r contiguous \<and> f - 1 \<notin> got orig N r contiguous"
    proof (clarify)
      fix f e assume "(f, e) \<in> set gs"
      then obtain f' e' where m: "(f', e') \<in> set fs" and fe: "f = N + f'" "e = N + e'" by (auto simp: gs_def)
      note p = P [OF m]
      have "k \<in> got orig N r contiguous" if "f \<le> k" "k < e" for k using W [of k] p(4) [of "k - N"] p(3) that unfolding fe by simp
      moreover have "e \<notin> got orig N r contiguous" "f - 1 \<notin> got orig N r contiguous" using W [of e] W [of "f - 1"] p(1,5,6) unfolding fe by simp_all
      ultimately show "N < f \<and> f < e \<and> {f ..< e} \<subseteq> got orig N r contiguous \<and> e \<notin> got orig N r contiguous \<and> f - 1 \<notin> got orig N r contiguous"
        using p(1,2) unfolding fe by auto
    qed
    show "length gs < max_blocks \<longrightarrow> got orig N r contiguous - {..< N} \<subseteq> (\<Union>(f, e) \<in> set gs. {f ..< e})"
    proof (intro impI subsetI)
      fix k assume l: "length gs < max_blocks" and k: "k \<in> got orig N r contiguous - {..< N}"
      then have "N \<le> k" "k - N < w" "G (k - N)" using W [of k] by auto
      then have "\<exists>(f, e) \<in> set fs. f \<le> k - N \<and> k - N < e" using R l unfolding runs_ok_def gs_def by simp
      then obtain f e where fe: "(f, e) \<in> set fs" "f \<le> k - N" "k - N < e" by blast
      then have "(N + f, N + e) \<in> set gs" "k \<in> {N + f ..< N + e}" using \<open>N \<le> k\<close> by (force simp: gs_def)+
      then show "k \<in> (\<Union>(f, e) \<in> set gs. {f ..< e})" by blast
    qed
  qed
qed


theorem sack_blocks_exact_witness:
  "\<exists>r fs. got 0 0 r 0 = {2, 3} \<and> tcp_reassembly_sack_blocks r 0 0 7 4 =
      map (\<lambda>(f, e). \<lparr>sb_left = 7 + of_nat f, sb_right = 7 + of_nat e\<rparr>) fs \<and>
    (\<forall>(f, e) \<in> set fs. f < e \<and> {f ..< e} \<subseteq> {2, 3}) \<and> (length fs < 4 \<longrightarrow> {2, 3} \<subseteq> (\<Union>(f, e) \<in> set fs. {f ..< e}))"
proof -
  obtain a r ring c n where acc: "tcp_reassembly_accept (tcp_reassembly_reset fresh_bits) fresh_ring 0 0 7 (7 + of_nat 2) (map of_nat [2 ..< 2 + 2]) =
      (a, r, ring, c, n)" by (rule prod_cases5)
  have e: "got 0 0 (tcp_reassembly_reset fresh_bits) 0 = {}" by (rule got_start) (simp add: bits_ok_def fresh_bits_def)
  have "{2 ..< 2 + 2} \<inter> {..< 0 - 0 + TCP_RXBUF} = {2, 3::nat}" by auto
  then have L: "c = a" "rx_inv of_nat 7 0 a r ring 0 c n" "got 0 a r c = {2, 3}"
    using accept_law [OF fresh_inv _ _ _ acc] e by auto
  have "0 \<notin> got 0 a r c" unfolding L(3) by simp
  then have a: "a = 0" by (simp add: got_def)
  have inv: "rx_inv of_nat 7 0 0 r ring 0 0 n" and g: "got 0 0 r 0 = {2, 3}" using L by (simp_all add: a)
  have n: "n = 7" using rx_next [OF inv] by simp
  have d: "{2, 3} - {..< 0} = {2, 3::nat}" by simp
  from sack_blocks_exact [OF inv [unfolded n], of 4, unfolded g d] obtain fs where
    fs: "tcp_reassembly_sack_blocks r 0 0 7 4 = map (\<lambda>(f, e). \<lparr>sb_left = 7 + of_nat f, sb_right = 7 + of_nat e\<rparr>) fs"
      "\<forall>(f, e) \<in> set fs. 0 < f \<and> f < e \<and> {f ..< e} \<subseteq> {2, 3} \<and> e \<notin> {2, 3} \<and> f - 1 \<notin> {2, 3}"
      "length fs < 4 \<longrightarrow> {2, 3} \<subseteq> (\<Union>(f, e) \<in> set fs. {f ..< e})" by blast
  have "\<forall>(f, e) \<in> set fs. f < e \<and> {f ..< e} \<subseteq> {2, 3}" using fs(2) by blast
  then show ?thesis using g fs(1,3) by blast
qed

end
