(* ===== verification/Tcp.thy ===== *)
theory Tcp
  imports Net_Checksum Tcp_Reassembly
begin

unbundle bit_operations_syntax

text \<open>
  TCP connections (\<^verbatim>\<open>kernel/tcp.c\<close>), part 1: the connection table, sequence arithmetic and the interrupt
  side, which consumes received segments.  Ring positions and lengths and the retry counters, which
  are never negative, are natural numbers; the block table of the send side is the list of its used
  entries.  The tick counter at the time of a call is an argument.
\<close>

section \<open>Types\<close>

abbreviation TCP_FIN :: byte where "TCP_FIN \<equiv> 0x01"
abbreviation TCP_SYN :: byte where "TCP_SYN \<equiv> 0x02"
abbreviation TCP_RST :: byte where "TCP_RST \<equiv> 0x04"
abbreviation TCP_PSH :: byte where "TCP_PSH \<equiv> 0x08"
abbreviation TCP_ACK :: byte where "TCP_ACK \<equiv> 0x10"

abbreviation TCP_OPT_END :: byte where "TCP_OPT_END \<equiv> 0"
abbreviation TCP_OPT_NOP :: byte where "TCP_OPT_NOP \<equiv> 1"
abbreviation TCP_OPT_MSS :: byte where "TCP_OPT_MSS \<equiv> 2"
abbreviation TCP_OPT_SACK_PERMITTED :: byte where "TCP_OPT_SACK_PERMITTED \<equiv> 4"
abbreviation TCP_OPT_SACK :: byte where "TCP_OPT_SACK \<equiv> 5"

abbreviation TCP_CONNS :: nat where "TCP_CONNS \<equiv> 8"
abbreviation TCP_MSS :: nat where "TCP_MSS \<equiv> 1460"
abbreviation TCP_TXBUF :: nat where "TCP_TXBUF \<equiv> 8192"
abbreviation TCP_MAX_SACK_BLOCKS :: nat where "TCP_MAX_SACK_BLOCKS \<equiv> 4"
abbreviation TCP_RTO_MIN :: u32 where "TCP_RTO_MIN \<equiv> 50"
abbreviation TCP_RTO_MAX :: u32 where "TCP_RTO_MAX \<equiv> 800"
abbreviation TCP_MAX_TRIES :: nat where "TCP_MAX_TRIES \<equiv> 8"
abbreviation TCP_TW_TICKS :: u64 where "TCP_TW_TICKS \<equiv> 100"
abbreviation TCP_CLOSE_TICKS :: u64 where "TCP_CLOSE_TICKS \<equiv> 200"
abbreviation TCP_SEND_TICKS :: u64 where "TCP_SEND_TICKS \<equiv> 1000"
abbreviation TCP_PORT_FIRST :: u16 where "TCP_PORT_FIRST \<equiv> 49152"
abbreviation TCP_PORT_LAST :: u16 where "TCP_PORT_LAST \<equiv> 60000"
abbreviation TCP_HDR :: nat where "TCP_HDR \<equiv> 20"

datatype tcp_state = TCP_CLOSED | TCP_SYN_SENT | TCP_ESTABLISHED | TCP_FIN_WAIT_1 | TCP_FIN_WAIT_2
  | TCP_CLOSE_WAIT | TCP_LAST_ACK | TCP_TIME_WAIT

record tcp_conn =
  used :: bool
  detached :: bool
  pumping :: bool
  state :: tcp_state
  owner_pid :: int
  peer_ip :: u32
  peer_port :: u16
  local_port :: u16
  iss :: u32
  snd_una :: u32
  snd_nxt :: u32
  snd_max :: u32
  snd_wnd :: u32
  txbuf :: "byte list option"
  tx_head :: nat
  tx_len :: nat
  tx_sack :: "tcp_sack_block list"
  dup_acks :: nat
  fast_retransmit :: bool
  sack_enabled :: bool
  fin_pending :: bool
  fin_sent :: bool
  fin_seq :: u32
  irs :: u32
  rcv_nxt :: u32
  rxbuf :: "byte list option"
  rx_head :: nat
  rx_len :: nat
  reassembly :: tcp_reassembly
  peer_fin :: bool
  fin_queued :: bool
  fin_rcv_seq :: u32
  need_ack :: bool
  rto_ticks :: u32
  rto_deadline :: u64
  retries :: nat
  tw_deadline :: u64
  reset :: bool

text \<open>The header fields of a segment, by their place in \<^verbatim>\<open>struct tcp_hdr\<close>.\<close>

record tcp_hdr =
  h_sport :: u16
  h_dport :: u16
  h_seq :: u32
  h_ack :: u32
  h_off :: byte
  h_flags :: byte
  h_win :: u16
  h_csum :: u16
  h_urg :: u16

definition read_hdr :: "byte list \<Rightarrow> tcp_hdr" where
  "read_hdr seg = \<lparr>h_sport = un_le16 (get_bytes 0 2 seg), h_dport = un_le16 (get_bytes 2 2 seg),
     h_seq = un_le32 (get_bytes 4 4 seg), h_ack = un_le32 (get_bytes 8 4 seg), h_off = seg ! 12, h_flags = seg ! 13,
     h_win = un_le16 (get_bytes 14 2 seg), h_csum = un_le16 (get_bytes 16 2 seg), h_urg = un_le16 (get_bytes 18 2 seg)\<rparr>"

definition hdr_bytes :: "tcp_hdr \<Rightarrow> byte list" where
  "hdr_bytes h = le16 (h_sport h) @ le16 (h_dport h) @ le32 (h_seq h) @ le32 (h_ack h) @ [h_off h, h_flags h] @
     le16 (h_win h) @ le16 (h_csum h) @ le16 (h_urg h)"

section \<open>Sequence arithmetic\<close>

definition seq_lt :: "u32 \<Rightarrow> u32 \<Rightarrow> bool" where
  "seq_lt a b \<longleftrightarrow> sint (a - b) < 0"

definition seq_leq :: "u32 \<Rightarrow> u32 \<Rightarrow> bool" where
  "seq_leq a b \<longleftrightarrow> sint (a - b) \<le> 0"

section \<open>Helpers\<close>

definition rcv_window :: "tcp_conn \<Rightarrow> u16" where
  "rcv_window c = of_nat (min (TCP_RXBUF - rx_len c) 65535)"

definition conn_release_locked :: "tcp_conn \<Rightarrow> tcp_conn" where
  "conn_release_locked c = c\<lparr>used := False, detached := False, state := TCP_CLOSED, owner_pid := 0, peer_ip := 0, peer_port := 0,
     local_port := 0, tx_head := 0, tx_len := 0, tx_sack := [], dup_acks := 0, fast_retransmit := False, sack_enabled := False,
     rx_head := 0, rx_len := 0, fin_pending := False, fin_sent := False, peer_fin := False, fin_queued := False, need_ack := False,
     reset := False, rto_deadline := 0, retries := 0\<rparr>"

definition conn_release :: "tcp_conn \<Rightarrow> tcp_conn" where
  "conn_release c = (if pumping c then c\<lparr>detached := True, state := TCP_CLOSED\<rparr> else conn_release_locked c)"

definition port_in_use :: "tcp_conn list \<Rightarrow> u16 \<Rightarrow> bool" where
  "port_in_use conns p \<longleftrightarrow> (\<exists>c \<in> set conns. used c \<and> local_port c = p)"

text \<open>The loop of \<^verbatim>\<open>port_alloc\<close>; its first argument counts the tries that are left.\<close>

fun port_search :: "nat \<Rightarrow> tcp_conn list \<Rightarrow> u16 \<Rightarrow> u16 \<times> u16" where
  "port_search 0 conns port_next = (0, port_next)"
| "port_search (Suc tries) conns port_next =
     (let p = port_next; port_next = (if port_next + 1 > TCP_PORT_LAST then TCP_PORT_FIRST else port_next + 1)
      in if \<not> port_in_use conns p then (p, port_next) else port_search tries conns port_next)"

definition port_alloc :: "tcp_conn list \<Rightarrow> u16 \<Rightarrow> u16 \<times> u16" where
  "port_alloc conns port_next = port_search (unat (TCP_PORT_LAST - TCP_PORT_FIRST)) conns port_next"

text \<open>The index of the first matching slot.\<close>

fun find_index :: "('a \<Rightarrow> bool) \<Rightarrow> nat \<Rightarrow> 'a list \<Rightarrow> nat option" where
  "find_index P i [] = None"
| "find_index P i (x # xs) = (if P x then Some i else find_index P (i + 1) xs)"

definition conn_lookup :: "tcp_conn list \<Rightarrow> u32 \<Rightarrow> u16 \<Rightarrow> u16 \<Rightarrow> nat option" where
  "conn_lookup conns src_ip sport dport = find_index (\<lambda>c. used c \<and> state c \<noteq> TCP_CLOSED \<and> peer_ip c = src_ip \<and> peer_port c = sport \<and>
     local_port c = dport) 0 conns"

text \<open>\<^verbatim>\<open>current\<close> is the process id of the calling task, if there is one.\<close>

definition conn_get :: "tcp_conn list \<Rightarrow> int option \<Rightarrow> int \<Rightarrow> nat option" where
  "conn_get conns current handle =
     (if handle < 0 \<or> handle \<ge> int TCP_CONNS then None
      else let c = conns ! nat handle in
      if \<not> used c \<or> detached c then None
      else if owner_pid c > 0 \<and> (case current of None \<Rightarrow> False | Some pid \<Rightarrow> pid \<noteq> owner_pid c) then None
      else Some (nat handle))"

section \<open>The interrupt side\<close>

fun sack_prune :: "u32 \<Rightarrow> tcp_sack_block list \<Rightarrow> tcp_sack_block list" where
  "sack_prune ack [] = []"
| "sack_prune ack (b # bs) = (if seq_leq (sb_right b) ack then sack_prune ack bs
     else (if seq_lt (sb_left b) ack then b\<lparr>sb_left := ack\<rparr> else b) # sack_prune ack bs)"

definition process_ack :: "u64 \<Rightarrow> tcp_conn \<Rightarrow> u32 \<Rightarrow> u16 \<Rightarrow> tcp_conn" where
  "process_ack now c ack win =
     (let c = c\<lparr>snd_wnd := ucast win\<rparr> in
      if seq_leq ack (snd_una c) \<or> seq_lt (snd_max c) ack then c
      else let acked = ack - snd_una c;
               fin_acked = (fin_sent c \<and> seq_lt (fin_seq c) ack);
               dacked = (if fin_acked \<and> acked > 0 then acked - 1 else acked);
               dacked = (if dacked > of_nat (tx_len c) then of_nat (tx_len c) else dacked);
               c = c\<lparr>tx_head := (tx_head c + unat dacked) mod TCP_TXBUF, tx_len := tx_len c - unat dacked, snd_una := ack,
                  snd_nxt := (if seq_lt (snd_nxt c) ack then ack else snd_nxt c), tx_sack := sack_prune ack (tx_sack c), dup_acks := 0,
                  fast_retransmit := False, retries := 0, rto_ticks := TCP_RTO_MIN\<rparr>;
               c = c\<lparr>rto_deadline := (if snd_una c \<noteq> snd_max c then now + ucast (rto_ticks c) else 0)\<rparr>
           in if fin_acked then
                let c = c\<lparr>fin_pending := False,
                      state := (if state c = TCP_FIN_WAIT_1 then (if peer_fin c then TCP_TIME_WAIT else TCP_FIN_WAIT_2)
                                else if state c = TCP_LAST_ACK then TCP_CLOSED else state c)\<rparr>
                in if state c = TCP_TIME_WAIT then c\<lparr>tw_deadline := now + TCP_TW_TICKS\<rparr> else c
              else c)"

text \<open>The blocks of one SACK option, from offset \<open>p\<close> to \<open>stop\<close>; the last argument is the room left.\<close>

fun read_blocks :: "byte list \<Rightarrow> nat \<Rightarrow> nat \<Rightarrow> nat \<Rightarrow> tcp_sack_block list" where
  "read_blocks seg p stop 0 = []"
| "read_blocks seg p stop (Suc room) =
     (if p + 7 < stop then \<lparr>sb_left = ntohl (un_le32 (get_bytes p 4 seg)), sb_right = ntohl (un_le32 (get_bytes (p + 4) 4 seg))\<rparr> #
        read_blocks seg (p + 8) stop room else [])"

text \<open>The result is whether SACK is permitted, and the blocks.\<close>

function scan_options :: "byte list \<Rightarrow> nat \<Rightarrow> nat \<Rightarrow> nat \<Rightarrow> bool \<Rightarrow> tcp_sack_block list \<Rightarrow> bool \<times> tcp_sack_block list" where
  "scan_options seg hlen max_blocks off permitted blocks =
     (if off < hlen then
        (let kind = seg ! off in
         if kind = TCP_OPT_END then (permitted, blocks)
         else if kind = TCP_OPT_NOP then scan_options seg hlen max_blocks (off + 1) permitted blocks
         else if off + 2 > hlen then (permitted, blocks)
         else let olen = unat (seg ! (off + 1)) in
         if olen < 2 \<or> off + olen > hlen then (permitted, blocks)
         else scan_options seg hlen max_blocks (off + olen)
           (permitted \<or> kind = TCP_OPT_SACK_PERMITTED \<and> olen = 2)
           (if kind = TCP_OPT_SACK \<and> olen \<ge> 10 \<and> (olen - 2) mod 8 = 0
            then blocks @ read_blocks seg (off + 2) (off + olen) (max_blocks - length blocks) else blocks))
      else (permitted, blocks))"
  by pat_completeness auto
termination by (relation "measure (\<lambda>(seg, hlen, max_blocks, off, permitted, blocks). hlen - off)") auto

declare scan_options.simps [simp del]

definition parse_options :: "byte list \<Rightarrow> nat \<Rightarrow> nat \<Rightarrow> bool \<times> tcp_sack_block list" where
  "parse_options seg hlen max_blocks = scan_options seg hlen max_blocks TCP_HDR False []"

text \<open>The insertion loop of \<^verbatim>\<open>process_sack\<close>: larger left edges move up from the end of the table.\<close>

fun sack_insert :: "tcp_sack_block \<Rightarrow> tcp_sack_block list \<Rightarrow> tcp_sack_block list" where
  "sack_insert b [] = [b]"
| "sack_insert b (x # rev_tbl) = (if seq_lt (sb_left b) (sb_left x) then x # sack_insert b rev_tbl else b # x # rev_tbl)"

fun collect_sack :: "u32 \<Rightarrow> u32 \<Rightarrow> tcp_sack_block list \<Rightarrow> tcp_sack_block list \<Rightarrow> tcp_sack_block list" where
  "collect_sack ack max_sent tbl [] = tbl"
| "collect_sack ack max_sent tbl (b # bs) =
     (if \<not> seq_lt (sb_left b) (sb_right b) \<or> seq_lt (sb_left b) ack \<or> seq_lt max_sent (sb_right b) then collect_sack ack max_sent tbl bs
      else collect_sack ack max_sent (take TCP_MAX_SACK_BLOCKS (rev (sack_insert b (rev tbl)))) bs)"

definition process_sack :: "tcp_conn \<Rightarrow> u32 \<Rightarrow> tcp_sack_block list \<Rightarrow> tcp_conn" where
  "process_sack c ack blocks =
     (let c = c\<lparr>tx_sack := []\<rparr> in
      if \<not> sack_enabled c \<or> seq_lt ack (snd_una c) \<or> seq_lt (snd_max c) ack then c
      else let c = c\<lparr>tx_sack := collect_sack ack (snd_max c) [] blocks\<rparr> in
      if ack = snd_una c \<and> length (tx_sack c) > 0 then
        (if dup_acks c + 1 \<ge> 3 then c\<lparr>fast_retransmit := True, dup_acks := 0\<rparr> else c\<lparr>dup_acks := dup_acks c + 1\<rparr>)
      else c)"

fun skip_sacked :: "tcp_sack_block list \<Rightarrow> u32 \<Rightarrow> u32" where
  "skip_sacked [] seq = seq"
| "skip_sacked (b # bs) seq = (if \<not> seq_lt seq (sb_left b) \<and> seq_lt seq (sb_right b) then sb_right b else skip_sacked bs seq)"

fun bytes_before_sack :: "tcp_sack_block list \<Rightarrow> u32 \<Rightarrow> nat \<Rightarrow> nat" where
  "bytes_before_sack [] seq n = n"
| "bytes_before_sack (b # bs) seq n =
     (if seq_lt seq (sb_left b) then (let gap = sb_left b - seq in if gap < of_nat n then unat gap else n)
      else bytes_before_sack bs seq n)"

definition accept_data :: "tcp_conn \<Rightarrow> u32 \<Rightarrow> byte list \<Rightarrow> tcp_conn" where
  "accept_data c seq data =
     (if peer_fin c then c\<lparr>need_ack := True\<rparr>
      else let before_fin = sint (fin_rcv_seq c - seq) in
      if fin_queued c \<and> before_fin \<le> 0 then c\<lparr>need_ack := True\<rparr>
      else let data = (if fin_queued c \<and> int (length data) > before_fin then take (nat before_fin) data else data);
               (a, r, ring, len, next) = tcp_reassembly_accept (reassembly c) (the (rxbuf c)) (rx_head c) (rx_len c) (rcv_nxt c) seq data
           in c\<lparr>reassembly := r, rxbuf := Some ring, rx_len := len, rcv_nxt := next, need_ack := True\<rparr>)"

definition accept_peer_fin :: "u64 \<Rightarrow> tcp_conn \<Rightarrow> tcp_conn" where
  "accept_peer_fin now c =
     (let c = c\<lparr>rcv_nxt := rcv_nxt c + 1, peer_fin := True, fin_queued := False, need_ack := True\<rparr> in
      if state c = TCP_ESTABLISHED then c\<lparr>state := TCP_CLOSE_WAIT\<rparr>
      else if state c = TCP_FIN_WAIT_2 then c\<lparr>state := TCP_TIME_WAIT, tw_deadline := now + TCP_TW_TICKS\<rparr>
      else c)"

text \<open>\<^verbatim>\<open>tcp_input\<close> after the connection has been found, one definition per stage.\<close>

definition handshake :: "tcp_conn \<Rightarrow> tcp_hdr \<Rightarrow> bool \<Rightarrow> tcp_conn" where
  "handshake c h permitted =
     (let seq = ntohl (h_seq h); ack = ntohl (h_ack h) in
      if h_flags h AND (TCP_SYN OR TCP_ACK) \<noteq> TCP_SYN OR TCP_ACK then c
      else if ack \<noteq> snd_nxt c then c
      else c\<lparr>irs := seq, rcv_nxt := seq + 1, snd_una := ack, snd_nxt := ack, snd_max := ack, snd_wnd := ucast (ntohs (h_win h)),
        sack_enabled := permitted, state := TCP_ESTABLISHED, need_ack := True, retries := 0, rto_ticks := TCP_RTO_MIN,
        rto_deadline := 0\<rparr>)"

definition note_fin :: "tcp_conn \<Rightarrow> u32 \<Rightarrow> tcp_conn" where
  "note_fin c fseq =
     (let delta = sint (fseq - rcv_nxt c); window = int TCP_RXBUF - int (rx_len c) in
      if \<not> peer_fin c \<and> delta \<ge> 0 \<and> delta < window \<and> (\<not> fin_queued c \<or> fin_rcv_seq c = fseq)
      then c\<lparr>fin_queued := True, fin_rcv_seq := fseq,
          reassembly := tcp_reassembly_discard_from (reassembly c) (rx_head c) (rx_len c) (rcv_nxt c) fseq, need_ack := True\<rparr>
      else c)"

definition conn_input :: "u64 \<Rightarrow> tcp_conn \<Rightarrow> byte list \<Rightarrow> nat \<Rightarrow> tcp_conn" where
  "conn_input now c seg hlen =
     (let h = read_hdr seg; seq = ntohl (h_seq h); ack = ntohl (h_ack h); fl = h_flags h; data = drop hlen seg in
      if fl AND TCP_RST \<noteq> 0 then
        (if state c = TCP_SYN_SENT \<and> fl AND TCP_ACK = 0 then c else c\<lparr>reset := True, state := TCP_CLOSED\<rparr>)
      else if state c = TCP_SYN_SENT then handshake c h (fst (parse_options seg hlen 0))
      else if fl AND TCP_SYN \<noteq> 0 then c
      else let c = (if fl AND TCP_ACK \<noteq> 0
                    then process_sack (process_ack now c ack (ntohs (h_win h))) ack (snd (parse_options seg hlen TCP_MAX_SACK_BLOCKS))
                    else c);
               c = (if fl AND TCP_FIN \<noteq> 0 then note_fin c (seq + of_nat (length data)) else c);
               c = (if length data > 0 then accept_data c seq data else c)
           in if fin_queued c \<and> fin_rcv_seq c = rcv_nxt c then accept_peer_fin now c else c)"

definition tcp_input :: "u64 \<Rightarrow> u32 \<Rightarrow> tcp_conn list \<Rightarrow> u32 \<Rightarrow> byte list \<Rightarrow> tcp_conn list" where
  "tcp_input now my_ip conns src_ip_be seg =
     (if length seg < TCP_HDR then conns
      else let h = read_hdr seg; hlen = unat (drop_bit 4 (h_off h)) * 4 in
      if hlen < TCP_HDR \<or> hlen > length seg then conns
      else if net_transport_checksum src_ip_be my_ip 6 seg \<noteq> 0 then conns
      else case conn_lookup conns src_ip_be (ntohs (h_sport h)) (ntohs (h_dport h)) of
        None \<Rightarrow> conns
      | Some i \<Rightarrow> if rxbuf (conns ! i) = None then conns else conns[i := conn_input now (conns ! i) seg hlen])"

end
