(* ===== verification/Tcp_Input.thy ===== *)
theory Tcp_Input
  imports Tcp
begin

unbundle bit_operations_syntax

text \<open>
  What received segments do to a connection: the receiving half follows the peer's byte stream, and the
  connection follows the TCP state diagram.
\<close>

section \<open>What the receiving half keeps\<close>

text \<open>The fields of the receiving half, apart from the request for an acknowledgement.\<close>

definition rx_part :: "tcp_conn \<Rightarrow> byte list option \<times> nat \<times> nat \<times> tcp_reassembly \<times> u32 \<times> bool \<times> bool \<times> u32" where
  "rx_part c = (rxbuf c, rx_head c, rx_len c, reassembly c, rcv_nxt c, peer_fin c, fin_queued c, fin_rcv_seq c)"

lemma process_ack_rx [simp]: "rx_part (process_ack t c ack win) = rx_part c"
  by (simp add: process_ack_def rx_part_def Let_def)

lemma process_sack_rx [simp]: "rx_part (process_sack c ack blocks) = rx_part c"
  by (simp add: process_sack_def rx_part_def Let_def)

text \<open>
  The receive side against the peer's stream: \<open>S\<close> the stream, \<open>L\<close> its length, \<open>b\<close> the sequence number
  of its first byte, \<open>R\<close> the number of bytes the application has read.  Once the peer's FIN has been
  accepted, \<open>rcv_nxt\<close> is one beyond the stream.
\<close>

definition rx_stream :: "(nat \<Rightarrow> byte) \<Rightarrow> nat \<Rightarrow> u32 \<Rightarrow> nat \<Rightarrow> nat \<Rightarrow> nat \<Rightarrow> tcp_conn \<Rightarrow> bool" where
  "rx_stream S L b orig N R c \<longleftrightarrow>
     (\<exists>ring. rxbuf c = Some ring \<and> N = R + rx_len c \<and> N \<le> L \<and>
        rx_inv S b orig N (reassembly c) ring (rx_head c) (rx_len c) (b + of_nat N) \<and>
        got orig N (reassembly c) (rx_len c) \<subseteq> {..< L} \<and>
        (fin_queued c \<longrightarrow> fin_rcv_seq c = b + of_nat L \<and> L < N + 2 ^ 30 \<and> \<not> peer_fin c) \<and>
        (if peer_fin c then N = L \<and> rcv_nxt c = b + of_nat L + 1 else rcv_nxt c = b + of_nat N))"

text \<open>A piece of the stream: data, and a FIN only at its end.\<close>

definition genuine :: "(nat \<Rightarrow> byte) \<Rightarrow> nat \<Rightarrow> u32 \<Rightarrow> nat \<Rightarrow> u32 \<Rightarrow> byte list \<Rightarrow> bool \<Rightarrow> bool" where
  "genuine S L b N seq data fin \<longleftrightarrow>
     (\<exists>q. seq = b + of_nat q \<and> data = map S [q ..< q + length data] \<and> q + length data \<le> L \<and> (fin \<longrightarrow> q + length data = L) \<and>
        q < N + 2 ^ 30 \<and> N < q + 2 ^ 30 \<and> length data < 2 ^ 16)"

lemma rx_stream_part: "rx_part c = rx_part c' \<Longrightarrow> rx_stream S L b orig N R c = rx_stream S L b orig N R c'"
  unfolding rx_part_def rx_stream_def prod.inject by (elim conjE) (simp only:)

lemma note_fin_stream:
  assumes st: "rx_stream S L b orig N R c" and q: "L < N + 2 ^ 31"
  shows "rx_stream S L b orig N R (note_fin c (b + of_nat L))"
proof (cases "\<not> peer_fin c \<and> sint (b + of_nat L - rcv_nxt c) \<ge> 0 \<and> sint (b + of_nat L - rcv_nxt c) < int TCP_RXBUF - int (rx_len c) \<and>
    (\<not> fin_queued c \<or> fin_rcv_seq c = b + of_nat L)")
  case False
  then have "note_fin c (b + of_nat L) = c" unfolding note_fin_def Let_def by (rule if_not_P)
  then show ?thesis using st by (simp only:)
next
  case True
  let ?c = "note_fin c (b + of_nat L)"
  have c: "\<not> peer_fin c" and d: "sint (b + of_nat L - rcv_nxt c) < int TCP_RXBUF - int (rx_len c)" using True by blast+
  have e: "?c = c\<lparr>fin_queued := True, fin_rcv_seq := b + of_nat L,
          reassembly := tcp_reassembly_discard_from (reassembly c) (rx_head c) (rx_len c) (rcv_nxt c) (b + of_nat L), need_ack := True\<rparr>"
    unfolding note_fin_def Let_def by (rule if_P [OF True])
  obtain ring where o: "rxbuf c = Some ring" "N = R + rx_len c" "N \<le> L" "rx_inv S b orig N (reassembly c) ring (rx_head c) (rx_len c) (b + of_nat N)"
    "got orig N (reassembly c) (rx_len c) \<subseteq> {..< L}" "rcv_nxt c = b + of_nat N" using st c by (auto simp: rx_stream_def)
  have "sint (b + of_nat L - rcv_nxt c) = int L - int N" unfolding o(6) using seq_delta [of L N b] o(3) q by simp
  then have "L < N + 8192" using d by linarith
  then have "L < N + 2 ^ 30" by simp
  then show ?thesis unfolding e rx_stream_def using o c discard_law [OF o(4) o(3) q] by auto
qed

lemma accept_data_stream:
  assumes st: "rx_stream S L b orig N R c" and g: "genuine S L b N seq data fin" and n: "length data > 0"
  shows "\<exists>N' \<ge> N. rx_stream S L b orig N' R (accept_data c seq data)"
proof (cases "peer_fin c")
  case True
  then have "rx_part (accept_data c seq data) = rx_part c" by (simp add: accept_data_def rx_part_def)
  then show ?thesis using st rx_stream_part by blast
next
  case False
  obtain q where q: "seq = b + of_nat q" "data = map S [q ..< q + length data]" "q + length data \<le> L" "q < N + 2 ^ 30" "N < q + 2 ^ 30" "length data < 2 ^ 16"
    using g unfolding genuine_def by blast
  obtain ring where o: "rxbuf c = Some ring" "N = R + rx_len c" "N \<le> L" "rx_inv S b orig N (reassembly c) ring (rx_head c) (rx_len c) (b + of_nat N)"
    "got orig N (reassembly c) (rx_len c) \<subseteq> {..< L}" "rcv_nxt c = b + of_nat N" "fin_queued c \<longrightarrow> fin_rcv_seq c = b + of_nat L \<and> L < N + 2 ^ 30"
    using st False by (auto simp: rx_stream_def)
  have bf: "sint (fin_rcv_seq c - seq) = int L - int q" if "fin_queued c"
    using that o(7) q seq_delta [of L q b] by simp
  have trim: "(if fin_queued c \<and> int (length data) > sint (fin_rcv_seq c - seq) then take (nat (sint (fin_rcv_seq c - seq))) data else data) = data"
    using bf q(3) by auto
  obtain a r' ring' l' n' where acc: "tcp_reassembly_accept (reassembly c) ring (rx_head c) (rx_len c) (b + of_nat N) (b + of_nat q)
      (map S [q ..< q + length data]) = (a, r', ring', l', n')" by (rule prod_cases5)
  have lens: "q < N + 2 ^ 31" "N \<le> q + 2 ^ 31" "length data < 2 ^ 31" using q by simp_all
  note A = accept_law [OF o(4) lens acc]
  have e: "accept_data c seq data = c\<lparr>reassembly := r', rxbuf := Some ring', rx_len := l', rcv_nxt := n', need_ack := True\<rparr>"
  proof -
    have "int L - int q > 0" using q(3) n by linarith
    then have "\<not> (fin_queued c \<and> sint (fin_rcv_seq c - seq) \<le> 0)" using bf by auto
    then show ?thesis using acc unfolding accept_data_def Let_def trim by (auto simp: False o(1,6) q(1) simp flip: q(2))
  qed
  have g': "got orig (N + a) r' l' \<subseteq> {..< L}" using A o(5) q(3) by auto
  have "N + a \<le> L"
  proof (cases a)
    case (Suc m)
    then have "N + m \<in> got orig (N + a) r' l'" by (simp add: got_def)
    then show ?thesis using g' Suc by auto
  qed (use o in simp)
  moreover have "n' = b + of_nat (N + a)" using A rx_next by blast
  ultimately have "rx_stream S L b orig (N + a) R (accept_data c seq data)" unfolding e rx_stream_def
    using A g' o False by auto
  then show ?thesis by (intro exI [of _ "N + a"]) simp
qed

lemma accept_fin_stream:
  assumes st: "rx_stream S L b orig N R c" and f: "fin_queued c" "fin_rcv_seq c = rcv_nxt c"
  shows "rx_stream S L b orig N R (accept_peer_fin t c) \<and> N = L"
proof -
  obtain ring where o: "rxbuf c = Some ring" "N = R + rx_len c" "N \<le> L" "rx_inv S b orig N (reassembly c) ring (rx_head c) (rx_len c) (b + of_nat N)"
    "got orig N (reassembly c) (rx_len c) \<subseteq> {..< L}" "rcv_nxt c = b + of_nat N" "fin_rcv_seq c = b + of_nat L" "L < N + 2 ^ 30"
    using st f by (auto simp: rx_stream_def)
  have "int L - int N = 0" using seq_delta [of L N b] o f by simp
  then have "N = L" by simp
  then have "rx_stream S L b orig N R (accept_peer_fin t c)" unfolding rx_stream_def using o by (auto simp: accept_peer_fin_def Let_def)
  then show ?thesis using \<open>N = L\<close> by simp
qed


text \<open>The segments of a peer that neither resets the connection nor starts a new one.\<close>

definition peer_segment :: "(nat \<Rightarrow> byte) \<Rightarrow> nat \<Rightarrow> u32 \<Rightarrow> nat \<Rightarrow> byte list \<Rightarrow> nat \<Rightarrow> bool" where
  "peer_segment S L b N seg hlen \<longleftrightarrow> h_flags (read_hdr seg) AND (TCP_RST OR TCP_SYN) = 0 \<and> hlen \<le> length seg \<and>
     genuine S L b N (ntohl (h_seq (read_hdr seg))) (drop hlen seg) (h_flags (read_hdr seg) AND TCP_FIN \<noteq> 0)"

lemma conn_input_stream:
  assumes st: "rx_stream S L b orig N R c" and p: "peer_segment S L b N seg hlen" and s: "state c \<noteq> TCP_SYN_SENT"
  shows "\<exists>N' \<ge> N. rx_stream S L b orig N' R (conn_input t c seg hlen)"
proof -
  let ?h = "read_hdr seg" and ?seq = "ntohl (h_seq (read_hdr seg))" and ?data = "drop hlen seg"
  define c1 where "c1 = (if h_flags ?h AND TCP_ACK \<noteq> 0 then process_sack (process_ack t c (ntohl (h_ack ?h)) (ntohs (h_win ?h))) (ntohl (h_ack ?h))
      (snd (parse_options seg hlen TCP_MAX_SACK_BLOCKS)) else c)"
  define c2 where "c2 = (if h_flags ?h AND TCP_FIN \<noteq> 0 then note_fin c1 (?seq + of_nat (length ?data)) else c1)"
  define c3 where "c3 = (if length ?data > 0 then accept_data c2 ?seq ?data else c2)"
  have fl: "h_flags ?h AND TCP_RST = 0" "h_flags ?h AND TCP_SYN = 0"
  proof -
    have z: "h_flags ?h AND (TCP_RST OR TCP_SYN) = 0" using p by (simp add: peer_segment_def)
    have "h_flags ?h AND TCP_RST = (h_flags ?h AND (TCP_RST OR TCP_SYN)) AND TCP_RST" "h_flags ?h AND TCP_SYN = (h_flags ?h AND (TCP_RST OR TCP_SYN)) AND TCP_SYN"
      by (simp_all add: and.assoc)
    then show "h_flags ?h AND TCP_RST = 0" "h_flags ?h AND TCP_SYN = 0" unfolding z by simp_all
  qed
  have e: "conn_input t c seg hlen = (if fin_queued c3 \<and> fin_rcv_seq c3 = rcv_nxt c3 then accept_peer_fin t c3 else c3)"
    unfolding conn_input_def Let_def c3_def c2_def c1_def using fl s by simp
  have g: "genuine S L b N ?seq ?data (h_flags ?h AND TCP_FIN \<noteq> 0)" using p by (simp add: peer_segment_def)
  have "rx_part c1 = rx_part c" by (simp add: c1_def)
  then have 1: "rx_stream S L b orig N R c1" using st rx_stream_part by blast
  have 2: "rx_stream S L b orig N R c2"
  proof (cases "h_flags ?h AND TCP_FIN \<noteq> 0")
    case True
    then obtain q where q: "?seq = b + of_nat q" "q + length ?data = L" "q < N + 2 ^ 30" "length ?data < 2 ^ 16" using g unfolding genuine_def by blast
    then have "?seq + of_nat (length ?data) = b + of_nat L" "L < N + 2 ^ 31" by auto
    then show ?thesis using note_fin_stream [OF 1] True by (simp add: c2_def)
  qed (use 1 in \<open>simp add: c2_def\<close>)
  obtain N' where 3: "N' \<ge> N" "rx_stream S L b orig N' R c3"
  proof (cases "length ?data > 0")
    case True
    then show ?thesis using accept_data_stream [OF 2 g True] that by (auto simp: c3_def)
  qed (use 2 that in \<open>auto simp: c3_def\<close>)
  then show ?thesis unfolding e using accept_fin_stream [OF 3(2)] by auto
qed

section \<open>State transitions\<close>

text \<open>The moves a received segment other than a reset may cause.\<close>

definition input_edges :: "(tcp_state \<times> tcp_state) set" where
  "input_edges = {(TCP_SYN_SENT, TCP_ESTABLISHED), (TCP_ESTABLISHED, TCP_CLOSE_WAIT), (TCP_FIN_WAIT_1, TCP_FIN_WAIT_2),
     (TCP_FIN_WAIT_1, TCP_TIME_WAIT), (TCP_FIN_WAIT_2, TCP_TIME_WAIT), (TCP_LAST_ACK, TCP_CLOSED)}"

lemma process_ack_state:
  "state (process_ack t c ack win) = state c \<or> state c = TCP_FIN_WAIT_1 \<and> state (process_ack t c ack win) \<in> {TCP_FIN_WAIT_2, TCP_TIME_WAIT} \<or>
   state c = TCP_LAST_ACK \<and> state (process_ack t c ack win) = TCP_CLOSED"
  by (simp add: process_ack_def Let_def)

lemma process_sack_state [simp]: "state (process_sack c ack blocks) = state c"
  by (simp add: process_sack_def Let_def)

lemma note_fin_state [simp]: "state (note_fin c fseq) = state c"
  by (simp add: note_fin_def Let_def)

lemma accept_data_state [simp]: "state (accept_data c seq data) = state c"
  by (simp add: accept_data_def Let_def split: prod.splits)

lemma accept_peer_fin_state: "state (accept_peer_fin t c) = (if state c = TCP_ESTABLISHED then TCP_CLOSE_WAIT
    else if state c = TCP_FIN_WAIT_2 then TCP_TIME_WAIT else state c)"
  by (simp add: accept_peer_fin_def Let_def)

lemma handshake_state: "state c = TCP_SYN_SENT \<Longrightarrow> state (handshake c h permitted) = state c \<or>
    state (handshake c h permitted) = TCP_ESTABLISHED \<and> ntohl (h_ack h) = snd_nxt c \<and> h_flags h AND (TCP_SYN OR TCP_ACK) = TCP_SYN OR TCP_ACK"
  by (simp add: handshake_def Let_def)

lemma conn_input_state:
  defines "h seg \<equiv> read_hdr seg"
  shows "state (conn_input t c seg hlen) = state c \<or> (state c, state (conn_input t c seg hlen)) \<in> input_edges \<or>
      h_flags (h seg) AND TCP_RST \<noteq> 0 \<and> state (conn_input t c seg hlen) = TCP_CLOSED"
    and "state c = TCP_SYN_SENT \<Longrightarrow> state (conn_input t c seg hlen) = TCP_ESTABLISHED \<Longrightarrow>
      ntohl (h_ack (h seg)) = snd_nxt c \<and> h_flags (h seg) AND (TCP_SYN OR TCP_ACK) = TCP_SYN OR TCP_ACK"
proof -
  let ?h = "read_hdr seg"
  let ?c1 = "if h_flags ?h AND TCP_ACK \<noteq> 0 then process_sack (process_ack t c (ntohl (h_ack ?h)) (ntohs (h_win ?h))) (ntohl (h_ack ?h))
      (snd (parse_options seg hlen TCP_MAX_SACK_BLOCKS)) else c"
  have 1: "state ?c1 = state c \<or> state c = TCP_FIN_WAIT_1 \<and> state ?c1 \<in> {TCP_FIN_WAIT_2, TCP_TIME_WAIT} \<or> state c = TCP_LAST_ACK \<and> state ?c1 = TCP_CLOSED"
    using process_ack_state [of t c "ntohl (h_ack ?h)" "ntohs (h_win ?h)"] by (cases "h_flags ?h AND TCP_ACK \<noteq> 0") simp_all
  show "state (conn_input t c seg hlen) = state c \<or> (state c, state (conn_input t c seg hlen)) \<in> input_edges \<or>
      h_flags (h seg) AND TCP_RST \<noteq> 0 \<and> state (conn_input t c seg hlen) = TCP_CLOSED"
  proof (cases "h_flags ?h AND TCP_RST \<noteq> 0 \<or> state c = TCP_SYN_SENT \<or> h_flags ?h AND TCP_SYN \<noteq> 0")
    case True
    then show ?thesis using handshake_state [of c ?h "fst (parse_options seg hlen 0)"]
      unfolding conn_input_def Let_def h_def input_edges_def by auto
  next
    case False
    define c2 where "c2 = (if h_flags ?h AND TCP_FIN \<noteq> 0 then note_fin ?c1 (ntohl (h_seq ?h) + of_nat (length (drop hlen seg))) else ?c1)"
    define c3 where "c3 = (if length (drop hlen seg) > 0 then accept_data c2 (ntohl (h_seq ?h)) (drop hlen seg) else c2)"
    have e: "conn_input t c seg hlen = (if fin_queued c3 \<and> fin_rcv_seq c3 = rcv_nxt c3 then accept_peer_fin t c3 else c3)"
      unfolding conn_input_def Let_def c3_def c2_def using False by simp
    have 3: "state c3 = state ?c1" by (simp add: c3_def c2_def)
    show ?thesis using 1 unfolding e 3 [symmetric] by (auto simp: accept_peer_fin_state input_edges_def)
  qed
  show "ntohl (h_ack (h seg)) = snd_nxt c \<and> h_flags (h seg) AND (TCP_SYN OR TCP_ACK) = TCP_SYN OR TCP_ACK"
    if "state c = TCP_SYN_SENT" "state (conn_input t c seg hlen) = TCP_ESTABLISHED"
    using that handshake_state [OF that(1), of ?h "fst (parse_options seg hlen 0)"] unfolding conn_input_def Let_def h_def by (auto split: if_splits)
qed

lemma find_index_Some: "find_index P k xs = Some i \<Longrightarrow> k \<le> i \<and> i < k + length xs \<and> P (xs ! (i - k))"
  by (induction P k xs rule: find_index.induct) (auto split: if_splits simp: nth_Cons')

text \<open>
  C9. A segment only ever touches the connection it belongs to, and moves it along the TCP state diagram.
  If \<^verbatim>\<open>tcp_input\<close> changes a slot, the segment has a full header and a correct checksum, and the slot is
  in use, is not closed, and matches the segment's addresses and ports.  Its state stays, or follows an
  edge of the diagram for received segments, or is closed by a reset.  In particular a connection is
  established only by a SYN with an acknowledgement of exactly our own SYN.
\<close>

theorem tcp_input_safe:
  assumes j: "j < length conns" and ch: "tcp_input t my_ip conns src seg ! j \<noteq> conns ! j"
  shows "TCP_HDR \<le> length seg \<and> net_transport_checksum src my_ip 6 seg = 0 \<and>
    used (conns ! j) \<and> state (conns ! j) \<noteq> TCP_CLOSED \<and> peer_ip (conns ! j) = src \<and>
    peer_port (conns ! j) = ntohs (h_sport (read_hdr seg)) \<and> local_port (conns ! j) = ntohs (h_dport (read_hdr seg)) \<and>
    (state (tcp_input t my_ip conns src seg ! j) = state (conns ! j) \<or>
     (state (conns ! j), state (tcp_input t my_ip conns src seg ! j)) \<in> input_edges \<or>
     h_flags (read_hdr seg) AND TCP_RST \<noteq> 0 \<and> state (tcp_input t my_ip conns src seg ! j) = TCP_CLOSED) \<and>
    (state (conns ! j) = TCP_SYN_SENT \<and> state (tcp_input t my_ip conns src seg ! j) = TCP_ESTABLISHED \<longrightarrow>
     ntohl (h_ack (read_hdr seg)) = snd_nxt (conns ! j) \<and> h_flags (read_hdr seg) AND (TCP_SYN OR TCP_ACK) = TCP_SYN OR TCP_ACK)"
proof -
  define hlen where "hlen = unat (drop_bit 4 (h_off (read_hdr seg))) * 4"
  obtain i where g: "TCP_HDR \<le> length seg" "net_transport_checksum src my_ip 6 seg = 0"
    and i: "conn_lookup conns src (ntohs (h_sport (read_hdr seg))) (ntohs (h_dport (read_hdr seg))) = Some i"
    and e: "tcp_input t my_ip conns src seg = conns[i := conn_input t (conns ! i) seg hlen]"
    using ch unfolding tcp_input_def Let_def hlen_def by (auto split: if_splits option.splits)
  have "i = j" using ch unfolding e by (cases "i = j") simp_all
  have f: "used (conns ! i)" "state (conns ! i) \<noteq> TCP_CLOSED" "peer_ip (conns ! i) = src" "peer_port (conns ! i) = ntohs (h_sport (read_hdr seg))"
    "local_port (conns ! i) = ntohs (h_dport (read_hdr seg))"
    using find_index_Some [OF i [unfolded conn_lookup_def]] by simp_all
  have s: "tcp_input t my_ip conns src seg ! j = conn_input t (conns ! j) seg hlen" unfolding e \<open>i = j\<close> using j by simp
  show ?thesis unfolding s using g f conn_input_state [where t = t and c = "conns ! j" and seg = seg and hlen = hlen] unfolding \<open>i = j\<close> by blast
qed


definition demo_conn :: tcp_conn where
  "demo_conn = \<lparr>used = True, detached = False, pumping = False, state = TCP_ESTABLISHED, owner_pid = 1, peer_ip = 0x0200000A, peer_port = 80,
     local_port = 49152, iss = 100, snd_una = 101, snd_nxt = 101, snd_max = 101, snd_wnd = 1460, txbuf = Some fresh_ring, tx_head = 0,
     tx_len = 0, tx_sack = [], dup_acks = 0, fast_retransmit = False, sack_enabled = False, fin_pending = False, fin_sent = False,
     fin_seq = 0, irs = 499, rcv_nxt = 500, rxbuf = Some fresh_ring, rx_head = 0, rx_len = 0,
     reassembly = tcp_reassembly_reset fresh_bits, peer_fin = False, fin_queued = False, fin_rcv_seq = 0, need_ack = False,
     rto_ticks = 50, rto_deadline = 0, retries = 0, tw_deadline = 0, reset = False\<rparr>"

text \<open>A reset from the peer of that connection.\<close>

definition demo_rst :: "byte list" where
  "demo_rst = (let z = le16 (htons 80) @ le16 (htons 49152) @ le32 (htonl 500) @ le32 (htonl 101) @ [0x50, 0x14, 0, 0]
     in z @ le16 (net_transport_checksum 0x0200000A 0x0100000A 6 (z @ [0, 0] @ [0, 0])) @ [0, 0])"

lemma demo_rst_ok: "net_transport_checksum 0x0200000A 0x0100000A 6 demo_rst = 0"
  unfolding demo_rst_def Let_def by (subst checksum_verifies) simp_all

lemma read_demo_rst: "length demo_rst = 20" "h_flags (read_hdr demo_rst) = 0x14" "h_off (read_hdr demo_rst) = 0x50"
  "h_sport (read_hdr demo_rst) = htons 80" "h_dport (read_hdr demo_rst) = htons 49152"
  by (simp_all add: demo_rst_def Let_def read_hdr_def nth_append buf_simps)

theorem tcp_input_safe_witness:
  "state (tcp_input 7 0x0100000A [demo_conn] 0x0200000A demo_rst ! 0) = TCP_CLOSED \<and> h_flags (read_hdr demo_rst) AND TCP_RST \<noteq> 0 \<and>
   peer_port demo_conn = ntohs (h_sport (read_hdr demo_rst))"
proof -
  have "tcp_input 7 0x0100000A [demo_conn] 0x0200000A demo_rst = [conn_input 7 demo_conn demo_rst 20]"
    by (simp add: tcp_input_def read_demo_rst demo_rst_ok conn_lookup_def ntohs_def htons_htons drop_bit_eq_div) (simp add: demo_conn_def)
  moreover have c: "state (conn_input 7 demo_conn demo_rst 20) = TCP_CLOSED" by (simp add: conn_input_def Let_def read_demo_rst demo_conn_def)
  moreover have "state demo_conn = TCP_ESTABLISHED" by (simp add: demo_conn_def)
  ultimately have ch: "tcp_input 7 0x0100000A [demo_conn] 0x0200000A demo_rst ! 0 \<noteq> [demo_conn] ! 0" and s: "state (tcp_input 7 0x0100000A [demo_conn] 0x0200000A demo_rst ! 0) = TCP_CLOSED"
    by auto
  show ?thesis using tcp_input_safe [OF _ ch] s by (simp add: read_demo_rst)
qed

end
