(* ===== verification/Tcp_Pump.thy ===== *)
theory Tcp_Pump
  imports Tcp
begin

unbundle bit_operations_syntax

text \<open>
  TCP connections (\<^verbatim>\<open>kernel/tcp.c\<close>), part 2: the task side, which transmits.  The task shares the
  connection table with the receive interrupt and with tasks on other processors, and only holds the
  lock for short sections.  A run is therefore given by the state and by the list of what the others
  do before each following acquisition of the lock; reads the code makes without the lock see the state
  of the last section.  Packets handed to \<^verbatim>\<open>net_ip_send\<close> are logged in order, with the outcomes of the
  coming calls as a list of failures.
\<close>

section \<open>State and interference\<close>

record tcp =
  conns :: "tcp_conn list"
  port_next :: u16
  ticks :: u64
  my_ip :: u32
  alive :: "int \<Rightarrow> bool"
  sent :: "(u32 \<times> byte list) list"
  net_fail :: "bool list"

type_synonym world = "tcp \<times> (tcp \<Rightarrow> tcp) list"

definition lock :: "world \<Rightarrow> world" where
  "lock w = (case snd w of [] \<Rightarrow> w | e # env \<Rightarrow> (e (fst w), env))"

definition cn :: "nat \<Rightarrow> world \<Rightarrow> tcp_conn" where
  "cn i w = conns (fst w) ! i"

definition upd :: "nat \<Rightarrow> (tcp_conn \<Rightarrow> tcp_conn) \<Rightarrow> world \<Rightarrow> world" where
  "upd i f w = ((fst w)\<lparr>conns := (conns (fst w))[i := f (cn i w)]\<rparr>, snd w)"

abbreviation now :: "world \<Rightarrow> u64" where
  "now w \<equiv> ticks (fst w)"

definition net_ip_send :: "u32 \<Rightarrow> byte list \<Rightarrow> world \<Rightarrow> int \<times> world" where
  "net_ip_send dst pkt w = (let s = fst w in
     (if net_fail s \<noteq> [] \<and> hd (net_fail s) then -1 else 0, (s\<lparr>sent := sent s @ [(dst, pkt)], net_fail := tl (net_fail s)\<rparr>, snd w)))"

section \<open>Building and sending a segment\<close>

definition syn_opts :: "byte list" where
  "syn_opts = [TCP_OPT_MSS, 4, of_nat (TCP_MSS div 256), of_nat (TCP_MSS mod 256), TCP_OPT_SACK_PERMITTED, 2, TCP_OPT_NOP, TCP_OPT_NOP]"

definition sack_opts :: "tcp_sack_block list \<Rightarrow> byte list" where
  "sack_opts blocks = (if length blocks > 0 then [TCP_OPT_NOP, TCP_OPT_NOP, TCP_OPT_SACK, of_nat (2 + length blocks * 8)] @
     concat (map (\<lambda>b. le32 (htonl (sb_left b)) @ le32 (htonl (sb_right b))) blocks) else [])"

text \<open>The two copies that read \<open>n\<close> bytes of a ring from position \<open>pos\<close>, and write them.\<close>

definition ring_read :: "byte list \<Rightarrow> nat \<Rightarrow> nat \<Rightarrow> byte list" where
  "ring_read ring pos n = (let first = min (length ring - pos) n
     in take first (drop pos ring) @ (if n > first then take (n - first) ring else []))"

definition ring_write :: "byte list \<Rightarrow> nat \<Rightarrow> byte list \<Rightarrow> byte list" where
  "ring_write ring pos data = (let n = length data; first = min (length ring - pos) n;
     ring = put_bytes pos (take first data) ring
     in if n > first then put_bytes 0 (drop first data) ring else ring)"

text \<open>The packet, with the checksum stored in the header at the end.\<close>

definition build_segment :: "u32 \<Rightarrow> u32 \<Rightarrow> tcp_hdr \<Rightarrow> byte list \<Rightarrow> byte list" where
  "build_segment src dst h rest =
     hdr_bytes (h\<lparr>h_csum := net_transport_checksum src dst 6 (hdr_bytes (h\<lparr>h_csum := 0\<rparr>) @ rest)\<rparr>) @ rest"

definition seg_send :: "nat \<Rightarrow> byte \<Rightarrow> u32 \<Rightarrow> nat \<Rightarrow> bool \<Rightarrow> world \<Rightarrow> int \<times> world" where
  "seg_send i flags seq dlen syn_options w =
     (if dlen > TCP_MSS then (-1, w)
      else let (opts, w) =
             (if syn_options then (syn_opts, w)
              else if flags AND TCP_ACK \<noteq> 0 \<and> sack_enabled (cn i w)
              then (let w = lock w; c = cn i w
                    in (sack_opts (tcp_reassembly_sack_blocks (reassembly c) (rx_head c) (rx_len c) (rcv_nxt c) TCP_MAX_SACK_BLOCKS), w))
              else ([], w));
             hlen = TCP_HDR + length opts; sport = local_port (cn i w); dport = peer_port (cn i w);
             w = lock w; win = rcv_window (cn i w);
             w = lock w; c = cn i w;
             behind = (dlen > 0 \<and> seq_lt seq (snd_una c)); already_acked = snd_una c - seq
      in if behind \<and> already_acked \<ge> of_nat dlen then (0, w)
      else let dlen = (if behind then dlen - unat already_acked else dlen); seq = (if behind then seq + already_acked else seq);
               txoff = sint (seq - snd_una c)
      in if dlen > 0 \<and> (txoff < 0 \<or> txoff + int dlen > int (tx_len c)) then (-1, w)
      else let payload = (if dlen > 0 then ring_read (the (txbuf c)) ((tx_head c + nat txoff) mod TCP_TXBUF) dlen else []);
               h = \<lparr>h_sport = htons sport, h_dport = htons dport, h_seq = htonl seq,
                  h_ack = (if flags AND TCP_ACK \<noteq> 0 then htonl (rcv_nxt c) else 0), h_off = push_bit 4 (of_nat (hlen div 4)),
                  h_flags = flags, h_win = htons win, h_csum = 0, h_urg = 0\<rparr>
           in net_ip_send (peer_ip c) (build_segment (my_ip (fst w)) (peer_ip c) h (opts @ payload)) w)"

section \<open>The transmit pump\<close>

text \<open>The common bookkeeping of a retransmission: one more try, and twice the timeout.\<close>

definition back_off :: "tcp_conn \<Rightarrow> tcp_conn" where
  "back_off c = c\<lparr>retries := retries c + 1, rto_ticks := (if rto_ticks c < TCP_RTO_MAX then rto_ticks c * 2 else rto_ticks c)\<rparr>"

definition arm_rto :: "u64 \<Rightarrow> tcp_conn \<Rightarrow> tcp_conn" where
  "arm_rto t c = c\<lparr>rto_deadline := t + ucast (rto_ticks c)\<rparr>"

definition pump_syn :: "nat \<Rightarrow> u64 \<Rightarrow> world \<Rightarrow> world" where
  "pump_syn i start w =
     (let c = cn i w in
      if rto_deadline c \<noteq> 0 \<and> start \<ge> rto_deadline c then
        (if retries c \<ge> TCP_MAX_TRIES then upd i (\<lambda>c. c\<lparr>reset := True, state := TCP_CLOSED\<rparr>) w
         else snd (seg_send i TCP_SYN (iss c) 0 True (upd i (\<lambda>c. arm_rto (now w) (back_off c)) w)))
      else w)"

text \<open>The retransmission decision; the flag says that the connection was given up.\<close>

definition pump_timers :: "u64 \<Rightarrow> u64 \<Rightarrow> tcp_conn \<Rightarrow> bool \<times> tcp_conn" where
  "pump_timers start t c =
     (if fast_retransmit c then (False, arm_rto t (c\<lparr>snd_nxt := snd_una c, fast_retransmit := False\<rparr>))
      else if snd_una c \<noteq> snd_max c \<and> rto_deadline c \<noteq> 0 \<and> start \<ge> rto_deadline c then
        (if retries c \<ge> TCP_MAX_TRIES then (True, c\<lparr>reset := True, state := TCP_CLOSED\<rparr>)
         else (False, arm_rto t ((back_off c)\<lparr>snd_nxt := snd_una c\<rparr>)))
      else (False, c))"

text \<open>One locked section of the data loop: the segment to send, as first sequence number and length.\<close>

definition plan_segment :: "u64 \<Rightarrow> u64 \<Rightarrow> tcp_conn \<Rightarrow> bool \<times> u32 \<times> nat \<times> tcp_conn" where
  "plan_segment start t c =
     (let una = snd_una c; nxt = skip_sacked (tx_sack c) (snd_nxt c); c = c\<lparr>snd_nxt := nxt\<rparr>;
          off = sint (nxt - una); avail = int (tx_len c) - off; allow = sint (snd_wnd c) - off;
          stop = (avail \<le> 0 \<or> allow \<le> 0 \<and> rto_deadline c \<noteq> 0 \<and> start < rto_deadline c);
          allow = (if allow \<le> 0 \<and> \<not> (rto_deadline c \<noteq> 0 \<and> start < rto_deadline c) then 1 else allow);
          n = (if stop then 0
               else let n = nat (min avail allow); n = min n TCP_MSS;
                        n = (if sack_enabled c \<and> n > TCP_MSS - 36 then TCP_MSS - 36 else n)
                    in bytes_before_sack (tx_sack c) nxt n);
          c = (if n > 0 then
                 let c = c\<lparr>snd_nxt := nxt + of_nat n\<rparr>;
                     c = c\<lparr>snd_max := (if seq_lt (snd_max c) (snd_nxt c) then snd_nxt c else snd_max c), need_ack := False\<rparr>
                 in if una = nxt then arm_rto t c else c
               else c)
      in (stop, nxt, n, c))"

fun pump_data :: "nat \<Rightarrow> nat \<Rightarrow> u64 \<Rightarrow> bool \<Rightarrow> world \<Rightarrow> bool \<times> world" where
  "pump_data 0 i start sent_any w = (sent_any, w)"
| "pump_data (Suc k) i start sent_any w =
     (let w = lock w; (stop, nxt, n, c) = plan_segment start (now w) (cn i w); w = upd i (\<lambda>_. c) w in
      if stop then (sent_any, w)
      else if n = 0 then pump_data k i start sent_any w
      else let (r, w) = seg_send i (TCP_ACK OR TCP_PSH) nxt n False w in
      if r < 0 then (sent_any, upd i (\<lambda>c. c\<lparr>need_ack := True\<rparr>) (lock w))
      else pump_data k i start True w)"

definition plan_fin :: "u64 \<Rightarrow> tcp_conn \<Rightarrow> tcp_conn" where
  "plan_fin t c = (let fseq = snd_nxt c; c = c\<lparr>fin_seq := fseq, fin_sent := True, snd_nxt := fseq + 1\<rparr>
     in arm_rto t (c\<lparr>snd_max := (if seq_lt (snd_max c) (snd_nxt c) then snd_nxt c else snd_max c), need_ack := False\<rparr>))"

definition pump_fin :: "nat \<Rightarrow> bool \<Rightarrow> world \<Rightarrow> bool \<times> world" where
  "pump_fin i sent_any w =
     (let w = lock w; c = cn i w; fseq = snd_nxt c in
      if fin_pending c \<and> snd_nxt c = snd_una c + of_nat (tx_len c) then
        (let (r, w) = seg_send i (TCP_ACK OR TCP_FIN) fseq 0 False (upd i (plan_fin (now w)) w)
         in if r < 0 then (sent_any, upd i (\<lambda>c. c\<lparr>need_ack := True\<rparr>) (lock w)) else (True, w))
      else (sent_any, w))"

definition pump_ack :: "nat \<Rightarrow> bool \<Rightarrow> world \<Rightarrow> world" where
  "pump_ack i sent_any w =
     (let w = lock w; c = cn i w in
      if \<not> sent_any \<and> need_ack c then
        (let (r, w) = seg_send i TCP_ACK (snd_nxt c) 0 False (upd i (\<lambda>c. c\<lparr>need_ack := False\<rparr>) w)
         in if r < 0 then upd i (\<lambda>c. c\<lparr>need_ack := True\<rparr>) (lock w) else w)
      else w)"

definition pump_body :: "nat \<Rightarrow> world \<Rightarrow> world" where
  "pump_body i w =
     (let start = now w; w = lock w; c = cn i w in
      if reset c \<or> state c = TCP_CLOSED then w
      else if state c = TCP_TIME_WAIT then (if start \<ge> tw_deadline c then upd i (\<lambda>c. c\<lparr>state := TCP_CLOSED\<rparr>) w else w)
      else if state c = TCP_SYN_SENT then pump_syn i start w
      else let (timed_out, c) = pump_timers start (now w) c; w = upd i (\<lambda>_. c) w in
      if timed_out then w
      else let (sent_any, w) = pump_data 8 i start False w; (sent_any, w) = pump_fin i sent_any w
           in pump_ack i sent_any w)"

definition conn_pump :: "nat \<Rightarrow> world \<Rightarrow> world" where
  "conn_pump i w =
     (let w = lock w in
      if \<not> used (cn i w) \<or> pumping (cn i w) then w
      else let w = pump_body i (upd i (\<lambda>c. c\<lparr>pumping := True\<rparr>) w); w = lock w
           in upd i (\<lambda>c. let c = c\<lparr>pumping := False\<rparr>
                in if detached c \<and> (state c = TCP_CLOSED \<or> reset c) then conn_release_locked c else c) w)"

section \<open>The periodic tick and housekeeping\<close>

text \<open>What a close asks of a connection, by its state.\<close>

definition start_close :: "tcp_conn \<Rightarrow> tcp_conn" where
  "start_close c = (let c = c\<lparr>detached := True\<rparr> in
     if state c = TCP_ESTABLISHED then c\<lparr>fin_pending := True, state := TCP_FIN_WAIT_1\<rparr>
     else if state c = TCP_CLOSE_WAIT then c\<lparr>fin_pending := True, state := TCP_LAST_ACK\<rparr>
     else if state c = TCP_SYN_SENT then c\<lparr>state := TCP_CLOSED\<rparr> else c)"

definition tick_conn :: "nat \<Rightarrow> world \<Rightarrow> world" where
  "tick_conn i w =
     (let w = lock w; c = cn i w; owner = owner_pid c in
      if \<not> used c then w
      else conn_pump i (if \<not> detached c \<and> owner > 0 \<and> \<not> alive (fst w) owner
        then (let w = lock w; c = cn i w in if used c \<and> \<not> detached c \<and> owner_pid c = owner then upd i start_close w else w)
        else w))"

definition tcp_tick :: "world \<Rightarrow> world" where
  "tcp_tick w = fold tick_conn [0 ..< TCP_CONNS] w"

definition init_conn :: "tcp_conn \<Rightarrow> tcp_conn" where
  "init_conn c = c\<lparr>used := False, detached := False, pumping := False, state := TCP_CLOSED, owner_pid := 0, tx_head := 0, tx_len := 0,
     rx_head := 0, rx_len := 0, reassembly := tcp_reassembly_reset (reassembly c), peer_fin := False, fin_queued := False\<rparr>"

definition tcp_init :: "tcp \<Rightarrow> tcp" where
  "tcp_init s = s\<lparr>conns := map init_conn (conns s), port_next := TCP_PORT_FIRST\<rparr>"

definition gc_conn :: "nat \<Rightarrow> world \<Rightarrow> world" where
  "gc_conn i w =
     (let w = lock w; c = cn i w; owner = owner_pid c in
      if \<not> used c then w
      else let owner_dead = (owner > 0 \<and> \<not> alive (fst w) owner); w = lock w; c = cn i w in
      if used c \<and> owner_pid c = owner then
        (let c = (if state c = TCP_TIME_WAIT \<and> now w \<ge> tw_deadline c then c\<lparr>state := TCP_CLOSED\<rparr> else c);
             c = (if owner_dead then c\<lparr>detached := True\<rparr> else c);
             c = (if \<not> pumping c \<and> detached c \<and> (state c = TCP_CLOSED \<or> reset c) then conn_release_locked c else c)
         in upd i (\<lambda>_. c) w)
      else w)"

definition conn_gc :: "world \<Rightarrow> world" where
  "conn_gc w = fold gc_conn [0 ..< TCP_CONNS] w"

end
