(* ===== verification/Tcp_Options.thy ===== *)
theory Tcp_Options
  imports Tcp_Pump
begin

unbundle bit_operations_syntax

text \<open>
  The TCP options that \<^verbatim>\<open>seg_send\<close> writes and \<^verbatim>\<open>parse_options\<close> reads (\<^verbatim>\<open>kernel/tcp.c\<close>).
\<close>

section \<open>Options\<close>

lemma byte_masks: "(0x000000FF::u32) = mask 8" "(0x0000FF00::u32) = push_bit 8 (mask 8)" "(0x00FF0000::u32) = push_bit 16 (mask 8)"
  "(0xFF000000::u32) = push_bit 24 (mask 8)"
  by (simp_all add: mask_eq_exp_minus_1 push_bit_eq_mult)

lemma bit_htonl: "n < 32 \<Longrightarrow> bit (htonl v) n \<longleftrightarrow> bit v (24 - 8 * (n div 8) + n mod 8)"
proof -
  assume "n < 32"
  then consider "n < 8" | "8 \<le> n" "n < 16" | "16 \<le> n" "n < 24" | "24 \<le> n" "n < 32" by linarith
  then show ?thesis
  proof cases
    case 1
    then show ?thesis unfolding htonl_def byte_masks by (simp add: bit_or_iff bit_push_bit_iff bit_drop_bit_eq bit_and_iff bit_mask_iff)
  next
    case 2
    then obtain m where n: "n = 8 + m" "m < 8" by (metis add_less_cancel_left le_add_diff_inverse numeral_Bit0)
    then have d: "n div 8 = 1" "n mod 8 = m" by presburger+
    show ?thesis unfolding d using n unfolding htonl_def byte_masks by (simp add: bit_or_iff bit_push_bit_iff bit_drop_bit_eq bit_and_iff bit_mask_iff)
  next
    case 3
    then obtain m where n: "n = 16 + m" "m < 8" using le_Suc_ex by fastforce
    then have d: "n div 8 = 2" "n mod 8 = m" by presburger+
    show ?thesis unfolding d using n unfolding htonl_def byte_masks by (simp add: bit_or_iff bit_push_bit_iff bit_drop_bit_eq bit_and_iff bit_mask_iff)
  next
    case 4
    then obtain m where n: "n = 24 + m" "m < 8" using le_Suc_ex by fastforce
    then have d: "n div 8 = 3" "n mod 8 = m" by presburger+
    show ?thesis unfolding d using n unfolding htonl_def byte_masks by (simp add: bit_or_iff bit_push_bit_iff bit_drop_bit_eq bit_and_iff bit_mask_iff)
  qed
qed

lemma htonl_htonl: "htonl (htonl v) = v"
proof (rule bit_word_eqI)
  fix n assume "n < LENGTH(32)"
  then have n: "n < 32" by simp
  let ?m = "24 - 8 * (n div 8) + n mod 8"
  have "n div 8 < 4" "n mod 8 < 8" using n by auto
  then have e: "?m = n mod 8 + (3 - n div 8) * 8" by simp
  have "?m < 32" unfolding e using \<open>n mod 8 < 8\<close> by simp
  moreover have "?m div 8 = 3 - n div 8" "?m mod 8 = n mod 8" unfolding e using \<open>n mod 8 < 8\<close> by (simp_all only: div_mult_self1 mod_mult_self1 mod_mod_trivial)
  moreover have "24 - 8 * (3 - n div 8) + n mod 8 = n" using \<open>n div 8 < 4\<close> div_mult_mod_eq [of n 8] by linarith
  ultimately show "bit (htonl (htonl v)) n \<longleftrightarrow> bit v n" using n by (simp add: bit_htonl)
qed

lemma length_sack_opts: "length (sack_opts bs) = (if bs = [] then 0 else 4 + 8 * length bs)"
proof -
  have "length (concat (map (\<lambda>b. le32 (htonl (sb_left b)) @ le32 (htonl (sb_right b))) bs)) = 8 * length bs" by (induction bs) simp_all
  then show ?thesis by (simp add: sack_opts_def)
qed

lemma unat_byte: "k < 256 \<Longrightarrow> unat (of_nat k :: byte) = k"
  by (simp add: unsigned_of_nat take_bit_nat_eq_self)

lemma length_syn_opts: "length syn_opts = 8"
  by (simp add: syn_opts_def)

lemma read_blocks_written:
  assumes "length pre = p" "length bs \<le> room"
  shows "read_blocks (pre @ concat (map (\<lambda>b. le32 (htonl (sb_left b)) @ le32 (htonl (sb_right b))) bs) @ post) p (p + 8 * length bs) room = bs"
  using assms
proof (induction bs arbitrary: pre p room)
  case Nil
  then show ?case by (cases room) simp_all
next
  case (Cons b bs)
  then obtain room' where room: "room = Suc room'" by (cases room) auto
  let ?l = "le32 (htonl (sb_left b))" and ?r = "le32 (htonl (sb_right b))"
  let ?rest = "concat (map (\<lambda>b. le32 (htonl (sb_left b)) @ le32 (htonl (sb_right b))) bs) @ post"
  have "read_blocks ((pre @ ?l @ ?r) @ ?rest) (p + 8) (p + 8 + 8 * length bs) room' = bs"
    by (rule Cons.IH) (use Cons.prems room in simp_all)
  moreover have "get_bytes p 4 (pre @ ?l @ ?r @ ?rest) = ?l" "get_bytes (p + 4) 4 (pre @ ?l @ ?r @ ?rest) = ?r"
    using Cons.prems(1) by (simp_all add: get_bytes_def)
  ultimately show ?case using room by (simp add: ntohl_def htonl_htonl add.assoc)
qed

text \<open>
  C40. The options one end writes are the options the other end reads.  For a header of 20 bytes, the
  options \<^verbatim>\<open>seg_send\<close> puts into a SYN make \<^verbatim>\<open>parse_options\<close> report that SACK is permitted, and the blocks it
  puts into an acknowledgement, at most four, come back in order and unchanged, whatever data follows;
  in both cases the header length is a multiple of four that fits the four-bit length field.
\<close>

theorem options_roundtrip:
  assumes hdr: "length hb = TCP_HDR" and n: "length bs \<le> TCP_MAX_SACK_BLOCKS"
  shows "fst (parse_options (hb @ syn_opts @ data) (TCP_HDR + length syn_opts) m) \<and>
    snd (parse_options (hb @ sack_opts bs @ data) (TCP_HDR + length (sack_opts bs)) TCP_MAX_SACK_BLOCKS) = bs \<and>
    4 dvd TCP_HDR + length syn_opts \<and> TCP_HDR + length syn_opts \<le> 60 \<and>
    4 dvd TCP_HDR + length (sack_opts bs) \<and> TCP_HDR + length (sack_opts bs) \<le> 60"
proof -
  let ?a = "hb @ syn_opts @ data" and ?b = "hb @ sack_opts bs @ data"
  have a: "?a ! (20 + k) = syn_opts ! k" if "k < 8" for k using hdr that by (simp add: nth_append length_syn_opts)
  have "fst (scan_options ?a 28 m 20 False [])"
    using a [of 0] a [of 1] a [of 4] a [of 5] a [of 6] a [of 7] by (simp add: scan_options.simps [of _ 28] syn_opts_def)
  then have 1: "fst (parse_options ?a (TCP_HDR + length syn_opts) m)" by (simp add: parse_options_def syn_opts_def)
  have 2: "snd (parse_options ?b (TCP_HDR + length (sack_opts bs)) TCP_MAX_SACK_BLOCKS) = bs"
  proof (cases "bs = []")
    case True
    then show ?thesis by (simp add: parse_options_def length_sack_opts scan_options.simps)
  next
    case False
    let ?pre = "hb @ [TCP_OPT_NOP, TCP_OPT_NOP, TCP_OPT_SACK, of_nat (2 + length bs * 8)]"
    have e: "?b = ?pre @ concat (map (\<lambda>b. le32 (htonl (sb_left b)) @ le32 (htonl (sb_right b))) bs) @ data" using False by (simp add: sack_opts_def)
    have r: "read_blocks ?b 24 (24 + 8 * length bs) TCP_MAX_SACK_BLOCKS = bs" unfolding e by (rule read_blocks_written) (use hdr n in simp_all)
    have b: "?b ! 20 = TCP_OPT_NOP" "?b ! 21 = TCP_OPT_NOP" "?b ! 22 = TCP_OPT_SACK" "?b ! 23 = of_nat (2 + length bs * 8)"
      unfolding e using hdr by (simp_all add: nth_append)
    have l: "unat (?b ! 23) = 2 + length bs * 8" unfolding b by (rule unat_byte) (use n in simp)
    have h: "TCP_HDR + length (sack_opts bs) = 24 + 8 * length bs" using False by (simp add: length_sack_opts)
    have m: "\<not> 2 + length bs * 8 < 2" "2 + length bs * 8 \<ge> 10" "(2 + length bs * 8 - 2) mod 8 = 0" "22 + (2 + length bs * 8) = 24 + 8 * length bs"
      using False by (cases bs; simp)+
    have "scan_options ?b (24 + 8 * length bs) 4 22 False [] = (False, bs)"
    proof -
      have "Suc 0 \<le> length bs" using False by (cases bs) simp_all
      moreover have "scan_options ?b (24 + 8 * length bs) 4 (24 + 8 * length bs) False bs = (False, bs)" by (subst scan_options.simps) simp
      ultimately show ?thesis by (subst scan_options.simps) (simp add: b(3) l m r mult.commute [of "length bs"])
    qed
    then have "scan_options ?b (24 + 8 * length bs) 4 20 False [] = (False, bs)"
      by (subst scan_options.simps, subst scan_options.simps) (simp add: b(1,2))
    then show ?thesis unfolding parse_options_def h by simp
  qed
  have "length bs = 0 \<or> length bs = 1 \<or> length bs = 2 \<or> length bs = 3 \<or> length bs = 4" using n by linarith
  then have 3: "4 dvd TCP_HDR + length (sack_opts bs) \<and> TCP_HDR + length (sack_opts bs) \<le> 60" by (auto simp: length_sack_opts)
  show ?thesis using 1 2 3 by (simp add: syn_opts_def)
qed


theorem options_roundtrip_witness:
  "snd (parse_options (replicate 20 0 @ sack_opts [\<lparr>sb_left = 0xFFFFFFF0, sb_right = 16\<rparr>] @ [7])
     (TCP_HDR + length (sack_opts [\<lparr>sb_left = 0xFFFFFFF0, sb_right = 16\<rparr>])) TCP_MAX_SACK_BLOCKS) = [\<lparr>sb_left = 0xFFFFFFF0, sb_right = 16\<rparr>]"
  using options_roundtrip [of "replicate 20 0" "[\<lparr>sb_left = 0xFFFFFFF0, sb_right = 16\<rparr>]" "[7]"] by simp

end
