(* ===== verification/Tcp_Api.thy ===== *)
theory Tcp_Api
  imports Tcp_Pump
begin

unbundle bit_operations_syntax

text \<open>
  TCP connections (\<^verbatim>\<open>kernel/tcp.c\<close>), part 3: the blocking calls.  \<^verbatim>\<open>net_wait_tick\<close> lets one tick pass and
  lets the others run.  The wait loops run until their deadline; a loop that would never return has no
  result.
\<close>

section \<open>Definitions\<close>

definition net_wait_tick :: "world \<Rightarrow> world" where
  "net_wait_tick w = lock ((fst w)\<lparr>ticks := ticks (fst w) + 1\<rparr>, snd w)"

definition timeout_ticks :: "int \<Rightarrow> u64" where
  "timeout_ticks timeout_ms = of_int (timeout_ms + 9) div 10"

definition my_pid :: "int option \<Rightarrow> int" where
  "my_pid current = (case current of None \<Rightarrow> 0 | Some pid \<Rightarrow> pid)"

definition reserve_conn :: "int option \<Rightarrow> tcp_conn \<Rightarrow> tcp_conn" where
  "reserve_conn current c = c\<lparr>used := True, detached := False, pumping := False, state := TCP_CLOSED, owner_pid := my_pid current\<rparr>"

definition open_conn :: "int option \<Rightarrow> u32 \<Rightarrow> u16 \<Rightarrow> u16 \<Rightarrow> u32 \<Rightarrow> tcp_conn \<Rightarrow> tcp_conn" where
  "open_conn current ip_be port lport isn c = c\<lparr>state := TCP_SYN_SENT, detached := False, pumping := False, owner_pid := my_pid current,
     peer_ip := ip_be, peer_port := port, local_port := lport, iss := isn, snd_una := isn, snd_nxt := isn + 1, snd_max := isn + 1,
     snd_wnd := of_nat TCP_MSS, tx_head := 0, tx_len := 0, tx_sack := [], dup_acks := 0, fast_retransmit := False,
     sack_enabled := False, fin_pending := False, fin_sent := False, fin_seq := 0, irs := 0, rcv_nxt := 0, rx_head := 0, rx_len := 0,
     reassembly := tcp_reassembly_reset (reassembly c), peer_fin := False, fin_queued := False, need_ack := False, reset := False,
     rto_ticks := TCP_RTO_MIN, rto_deadline := 0, retries := 0, tw_deadline := 0\<rparr>"

text \<open>The initial sequence number.\<close>

definition initial_seq :: "u64 \<Rightarrow> u16 \<Rightarrow> u32" where
  "initial_seq t lport = ucast (t * 62500) XOR (push_bit 16 (ucast lport) OR ucast lport)"

partial_function (option) connect_wait :: "nat \<Rightarrow> u64 \<Rightarrow> world \<Rightarrow> (bool \<times> world) option" where
  "connect_wait i deadline w =
     (let w = lock w; c = cn i w in
      if state c = TCP_ESTABLISHED then Some (True, conn_pump i w)
      else if reset c \<or> state c = TCP_CLOSED then Some (False, w)
      else if now w \<ge> deadline then Some (False, w)
      else connect_wait i deadline (net_wait_tick (conn_pump i w)))"

text \<open>The end of a failed attempt: reset the peer if the connection is still alive, and give up the slot.\<close>

definition connect_fail :: "nat \<Rightarrow> world \<Rightarrow> world" where
  "connect_fail i w =
     (let w = lock w; c = cn i w;
          w = (if used c \<and> \<not> reset c then snd (seg_send i TCP_RST (snd_nxt c) 0 False w) else w)
      in upd i conn_release (lock w))"

text \<open>
  \<open>rx\<close> and \<open>tx\<close> are what \<^verbatim>\<open>kmalloc\<close> returns for the two rings when the slot has none yet.
\<close>

definition tcp_connect :: "bool \<Rightarrow> int option \<Rightarrow> byte list option \<Rightarrow> byte list option \<Rightarrow> u32 \<Rightarrow> u16 \<Rightarrow> int \<Rightarrow> world \<Rightarrow> (int \<times> world) option" where
  "tcp_connect ready current rx tx ip_be port timeout_ms w =
     (if \<not> ready \<or> ip_be = 0 \<or> port = 0 then Some (-1, w)
      else let timeout_ms = (if timeout_ms \<le> 0 then 5000 else timeout_ms); w = lock (conn_gc w) in
      case find_index (\<lambda>c. \<not> used c) 0 (conns (fst w)) of
        None \<Rightarrow> Some (-1, w)
      | Some i \<Rightarrow>
          let w = upd i (reserve_conn current) w;
              w = upd i (\<lambda>c. c\<lparr>rxbuf := (if rxbuf c = None then rx else rxbuf c), txbuf := (if txbuf c = None then tx else txbuf c)\<rparr>) w in
          if rxbuf (cn i w) = None \<or> txbuf (cn i w) = None then Some (-1, upd i conn_release (lock w))
          else let w = lock w; (lport, pn) = port_alloc (conns (fst w)) (port_next (fst w)); w = ((fst w)\<lparr>port_next := pn\<rparr>, snd w) in
          if lport = 0 then Some (-1, upd i conn_release (lock w))
          else let isn = initial_seq (now w) lport; w = upd i (open_conn current ip_be port lport isn) (lock w);
                   (r, w) = seg_send i TCP_SYN isn 0 True w in
          if r < 0 then Some (-1, upd i conn_release (lock w))
          else let w = lock w; w = upd i (arm_rto (now w)) w in
          case connect_wait i (now w + timeout_ticks timeout_ms) w of
            None \<Rightarrow> None
          | Some (True, w) \<Rightarrow> Some (int i, w)
          | Some (False, w) \<Rightarrow> Some (-1, connect_fail i w))"

definition can_send :: "tcp_conn \<Rightarrow> bool" where
  "can_send c \<longleftrightarrow> \<not> reset c \<and> (state c = TCP_ESTABLISHED \<or> state c = TCP_CLOSE_WAIT)"

text \<open>Queue what fits of \<open>data\<close> behind the \<open>n\<close> bytes in the ring; the result is the number of bytes queued.\<close>

definition queue_data :: "nat \<Rightarrow> byte list \<Rightarrow> world \<Rightarrow> nat \<times> world" where
  "queue_data i data w =
     (let c = cn i w; room = TCP_TXBUF - tx_len c; n = min (length data) room; tail = (tx_head c + tx_len c) mod TCP_TXBUF;
          w = upd i (\<lambda>c. c\<lparr>txbuf := Some (ring_write (the (txbuf c)) tail (take n data))\<rparr>) w
      in (n, upd i (\<lambda>c. c\<lparr>tx_len := tx_len c + n\<rparr>) (lock w)))"

partial_function (option) send_loop :: "nat \<Rightarrow> u64 \<Rightarrow> byte list \<Rightarrow> nat \<Rightarrow> world \<Rightarrow> (int \<times> world) option" where
  "send_loop i deadline src done w =
     (if done < length src then
        (let w = lock w; c = cn i w in
         if \<not> can_send c then Some (if done > 0 then int done else -1, w)
         else if TCP_TXBUF - tx_len c > 0 then
           (let (n, w) = queue_data i (drop done src) w in send_loop i deadline src (done + n) (conn_pump i w))
         else let w = conn_pump i w in
         if now w \<ge> deadline then Some (if done > 0 then int done else -1, w)
         else send_loop i deadline src done (net_wait_tick w))
      else Some (if done > 0 then int done else -1, w))"

definition tcp_send :: "int option \<Rightarrow> int \<Rightarrow> byte list \<Rightarrow> world \<Rightarrow> (int \<times> world) option" where
  "tcp_send current handle buf w =
     (let w = lock w in
      case conn_get (conns (fst w)) current handle of
        None \<Rightarrow> Some (-1, w)
      | Some i \<Rightarrow>
          if length buf = 0 then Some (0, w)
          else let w = lock w in
          if fin_pending (cn i w) \<or> \<not> can_send (cn i w) then Some (-1, w)
          else send_loop i (now w + TCP_SEND_TICKS) buf 0 w)"

text \<open>The result carries the bytes that were stored in the caller's buffer.\<close>

partial_function (option) recv_loop :: "nat \<Rightarrow> nat \<Rightarrow> u64 \<Rightarrow> world \<Rightarrow> ((int \<times> byte list) \<times> world) option" where
  "recv_loop i cap deadline w =
     (let w = lock w; c = cn i w; avail = rx_len c; head = rx_head c; fin = peer_fin c; rst = reset c; st = state c in
      if avail > 0 then
        (let n = min avail cap; data = ring_read (the (rxbuf c)) head n; w = lock w
         in Some ((int n, data), upd i (\<lambda>c. c\<lparr>rx_head := (head + n) mod TCP_RXBUF, rx_len := rx_len c - n, need_ack := True\<rparr>) w))
      else if fin then Some ((0, []), w)
      else if rst \<or> st = TCP_CLOSED then Some ((-1, []), w)
      else let w = conn_pump i w in
      if now w \<ge> deadline then Some ((-1, []), w) else recv_loop i cap deadline (net_wait_tick w))"

definition tcp_recv :: "int option \<Rightarrow> int \<Rightarrow> nat \<Rightarrow> int \<Rightarrow> world \<Rightarrow> ((int \<times> byte list) \<times> world) option" where
  "tcp_recv current handle cap timeout_ms w =
     (let w = lock w in
      case conn_get (conns (fst w)) current handle of
        None \<Rightarrow> Some ((-1, []), w)
      | Some i \<Rightarrow>
          if cap = 0 then Some ((0, []), w)
          else recv_loop i cap (now w + timeout_ticks (if timeout_ms < 0 then 0 else timeout_ms)) w)"

partial_function (option) close_wait :: "nat \<Rightarrow> u64 \<Rightarrow> world \<Rightarrow> world option" where
  "close_wait i deadline w =
     (if now w < deadline then
        (let w = lock (conn_pump i w); c = cn i w in
         if \<not> used c \<or> reset c \<or> state c = TCP_CLOSED \<or> state c = TCP_TIME_WAIT then Some w
         else close_wait i deadline (net_wait_tick w))
      else Some w)"

definition tcp_close :: "int option \<Rightarrow> int \<Rightarrow> world \<Rightarrow> (int \<times> world) option" where
  "tcp_close current handle w =
     (let w = lock w in
      case conn_get (conns (fst w)) current handle of
        None \<Rightarrow> Some (-1, w)
      | Some i \<Rightarrow>
          let w = upd i start_close (lock w) in
          (case close_wait i (now w + TCP_CLOSE_TICKS) w of
             None \<Rightarrow> None
           | Some w \<Rightarrow>
               let w = lock w; c = cn i w in
               if used c \<and> detached c \<and> \<not> reset c \<and> state c \<noteq> TCP_CLOSED \<and> state c \<noteq> TCP_TIME_WAIT
               then (let w = lock w; w = snd (seg_send i TCP_RST (snd_nxt (cn i w)) 0 False w) in Some (0, upd i conn_release (lock w)))
               else Some (0, w)))"

end
