(* ===== verification/Spec2Isabelle.thy ===== *)
theory Spec2Isabelle
  imports Kheap Kfs_Ops Clock Tcp_Input Tcp_Options Tcp_Api
begin

text \<open>
  KestrelOS: a verification library for the storage, file and network core of the kernel under
  \<^verbatim>\<open>src/kernel\<close>.

  \<^bold>\<open>The program and its parts.\<close>  The kernel takes pages from a bitmap allocator (\<^verbatim>\<open>pmm.c\<close>) and small
  objects from a heap on top of it (\<^verbatim>\<open>kheap.c\<close>).  Files live in KFS (\<^verbatim>\<open>kfs.c\<close>), a file system with a
  redo journal over the block layer (\<^verbatim>\<open>blockdev.c\<close>).  Programs reach it through the VFS (\<^verbatim>\<open>vfs.c\<close>), which
  resolves a path in the mount table (\<^verbatim>\<open>mount.c\<close>), calls the operation table of the file system mounted there, and serves
  pipes (\<^verbatim>\<open>pipe.c\<close>) through the same handles.  Time stamps come from the CMOS clock (\<^verbatim>\<open>rtc.c\<close>).  TCP
  (\<^verbatim>\<open>tcp.c\<close>, \<^verbatim>\<open>tcp_reassembly.c\<close>, \<^verbatim>\<open>net_checksum.c\<close>) receives in interrupt context and transmits from tasks.

  \<^bold>\<open>Theories.\<close>  Each operation is one definition with the name of the C function; a loop body or a
  section between two lock operations that is a definition of its own is named after what it does.

  \<^item> \<open>Kestrel_Prelude\<close>: machine words, byte buffers, little-endian fields, C strings, first-match search.
  \<^item> \<open>Pmm\<close> and \<open>Kheap\<close>: \<^verbatim>\<open>pmm_init\<close>, \<^verbatim>\<open>pmm_alloc\<close>, \<^verbatim>\<open>pmm_alloc_contig\<close>, \<^verbatim>\<open>pmm_free\<close>; \<^verbatim>\<open>kmalloc\<close>, \<^verbatim>\<open>kfree\<close>, \<^verbatim>\<open>kzalloc\<close>.  A panic
    is an error value.  The locale \<open>frame_allocator\<close> is the contract of the page allocator, interpreted on
    \<^verbatim>\<open>pmm_alloc\<close> and \<^verbatim>\<open>pmm_free\<close>.  Shown: first fit, no page of the kernel image is ever handed out, a
    new object overlaps no live one, freeing is exact.
  \<^item> \<open>Blockdev\<close>: the device registry, bounds-checked transfers and the RAM disk of \<^verbatim>\<open>modules/ramdisk.c\<close>.
  \<^item> \<open>Kfs_Format\<close>, \<open>Kfs_Journal\<close>, \<open>Kfs_Crash\<close>, \<open>Kfs_Store\<close>: the on-disk records, the block cache and the
    journal, with a fault oracle that may complete, tear or refuse each transfer.  Shown: a commit
    is atomic under every failure and repeated recovery; through cache and journal the blocks
    behave as one array (locales \<open>block_reader\<close> and \<open>block_store\<close>, interpreted on \<^verbatim>\<open>bread\<close> and \<^verbatim>\<open>journal_stage\<close>).
  \<^item> \<open>Kfs_Inode\<close>, \<open>Kfs_Dir\<close>: all further operations of a volume, from \<^verbatim>\<open>balloc\<close> to \<^verbatim>\<open>kfs_unlink\<close>.  Their proofs are in
    \<open>Kfs_Tx\<close> (a call that fails leaves nothing behind; locale \<open>tx_inv\<close>), \<open>Kfs_Alloc\<close> (blocks and
    inodes), \<open>Kfs_Data\<close> and \<open>Kfs_File\<close> (file contents), \<open>Kfs_Names\<close> and \<open>Kfs_Tree\<close> (directories as
    maps, a volume as a tree of names).
  \<^item> \<open>Kfs_Mount\<close>, \<open>Kfs_Ops\<close>: mounting with journal replay, the instance and open-inode tables, access
    control along a path and the operation table \<^verbatim>\<open>kfs_ops\<close>.
  \<^item> \<open>Vfs_Types\<close>, \<open>Pipe\<close>, \<open>Mount\<close>, \<open>Vfs\<close>: handles and the permission rule, the pipe ring (locale \<open>byte_queue\<close>, interpreted
    on \<^verbatim>\<open>ring_put\<close> and \<^verbatim>\<open>ring_take\<close>), the mount table, and the dispatcher over tables of optional operations.
  \<^item> \<open>Clock\<close>: reading the chip and converting calendar dates.
  \<^item> \<open>Net_Checksum\<close>, \<open>Tcp_Reassembly\<close>, \<open>Tcp\<close>, \<open>Tcp_Input\<close>, \<open>Tcp_Pump\<close>, \<open>Tcp_Options\<close>, \<open>Tcp_Api\<close>: the
    checksum, out-of-order data, the receive path and its safety, the transmit pump and timers,
    option encoding, and the blocking calls.

  \<^bold>\<open>State and concurrency.\<close>  State is passed explicitly; machine integers keep their width and
  pointers into tables are indices.  Code that drops a lock takes an argument (or a list in the state) that says
  what other tasks do before the lock is taken again; results of the clock, the allocator and the
  devices are arguments or lists.  Theorems on one call in isolation assume the empty list and say so.

  \<^bold>\<open>Termination and bounds.\<close>  Loops over tables and buffers are structural or have a measure.  There is no
  fuel.  The two pipe copy loops and the four waiting loops of TCP, which may sleep for ever, are
  partial functions whose missing value means not returning; that the pipe loops return is proved.
  A pipe call that is still asleep when the given list of steps of other tasks ends has no result.
  A call of \<^verbatim>\<open>kfs_write\<close> is one transaction of at most 32 journal entries, and one that needs more
  fails as a whole.  The theorems that it succeeds bound the request by two blocks, for which the
  entries suffice in every case; for longer requests the atomicity of failures is what is shown.

  \<^bold>\<open>Not modelled.\<close>  Tasks, scheduling, signals, virtual memory, program loading, system calls, interrupt
  entry, boot code and device drivers other than the clock (register access and context switches
  have no functional content at this level); the network below TCP (a packet log with failures
  stands for it); device nodes; the random generator; modules; console, logging and windows; the
  user-mode libraries, applications and host tools.  Within the parts that are modelled, console
  messages and the lock words themselves are left out.
\<close>

section \<open>Files through the VFS\<close>

text \<open>A handle on the file of the sample volume, for the witness.\<close>

definition kfs_kern :: "kops kern" where
  "kfs_kern = \<lparr>k_types = (\<lambda>_. \<lparr>t_name = [107, 102, 115], t_mount = None, t_unmount = None, t_ops = Some 0\<rparr>), k_ops = (\<lambda>_. kfs_ops), k_pipe_ops = 1, k_kfs_type = 0, k_devfs_type = 1\<rparr>"

definition demo_rw :: kworld where
  "demo_rw = set_file 9 (Some ((kfs_handle 0 2 O_RDWR)\<lparr>f_ops := Some 0\<rparr>)) (ops_world demo_vol)"

text \<open>
  C2. What a program writes to a file it can read back.  Take a handle open for reading and writing, not
  for appending, on a regular file of a sound volume, with more than one block free, and a buffer of at most
  two blocks that fits below the largest file size.  If nothing else runs in between, \<^verbatim>\<open>vfs_write\<close>
  writes at least one byte; seeking back by the count it returned gives the old position; and
  \<^verbatim>\<open>vfs_read\<close> of that count then returns exactly the first bytes of the buffer, leaving the handle
  where the write had left it.
\<close>

theorem vfs_file_roundtrip:
  assumes ops: "k_ops k t = kfs_ops" and kf: "v_files w a = Some kf" "f_ops kf = Some t" and env: "k_env (v_fs w) = []"
    and fl: "vfs_flags_allow_read (f_flags kf)" "vfs_flags_allow_write (f_flags kf)" "f_flags kf AND O_APPEND = 0"
    and vol: "kfs_idle (f_fs kf) (kst w)" "no_faults (kst w) (f_fs kf)" "ino_valid (sb_of (f_fs kf) (kst w)) (f_inum kf)"
      "i_type (inode_at (f_fs kf) (kst w) (f_inum kf)) = KFS_TYPE_FILE" "\<not> one_left (f_fs kf) (kst w)"
    and src: "src \<noteq> []" "unat (f_pos kf) + length src \<le> unat KFS_MAX_FILE_SIZE" "length src \<le> 2 * KFS_BLOCK_SIZE"
  shows "\<exists>r w1 w2 w3. vfs_write k (Some a) (Some src) w = Some (r, w1) \<and> 0 < r \<and> r \<le> int (length src) \<and>
    vfs_seek k (Some a) (- r) 1 w1 = (int (unat (f_pos kf)), w2) \<and>
    vfs_read k (Some a) True (nat r) w2 = Some ((r, take (nat r) src), w3) \<and> v_files w3 = v_files w1"
proof -
  obtain m w0 r s' where wr: "Kfs_Ops.now w = (m, w0)" "kfs_write (f_fs kf) (f_inum kf) (f_pos kf) src m (kst w) = (r, s')"
    "kfs_op_write a src w = (r, move_pos a r (set_kst s' w0))" "k_env (v_fs w0) = []" "v_files w0 = v_files w"
    by (rule op_write_alone [OF env kf(1) fl(3)])
  from kfs_write_ok [OF vol(1-4) src wr(2)] obtain xs rest where x: "src = xs @ rest" "xs \<noteq> []" "r = int (length xs)"
    using vol(5) by (auto split: if_splits)
  have r: "0 < r" "r \<le> int (length src)" using x by simp_all
  have mx: "unat (f_pos kf) + length src \<le> 4235264" using src(2) by simp
  have pm: "int (unat (f_pos kf)) \<le> 4235264" using mx by linarith
  have w32: "of_nat (nat r) = (word_of_int r :: u32)" using r by simp
  obtain n bs s'' where rd: "kfs_read (f_fs kf) (f_inum kf) (f_pos kf) (of_int r) s' = (n, bs, s'')" using prod_cases3 by blast
  have n: "n = r" "bs = take (nat r) src" using kfs_write_read [OF vol(1-4) src wr(2) r(1) rd] by blast+
  let ?kf1 = "kf\<lparr>f_pos := f_pos kf + word_of_int r\<rparr>" let ?w1 = "set_file a (Some ?kf1) (set_kst s' w0)"
  let ?w2 = "set_file a (Some kf) ?w1" let ?w3 = "move_pos a r (set_kst s'' ?w2)"
  have m1: "move_pos a r (set_kst s' w0) = ?w1" using r kf(1) wr(5) by (simp add: move_pos_def)
  have p1: "int (unat (f_pos ?kf1)) = int (unat (f_pos kf)) + r"
  proof -
    have "f_pos kf + word_of_int r = word_of_nat (unat (f_pos kf) + length xs)" using x(3) by simp
    moreover have "unat (word_of_nat (unat (f_pos kf) + length xs) :: u32) = unat (f_pos kf) + length xs"
      using mx x(1) by (subst unat_of_nat) simp
    ultimately show ?thesis using x(3) by simp
  qed
  have v1: "v_files ?w1 a = Some ?kf1" by simp
  have rst: "?kf1\<lparr>f_pos := word_of_int (int (unat (f_pos kf)))\<rparr> = kf" by (simp add: word_of_int_unat)
  have "vfs_write k (Some a) (Some src) w = Some (r, ?w1)"
    using wr(3) m1 ops kf fl mx by (simp add: vfs_write_def file_ops_def kfs_ops_def)
  moreover have "kfs_op_seek a (- r) 1 ?w1 = (int (unat (f_pos kf)), ?w2)"
    using op_seek_back [OF v1 r(1) p1 of_nat_0_le_iff pm] unfolding rst .
  then have "vfs_seek k (Some a) (- r) 1 ?w1 = (int (unat (f_pos kf)), ?w2)"
    using ops kf by (simp add: vfs_seek_def file_ops_def kfs_ops_def)
  moreover have "kfs_op_read a (nat r) ?w2 = ((r, take (nat r) src), ?w3)"
    using op_read_alone [of ?w2 a kf "nat r"] rd n wr(4) w32 by simp
  then have "vfs_read k (Some a) True (nat r) ?w2 = Some ((r, take (nat r) src), ?w3)"
    using ops kf fl r mx by (simp add: vfs_read_def file_ops_def kfs_ops_def min_absorb1)
  moreover have "v_files ?w3 = v_files ?w1" using r by (simp add: move_pos_def)
  ultimately show ?thesis using r by blast
qed

theorem vfs_file_roundtrip_witness:
  "\<exists>r w1 w2 w3. vfs_write kfs_kern (Some 9) (Some [104, 105]) demo_rw = Some (r, w1) \<and> 0 < r \<and>
    vfs_seek kfs_kern (Some 9) (- r) 1 w1 = (0, w2) \<and> vfs_read kfs_kern (Some 9) True (nat r) w2 = Some ((r, take (nat r) [104, 105]), w3)"
proof -
  let ?kf = "(kfs_handle 0 2 O_RDWR)\<lparr>f_ops := Some 0\<rparr>"
  have kf: "v_files demo_rw 9 = Some ?kf" "f_ops ?kf = Some 0" by (simp_all add: demo_rw_def)
  have kh: "f_fs ?kf = 0" "f_inum ?kf = 2" "f_pos ?kf = 0" "f_flags ?kf = O_RDWR" by (simp_all add: kfs_handle_def)
  have s: "kst demo_rw = demo_vol" "k_env (v_fs demo_rw) = []" by (simp_all add: demo_rw_def)
  have k: "k_ops kfs_kern 0 = kfs_ops" by (simp add: kfs_kern_def)
  have fl: "vfs_flags_allow_read O_RDWR" "vfs_flags_allow_write O_RDWR" "O_RDWR AND O_APPEND = (0 :: u32)"
    by (simp_all add: vfs_flags_allow_read_def vfs_flags_allow_write_def)
  have ty: "i_type (inode_at 0 demo_vol 2) = KFS_TYPE_FILE" using demo_vol_file(2) by (simp add: demo_file_def)
  have nf: "no_faults demo_vol 0" by simp
  have src: "[104, 105 :: byte] \<noteq> []" "unat (0 :: u32) + length [104, 105 :: byte] \<le> unat KFS_MAX_FILE_SIZE"
    "length [104, 105 :: byte] \<le> 2 * KFS_BLOCK_SIZE" by simp_all
  from vfs_file_roundtrip [OF k kf s(2), unfolded kh s, OF fl demo_vol_idle nf demo_vol_file(1) ty demo_vol_room src]
  show ?thesis by auto
qed

end
